(* ===== verification/Sitas_Prelude.thy ===== *)
theory Sitas_Prelude
  imports Main "HOL-Library.Word" "HOL-Library.Multiset"
begin

text \<open>
  The prelude of the development: the names of the machine types, the outcome
  types that stand for Rust's \<open>Result\<close>, \<open>Poll\<close> and panics, the vector
  operations of the standard library that several components use, and the
  generic lemmas about them.

  Conventions shared by all theories.
  \<^item> \<open>Result<T, E>\<close> is the sum \<open>E + T\<close>: \<open>Inl\<close> is \<open>Err\<close>, \<open>Inr\<close> is \<open>Ok\<close>.
  \<^item> A \<open>Waker\<close> is the number of the task it schedules, so that \<open>will_wake\<close> is
    equality.  An operation that wakes tasks returns the list of wakers it
    calls, in the order of the calls.
  \<^item> \<open>Instant\<close> and \<open>Duration\<close> count nanoseconds.
  \<^item> \<open>u64\<close> and \<open>usize\<close> counters that the source advances with wrapping or atomic
    addition are 64-bit words; lengths, capacities and indices are \<open>nat\<close>.
\<close>

type_synonym u8 = "8 word"
type_synonym u32 = "32 word"
type_synonym u64 = "64 word"
type_synonym waker = nat
type_synonym instant = nat
type_synonym duration = nat
type_synonym shard_id = nat

datatype 'a poll = Ready 'a | Pending

datatype panic =
    RemainderByZero
  | IndexOutOfBounds
  | UninitializedRead
  | AssertionFailed
  | UnwrapNone
  | ArithmeticOverflow
  | ExplicitPanic

named_theorems wake_simps \<open>equations of operations that wake tasks\<close>
named_theorems inv_intros \<open>preservation rules of component invariants\<close>

primrec result_collect :: "('e + 'a) list \<Rightarrow> 'e + 'a list" where
  "result_collect [] = Inr []"
| "result_collect (r # rs) =
     (case r of Inl e \<Rightarrow> Inl e
      | Inr x \<Rightarrow> (case result_collect rs of Inl e \<Rightarrow> Inl e | Inr xs \<Rightarrow> Inr (x # xs)))"

primrec list_position :: "('a \<Rightarrow> bool) \<Rightarrow> 'a list \<Rightarrow> nat option" where
  "list_position P [] = None"
| "list_position P (x # xs) =
     (if P x then Some 0 else map_option Suc (list_position P xs))"

definition swap_remove :: "nat \<Rightarrow> 'a list \<Rightarrow> 'a list" where
  "swap_remove i xs = butlast (xs[i := last xs])"

definition remove_at :: "nat \<Rightarrow> 'a list \<Rightarrow> 'a list" where
  "remove_at i xs = take i xs @ drop (Suc i) xs"

definition push_unique :: "'a \<Rightarrow> 'a list \<Rightarrow> 'a list" where
  "push_unique w ws = (if w \<in> set ws then ws else ws @ [w])"

definition opt_list :: "'a option \<Rightarrow> 'a list" where
  "opt_list x = (case x of None \<Rightarrow> [] | Some w \<Rightarrow> [w])"

lemma opt_list_simps [simp]:
  "opt_list None = []"
  "opt_list (Some w) = [w]"
  by (simp_all add: opt_list_def)

lemma result_collect_Inr_map [simp]: "result_collect (map Inr xs) = Inr xs"
  by (induction xs) auto

lemma result_collect_Inr_iff:
  "result_collect rs = Inr xs \<longleftrightarrow> rs = map Inr xs"
  by (induction rs arbitrary: xs) (auto split: sum.splits)

lemma result_collect_map_Inr [simp]: "result_collect (map (\<lambda>x. Inr (f x)) xs) = Inr (map f xs)"
  by (induction xs) auto

lemma result_collect_Inl:
  "result_collect rs = Inl e \<longleftrightarrow> (\<exists>xs ys. rs = map Inr xs @ Inl e # ys)"
proof (induction rs)
  case (Cons r rs)
  show ?case
  proof (cases r)
    case (Inl a)
    then show ?thesis
      by (auto simp: Cons_eq_append_conv)
  next
    case (Inr b)
    then show ?thesis
      using Cons by (auto split: sum.splits simp: Cons_eq_append_conv Cons_eq_map_conv)
  qed
qed simp

lemma list_position_Some:
  "list_position P xs = Some i \<Longrightarrow> i < length xs \<and> P (xs ! i) \<and> (\<forall>j<i. \<not> P (xs ! j))"
  by (induction xs arbitrary: i) (auto split: if_splits simp: less_Suc_eq_0_disj)

lemma list_position_None: "list_position P xs = None \<longleftrightarrow> (\<forall>x\<in>set xs. \<not> P x)"
  by (induction xs) auto

lemma mset_swap_remove:
  assumes "i < length xs"
  shows "add_mset (xs ! i) (mset (swap_remove i xs)) = mset xs"
proof -
  from assms obtain ys x where xs: "xs = ys @ [x]"
    by (cases xs rule: rev_cases) auto
  show ?thesis
  proof (cases "i = length ys")
    case True
    then show ?thesis by (simp add: xs swap_remove_def)
  next
    case False
    with assms xs have i: "i < length ys" by simp
    then have "swap_remove i xs = ys[i := x]"
      by (simp add: xs swap_remove_def list_update_append)
    then show ?thesis
      using i by (simp add: xs mset_update nth_append)
  qed
qed

lemma length_swap_remove [simp]: "length (swap_remove i xs) = length xs - 1"
  by (simp add: swap_remove_def)

lemma mset_remove_at:
  "i < length xs \<Longrightarrow> add_mset (xs ! i) (mset (remove_at i xs)) = mset xs"
  by (metis id_take_nth_drop mset.simps(2) mset_append remove_at_def
      union_mset_add_mset_right)

lemma set_push_unique [simp]: "set (push_unique w ws) = insert w (set ws)"
  by (auto simp: push_unique_def)

lemma distinct_push_unique [simp]: "distinct (push_unique w ws) \<longleftrightarrow> distinct ws"
  by (auto simp: push_unique_def)

lemma mod_window_inj:
  fixes a b :: nat
  assumes "a mod c = b mod c" "t \<le> a" "t \<le> b" "a < t + c" "b < t + c"
  shows "a = b"
proof (rule ccontr)
  assume "a \<noteq> b"
  then consider "a < b" | "b < a" by linarith
  then show False
  proof cases
    case 1
    then have "c dvd (b - a)" using assms(1) by (metis less_imp_le mod_eq_dvd_iff_nat)
    then have "c \<le> b - a" using 1 by (intro dvd_imp_le) auto
    then show False using assms 1 by linarith
  next
    case 2
    then have "c dvd (a - b)" using assms(1) by (metis less_imp_le mod_eq_dvd_iff_nat)
    then have "c \<le> a - b" using 2 by (intro dvd_imp_le) auto
    then show False using assms 2 by linarith
  qed
qed

lemma sum_list_update_nat:
  fixes xs :: "nat list"
  shows "i < length xs \<Longrightarrow> sum_list (xs[i := v]) + xs ! i = sum_list xs + v"
  by (induction xs arbitrary: i) (auto split: nat.splits)

lemma length_filter_update:
  "i < length xs \<Longrightarrow>
   length (filter P (xs[i := y])) + of_bool (P (xs ! i)) = length (filter P xs) + of_bool (P y)"
proof (induction xs arbitrary: i)
  case (Cons x xs)
  show ?case
  proof (cases i)
    case (Suc k)
    then show ?thesis using Cons.IH [of k] Cons.prems by auto
  qed auto
qed simp

lemma mset_concat_map_update:
  assumes "i < length xs"
  shows "mset (concat (map f (xs[i := y]))) + mset (f (xs ! i)) = mset (concat (map f xs)) + mset (f y)"
proof -
  have "xs = take i xs @ xs ! i # drop (Suc i) xs" by (rule id_take_nth_drop [OF assms])
  then have "mset (concat (map f xs)) =
      mset (concat (map f (take i xs))) + mset (f (xs ! i)) + mset (concat (map f (drop (Suc i) xs)))"
    by (metis (no_types) concat.simps(2) concat_append list.simps(9) map_append mset_append
        union_assoc)
  moreover have "mset (concat (map f (xs[i := y]))) =
      mset (concat (map f (take i xs))) + mset (f y) + mset (concat (map f (drop (Suc i) xs)))"
    using assms by (simp add: upd_conv_take_nth_drop)
  ultimately show ?thesis by simp
qed

end
