(* ===== verification/Placement.thy ===== *)
theory Placement
  imports Sitas_Prelude
begin

text \<open>
  Key placement: \<open>error.rs\<close>, \<open>shard.rs\<close>, \<open>placement.rs\<close> and the key routers of
  \<open>shard_mailbox.rs\<close>.  A key enters as the list of byte slices that its
  \<open>Hash\<close> implementation hands to the hasher; \<open>hash_str\<close> and \<open>hash_u64\<close> are those
  of \<open>str\<close> (the bytes, then \<open>0xff\<close>) and \<open>u64\<close> (eight little-endian bytes).  The
  locale \<open>placement\<close> is the contract of the \<open>Placement\<close> trait that the sharded
  services rely on; the hash placement is its instance.
\<close>

unbundle bit_operations_syntax

subsection \<open>Errors and shard snapshots\<close>

datatype shard_error =
    InvalidShardCount
  | InvalidShardId nat
  | InvalidMailboxCapacity
  | InvalidCpuPlacement string
  | CpuPlacementFailed string
  | InvalidMemoryPlacement string
  | MemoryPlacementFailed string
  | MailboxFull
  | SendFailed
  | ReplyFailed
  | ReplyTimeout
  | ShardStopped
  | ThreadJoinFailed

record shard_snapshot =
  snap_shard_id :: shard_id
  snap_len :: nat

subsection \<open>The FNV-1a hasher\<close>

definition fnv_offset :: u64 where
  "fnv_offset = 0xcbf29ce484222325"

definition fnv_step :: "u64 \<Rightarrow> u8 \<Rightarrow> u64" where
  "fnv_step h b = (h XOR ucast b) * 0x00000100000001b3"

definition fnv_write :: "u64 \<Rightarrow> u8 list \<Rightarrow> u64" where
  "fnv_write h bs = foldl fnv_step h bs"

definition fnv_finish :: "u8 list list \<Rightarrow> u64" where
  "fnv_finish writes = foldl fnv_write fnv_offset writes"

definition str_bytes :: "string \<Rightarrow> u8 list" where
  "str_bytes s = map of_char s"

definition hash_str :: "string \<Rightarrow> u8 list list" where
  "hash_str s = [str_bytes s, [0xff]]"

definition le_bytes :: "u64 \<Rightarrow> u8 list" where
  "le_bytes n = map (\<lambda>i. ucast (drop_bit (8 * i) n)) [0..<8]"

definition hash_u64 :: "u64 \<Rightarrow> u8 list list" where
  "hash_u64 n = [le_bytes n]"

definition shard_for_hash :: "u8 list list \<Rightarrow> nat \<Rightarrow> panic + shard_id" where
  "shard_for_hash writes shard_count =
     (if shard_count = 0 then Inl AssertionFailed
      else Inr (unat (fnv_finish writes) mod shard_count))"

definition hash_shard_for :: "string \<Rightarrow> nat \<Rightarrow> shard_id" where
  "hash_shard_for key shard_count = projr (shard_for_hash (hash_str key) shard_count)"

subsection \<open>Key routers\<close>

datatype key_router_create_error = ZeroTargets

record uniform_shard_router =
  usr_shard_count :: nat

definition uniform_router_new :: "nat \<Rightarrow> key_router_create_error + uniform_shard_router" where
  "uniform_router_new shard_count =
     (if shard_count = 0 then Inl ZeroTargets else Inr \<lparr>usr_shard_count = shard_count\<rparr>)"

definition uniform_router_route :: "uniform_shard_router \<Rightarrow> u8 list list \<Rightarrow> panic + shard_id" where
  "uniform_router_route r key = shard_for_hash key (usr_shard_count r)"

record 'n work_unit_router =
  wur_work_units :: "'n list"

definition work_unit_router_new :: "'n list \<Rightarrow> key_router_create_error + 'n work_unit_router" where
  "work_unit_router_new work_units =
     (if work_units = [] then Inl ZeroTargets else Inr \<lparr>wur_work_units = work_units\<rparr>)"

definition work_unit_router_route :: "'n work_unit_router \<Rightarrow> u8 list list \<Rightarrow> panic + 'n" where
  "work_unit_router_route r key =
     (case shard_for_hash key (length (wur_work_units r)) of
        Inl p \<Rightarrow> Inl p
      | Inr target \<Rightarrow>
          (if target < length (wur_work_units r) then Inr (wur_work_units r ! target)
           else Inl IndexOutOfBounds))"

subsection \<open>The contract of a placement\<close>

locale placement =
  fixes shard_for :: "'k \<Rightarrow> nat \<Rightarrow> shard_id"
  assumes shard_for_less: "0 < n \<Longrightarrow> shard_for k n < n"
begin

lemma placed_nth: "xs \<noteq> [] \<Longrightarrow> xs ! shard_for k (length xs) \<in> set xs"
  by (simp add: shard_for_less)

lemma single_shard: "shard_for k 1 = 0"
  using shard_for_less [of 1 k] by simp

end

subsection \<open>Laws\<close>

lemma shard_for_hash_less:
  "0 < n \<Longrightarrow> \<exists>i. shard_for_hash key n = Inr i \<and> i < n"
  by (simp add: shard_for_hash_def)

interpretation hash_placement: placement hash_shard_for
proof
  fix k and n :: nat
  assume "0 < n"
  then show "hash_shard_for k n < n"
    using shard_for_hash_less [of n "hash_str k"] by (auto simp: hash_shard_for_def)
qed

lemma fnv_write_append: "fnv_write h (xs @ ys) = fnv_write (fnv_write h xs) ys"
  by (simp add: fnv_write_def)

lemma fnv_prime_inverse: "(0x00000100000001b3 :: u64) * 0xce965057aff6957b = 1"
  by simp

lemma fnv_mult_inj:
  assumes "x * 0x00000100000001b3 = y * (0x00000100000001b3 :: u64)"
  shows "x = y"
proof -
  have "x * 0x00000100000001b3 * 0xce965057aff6957b = y * 0x00000100000001b3 * 0xce965057aff6957b"
    using assms by simp
  then show ?thesis
    by (simp only: mult.assoc fnv_prime_inverse mult_1_right)
qed

lemma xor_left_cancel_word: "(a XOR b) = (a XOR c) \<longleftrightarrow> b = (c :: 'a::len word)"
  by (metis xor.left_commute xor_self_eq xor.right_neutral)

lemma xor_right_cancel_word: "(b XOR a) = (c XOR a) \<longleftrightarrow> b = (c :: 'a::len word)"
  by (metis xor_left_cancel_word xor.commute)

lemma ucast_u8_u64_inj: "(ucast (a :: u8) :: u64) = ucast b \<Longrightarrow> a = b"
proof -
  assume "(ucast a :: u64) = ucast b"
  then have "(ucast (ucast a :: u64) :: u8) = ucast (ucast b :: u64)" by simp
  then show "a = b" by (simp add: ucast_down_ucast_id is_down)
qed

lemma fnv_step_inj_state: "fnv_step g b = fnv_step h b \<longleftrightarrow> g = h"
  by (auto simp: fnv_step_def dest!: fnv_mult_inj simp: xor_right_cancel_word)

lemma fnv_step_inj_byte: "fnv_step h a = fnv_step h b \<longleftrightarrow> a = b"
  by (auto simp: fnv_step_def dest!: fnv_mult_inj simp: xor_left_cancel_word dest: ucast_u8_u64_inj)

lemma fnv_write_inj_state: "fnv_write g bs = fnv_write h bs \<longleftrightarrow> g = h"
  by (induction bs arbitrary: g h) (simp_all add: fnv_write_def fnv_step_inj_state)

lemma fnv_write_one_byte:
  "fnv_write h (xs @ [a] @ ys) = fnv_write h (xs @ [b] @ ys) \<longleftrightarrow> a = b"
proof -
  have "fnv_write h (xs @ [c] @ ys) = fnv_write (fnv_step (fnv_write h xs) c) ys" for c
    by (simp add: fnv_write_def)
  then show ?thesis
    by (simp add: fnv_write_inj_state fnv_step_inj_byte)
qed

lemma of_char_u8_inj: "(of_char a :: u8) = of_char b \<longleftrightarrow> a = b"
proof -
  have u: "unat (of_char c :: u8) = of_char c" for c :: char
  proof -
    have "(of_char c :: u8) = of_nat (of_char c)" by (cases c) (simp add: of_char_def)
    also have "unat \<dots> = of_char c mod 256" by (simp only: unat_of_nat) simp
    also have "\<dots> = (of_char c :: nat)" by (rule of_char_mod_256)
    finally show ?thesis .
  qed
  show ?thesis by (metis u of_char_eq_iff)
qed

lemma fnv_finish_hash_str:
  "fnv_finish (hash_str s) = fnv_write fnv_offset (str_bytes s @ [0xff])"
  by (simp add: fnv_finish_def hash_str_def fnv_write_append)

subsection \<open>Properties\<close>

text \<open>Two keys that differ in exactly one byte never collide in the 64-bit hash that
  placement takes modulo the shard count: the FNV-1a step is injective in the state and in the
  byte, and the \<open>0xff\<close> that ends a string does not change that.\<close>

theorem fnv_one_byte_no_collision:
  "fnv_finish (hash_str (xs @ [a] @ ys)) = fnv_finish (hash_str (xs @ [b] @ ys)) \<longleftrightarrow> a = b"
proof -
  have "fnv_finish (hash_str (xs @ [c] @ ys))
      = fnv_write fnv_offset (str_bytes xs @ [of_char c] @ (str_bytes ys @ [0xff]))" for c
    by (simp add: fnv_finish_hash_str str_bytes_def)
  then show ?thesis
    by (simp only: fnv_write_one_byte of_char_u8_inj)
qed

text \<open>A work-unit router exists exactly for a non-empty list of work units, and a router
  that was created routes every key, whatever it hashes to, to one of its work units without
  panicking; the uniform router sends every key to a shard below its shard count.\<close>

theorem routers_in_range:
  "(case work_unit_router_new ns of
      Inl e \<Rightarrow> ns = []
    | Inr r \<Rightarrow> (\<exists>n. work_unit_router_route r key = Inr n \<and> n \<in> set ns)) \<and>
   (case uniform_router_new m of
      Inl e \<Rightarrow> m = 0
    | Inr u \<Rightarrow> (\<exists>i<m. uniform_router_route u key = Inr i))"
proof -
  have "\<exists>n. work_unit_router_route \<lparr>wur_work_units = ns\<rparr> key = Inr n \<and> n \<in> set ns" if "ns \<noteq> []"
    using shard_for_hash_less [of "length ns" key] that
    by (auto simp: work_unit_router_route_def)
  moreover have "\<exists>i<m. uniform_router_route \<lparr>usr_shard_count = m\<rparr> key = Inr i" if "m \<noteq> 0"
    using shard_for_hash_less [of m key] that by (auto simp: uniform_router_route_def)
  ultimately show ?thesis
    by (auto simp: work_unit_router_new_def uniform_router_new_def)
qed

end
