(* ===== verification/Ring_Buffer.thy ===== *)
theory Ring_Buffer
  imports Sitas_Prelude
begin

text \<open>
  The single-producer single-consumer ring of \<open>ringbuf.rs\<close>.  A slot is an option:
  \<open>None\<close> is uninitialized memory, and reading one is the fault \<open>UninitializedRead\<close>.
  The operations come twice: as sequential functions, and as a step relation in
  which the producer's and the consumer's atomic loads, stores and slot accesses
  interleave freely.  The locale \<open>bounded_queue\<close> is the contract that the
  shard channel relies on.
\<close>

subsection \<open>The ring and its operations\<close>

record 'a ring =
  rb_buffer :: "'a option list"
  rb_capacity :: nat
  rb_head :: nat
  rb_tail :: nat

definition ring_bounded :: "nat \<Rightarrow> 'a ring" where
  "ring_bounded capacity =
     \<lparr>rb_buffer = replicate capacity None, rb_capacity = capacity, rb_head = 0, rb_tail = 0\<rparr>"

definition ring_unbounded :: "'a ring" where
  "ring_unbounded = ring_bounded 256"

definition ring_try_push :: "'a \<Rightarrow> 'a ring \<Rightarrow> panic + ('a + 'a ring)" where
  "ring_try_push item r =
     (if rb_capacity r = 0 then Inl RemainderByZero
      else
        let head = rb_head r;
            nxt = (head + 1) mod rb_capacity r;
            tail = rb_tail r
        in if nxt = tail then Inr (Inl item)
           else if length (rb_buffer r) \<le> head then Inl IndexOutOfBounds
           else Inr (Inr (r\<lparr>rb_buffer := (rb_buffer r)[head := Some item], rb_head := nxt\<rparr>)))"

definition ring_pop :: "'a ring \<Rightarrow> panic + ('a \<times> 'a ring) option" where
  "ring_pop r =
     (let tail = rb_tail r; head = rb_head r
      in if tail = head then Inr None
         else if length (rb_buffer r) \<le> tail then Inl IndexOutOfBounds
         else case rb_buffer r ! tail of
                None \<Rightarrow> Inl UninitializedRead
              | Some item \<Rightarrow>
                  (if rb_capacity r = 0 then Inl RemainderByZero
                   else Inr (Some (item, r\<lparr>rb_tail := (tail + 1) mod rb_capacity r\<rparr>))))"

definition ring_is_empty :: "'a ring \<Rightarrow> bool" where
  "ring_is_empty r \<longleftrightarrow> rb_tail r = rb_head r"

definition ring_len :: "'a ring \<Rightarrow> nat" where
  "ring_len r =
     (let h = rb_head r; t = rb_tail r
      in if t \<le> h then h - t else h + rb_capacity r - t)"

subsection \<open>What a ring holds\<close>

definition ring_items :: "'a ring \<Rightarrow> 'a list" where
  "ring_items r =
     map (\<lambda>i. the (rb_buffer r ! ((rb_tail r + i) mod rb_capacity r))) [0..<ring_len r]"

definition ring_ok :: "'a ring \<Rightarrow> bool" where
  "ring_ok r \<longleftrightarrow>
     0 < rb_capacity r \<and> length (rb_buffer r) = rb_capacity r \<and>
     rb_head r < rb_capacity r \<and> rb_tail r < rb_capacity r \<and>
     list_all (\<lambda>i. rb_buffer r ! ((rb_tail r + i) mod rb_capacity r) \<noteq> None) [0..<ring_len r]"

definition ring_bound :: "'a ring \<Rightarrow> nat" where
  "ring_bound r = rb_capacity r - 1"

definition ring_rep :: "'a ring \<Rightarrow> nat \<Rightarrow> 'a list \<Rightarrow> bool" where
  "ring_rep r t xs \<longleftrightarrow>
     0 < rb_capacity r \<and> length (rb_buffer r) = rb_capacity r \<and>
     rb_tail r = t mod rb_capacity r \<and> rb_head r = (t + length xs) mod rb_capacity r \<and>
     length xs < rb_capacity r \<and>
     (\<forall>i<length xs. rb_buffer r ! ((t + i) mod rb_capacity r) = Some (xs ! i))"

subsection \<open>Sequences of queue operations\<close>

datatype 'a qop = QPush 'a | QPop

datatype 'a qres = QPushed | QFull 'a | QPopped 'a | QEmpty | QPanic panic

fun q_run ::
  "('a \<Rightarrow> 'q \<Rightarrow> panic + ('a + 'q)) \<Rightarrow> ('q \<Rightarrow> panic + ('a \<times> 'q) option) \<Rightarrow>
   'a qop list \<Rightarrow> 'q \<Rightarrow> 'a qres list" where
  "q_run push pop [] q = []"
| "q_run push pop (QPush x # ops) q =
     (case push x q of
        Inl p \<Rightarrow> [QPanic p]
      | Inr (Inl y) \<Rightarrow> QFull y # q_run push pop ops q
      | Inr (Inr q') \<Rightarrow> QPushed # q_run push pop ops q')"
| "q_run push pop (QPop # ops) q =
     (case pop q of
        Inl p \<Rightarrow> [QPanic p]
      | Inr None \<Rightarrow> QEmpty # q_run push pop ops q
      | Inr (Some (y, q')) \<Rightarrow> QPopped y # q_run push pop ops q')"

fun fifo_run :: "nat \<Rightarrow> 'a qop list \<Rightarrow> 'a list \<Rightarrow> 'a qres list" where
  "fifo_run b [] xs = []"
| "fifo_run b (QPush x # ops) xs =
     (if length xs < b then QPushed # fifo_run b ops (xs @ [x]) else QFull x # fifo_run b ops xs)"
| "fifo_run b (QPop # ops) [] = QEmpty # fifo_run b ops []"
| "fifo_run b (QPop # ops) (y # xs) = QPopped y # fifo_run b ops xs"

subsection \<open>Interleaved producer and consumer\<close>

datatype 'a prod_pc = PIdle | PTail nat nat 'a | PWrite nat nat 'a | PStore nat 'a

datatype 'a cons_pc = CIdle | CHead nat | CRead nat | CStore nat 'a

text \<open>\<open>sp_pushed\<close> and \<open>sp_popped\<close> record the items whose push, respectively pop, has returned.\<close>

record 'a spsc =
  sp_ring :: "'a ring"
  sp_prod :: "'a prod_pc"
  sp_cons :: "'a cons_pc"
  sp_pushed :: "'a list"
  sp_popped :: "'a list"

definition spsc_init :: "nat \<Rightarrow> 'a spsc" where
  "spsc_init capacity =
     \<lparr>sp_ring = ring_bounded capacity, sp_prod = PIdle, sp_cons = CIdle,
      sp_pushed = [], sp_popped = []\<rparr>"

inductive spsc_step :: "'a spsc \<Rightarrow> 'a spsc \<Rightarrow> bool" where
  push_load_head:
    "sp_prod s = PIdle \<Longrightarrow>
     spsc_step s (s\<lparr>sp_prod := PTail (rb_head (sp_ring s))
       ((rb_head (sp_ring s) + 1) mod rb_capacity (sp_ring s)) x\<rparr>)"
| push_full:
    "sp_prod s = PTail h n x \<Longrightarrow> n = rb_tail (sp_ring s) \<Longrightarrow>
     spsc_step s (s\<lparr>sp_prod := PIdle\<rparr>)"
| push_room:
    "sp_prod s = PTail h n x \<Longrightarrow> n \<noteq> rb_tail (sp_ring s) \<Longrightarrow>
     spsc_step s (s\<lparr>sp_prod := PWrite h n x\<rparr>)"
| push_write:
    "sp_prod s = PWrite h n x \<Longrightarrow>
     spsc_step s (s\<lparr>sp_prod := PStore n x,
       sp_ring := (sp_ring s)\<lparr>rb_buffer := (rb_buffer (sp_ring s))[h := Some x]\<rparr>\<rparr>)"
| push_store_head:
    "sp_prod s = PStore n x \<Longrightarrow>
     spsc_step s (s\<lparr>sp_prod := PIdle, sp_ring := (sp_ring s)\<lparr>rb_head := n\<rparr>,
       sp_pushed := sp_pushed s @ [x]\<rparr>)"
| pop_load_tail:
    "sp_cons s = CIdle \<Longrightarrow> spsc_step s (s\<lparr>sp_cons := CHead (rb_tail (sp_ring s))\<rparr>)"
| pop_empty:
    "sp_cons s = CHead t \<Longrightarrow> t = rb_head (sp_ring s) \<Longrightarrow> spsc_step s (s\<lparr>sp_cons := CIdle\<rparr>)"
| pop_some:
    "sp_cons s = CHead t \<Longrightarrow> t \<noteq> rb_head (sp_ring s) \<Longrightarrow> spsc_step s (s\<lparr>sp_cons := CRead t\<rparr>)"
| pop_read:
    "sp_cons s = CRead t \<Longrightarrow> rb_buffer (sp_ring s) ! t = Some x \<Longrightarrow>
     spsc_step s (s\<lparr>sp_cons := CStore t x\<rparr>)"
| pop_store_tail:
    "sp_cons s = CStore t x \<Longrightarrow>
     spsc_step s (s\<lparr>sp_cons := CIdle,
       sp_ring := (sp_ring s)\<lparr>rb_tail := (t + 1) mod rb_capacity (sp_ring s)\<rparr>,
       sp_popped := sp_popped s @ [x]\<rparr>)"

definition spsc_inv :: "'a spsc \<Rightarrow> bool" where
  "spsc_inv s \<longleftrightarrow>
     (let r = sp_ring s; c = rb_capacity r; hc = length (sp_pushed s); tc = length (sp_popped s)
      in tc \<le> hc \<and> sp_popped s = take tc (sp_pushed s) \<and>
         ring_rep r tc (drop tc (sp_pushed s)) \<and>
         (case sp_prod s of
            PIdle \<Rightarrow> True
          | PTail h n x \<Rightarrow> h = hc mod c \<and> n = (hc + 1) mod c
          | PWrite h n x \<Rightarrow> h = hc mod c \<and> n = (hc + 1) mod c \<and> hc + 1 < tc + c
          | PStore n x \<Rightarrow> n = (hc + 1) mod c \<and> hc + 1 < tc + c \<and>
              rb_buffer r ! (hc mod c) = Some x) \<and>
         (case sp_cons s of
            CIdle \<Rightarrow> True
          | CHead t \<Rightarrow> t = tc mod c
          | CRead t \<Rightarrow> t = tc mod c \<and> tc < hc
          | CStore t x \<Rightarrow> t = tc mod c \<and> tc < hc \<and> x = sp_pushed s ! tc))"

subsection \<open>The contract of a bounded queue\<close>

locale bounded_queue =
  fixes push :: "'a \<Rightarrow> 'q \<Rightarrow> panic + ('a + 'q)"
    and pop :: "'q \<Rightarrow> panic + ('a \<times> 'q) option"
    and invar :: "'q \<Rightarrow> bool"
    and items :: "'q \<Rightarrow> 'a list"
    and bound :: "'q \<Rightarrow> nat"
  assumes push_room:
      "invar q \<Longrightarrow> length (items q) < bound q \<Longrightarrow>
       \<exists>q'. push x q = Inr (Inr q') \<and> invar q' \<and> items q' = items q @ [x] \<and> bound q' = bound q"
    and push_full:
      "invar q \<Longrightarrow> bound q \<le> length (items q) \<Longrightarrow> push x q = Inr (Inl x)"
    and pop_nil: "invar q \<Longrightarrow> items q = [] \<Longrightarrow> pop q = Inr None"
    and pop_cons:
      "invar q \<Longrightarrow> items q = y # ys \<Longrightarrow>
       \<exists>q'. pop q = Inr (Some (y, q')) \<and> invar q' \<and> items q' = ys \<and> bound q' = bound q"
begin

lemma run_fifo: "invar q \<Longrightarrow> q_run push pop ops q = fifo_run (bound q) ops (items q)"
proof (induction ops arbitrary: q)
  case (Cons op ops)
  show ?case
  proof (cases op)
    case (QPush x)
    show ?thesis
    proof (cases "length (items q) < bound q")
      case True
      then show ?thesis
        using QPush Cons.IH push_room [OF Cons.prems True, of x] by auto
    next
      case False
      then show ?thesis
        using QPush Cons push_full [OF Cons.prems, of x] by simp
    qed
  next
    case QPop
    show ?thesis
    proof (cases "items q")
      case Nil
      then show ?thesis using QPop Cons pop_nil by simp
    next
      case (Cons y ys)
      then show ?thesis
        using QPop Cons.IH pop_cons [OF Cons.prems Cons] by auto
    qed
  qed
qed simp

lemma push_never_panics: "invar q \<Longrightarrow> push x q \<noteq> Inl p"
  using push_room [of q x] push_full [of q x] by fastforce

lemma pop_never_panics: "invar q \<Longrightarrow> pop q \<noteq> Inl p"
  using pop_nil [of q] pop_cons [of q] by (cases "items q") fastforce+

lemma push_cases:
  assumes "invar q"
  obtains (room) q' where "push x q = Inr (Inr q')" "invar q'" "items q' = items q @ [x]"
      "bound q' = bound q" "length (items q) < bound q"
    | (full) "push x q = Inr (Inl x)" "bound q \<le> length (items q)"
  using push_room [OF assms, of x] push_full [OF assms, of x] by (meson not_le)

lemma pop_cases:
  assumes "invar q"
  obtains (empty) "pop q = Inr None" "items q = []"
    | (some) y q' where "pop q = Inr (Some (y, q'))" "invar q'" "items q = y # items q'"
      "bound q' = bound q"
  using pop_nil [OF assms] pop_cons [OF assms] by (cases "items q") auto

end

subsection \<open>The ring implements the contract\<close>

lemma ring_rep_len:
  assumes "ring_rep r t xs"
  shows "ring_len r = length xs"
proof -
  let ?c = "rb_capacity r"
  define m where "m = t mod ?c"
  from assms have c: "0 < ?c" "length xs < ?c" and tl: "rb_tail r = m"
    and hd: "rb_head r = (t + length xs) mod ?c"
    by (auto simp: ring_rep_def m_def)
  have m: "m < ?c" using c by (simp add: m_def)
  have hd': "rb_head r = (m + length xs) mod ?c"
    by (simp add: hd m_def mod_add_left_eq)
  show ?thesis
  proof (cases "m + length xs < ?c")
    case True
    then show ?thesis by (simp add: ring_len_def tl hd')
  next
    case False
    then have "(m + length xs) mod ?c = m + length xs - ?c"
      using c m by (simp add: mod_if)
    then show ?thesis using False c m by (auto simp: ring_len_def tl hd' Let_def)
  qed
qed

lemma ring_rep_items:
  assumes "ring_rep r t xs"
  shows "ring_items r = xs"
proof (rule nth_equalityI)
  show "length (ring_items r) = length xs"
    by (simp add: ring_items_def ring_rep_len [OF assms])
  fix i assume "i < length (ring_items r)"
  then have "i < length xs" by (simp add: ring_items_def ring_rep_len [OF assms])
  then show "ring_items r ! i = xs ! i"
    using assms by (simp add: ring_items_def ring_rep_len [OF assms] ring_rep_def mod_add_left_eq)
qed

lemma ring_rep_ok: "ring_rep r t xs \<Longrightarrow> ring_ok r"
  using ring_rep_len [of r t xs]
  by (auto simp: ring_ok_def ring_rep_def list_all_iff mod_add_left_eq)

lemma ring_ok_rep:
  assumes "ring_ok r"
  shows "ring_rep r (rb_tail r) (ring_items r)"
proof -
  let ?c = "rb_capacity r" and ?t = "rb_tail r" and ?h = "rb_head r"
  from assms have c: "0 < ?c" "length (rb_buffer r) = ?c" "?h < ?c" "?t < ?c"
    and full: "\<And>i. i < ring_len r \<Longrightarrow> rb_buffer r ! ((?t + i) mod ?c) \<noteq> None"
    by (auto simp: ring_ok_def list_all_iff)
  have "?h = (?t + ring_len r) mod ?c" and "ring_len r < ?c"
    using c by (auto simp: ring_len_def Let_def mod_if)
  then show ?thesis
    using c full by (auto simp: ring_rep_def ring_items_def)
qed

lemma ring_push_rep:
  assumes "ring_rep r t xs" "Suc (length xs) < rb_capacity r"
  shows "ring_try_push x r = Inr (Inr (r\<lparr>rb_buffer := (rb_buffer r)[rb_head r := Some x],
           rb_head := (rb_head r + 1) mod rb_capacity r\<rparr>))"
    and "ring_rep (r\<lparr>rb_buffer := (rb_buffer r)[rb_head r := Some x],
           rb_head := (rb_head r + 1) mod rb_capacity r\<rparr>) t (xs @ [x])"
proof -
  let ?c = "rb_capacity r"
  from assms(1) have r: "0 < ?c" "length (rb_buffer r) = ?c" "rb_tail r = t mod ?c"
      "rb_head r = (t + length xs) mod ?c"
      "\<And>i. i < length xs \<Longrightarrow> rb_buffer r ! ((t + i) mod ?c) = Some (xs ! i)"
    by (auto simp: ring_rep_def)
  have nxt: "(rb_head r + 1) mod ?c = (t + Suc (length xs)) mod ?c"
    by (simp add: r(4) mod_simps)
  have "(t + Suc (length xs)) mod ?c \<noteq> t mod ?c"
    using mod_window_inj [of "t + Suc (length xs)" ?c t t] assms(2) by auto
  then show "ring_try_push x r = Inr (Inr (r\<lparr>rb_buffer := (rb_buffer r)[rb_head r := Some x],
           rb_head := (rb_head r + 1) mod ?c\<rparr>))"
    using r nxt by (simp add: ring_try_push_def Let_def not_le)
  have "(t + length xs) mod ?c \<noteq> (t + i) mod ?c" if "i < length xs" for i
    using mod_window_inj [of "t + i" ?c "t + length xs" t] that assms(2) by auto
  then show "ring_rep (r\<lparr>rb_buffer := (rb_buffer r)[rb_head r := Some x],
           rb_head := (rb_head r + 1) mod ?c\<rparr>) t (xs @ [x])"
    using r nxt assms(2) by (auto simp: ring_rep_def nth_append less_Suc_eq)
qed

lemma ring_push_full:
  assumes "ring_rep r t xs" "rb_capacity r \<le> Suc (length xs)"
  shows "ring_try_push x r = Inr (Inl x)"
proof -
  from assms have c: "rb_capacity r = Suc (length xs)" by (simp add: ring_rep_def)
  have "(rb_head r + 1) mod rb_capacity r = (t + rb_capacity r) mod rb_capacity r"
    using assms(1) c by (simp add: ring_rep_def mod_Suc_eq)
  then show ?thesis
    using assms(1) by (simp add: ring_try_push_def Let_def ring_rep_def)
qed

lemma ring_pop_rep:
  assumes "ring_rep r t (y # ys)"
  shows "ring_pop r = Inr (Some (y, r\<lparr>rb_tail := (rb_tail r + 1) mod rb_capacity r\<rparr>))"
    and "ring_rep (r\<lparr>rb_tail := (rb_tail r + 1) mod rb_capacity r\<rparr>) (Suc t) ys"
proof -
  let ?c = "rb_capacity r"
  from assms have r: "0 < ?c" "length (rb_buffer r) = ?c" "rb_tail r = t mod ?c"
      "rb_head r = (t + Suc (length ys)) mod ?c" "Suc (length ys) < ?c"
      "\<And>i. i < Suc (length ys) \<Longrightarrow> rb_buffer r ! ((t + i) mod ?c) = Some ((y # ys) ! i)"
    by (auto simp: ring_rep_def)
  have "(t + Suc (length ys)) mod ?c \<noteq> t mod ?c"
    using mod_window_inj [of "t + Suc (length ys)" ?c t t] r(5) by auto
  then show "ring_pop r = Inr (Some (y, r\<lparr>rb_tail := (rb_tail r + 1) mod ?c\<rparr>))"
    using r(1-5) r(6) [of 0] by (simp add: ring_pop_def Let_def not_le)
  show "ring_rep (r\<lparr>rb_tail := (rb_tail r + 1) mod ?c\<rparr>) (Suc t) ys"
    using r(1-5) r(6) [of "Suc i" for i] by (auto simp: ring_rep_def mod_Suc_eq)
qed

lemma ring_pop_nil: "ring_rep r t [] \<Longrightarrow> ring_pop r = Inr None"
  by (simp add: ring_rep_def ring_pop_def)

lemma ring_bounded_rep: "0 < c \<Longrightarrow> ring_rep (ring_bounded c) 0 []"
  by (simp add: ring_bounded_def ring_rep_def)

interpretation ring_queue:
  bounded_queue ring_try_push ring_pop ring_ok ring_items ring_bound
proof
  fix q :: "'a ring" and x :: 'a
  assume ok: "ring_ok q" and "length (ring_items q) < ring_bound q"
  then have "Suc (length (ring_items q)) < rb_capacity q" by (simp add: ring_bound_def)
  from ring_push_rep [OF ring_ok_rep [OF ok] this, of x]
  show "\<exists>q'. ring_try_push x q = Inr (Inr q') \<and> ring_ok q' \<and> ring_items q' = ring_items q @ [x] \<and>
      ring_bound q' = ring_bound q"
    by (auto dest: ring_rep_items ring_rep_ok simp: ring_bound_def)
next
  fix q :: "'a ring" and x :: 'a
  assume "ring_ok q" "ring_bound q \<le> length (ring_items q)"
  then show "ring_try_push x q = Inr (Inl x)"
    by (intro ring_push_full [OF ring_ok_rep]) (auto simp: ring_bound_def)
next
  fix q :: "'a ring"
  assume "ring_ok q" "ring_items q = []"
  then show "ring_pop q = Inr None"
    by (metis ring_ok_rep ring_pop_nil)
next
  fix q :: "'a ring" and y ys
  assume "ring_ok q" "ring_items q = y # ys"
  then have "ring_rep q (rb_tail q) (y # ys)" by (metis ring_ok_rep)
  from ring_pop_rep [OF this]
  show "\<exists>q'. ring_pop q = Inr (Some (y, q')) \<and> ring_ok q' \<and> ring_items q' = ys \<and>
      ring_bound q' = ring_bound q"
    by (auto dest: ring_rep_items ring_rep_ok simp: ring_bound_def)
qed

subsection \<open>The interleaved ring\<close>

lemma ring_rep_head_store:
  assumes "ring_rep r t xs" "Suc (length xs) < rb_capacity r"
    and "rb_buffer r ! ((t + length xs) mod rb_capacity r) = Some x"
  shows "ring_rep (r\<lparr>rb_head := Suc (t + length xs) mod rb_capacity r\<rparr>) t (xs @ [x])"
  using assms by (auto simp: ring_rep_def nth_append less_Suc_eq)

lemma ring_rep_slot_write:
  assumes "ring_rep r t xs"
  shows "ring_rep (r\<lparr>rb_buffer := (rb_buffer r)[(t + length xs) mod rb_capacity r := Some x]\<rparr>) t xs"
proof -
  let ?c = "rb_capacity r"
  have "(t + length xs) mod ?c \<noteq> (t + i) mod ?c" if "i < length xs" for i
    using mod_window_inj [of "t + i" ?c "t + length xs" t] that assms by (auto simp: ring_rep_def)
  then show ?thesis
    using assms by (auto simp: ring_rep_def)
qed

lemma spsc_inv_init: "0 < c \<Longrightarrow> spsc_inv (spsc_init c)"
  by (simp add: spsc_inv_def spsc_init_def ring_bounded_rep)

lemma ring_rep_room:
  assumes "ring_rep r t xs" "Suc (t + length xs) mod rb_capacity r \<noteq> rb_tail r"
  shows "Suc (length xs) < rb_capacity r"
proof (rule ccontr)
  assume "\<not> ?thesis"
  then have "rb_capacity r = Suc (length xs)" using assms(1) by (simp add: ring_rep_def)
  then have "Suc (t + length xs) mod rb_capacity r = t mod rb_capacity r"
    by (metis add_Suc_right mod_add_self2)
  then show False using assms by (simp add: ring_rep_def)
qed

lemma ring_rep_nonempty:
  assumes "ring_rep r t xs" "rb_tail r \<noteq> rb_head r"
  shows "xs \<noteq> []"
  using assms by (auto simp: ring_rep_def)

lemma take_snoc_le:
  "tc < length xs \<Longrightarrow> take tc xs @ [xs ! tc] = take (Suc tc) xs"
  by (simp add: take_Suc_conv_app_nth)

lemma spsc_inv_step:
  assumes "spsc_step s s'" "spsc_inv s"
  shows "spsc_inv s'"
  using assms
proof (induction rule: spsc_step.induct)
  case (push_load_head s x)
  then show ?case
    by (auto simp: spsc_inv_def Let_def ring_rep_def mod_Suc_eq split: cons_pc.splits)
next
  case (push_room s h n x)
  then have "Suc (length (sp_pushed s)) < length (sp_popped s) + rb_capacity (sp_ring s)"
    using ring_rep_room [of "sp_ring s" "length (sp_popped s)"
        "drop (length (sp_popped s)) (sp_pushed s)"]
    by (auto simp: spsc_inv_def Let_def)
  with push_room show ?case by (auto simp: spsc_inv_def Let_def split: cons_pc.splits)
next
  case (push_write s h n x)
  let ?t = "length (sp_popped s)" and ?r = "sp_ring s"
  from push_write have rep: "ring_rep ?r ?t (drop ?t (sp_pushed s))"
    and h: "h = (?t + length (drop ?t (sp_pushed s))) mod rb_capacity ?r"
    and le: "?t \<le> length (sp_pushed s)"
    by (auto simp: spsc_inv_def Let_def)
  have "h < length (rb_buffer ?r)" using rep h by (auto simp: ring_rep_def)
  then show ?case
    using push_write ring_rep_slot_write [OF rep, of x] h le
    by (auto simp: spsc_inv_def Let_def split: cons_pc.splits)
next
  case (push_store_head s n x)
  let ?t = "length (sp_popped s)" and ?r = "sp_ring s"
  from push_store_head have rep: "ring_rep ?r ?t (drop ?t (sp_pushed s))"
    and n: "n = Suc (length (sp_pushed s)) mod rb_capacity ?r"
    and lt: "Suc (length (sp_pushed s)) < ?t + rb_capacity ?r"
    and slot: "rb_buffer ?r ! (length (sp_pushed s) mod rb_capacity ?r) = Some x"
    and le: "?t \<le> length (sp_pushed s)"
    by (auto simp: spsc_inv_def Let_def)
  have "ring_rep (?r\<lparr>rb_head := n\<rparr>) ?t (drop ?t (sp_pushed s) @ [x])"
    using ring_rep_head_store [OF rep, of x] n lt slot le by simp
  then show ?case
    using push_store_head le by (auto simp: spsc_inv_def Let_def nth_append split: cons_pc.splits)
next
  case (pop_load_tail s)
  then show ?case by (auto simp: spsc_inv_def Let_def ring_rep_def split: prod_pc.splits)
next
  case (pop_some s t)
  then show ?case
    using ring_rep_nonempty [of "sp_ring s" "length (sp_popped s)"
        "drop (length (sp_popped s)) (sp_pushed s)"]
    by (auto simp: spsc_inv_def Let_def ring_rep_def split: prod_pc.splits)
next
  case (pop_read s t x)
  then have "x = sp_pushed s ! length (sp_popped s)"
    by (auto simp: spsc_inv_def Let_def ring_rep_def dest: spec [of _ 0])
  with pop_read show ?case by (auto simp: spsc_inv_def Let_def split: prod_pc.splits)
next
  case (pop_store_tail s t x)
  let ?t = "length (sp_popped s)" and ?r = "sp_ring s"
  from pop_store_tail have rep: "ring_rep ?r ?t (drop ?t (sp_pushed s))"
    and t: "t = rb_tail ?r" and lt: "?t < length (sp_pushed s)" and x: "x = sp_pushed s ! ?t"
    by (auto simp: spsc_inv_def Let_def ring_rep_def)
  from lt have "drop ?t (sp_pushed s) = x # drop (Suc ?t) (sp_pushed s)"
    using x by (simp add: Cons_nth_drop_Suc)
  with rep have "ring_rep (?r\<lparr>rb_tail := (t + 1) mod rb_capacity ?r\<rparr>) (Suc ?t)
      (drop (Suc ?t) (sp_pushed s))"
    using ring_pop_rep(2) [of ?r ?t x] t by simp
  moreover have "sp_popped s @ [x] = take (Suc ?t) (sp_pushed s)"
    using pop_store_tail.prems lt x by (auto simp: spsc_inv_def Let_def take_Suc_conv_app_nth)
  ultimately show ?case
    using pop_store_tail lt by (auto simp: spsc_inv_def Let_def split: prod_pc.splits)
qed (auto simp: spsc_inv_def Let_def split: cons_pc.splits prod_pc.splits)

lemma spsc_inv_reachable:
  "spsc_step\<^sup>*\<^sup>* (spsc_init c) s \<Longrightarrow> 0 < c \<Longrightarrow> spsc_inv s"
  by (induction rule: rtranclp_induct) (auto intro: spsc_inv_init spsc_inv_step)

lemma spsc_capacity_const:
  "spsc_step\<^sup>*\<^sup>* s s' \<Longrightarrow> rb_capacity (sp_ring s') = rb_capacity (sp_ring s)"
proof (induction rule: rtranclp_induct)
  case (step y z)
  from step.hyps(2) have "rb_capacity (sp_ring z) = rb_capacity (sp_ring y)"
    by (cases rule: spsc_step.cases) auto
  with step show ?case by simp
qed simp

subsection \<open>Properties\<close>

text \<open>C1: a ring created with any positive capacity never panics and never reads an
  uninitialized slot, and every sequence of pushes and pops on it returns exactly what a FIFO
  queue bounded by \<open>capacity - 1\<close> returns, whatever the wrap-around of head and tail.\<close>

theorem ring_refines_fifo:
  "0 < c \<Longrightarrow> q_run ring_try_push ring_pop ops (ring_bounded c) = fifo_run (c - 1) ops []"
proof -
  assume c: "0 < c"
  have "ring_ok (ring_bounded c :: 'a ring)" "ring_items (ring_bounded c :: 'a ring) = []"
    using ring_bounded_rep [OF c] by (auto dest: ring_rep_ok ring_rep_items)
  then show ?thesis
    using ring_queue.run_fifo [of "ring_bounded c" ops] by (simp add: ring_bound_def ring_bounded_def)
qed

theorem ring_refines_fifo_witness:
  "q_run ring_try_push ring_pop [QPush (1::nat), QPush 2, QPush 3, QPop, QPush 4, QPop, QPop, QPop]
     (ring_bounded 3)
   = [QPushed, QPushed, QFull 3, QPopped 1, QPushed, QPopped 2, QPopped 4, QEmpty]"
  using ring_refines_fifo [of 3 "[QPush (1::nat), QPush 2, QPush 3, QPop, QPush 4, QPop, QPop, QPop]"]
  by simp

text \<open>C9: under every interleaving of one producer and one consumer, access by access, the
  items popped are a prefix of the items pushed, what is between them is what the ring holds,
  the ring never holds more than \<open>capacity - 1\<close> items, the producer never writes the slot
  that the consumer is reading, and a consumer about to read finds the slot initialized.\<close>

theorem spsc_interleaving_fifo:
  assumes "spsc_step\<^sup>*\<^sup>* (spsc_init c) s" "0 < c"
  shows "sp_pushed s = sp_popped s @ ring_items (sp_ring s) \<and>
    length (ring_items (sp_ring s)) < c \<and>
    (\<forall>h n x t. sp_prod s = PWrite h n x \<and> sp_cons s = CRead t \<longrightarrow> h \<noteq> t) \<and>
    (\<forall>t. sp_cons s = CRead t \<longrightarrow> (\<exists>y. rb_buffer (sp_ring s) ! t = Some y))"
proof (intro conjI allI impI)
  let ?t = "length (sp_popped s)" and ?r = "sp_ring s"
  from spsc_inv_reachable [OF assms] have inv: "spsc_inv s" .
  then have rep: "ring_rep ?r ?t (drop ?t (sp_pushed s))"
    and pre: "sp_popped s = take ?t (sp_pushed s)"
    by (auto simp: spsc_inv_def Let_def)
  have items: "ring_items ?r = drop ?t (sp_pushed s)" by (rule ring_rep_items [OF rep])
  show "sp_pushed s = sp_popped s @ ring_items ?r"
    using pre by (metis items append_take_drop_id)
  show "length (ring_items ?r) < c"
    using rep spsc_capacity_const [OF assms(1)]
    by (simp add: items ring_rep_def spsc_init_def ring_bounded_def)
  show "h \<noteq> t" if "sp_prod s = PWrite h n x \<and> sp_cons s = CRead t" for h n x t
    using inv that mod_window_inj [of "length (sp_pushed s)" "rb_capacity ?r" ?t ?t]
    by (auto simp: spsc_inv_def Let_def)
  show "\<exists>y. rb_buffer ?r ! t = Some y" if "sp_cons s = CRead t" for t
    using inv that by (auto simp: spsc_inv_def Let_def ring_rep_def dest: spec [of _ 0])
qed

text \<open>The witness state: one item is in the ring, the producer is about to write a second one
  while the consumer is about to read the first.\<close>

theorem spsc_interleaving_fifo_witness:
  "\<exists>s. spsc_step\<^sup>*\<^sup>* (spsc_init 3) s \<and> sp_prod s = PWrite 1 2 (8::nat) \<and> sp_cons s = CRead 0 \<and>
       sp_pushed s = [7] \<and> sp_pushed s = sp_popped s @ ring_items (sp_ring s)"
proof -
  define s1 where "s1 = (spsc_init 3)\<lparr>sp_prod := PTail 0 1 (7::nat)\<rparr>"
  define s2 where "s2 = s1\<lparr>sp_prod := PWrite 0 1 7\<rparr>"
  define s3 where "s3 = s2\<lparr>sp_prod := PStore 1 7,
    sp_ring := (sp_ring s2)\<lparr>rb_buffer := (rb_buffer (sp_ring s2))[0 := Some 7]\<rparr>\<rparr>"
  define s4 where "s4 = s3\<lparr>sp_prod := PIdle, sp_ring := (sp_ring s3)\<lparr>rb_head := 1\<rparr>,
    sp_pushed := sp_pushed s3 @ [7]\<rparr>"
  define s5 where "s5 = s4\<lparr>sp_prod := PTail 1 2 8\<rparr>"
  define s6 where "s6 = s5\<lparr>sp_prod := PWrite 1 2 8\<rparr>"
  define s7 where "s7 = s6\<lparr>sp_cons := CHead 0\<rparr>"
  define s8 where "s8 = s7\<lparr>sp_cons := CRead 0\<rparr>"
  note defs = s1_def s2_def s3_def s4_def s5_def s6_def s7_def s8_def spsc_init_def ring_bounded_def
  have "spsc_step (spsc_init 3) s1"
    using spsc_step.push_load_head [of "spsc_init 3" 7] by (simp add: defs)
  moreover have "spsc_step s1 s2" using spsc_step.push_room [of s1 0 1 7] by (simp add: defs)
  moreover have "spsc_step s2 s3" using spsc_step.push_write [of s2 0 1 7] by (simp add: defs)
  moreover have "spsc_step s3 s4" using spsc_step.push_store_head [of s3 1 7] by (simp add: defs)
  moreover have "spsc_step s4 s5" using spsc_step.push_load_head [of s4 8]
    by (simp add: defs numeral_2_eq_2)
  moreover have "spsc_step s5 s6" using spsc_step.push_room [of s5 1 2 8] by (simp add: defs)
  moreover have "spsc_step s6 s7" using spsc_step.pop_load_tail [of s6] by (simp add: defs)
  moreover have "spsc_step s7 s8" using spsc_step.pop_some [of s7 0] by (simp add: defs)
  ultimately have "spsc_step\<^sup>*\<^sup>* (spsc_init 3) s8"
    by (meson converse_rtranclp_into_rtranclp rtranclp.rtrancl_refl)
  then show ?thesis
    using spsc_interleaving_fifo [of 3 s8] by (intro exI [of _ s8]) (simp add: defs)
qed

end
