(* ===== verification/Wake_Contract.thy ===== *)
theory Wake_Contract
  imports Sitas_Prelude
begin

text \<open>
  The contract between a future that parks a waker and the component it waits
  for.  A component provides its step function (new state and the wakers called),
  the set of parked wakers, and the condition under which a poll would complete.
  The laws say that nobody parks on a condition that already holds, and that a
  parked waker leaves the component only by being called, unless its own task
  polls again.  Clients get the absence of lost wakeups over whole histories.
\<close>

fun wk_run :: "('s \<Rightarrow> 'op \<Rightarrow> waker list \<times> 's) \<Rightarrow> 'op list \<Rightarrow> 's \<Rightarrow> waker list \<times> 's" where
  "wk_run step [] s = ([], s)"
| "wk_run step (x # xs) s =
     (let (ws, s') = step s x; (ws', s'') = wk_run step xs s' in (ws @ ws', s''))"

locale wake_contract =
  fixes inv :: "'s \<Rightarrow> bool"
    and step :: "'s \<Rightarrow> 'op \<Rightarrow> waker list \<times> 's"
    and parked :: "'s \<Rightarrow> waker set"
    and ready :: "'s \<Rightarrow> bool"
    and repoll :: "'op \<Rightarrow> bool"
  assumes inv_step: "inv s \<Longrightarrow> inv (snd (step s x))"
    and parked_not_ready: "inv s \<Longrightarrow> w \<in> parked s \<Longrightarrow> \<not> ready s"
    and parked_or_woken:
      "inv s \<Longrightarrow> w \<in> parked s \<Longrightarrow> \<not> repoll x \<Longrightarrow>
       w \<in> set (fst (step s x)) \<or> w \<in> parked (snd (step s x))"
begin

lemma inv_run: "inv s \<Longrightarrow> inv (snd (wk_run step xs s))"
  by (induction xs arbitrary: s) (auto simp: case_prod_unfold Let_def inv_step)

lemma run_parked_or_woken:
  "inv s \<Longrightarrow> w \<in> parked s \<Longrightarrow> \<forall>x\<in>set xs. \<not> repoll x \<Longrightarrow>
   w \<in> set (fst (wk_run step xs s)) \<or> w \<in> parked (snd (wk_run step xs s))"
proof (induction xs arbitrary: s)
  case (Cons x xs)
  show ?case
  proof (cases "w \<in> set (fst (step s x))")
    case True
    then show ?thesis by (simp add: case_prod_unfold Let_def)
  next
    case False
    then have "w \<in> parked (snd (step s x))"
      using parked_or_woken [of s w x] Cons.prems by simp
    then show ?thesis
      using Cons.IH [of "snd (step s x)"] Cons.prems inv_step
      by (auto simp: case_prod_unfold Let_def)
  qed
qed simp

lemma no_lost_wakeup:
  assumes "inv s" "w \<in> parked s" "\<forall>x\<in>set xs. \<not> repoll x"
    and "ready (snd (wk_run step xs s))"
  shows "w \<in> set (fst (wk_run step xs s))"
  using run_parked_or_woken [OF assms(1-3)] parked_not_ready [OF inv_run [OF assms(1)]] assms(4)
  by blast

end

end
