(* ===== verification/Shard_Mailbox.thy ===== *)
theory Shard_Mailbox
  imports Wake_Contract
begin

text \<open>
  The bounded shard mailboxes of \<open>shard_mailbox.rs\<close>.  Every operation of
  \<open>SharedMailbox\<close> runs under the mailbox mutex, so it is one function on the state:
  it returns the result, the wakers it calls and the new state.  The atomic
  counters are 64-bit words, as \<open>fetch_add\<close> wraps.
\<close>

subsection \<open>State\<close>

datatype shard_mailbox_create_error = ZeroShards | ZeroCapacity

datatype shard_mailbox_address_error =
    InvalidShard shard_id
  | NotOnShard
  | ReceiverAlreadyTaken shard_id

datatype 'm shard_send_error = SendFull 'm | SendClosed 'm

datatype shard_recv_error = RecvEmpty | RecvClosed

primrec into_message :: "'m shard_send_error \<Rightarrow> 'm" where
  "into_message (SendFull m) = m"
| "into_message (SendClosed m) = m"

record 'm mailbox =
  mb_shard_id :: shard_id
  mb_queue :: "'m list"
  mb_capacity :: nat
  mb_sender_count :: nat
  mb_sender_factory_open :: bool
  mb_receiver_taken :: bool
  mb_receiver_closed :: bool
  mb_recv_waker :: "waker option"
  mb_send_wakers :: "waker list"
  mb_sent :: u64
  mb_received :: u64
  mb_full_rejections :: u64
  mb_closed_rejections :: u64

record mailbox_snapshot =
  ms_shard_id :: shard_id
  ms_capacity :: nat
  ms_len :: nat
  ms_sender_count :: nat
  ms_receiver_taken :: bool
  ms_receiver_closed :: bool
  ms_sent :: u64
  ms_received :: u64
  ms_full_rejections :: u64
  ms_closed_rejections :: u64
  ms_send_waiter_count :: nat

definition mailbox_new :: "shard_id \<Rightarrow> nat \<Rightarrow> 'm mailbox" where
  "mailbox_new sid capacity =
     \<lparr>mb_shard_id = sid, mb_queue = [], mb_capacity = capacity, mb_sender_count = 0,
      mb_sender_factory_open = True, mb_receiver_taken = False, mb_receiver_closed = False,
      mb_recv_waker = None, mb_send_wakers = [], mb_sent = 0, mb_received = 0,
      mb_full_rejections = 0, mb_closed_rejections = 0\<rparr>"

subsection \<open>Operations under the mutex\<close>

definition mb_try_send ::
  "'m \<Rightarrow> 'm mailbox \<Rightarrow> ('m shard_send_error + unit) \<times> waker list \<times> 'm mailbox" where
  "mb_try_send message s =
     (if mb_receiver_closed s then
        (Inl (SendClosed message), [], s\<lparr>mb_closed_rejections := mb_closed_rejections s + 1\<rparr>)
      else if length (mb_queue s) = mb_capacity s then
        (Inl (SendFull message), [], s\<lparr>mb_full_rejections := mb_full_rejections s + 1\<rparr>)
      else
        (Inr (), opt_list (mb_recv_waker s),
         s\<lparr>mb_queue := mb_queue s @ [message], mb_sent := mb_sent s + 1,
           mb_recv_waker := None\<rparr>))"

definition mb_no_more :: "'m mailbox \<Rightarrow> bool" where
  "mb_no_more s \<longleftrightarrow>
     mb_receiver_closed s \<or> (\<not> mb_sender_factory_open s \<and> mb_sender_count s = 0)"

definition mb_try_recv ::
  "'m mailbox \<Rightarrow> (shard_recv_error + 'm) \<times> waker list \<times> 'm mailbox" where
  "mb_try_recv s =
     (case mb_queue s of
        message # rest \<Rightarrow>
          (Inr message, take 1 (mb_send_wakers s),
           s\<lparr>mb_queue := rest, mb_received := mb_received s + 1,
             mb_send_wakers := drop 1 (mb_send_wakers s)\<rparr>)
      | [] \<Rightarrow>
          (if mb_no_more s then (Inl RecvClosed, [], s) else (Inl RecvEmpty, [], s)))"

definition mb_poll_recv ::
  "waker \<Rightarrow> 'm mailbox \<Rightarrow> (shard_recv_error + 'm) poll \<times> waker list \<times> 'm mailbox" where
  "mb_poll_recv cx s =
     (case mb_queue s of
        message # rest \<Rightarrow>
          (Ready (Inr message), take 1 (mb_send_wakers s),
           s\<lparr>mb_queue := rest, mb_received := mb_received s + 1,
             mb_send_wakers := drop 1 (mb_send_wakers s)\<rparr>)
      | [] \<Rightarrow>
          (if mb_no_more s then (Ready (Inl RecvClosed), [], s)
           else
             (Pending, [],
              (if mb_recv_waker s = Some cx then s else s\<lparr>mb_recv_waker := Some cx\<rparr>))))"

definition mb_close_receiver :: "'m mailbox \<Rightarrow> waker list \<times> 'm mailbox" where
  "mb_close_receiver s =
     (if mb_receiver_closed s then ([], s)
      else (opt_list (mb_recv_waker s) @ mb_send_wakers s,
            s\<lparr>mb_receiver_closed := True, mb_recv_waker := None, mb_send_wakers := []\<rparr>))"

definition mb_drop_sender :: "'m mailbox \<Rightarrow> waker list \<times> 'm mailbox" where
  "mb_drop_sender s =
     (let n = mb_sender_count s - 1; s' = s\<lparr>mb_sender_count := n\<rparr>
      in if \<not> mb_sender_factory_open s \<and> n = 0 \<and> mb_queue s = [] then
           (opt_list (mb_recv_waker s), s'\<lparr>mb_recv_waker := None\<rparr>)
         else ([], s'))"

definition mb_close_sender_factory :: "'m mailbox \<Rightarrow> waker list \<times> 'm mailbox" where
  "mb_close_sender_factory s =
     (if \<not> mb_sender_factory_open s then ([], s)
      else
        let s' = s\<lparr>mb_sender_factory_open := False\<rparr>
        in if mb_sender_count s = 0 \<and> mb_queue s = [] then
             (opt_list (mb_recv_waker s), s'\<lparr>mb_recv_waker := None\<rparr>)
           else ([], s'))"

text \<open>\<open>ShardSend\<close> holds the message while it is pending; polling it after it has completed
  panics.\<close>

definition mb_poll_send ::
  "'m option \<Rightarrow> waker \<Rightarrow> 'm mailbox \<Rightarrow>
   panic + (('m shard_send_error + unit) poll \<times> 'm option \<times> waker list \<times> 'm mailbox)" where
  "mb_poll_send pending cx s =
     (case pending of
        None \<Rightarrow> Inl UnwrapNone
      | Some msg \<Rightarrow>
          Inr (if mb_receiver_closed s then
                 (Ready (Inl (SendClosed msg)), None, [],
                  s\<lparr>mb_closed_rejections := mb_closed_rejections s + 1\<rparr>)
               else if length (mb_queue s) < mb_capacity s then
                 (Ready (Inr ()), None, opt_list (mb_recv_waker s),
                  s\<lparr>mb_queue := mb_queue s @ [msg], mb_sent := mb_sent s + 1,
                    mb_recv_waker := None\<rparr>)
               else
                 (Pending, Some msg, [], s\<lparr>mb_send_wakers := mb_send_wakers s @ [cx]\<rparr>)))"

definition mb_wake_one_sender :: "'m mailbox \<Rightarrow> waker list \<times> 'm mailbox" where
  "mb_wake_one_sender s =
     (take 1 (mb_send_wakers s), s\<lparr>mb_send_wakers := drop 1 (mb_send_wakers s)\<rparr>)"

definition shard_send_drop :: "'m option \<Rightarrow> 'm mailbox \<Rightarrow> waker list \<times> 'm mailbox" where
  "shard_send_drop pending s =
     (if pending \<noteq> None then mb_wake_one_sender s else ([], s))"

definition mb_add_sender :: "'m mailbox \<Rightarrow> 'm mailbox" where
  "mb_add_sender s = s\<lparr>mb_sender_count := mb_sender_count s + 1\<rparr>"

definition mb_snapshot :: "'m mailbox \<Rightarrow> mailbox_snapshot" where
  "mb_snapshot s =
     \<lparr>ms_shard_id = mb_shard_id s, ms_capacity = mb_capacity s, ms_len = length (mb_queue s),
      ms_sender_count = mb_sender_count s, ms_receiver_taken = mb_receiver_taken s,
      ms_receiver_closed = mb_receiver_closed s, ms_sent = mb_sent s,
      ms_received = mb_received s, ms_full_rejections = mb_full_rejections s,
      ms_closed_rejections = mb_closed_rejections s,
      ms_send_waiter_count = length (mb_send_wakers s)\<rparr>"

subsection \<open>Mailbox sets\<close>

type_synonym 'm mailbox_set = "'m mailbox list"

definition mailbox_set_with_shard_count ::
  "nat \<Rightarrow> nat \<Rightarrow> shard_mailbox_create_error + 'm mailbox_set" where
  "mailbox_set_with_shard_count shard_count capacity_per_shard =
     (if shard_count = 0 then Inl ZeroShards
      else if capacity_per_shard = 0 then Inl ZeroCapacity
      else Inr (map (\<lambda>idx. mailbox_new idx capacity_per_shard) [0..<shard_count]))"

definition mailbox_set_sender_to ::
  "shard_id \<Rightarrow> 'm mailbox_set \<Rightarrow> shard_mailbox_address_error + 'm mailbox_set" where
  "mailbox_set_sender_to sid ms =
     (if sid < length ms then Inr (ms[sid := mb_add_sender (ms ! sid)])
      else Inl (InvalidShard sid))"

definition mailbox_set_receiver_for ::
  "shard_id \<Rightarrow> 'm mailbox_set \<Rightarrow> shard_mailbox_address_error + 'm mailbox_set" where
  "mailbox_set_receiver_for sid ms =
     (if sid < length ms then
        (if mb_receiver_taken (ms ! sid) then Inl (ReceiverAlreadyTaken sid)
         else Inr (ms[sid := (ms ! sid)\<lparr>mb_receiver_taken := True\<rparr>]))
      else Inl (InvalidShard sid))"

definition mailbox_set_receiver_for_current_shard ::
  "shard_id option \<Rightarrow> 'm mailbox_set \<Rightarrow> shard_mailbox_address_error + 'm mailbox_set" where
  "mailbox_set_receiver_for_current_shard current ms =
     (case current of
        None \<Rightarrow> Inl NotOnShard
      | Some sid \<Rightarrow> mailbox_set_receiver_for sid ms)"

definition mailbox_set_snapshots :: "'m mailbox_set \<Rightarrow> mailbox_snapshot list" where
  "mailbox_set_snapshots ms = map mb_snapshot ms"

definition mailbox_set_snapshot ::
  "shard_id \<Rightarrow> 'm mailbox_set \<Rightarrow> shard_mailbox_address_error + mailbox_snapshot" where
  "mailbox_set_snapshot sid ms =
     (if sid < length ms then Inr (mb_snapshot (ms ! sid)) else Inl (InvalidShard sid))"

definition mailbox_set_drop :: "'m mailbox_set \<Rightarrow> waker list \<times> 'm mailbox_set" where
  "mailbox_set_drop ms =
     (concat (map (fst \<circ> mb_close_sender_factory) ms), map (snd \<circ> mb_close_sender_factory) ms)"

subsection \<open>Histories\<close>

datatype 'm mop =
    OpTrySend 'm
  | OpPollSend 'm waker
  | OpDropSend
  | OpTryRecv
  | OpPollRecv waker
  | OpAddSender
  | OpDropSender
  | OpCloseReceiver
  | OpCloseFactory

record 'm mlog =
  ml_box :: "'m mailbox"
  ml_accepted :: "'m list"
  ml_received :: "'m list"
  ml_woken :: "waker list"

definition mlog_recv ::
  "'m mlog \<Rightarrow> (shard_recv_error + 'm) \<Rightarrow> waker list \<Rightarrow> 'm mailbox \<Rightarrow> 'm mlog" where
  "mlog_recv l r ws s =
     l\<lparr>ml_box := s, ml_woken := ml_woken l @ ws,
       ml_received := ml_received l @ (case r of Inl _ \<Rightarrow> [] | Inr m \<Rightarrow> [m])\<rparr>"

fun mop_apply :: "'m mlog \<Rightarrow> 'm mop \<Rightarrow> 'm mlog" where
  "mop_apply l (OpTrySend m) =
     (let (r, ws, s) = mb_try_send m (ml_box l)
      in l\<lparr>ml_box := s, ml_woken := ml_woken l @ ws,
           ml_accepted := ml_accepted l @ (if r = Inr () then [m] else [])\<rparr>)"
| "mop_apply l (OpPollSend m cx) =
     (case mb_poll_send (Some m) cx (ml_box l) of
        Inl p \<Rightarrow> l
      | Inr (r, _, ws, s) \<Rightarrow>
          l\<lparr>ml_box := s, ml_woken := ml_woken l @ ws,
            ml_accepted := ml_accepted l @ (if r = Ready (Inr ()) then [m] else [])\<rparr>)"
| "mop_apply l OpDropSend =
     (let (ws, s) = mb_wake_one_sender (ml_box l)
      in l\<lparr>ml_box := s, ml_woken := ml_woken l @ ws\<rparr>)"
| "mop_apply l OpTryRecv =
     (let (r, ws, s) = mb_try_recv (ml_box l) in mlog_recv l r ws s)"
| "mop_apply l (OpPollRecv cx) =
     (let (r, ws, s) = mb_poll_recv cx (ml_box l)
      in mlog_recv l (case r of Ready x \<Rightarrow> x | Pending \<Rightarrow> Inl RecvEmpty) ws s)"
| "mop_apply l OpAddSender = l\<lparr>ml_box := mb_add_sender (ml_box l)\<rparr>"
| "mop_apply l OpDropSender =
     (let (ws, s) = mb_drop_sender (ml_box l)
      in l\<lparr>ml_box := s, ml_woken := ml_woken l @ ws\<rparr>)"
| "mop_apply l OpCloseReceiver =
     (let (ws, s) = mb_close_receiver (ml_box l)
      in l\<lparr>ml_box := s, ml_woken := ml_woken l @ ws\<rparr>)"
| "mop_apply l OpCloseFactory =
     (let (ws, s) = mb_close_sender_factory (ml_box l)
      in l\<lparr>ml_box := s, ml_woken := ml_woken l @ ws\<rparr>)"

definition mop_run :: "'m mop list \<Rightarrow> 'm mlog \<Rightarrow> 'm mlog" where
  "mop_run ops l = foldl mop_apply l ops"

definition mlog_init :: "shard_id \<Rightarrow> nat \<Rightarrow> 'm mlog" where
  "mlog_init sid capacity =
     \<lparr>ml_box = mailbox_new sid capacity, ml_accepted = [], ml_received = [], ml_woken = []\<rparr>"

fun mb_drain :: "nat \<Rightarrow> 'm mailbox \<Rightarrow> 'm list \<times> shard_recv_error option" where
  "mb_drain 0 s = ([], None)"
| "mb_drain (Suc n) s =
     (case mb_try_recv s of
        (Inl e, _, _) \<Rightarrow> ([], Some e)
      | (Inr m, _, s') \<Rightarrow> (let (ms, e) = mb_drain n s' in (m # ms, e)))"

definition mb_step :: "'m mailbox \<Rightarrow> 'm mop \<Rightarrow> waker list \<times> 'm mailbox" where
  "mb_step s x =
     (let l = mop_apply \<lparr>ml_box = s, ml_accepted = [], ml_received = [], ml_woken = []\<rparr> x
      in (ml_woken l, ml_box l))"

definition mb_recv_ready :: "'m mailbox \<Rightarrow> bool" where
  "mb_recv_ready s \<longleftrightarrow> mb_queue s \<noteq> [] \<or> mb_no_more s"

fun is_poll_recv :: "'m mop \<Rightarrow> bool" where
  "is_poll_recv (OpPollRecv _) = True"
| "is_poll_recv _ = False"

definition mb_inv :: "'m mailbox \<Rightarrow> bool" where
  "mb_inv s \<longleftrightarrow>
     length (mb_queue s) \<le> mb_capacity s \<and>
     mb_sent s = mb_received s + of_nat (length (mb_queue s)) \<and>
     (mb_recv_waker s \<noteq> None \<longrightarrow> mb_queue s = [] \<and> \<not> mb_no_more s) \<and>
     (mb_receiver_closed s \<longrightarrow> mb_send_wakers s = [])"

subsection \<open>The mailbox invariant\<close>

lemmas mb_op_defs =
  mb_try_send_def mb_try_recv_def mb_poll_recv_def mb_poll_send_def mb_close_receiver_def
  mb_drop_sender_def mb_close_sender_factory_def mb_wake_one_sender_def mb_add_sender_def
  mlog_recv_def

lemmas mb_splits = if_splits list.splits option.splits

lemma mb_inv_new [simp]: "mb_inv (mailbox_new sid c)"
  by (simp add: mb_inv_def mailbox_new_def)

lemma mb_inv_try_send [inv_intros]: "mb_inv s \<Longrightarrow> mb_inv (snd (snd (mb_try_send m s)))"
  by (auto simp: mb_inv_def mb_try_send_def mb_no_more_def)

lemma mb_inv_try_recv [inv_intros]: "mb_inv s \<Longrightarrow> mb_inv (snd (snd (mb_try_recv s)))"
  by (auto simp: mb_inv_def mb_try_recv_def mb_no_more_def algebra_simps split: list.splits)

lemma mb_inv_poll_recv [inv_intros]: "mb_inv s \<Longrightarrow> mb_inv (snd (snd (mb_poll_recv cx s)))"
  by (auto simp: mb_inv_def mb_poll_recv_def mb_no_more_def algebra_simps split: list.splits)

lemma mb_inv_poll_send [inv_intros]:
  "mb_inv s \<Longrightarrow> mb_poll_send p cx s = Inr (r, p', ws, s') \<Longrightarrow> mb_inv s'"
  by (auto simp: mb_inv_def mb_poll_send_def mb_no_more_def split: option.splits if_splits)

lemma mb_inv_close_receiver [inv_intros]: "mb_inv s \<Longrightarrow> mb_inv (snd (mb_close_receiver s))"
  by (auto simp: mb_inv_def mb_close_receiver_def)

lemma mb_inv_drop_sender [inv_intros]: "mb_inv s \<Longrightarrow> mb_inv (snd (mb_drop_sender s))"
  by (auto simp: mb_inv_def mb_drop_sender_def mb_no_more_def Let_def)

lemma mb_inv_close_factory [inv_intros]: "mb_inv s \<Longrightarrow> mb_inv (snd (mb_close_sender_factory s))"
  by (auto simp: mb_inv_def mb_close_sender_factory_def mb_no_more_def Let_def)

lemma mb_inv_wake_one [inv_intros]: "mb_inv s \<Longrightarrow> mb_inv (snd (mb_wake_one_sender s))"
  by (auto simp: mb_inv_def mb_wake_one_sender_def mb_no_more_def)

lemma mb_inv_add_sender [inv_intros]: "mb_inv s \<Longrightarrow> mb_inv (mb_add_sender s)"
  by (auto simp: mb_inv_def mb_add_sender_def mb_no_more_def)

lemma mb_inv_apply: "mb_inv (ml_box l) \<Longrightarrow> mb_inv (ml_box (mop_apply l x))"
  by (cases x)
    (auto simp: case_prod_unfold Let_def mlog_recv_def intro: inv_intros split: sum.splits)

lemma mb_capacity_apply [simp]: "mb_capacity (ml_box (mop_apply l x)) = mb_capacity (ml_box l)"
  by (cases x) (auto simp: mb_op_defs Let_def split: mb_splits)

lemma ml_apply_flow:
  assumes "ml_accepted l = ml_received l @ mb_queue (ml_box l)"
  shows "ml_accepted (mop_apply l x) = ml_received (mop_apply l x) @ mb_queue (ml_box (mop_apply l x))"
  using assms by (cases x) (auto simp: mb_op_defs Let_def split: mb_splits)

lemma ml_apply_counters:
  assumes "mb_sent (ml_box l) = of_nat (length (ml_accepted l))"
    and "mb_received (ml_box l) = of_nat (length (ml_received l))"
  shows "mb_sent (ml_box (mop_apply l x)) = of_nat (length (ml_accepted (mop_apply l x)))"
    and "mb_received (ml_box (mop_apply l x)) = of_nat (length (ml_received (mop_apply l x)))"
  using assms by (cases x; auto simp: mb_op_defs Let_def split: mb_splits)+

lemma mb_step_simp: "mb_step s x = (ml_woken (mop_apply \<lparr>ml_box = s, ml_accepted = [],
    ml_received = [], ml_woken = []\<rparr> x), ml_box (mop_apply \<lparr>ml_box = s, ml_accepted = [],
    ml_received = [], ml_woken = []\<rparr> x))"
  by (simp add: mb_step_def Let_def)

interpretation mb_recv: wake_contract mb_inv mb_step "set_option \<circ> mb_recv_waker" mb_recv_ready is_poll_recv
proof
  fix s :: "'a mailbox" and x :: "'a mop"
  assume "mb_inv s"
  then show "mb_inv (snd (mb_step s x))"
    using mb_inv_apply [of "\<lparr>ml_box = s, ml_accepted = [], ml_received = [], ml_woken = []\<rparr>" x]
    by (simp add: mb_step_simp)
next
  fix s :: "'a mailbox" and w
  assume "mb_inv s" "w \<in> (set_option \<circ> mb_recv_waker) s"
  then show "\<not> mb_recv_ready s" by (auto simp: mb_inv_def mb_recv_ready_def)
next
  fix s :: "'a mailbox" and w and x :: "'a mop"
  assume "mb_inv s" "w \<in> (set_option \<circ> mb_recv_waker) s" "\<not> is_poll_recv x"
  then show "w \<in> set (fst (mb_step s x)) \<or> w \<in> (set_option \<circ> mb_recv_waker) (snd (mb_step s x))"
    by (cases x) (auto simp: mb_step_simp mb_op_defs Let_def split: mb_splits)
qed

lemma mb_drain_queue:
  "length (mb_queue s) < n \<Longrightarrow>
   mb_drain n s = (mb_queue s, Some (if mb_no_more s then RecvClosed else RecvEmpty))"
proof (induction n arbitrary: s)
  case (Suc n)
  show ?case
  proof (cases "mb_queue s")
    case Nil
    then show ?thesis by (simp add: mb_try_recv_def)
  next
    case (Cons m ms)
    then show ?thesis
      using Suc.IH [of "s\<lparr>mb_queue := ms, mb_received := mb_received s + 1,
             mb_send_wakers := drop 1 (mb_send_wakers s)\<rparr>"] Suc.prems
      by (simp add: mb_try_recv_def mb_no_more_def)
  qed
qed simp

lemma mop_run_invariant:
  assumes "mb_inv (ml_box l)" "ml_accepted l = ml_received l @ mb_queue (ml_box l)"
    and "mb_sent (ml_box l) = of_nat (length (ml_accepted l))"
    and "mb_received (ml_box l) = of_nat (length (ml_received l))"
    and run: "l' = mop_run ops l"
  shows "mb_inv (ml_box l') \<and> ml_accepted l' = ml_received l' @ mb_queue (ml_box l') \<and>
    mb_sent (ml_box l') = of_nat (length (ml_accepted l')) \<and>
    mb_received (ml_box l') = of_nat (length (ml_received l')) \<and>
    mb_capacity (ml_box l') = mb_capacity (ml_box l)"
  using assms(1-4) unfolding run mop_run_def
proof (induction ops arbitrary: l)
  case (Cons x ops)
  then show ?case
    using Cons.IH [of "mop_apply l x"] mb_inv_apply [of l x] ml_apply_flow [of l x]
      ml_apply_counters [of l x] by simp
qed simp

lemma mop_run_init:
  "mb_inv (ml_box (mop_run ops (mlog_init sid c))) \<and>
   ml_accepted (mop_run ops (mlog_init sid c)) =
     ml_received (mop_run ops (mlog_init sid c)) @ mb_queue (ml_box (mop_run ops (mlog_init sid c))) \<and>
   mb_sent (ml_box (mop_run ops (mlog_init sid c))) =
     of_nat (length (ml_accepted (mop_run ops (mlog_init sid c)))) \<and>
   mb_received (ml_box (mop_run ops (mlog_init sid c))) =
     of_nat (length (ml_received (mop_run ops (mlog_init sid c)))) \<and>
   mb_capacity (ml_box (mop_run ops (mlog_init sid c))) = c"
  using mop_run_invariant [OF _ _ _ _ refl, of "mlog_init sid c" ops]
  by (simp add: mlog_init_def mb_inv_new) (simp add: mailbox_new_def)

subsection \<open>Properties\<close>

text \<open>C4: over every history of sends, receives, handle drops and closes of a mailbox, the
  messages received followed by the messages still queued are exactly the messages accepted, in
  order: nothing is lost, duplicated or reordered.  The queue never exceeds its capacity, and the
  \<open>sent\<close> and \<open>received\<close> counters are the numbers of accepted and received messages modulo
  \<open>2^64\<close>.\<close>

theorem mailbox_fifo:
  "let l = mop_run ops (mlog_init sid c) in
     ml_accepted l = ml_received l @ mb_queue (ml_box l) \<and>
     length (mb_queue (ml_box l)) \<le> c \<and>
     mb_sent (ml_box l) = of_nat (length (ml_accepted l)) \<and>
     mb_received (ml_box l) = of_nat (length (ml_received l))"
  using mop_run_init [of ops sid c] by (auto simp: Let_def mb_inv_def)

text \<open>C29: no receive wakeup is lost.  If a receiver is parked on a mailbox in a reachable
  state, then after any further operations other than its own poll, if a receive would now
  complete, its waker has been called.\<close>

theorem mailbox_recv_no_lost_wakeup:
  assumes "s = ml_box (mop_run ops (mlog_init sid c))" "mb_recv_waker s = Some w"
    and "\<forall>x\<in>set xs. \<not> is_poll_recv x"
    and "wk_run mb_step xs s = (ws, s')" "mb_recv_ready s'"
  shows "w \<in> set ws"
  using mb_recv.no_lost_wakeup [of s w xs] mop_run_init [of ops sid c] assms by simp

theorem mailbox_recv_no_lost_wakeup_witness:
  "mb_recv_waker (ml_box (mop_run [OpAddSender, OpPollRecv 9] (mlog_init 0 1))) = Some 9 \<and>
   9 \<in> set (fst (wk_run mb_step [OpTrySend (5::nat), OpDropSender]
     (ml_box (mop_run [OpAddSender, OpPollRecv 9] (mlog_init 0 1)))))"
  using mailbox_recv_no_lost_wakeup [OF refl, of "[OpAddSender, OpPollRecv 9]" 0 1 9
      "[OpTrySend (5::nat), OpDropSender]"]
  by (simp add: mop_run_def mlog_init_def mailbox_new_def mb_add_sender_def mb_poll_recv_def
      mb_no_more_def mlog_recv_def mb_step_simp mb_try_send_def mb_drop_sender_def mb_recv_ready_def)

text \<open>A mailbox is drained before it reports closure.  After every history, receiving
  repeatedly yields all the accepted messages that have not been received, in order, and then
  \<open>Closed\<close> exactly when the receiver is closed or all senders and the factory are gone, and
  \<open>Empty\<close> otherwise.\<close>

theorem mailbox_drain_before_close:
  "let l = mop_run ops (mlog_init sid c); s = ml_box l in
     mb_drain (Suc c) s = (drop (length (ml_received l)) (ml_accepted l),
       Some (if mb_receiver_closed s \<or> \<not> mb_sender_factory_open s \<and> mb_sender_count s = 0
             then RecvClosed else RecvEmpty))"
  using mop_run_init [of ops sid c] mb_drain_queue [of "ml_box (mop_run ops (mlog_init sid c))" "Suc c"]
  by (auto simp: Let_def mb_inv_def mb_no_more_def)

text \<open>C35: the sender side has no such guarantee.  With capacity one and two senders waiting
  for room, dropping the second pending send calls the waker of the first; when the first polls
  again it queues behind the waker of the dropped send, and the receive that empties the mailbox
  calls only that stale waker.  The first sender stays parked on a mailbox that has room, and
  further receives on the empty mailbox call nobody.\<close>

theorem mailbox_lost_send_wakeup:
  "let full = mop_run [OpAddSender, OpAddSender, OpTrySend (0::nat)] (mlog_init 0 1);
       waiting = mop_run [OpPollSend 1 a, OpPollSend 2 b] full;
       repolled = mop_run [OpDropSend, OpPollSend 1 a] waiting;
       l = mop_run [OpTryRecv, OpTryRecv] repolled
   in ml_woken waiting = [] \<and> ml_woken repolled = [a] \<and> ml_woken l = [a, b] \<and>
      mb_send_wakers (ml_box l) = [a] \<and> mb_queue (ml_box l) = [] \<and>
      ml_received l = [0] \<and> \<not> mb_receiver_closed (ml_box l)"
proof -
  define mb :: "nat list \<Rightarrow> waker list \<Rightarrow> u64 \<Rightarrow> nat mailbox" where
    "mb q ws r = (mailbox_new 0 1)\<lparr>mb_queue := q, mb_sender_count := 2, mb_send_wakers := ws,
       mb_sent := 1, mb_received := r\<rparr>" for q ws r
  define lg where "lg rs ws box =
    \<lparr>ml_box = box, ml_accepted = [0::nat], ml_received = rs, ml_woken = ws\<rparr>" for rs ws box
  have 1: "mop_run [OpAddSender, OpAddSender, OpTrySend 0] (mlog_init 0 1) = lg [] [] (mb [0] [] 0)"
    by (simp add: mop_run_def mlog_init_def mailbox_new_def mb_op_defs mb_def lg_def)
  have 2: "mop_run [OpPollSend 1 a, OpPollSend 2 b] (lg [] [] (mb [0] [] 0)) = lg [] [] (mb [0] [a, b] 0)"
    by (simp add: mop_run_def mailbox_new_def mb_op_defs mb_def lg_def)
  have 3: "mop_run [OpDropSend, OpPollSend 1 a] (lg [] [] (mb [0] [a, b] 0)) = lg [] [a] (mb [0] [b, a] 0)"
    by (simp add: mop_run_def mailbox_new_def mb_op_defs mb_def lg_def)
  have 4: "mop_run [OpTryRecv, OpTryRecv] (lg [] [a] (mb [0] [b, a] 0)) = lg [0] [a, b] (mb [] [a] 1)"
    by (simp add: mop_run_def mailbox_new_def mb_op_defs mb_def lg_def mb_no_more_def)
  show ?thesis
    unfolding Let_def 1 2 3 4 by (simp add: lg_def mb_def mailbox_new_def)
qed

text \<open>A mailbox set has one mailbox per shard, creation fails exactly for zero shards or
  zero capacity, and each shard's receiver can be taken once: the second request is refused with
  \<open>ReceiverAlreadyTaken\<close> whatever senders were created in between, and an unknown shard is refused
  with \<open>InvalidShard\<close>.\<close>

theorem mailbox_set_single_receiver:
  "(case mailbox_set_with_shard_count n c :: shard_mailbox_create_error + 'm mailbox_set of
      Inl e \<Rightarrow> n = 0 \<and> e = ZeroShards \<or> n \<noteq> 0 \<and> c = 0 \<and> e = ZeroCapacity
    | Inr ms \<Rightarrow>
        length ms = n \<and> map mb_shard_id ms = [0..<n] \<and> list_all mb_inv ms \<and>
        (case mailbox_set_receiver_for sid ms of
           Inl e \<Rightarrow> n \<le> sid \<and> e = InvalidShard sid
         | Inr ms' \<Rightarrow>
             sid < n \<and>
             (case mailbox_set_sender_to sid ms' of
                Inl e \<Rightarrow> False
              | Inr ms'' \<Rightarrow> mailbox_set_receiver_for sid ms'' = Inl (ReceiverAlreadyTaken sid))))"
proof (cases "n = 0 \<or> c = 0")
  case True
  then show ?thesis by (auto simp: mailbox_set_with_shard_count_def)
next
  case False
  let ?ms = "map (\<lambda>idx. mailbox_new idx c) [0..<n] :: 'm mailbox list"
  have ids: "map mb_shard_id ?ms = [0..<n]" "list_all mb_inv ?ms"
    by (simp_all add: comp_def list_all_iff) (simp add: mailbox_new_def)
  have fresh: "\<not> mb_receiver_taken (?ms ! sid)" if "sid < n"
    using that by (simp add: mailbox_new_def)
  show ?thesis
  proof (cases "sid < n")
    case True
    then show ?thesis
      using False ids fresh
      by (simp add: mailbox_set_with_shard_count_def mailbox_set_receiver_for_def
          mailbox_set_sender_to_def mb_add_sender_def del: nth_map_upt)
  next
    case sid: False
    then show ?thesis
      using False ids by (simp add: mailbox_set_with_shard_count_def mailbox_set_receiver_for_def)
  qed
qed

end
