(* ===== verification/Work_Units.thy ===== *)
theory Work_Units
  imports Shard_Mailbox
begin

text \<open>
  The named mailboxes of \<open>shard_mailbox.rs\<close>: \<open>WorkUnitMailboxSet\<close> keeps the work
  units in a vector and an index from names to positions.  The shard of the running
  task (\<open>current_executor_shard\<close>) is an argument.
\<close>

record 'n work_unit_spec =
  wus_name :: 'n
  wus_shard_id :: shard_id

datatype 'n work_unit_create_error =
    NoWorkUnits
  | WuZeroCapacity
  | WuInvalidShard 'n shard_id
  | DuplicateName 'n

datatype 'n work_unit_address_error =
    UnknownWorkUnit 'n
  | WuNotOnShard 'n
  | WrongShard 'n shard_id shard_id
  | WuReceiverAlreadyTaken 'n shard_id

record ('n, 'm) work_unit_set =
  wu_units :: "('n \<times> 'm mailbox) list"
  wu_by_name :: "'n \<Rightarrow> nat option"

record 'n work_unit_snapshot =
  wsn_name :: 'n
  wsn_shard_id :: shard_id
  wsn_mailbox :: mailbox_snapshot

fun wu_build ::
  "nat \<Rightarrow> nat \<Rightarrow> 'n work_unit_spec list \<Rightarrow> ('n, 'm) work_unit_set \<Rightarrow>
   'n work_unit_create_error + ('n, 'm) work_unit_set" where
  "wu_build shard_count capacity [] acc = Inr acc"
| "wu_build shard_count capacity (spec # specs) acc =
     (if shard_count \<le> wus_shard_id spec then
        Inl (WuInvalidShard (wus_name spec) (wus_shard_id spec))
      else if wu_by_name acc (wus_name spec) \<noteq> None then Inl (DuplicateName (wus_name spec))
      else
        wu_build shard_count capacity specs
          \<lparr>wu_units = wu_units acc @ [(wus_name spec, mailbox_new (wus_shard_id spec) capacity)],
           wu_by_name = (wu_by_name acc)(wus_name spec \<mapsto> length (wu_units acc))\<rparr>)"

definition wu_new ::
  "nat \<Rightarrow> 'n work_unit_spec list \<Rightarrow> nat \<Rightarrow>
   'n work_unit_create_error + ('n, 'm) work_unit_set" where
  "wu_new shard_count specs capacity =
     (if capacity = 0 then Inl WuZeroCapacity
      else case wu_build shard_count capacity specs \<lparr>wu_units = [], wu_by_name = Map.empty\<rparr> of
             Inl e \<Rightarrow> Inl e
           | Inr s \<Rightarrow> (if wu_units s = [] then Inl NoWorkUnits else Inr s))"

definition wu_work_unit ::
  "'n \<Rightarrow> ('n, 'm) work_unit_set \<Rightarrow> 'n work_unit_address_error + nat \<times> 'n \<times> 'm mailbox" where
  "wu_work_unit name s =
     (case wu_by_name s name of
        None \<Rightarrow> Inl (UnknownWorkUnit name)
      | Some idx \<Rightarrow> Inr (idx, wu_units s ! idx))"

definition wu_assigned_shard ::
  "'n \<Rightarrow> ('n, 'm) work_unit_set \<Rightarrow> 'n work_unit_address_error + shard_id" where
  "wu_assigned_shard name s =
     (case wu_work_unit name s of Inl e \<Rightarrow> Inl e | Inr (_, _, mb) \<Rightarrow> Inr (mb_shard_id mb))"

definition wu_set_mailbox ::
  "nat \<Rightarrow> 'm mailbox \<Rightarrow> ('n, 'm) work_unit_set \<Rightarrow> ('n, 'm) work_unit_set" where
  "wu_set_mailbox idx mb s = s\<lparr>wu_units := (wu_units s)[idx := (fst (wu_units s ! idx), mb)]\<rparr>"

definition wu_sender_to ::
  "'n \<Rightarrow> ('n, 'm) work_unit_set \<Rightarrow> 'n work_unit_address_error + ('n, 'm) work_unit_set" where
  "wu_sender_to name s =
     (case wu_work_unit name s of
        Inl e \<Rightarrow> Inl e
      | Inr (idx, _, mb) \<Rightarrow> Inr (wu_set_mailbox idx (mb_add_sender mb) s))"

definition wu_receiver_for ::
  "'n \<Rightarrow> ('n, 'm) work_unit_set \<Rightarrow> 'n work_unit_address_error + ('n, 'm) work_unit_set" where
  "wu_receiver_for name s =
     (case wu_work_unit name s of
        Inl e \<Rightarrow> Inl e
      | Inr (idx, _, mb) \<Rightarrow>
          (if mb_receiver_taken mb then Inl (WuReceiverAlreadyTaken name (mb_shard_id mb))
           else Inr (wu_set_mailbox idx (mb\<lparr>mb_receiver_taken := True\<rparr>) s)))"

definition wu_receiver_for_current_shard ::
  "shard_id option \<Rightarrow> 'n \<Rightarrow> ('n, 'm) work_unit_set \<Rightarrow>
   'n work_unit_address_error + ('n, 'm) work_unit_set" where
  "wu_receiver_for_current_shard current name s =
     (case wu_work_unit name s of
        Inl e \<Rightarrow> Inl e
      | Inr (_, _, mb) \<Rightarrow>
          (case current of
             None \<Rightarrow> Inl (WuNotOnShard name)
           | Some current_shard \<Rightarrow>
               (if current_shard \<noteq> mb_shard_id mb then
                  Inl (WrongShard name (mb_shard_id mb) current_shard)
                else wu_receiver_for name s)))"

definition wu_snapshot_of :: "'n \<times> 'm mailbox \<Rightarrow> 'n work_unit_snapshot" where
  "wu_snapshot_of u =
     \<lparr>wsn_name = fst u, wsn_shard_id = mb_shard_id (snd u), wsn_mailbox = mb_snapshot (snd u)\<rparr>"

definition wu_snapshots :: "('n, 'm) work_unit_set \<Rightarrow> 'n work_unit_snapshot list" where
  "wu_snapshots s = map wu_snapshot_of (wu_units s)"

definition wu_snapshot ::
  "'n \<Rightarrow> ('n, 'm) work_unit_set \<Rightarrow> 'n work_unit_address_error + 'n work_unit_snapshot" where
  "wu_snapshot name s =
     (case wu_work_unit name s of Inl e \<Rightarrow> Inl e | Inr (_, u) \<Rightarrow> Inr (wu_snapshot_of u))"

definition wu_drop :: "('n, 'm) work_unit_set \<Rightarrow> waker list \<times> ('n, 'm) work_unit_set" where
  "wu_drop s =
     (concat (map (\<lambda>u. fst (mb_close_sender_factory (snd u))) (wu_units s)),
      s\<lparr>wu_units := map (\<lambda>u. (fst u, snd (mb_close_sender_factory (snd u)))) (wu_units s)\<rparr>)"

definition wu_inv :: "('n, 'm) work_unit_set \<Rightarrow> bool" where
  "wu_inv s \<longleftrightarrow>
     (\<forall>name idx. wu_by_name s name = Some idx \<longleftrightarrow>
        idx < length (wu_units s) \<and> map fst (wu_units s) ! idx = name)"

subsection \<open>The index invariant\<close>

lemma wu_inv_alt:
  "wu_inv s \<longleftrightarrow> (\<forall>name idx. wu_by_name s name = Some idx \<longleftrightarrow>
     idx < length (wu_units s) \<and> fst (wu_units s ! idx) = name)"
  by (simp add: wu_inv_def cong: conj_cong)

lemma wu_invD:
  "wu_inv s \<Longrightarrow>
   wu_by_name s name = Some idx \<longleftrightarrow> idx < length (wu_units s) \<and> fst (wu_units s ! idx) = name"
  by (simp only: wu_inv_alt)

lemma wu_inv_empty: "wu_inv \<lparr>wu_units = [], wu_by_name = Map.empty\<rparr>"
  by (simp add: wu_inv_def)

lemma wu_inv_in:
  assumes "wu_inv s"
  shows "name \<in> fst ` set (wu_units s) \<longleftrightarrow> wu_by_name s name \<noteq> None"
proof
  assume "name \<in> fst ` set (wu_units s)"
  then obtain idx where "idx < length (wu_units s)" "fst (wu_units s ! idx) = name"
    by (auto simp: in_set_conv_nth)
  then show "wu_by_name s name \<noteq> None" using wu_invD [OF assms, of name idx] by simp
next
  assume "wu_by_name s name \<noteq> None"
  then obtain idx where "idx < length (wu_units s)" "fst (wu_units s ! idx) = name"
    using wu_invD [OF assms, of name] by auto
  then show "name \<in> fst ` set (wu_units s)" by (metis nth_mem imageI)
qed

lemma wu_inv_push:
  assumes "wu_inv s" "wu_by_name s name = None"
  shows "wu_inv \<lparr>wu_units = wu_units s @ [(name, mb)],
           wu_by_name = (wu_by_name s)(name \<mapsto> length (wu_units s))\<rparr>"
proof -
  let ?us = "wu_units s @ [(name, mb)]"
  have new: "fst (wu_units s ! idx) \<noteq> name" if "idx < length (wu_units s)" for idx
    using wu_inv_in [OF assms(1), of name] assms(2) that by (metis nth_mem imageI)
  have "((wu_by_name s)(name \<mapsto> length (wu_units s))) n = Some idx \<longleftrightarrow>
      idx < length ?us \<and> fst (?us ! idx) = n" for n idx
  proof (cases "idx < length (wu_units s)")
    case True
    then show ?thesis
      using wu_invD [OF assms(1), of n idx] new by (cases "n = name") (auto simp: nth_append)
  next
    case False
    then show ?thesis
      using wu_invD [OF assms(1), of n idx] by (cases "n = name") (auto simp: nth_append)
  qed
  then show ?thesis by (simp only: wu_inv_alt work_unit_set.simps simp_thms)
qed

lemma wu_set_mailbox_names [simp]:
  "map fst (wu_units (wu_set_mailbox idx mb s)) = map fst (wu_units s)"
proof (rule nth_equalityI)
  fix i assume "i < length (map fst (wu_units (wu_set_mailbox idx mb s)))"
  then show "map fst (wu_units (wu_set_mailbox idx mb s)) ! i = map fst (wu_units s) ! i"
    by (cases "i = idx") (simp_all add: wu_set_mailbox_def)
qed (simp add: wu_set_mailbox_def)

lemma wu_set_mailbox_length [simp]:
  "length (wu_units (wu_set_mailbox idx mb s)) = length (wu_units s)"
  by (simp add: wu_set_mailbox_def)

lemma wu_set_mailbox_by_name [simp]: "wu_by_name (wu_set_mailbox idx mb s) = wu_by_name s"
  by (simp add: wu_set_mailbox_def)

lemma wu_inv_set_mailbox [inv_intros]: "wu_inv s \<Longrightarrow> wu_inv (wu_set_mailbox idx mb s)"
  by (simp only: wu_inv_def wu_set_mailbox_names wu_set_mailbox_length wu_set_mailbox_by_name
      simp_thms)

lemma wu_build_spec:
  "wu_inv acc \<Longrightarrow>
   (\<exists>s. wu_build n c specs acc = Inr s) \<longleftrightarrow>
     (\<forall>sp\<in>set specs. wus_shard_id sp < n) \<and> distinct (map wus_name specs) \<and>
     (\<forall>sp\<in>set specs. wus_name sp \<notin> fst ` set (wu_units acc))"
proof (induction specs arbitrary: acc)
  case (Cons sp specs)
  let ?acc = "\<lparr>wu_units = wu_units acc @ [(wus_name sp, mailbox_new (wus_shard_id sp) c)],
           wu_by_name = (wu_by_name acc)(wus_name sp \<mapsto> length (wu_units acc))\<rparr>"
  show ?case
  proof (cases "wu_by_name acc (wus_name sp)")
    case None
    then have "wu_inv ?acc" by (rule wu_inv_push [OF Cons.prems])
    from Cons.IH [OF this] None wu_inv_in [OF Cons.prems, of "wus_name sp"] show ?thesis
      by (simp add: image_iff not_le ball_conj_distrib) (blast dest: sym)
  next
    case (Some idx)
    then show ?thesis
      using wu_inv_in [OF Cons.prems, of "wus_name sp"] by simp
  qed
qed simp

lemma wu_build_units:
  "wu_inv acc \<Longrightarrow> wu_build n c specs acc = Inr s \<Longrightarrow>
   wu_inv s \<and> wu_units s = wu_units acc @
     map (\<lambda>sp. (wus_name sp, mailbox_new (wus_shard_id sp) c)) specs"
proof (induction specs arbitrary: acc)
  case (Cons sp specs)
  then show ?case
    using Cons.IH [OF wu_inv_push [of acc "wus_name sp"]] by (auto split: if_splits)
qed simp

lemma wu_new_ok:
  "wu_new n specs c = Inr s \<Longrightarrow>
   wu_inv s \<and> wu_units s = map (\<lambda>sp. (wus_name sp, mailbox_new (wus_shard_id sp) c)) specs"
  using wu_build_units [OF wu_inv_empty, of n c specs s]
  by (simp add: wu_new_def split: if_splits sum.splits)

lemma wu_work_unit_iff:
  assumes "wu_inv s"
  shows "wu_work_unit name s = Inr (idx, u) \<longleftrightarrow>
    idx < length (wu_units s) \<and> u = wu_units s ! idx \<and> fst u = name"
proof -
  have "wu_work_unit name s = Inr (idx, u) \<longleftrightarrow> wu_by_name s name = Some idx \<and> u = wu_units s ! idx"
    by (auto simp: wu_work_unit_def split: option.splits)
  then show ?thesis using wu_invD [OF assms] by auto
qed

lemma wu_set_mailbox_lookup:
  assumes "wu_inv s" "wu_work_unit name s = Inr (idx, n, mb)"
  shows "wu_work_unit name (wu_set_mailbox idx mb' s) = Inr (idx, name, mb')"
proof -
  from assms have "idx < length (wu_units s)" "fst (wu_units s ! idx) = name"
    using wu_work_unit_iff [OF assms(1), of name idx "(n, mb)"] by (simp, metis fst_conv)
  then show ?thesis
    by (simp add: wu_work_unit_iff wu_inv_set_mailbox assms(1)) (simp add: wu_set_mailbox_def)
qed

lemma wu_assigned_shard_iff:
  assumes "wu_inv s"
  shows "wu_assigned_shard name s = Inr i \<longleftrightarrow>
    (\<exists>idx<length (wu_units s). fst (wu_units s ! idx) = name \<and> mb_shard_id (snd (wu_units s ! idx)) = i)"
proof (cases "wu_by_name s name")
  case None
  then have "wu_assigned_shard name s = Inl (UnknownWorkUnit name)"
    by (simp add: wu_assigned_shard_def wu_work_unit_def)
  moreover have "fst (wu_units s ! idx) \<noteq> name" if "idx < length (wu_units s)" for idx
    using wu_invD [OF assms, of name idx] None that by simp
  ultimately show ?thesis by auto
next
  case (Some idx)
  then have a: "wu_assigned_shard name s = Inr (mb_shard_id (snd (wu_units s ! idx)))"
    by (simp add: wu_assigned_shard_def wu_work_unit_def split_beta)
  have "idx' < length (wu_units s) \<and> fst (wu_units s ! idx') = name \<longleftrightarrow> idx' = idx" for idx'
    using wu_invD [OF assms, of name idx'] Some by auto
  then show ?thesis by (metis a Inr_inject)
qed

subsection \<open>Properties\<close>

text \<open>A work-unit mailbox set is created exactly when the capacity is positive, at least
  one work unit is given, every work unit names a shard of the runtime and no name occurs twice;
  then the shard assigned to a name is the one of its specification, and the names that no
  specification has are refused.\<close>

theorem work_units_new_spec:
  "((\<exists>s. wu_new n specs c = Inr (s :: ('n, 'm) work_unit_set)) \<longleftrightarrow>
      c \<noteq> 0 \<and> specs \<noteq> [] \<and> (\<forall>sp\<in>set specs. wus_shard_id sp < n) \<and> distinct (map wus_name specs)) \<and>
   (case wu_new n specs c of
      Inl e \<Rightarrow> True
    | Inr (s :: ('n, 'm) work_unit_set) \<Rightarrow>
        (wu_assigned_shard name s = Inr i \<longleftrightarrow> \<lparr>wus_name = name, wus_shard_id = i\<rparr> \<in> set specs) \<and>
        (name \<notin> wus_name ` set specs \<longrightarrow> wu_assigned_shard name s = Inl (UnknownWorkUnit name)))"
proof (intro conjI)
  let ?e = "\<lparr>wu_units = [], wu_by_name = Map.empty\<rparr> :: ('n, 'm) work_unit_set"
  have len: "wu_units s = [] \<longleftrightarrow> specs = []" if "wu_build n c specs ?e = Inr s" for s
    using wu_build_units [OF wu_inv_empty that] by simp
  have "(\<exists>s. wu_new n specs c = Inr (s :: ('n, 'm) work_unit_set)) \<longleftrightarrow>
      c \<noteq> 0 \<and> specs \<noteq> [] \<and> (\<exists>s. wu_build n c specs ?e = Inr s)"
    using len by (auto simp: wu_new_def split: sum.splits)
  then show "(\<exists>s. wu_new n specs c = Inr (s :: ('n, 'm) work_unit_set)) \<longleftrightarrow>
      c \<noteq> 0 \<and> specs \<noteq> [] \<and> (\<forall>sp\<in>set specs. wus_shard_id sp < n) \<and> distinct (map wus_name specs)"
    by (simp add: wu_build_spec [OF wu_inv_empty])
  show "case wu_new n specs c of
      Inl e \<Rightarrow> True
    | Inr (s :: ('n, 'm) work_unit_set) \<Rightarrow>
        (wu_assigned_shard name s = Inr i \<longleftrightarrow> \<lparr>wus_name = name, wus_shard_id = i\<rparr> \<in> set specs) \<and>
        (name \<notin> wus_name ` set specs \<longrightarrow> wu_assigned_shard name s = Inl (UnknownWorkUnit name))"
  proof (cases "wu_new n specs c :: 'n work_unit_create_error + ('n, 'm) work_unit_set")
    case (Inr s)
    from wu_new_ok [OF this] have inv: "wu_inv s"
      and u: "wu_units s = map (\<lambda>sp. (wus_name sp, mailbox_new (wus_shard_id sp) c)) specs" by auto
    have "\<lparr>wus_name = name, wus_shard_id = i\<rparr> \<in> set specs \<longleftrightarrow>
        (\<exists>idx<length specs. wus_name (specs ! idx) = name \<and> wus_shard_id (specs ! idx) = i)"
      by (auto simp: in_set_conv_nth)
    then have 1: "wu_assigned_shard name s = Inr i \<longleftrightarrow>
      \<lparr>wus_name = name, wus_shard_id = i\<rparr> \<in> set specs"
      by (auto simp: wu_assigned_shard_iff [OF inv] u mailbox_new_def)
    have "wu_by_name s name = None" if "name \<notin> wus_name ` set specs"
      using wu_inv_in [OF inv, of name] that by (auto simp: u image_iff)
    then have 2: "wu_assigned_shard name s = Inl (UnknownWorkUnit name)"
      if "name \<notin> wus_name ` set specs"
      using that by (simp add: wu_assigned_shard_def wu_work_unit_def)
    show ?thesis using 1 2 Inr by simp
  qed simp
qed

theorem work_units_new_spec_witness:
  "\<exists>s :: (nat, bool) work_unit_set.
     wu_new 2 [\<lparr>wus_name = 7, wus_shard_id = 1\<rparr>] 4 = Inr s \<and> wu_assigned_shard 7 s = Inr 1 \<and>
     wu_assigned_shard 9 s = Inl (UnknownWorkUnit 9)"
proof -
  let ?specs = "[\<lparr>wus_name = 7, wus_shard_id = 1\<rparr>] :: nat work_unit_spec list"
  have "\<exists>s :: (nat, bool) work_unit_set. wu_new 2 ?specs 4 = Inr s"
    using work_units_new_spec [where 'm = bool, of 2 ?specs 4] by simp
  then obtain s :: "(nat, bool) work_unit_set" where s: "wu_new 2 ?specs 4 = Inr s" by blast
  show ?thesis
    using work_units_new_spec [where 'm = bool, of 2 ?specs 4 7 1]
      work_units_new_spec [where 'm = bool, of 2 ?specs 4 9 1] s
    by (intro exI [of _ s]) simp
qed

text \<open>The receiver of a work unit is only handed to a task that runs on the assigned shard,
  and only once: if the request for \<open>name\<close> from \<open>current\<close> succeeds, \<open>current\<close> is the shard
  assigned to \<open>name\<close>, and the same request then fails with \<open>ReceiverAlreadyTaken\<close>.\<close>

theorem work_units_receiver_once:
  assumes "wu_inv s" "wu_receiver_for_current_shard current name s = Inr s'"
  shows "(\<exists>i. current = Some i \<and> wu_assigned_shard name s = Inr i \<and>
    wu_receiver_for_current_shard current name s' = Inl (WuReceiverAlreadyTaken name i)) \<and> wu_inv s'"
proof -
  from assms(2) obtain idx n mb i where u: "wu_work_unit name s = Inr (idx, n, mb)"
    and i: "current = Some i" "mb_shard_id mb = i" "\<not> mb_receiver_taken mb"
    and s': "s' = wu_set_mailbox idx (mb\<lparr>mb_receiver_taken := True\<rparr>) s"
    by (auto simp: wu_receiver_for_current_shard_def wu_receiver_for_def
        split: sum.splits option.splits if_splits)
  have "wu_work_unit name s' = Inr (idx, name, mb\<lparr>mb_receiver_taken := True\<rparr>)"
    using wu_set_mailbox_lookup [OF assms(1) u] s' by simp
  then show ?thesis
    using u i s' assms(1)
    by (auto simp: wu_receiver_for_current_shard_def wu_receiver_for_def wu_assigned_shard_def
        intro: inv_intros)
qed

theorem work_units_receiver_once_witness:
  "\<exists>s s' :: (nat, bool) work_unit_set.
     wu_new 2 [\<lparr>wus_name = 7, wus_shard_id = 1\<rparr>, \<lparr>wus_name = 8, wus_shard_id = 1\<rparr>] 4 = Inr s \<and>
     wu_receiver_for_current_shard (Some 1) 8 s = Inr s' \<and>
     wu_receiver_for_current_shard (Some 1) 8 s' = Inl (WuReceiverAlreadyTaken 8 1)"
proof -
  let ?specs = "[\<lparr>wus_name = 7, wus_shard_id = 1\<rparr>, \<lparr>wus_name = 8, wus_shard_id = 1\<rparr>] :: nat work_unit_spec list"
  obtain s :: "(nat, bool) work_unit_set" where s: "wu_new 2 ?specs 4 = Inr s"
    by (simp add: wu_new_def)
  obtain s' where s': "wu_receiver_for_current_shard (Some 1) 8 s = Inr s'"
    using s by (auto simp: wu_new_def wu_receiver_for_current_shard_def wu_receiver_for_def
        wu_work_unit_def mailbox_new_def)
  from work_units_receiver_once [OF conjunct1 [OF wu_new_ok [OF s]] s']
  have "wu_receiver_for_current_shard (Some 1) 8 s' = Inl (WuReceiverAlreadyTaken 8 1)" by simp
  with s s' show ?thesis by blast
qed

end
