(* ===== verification/Channel.thy ===== *)
theory Channel
  imports Ring_Buffer Wake_Contract
begin

text \<open>
  The bounded inter-shard channel of \<open>shard_runtime.rs\<close>, built on the ring buffer.
  The first part has the operations as functions on the shared state, each run
  without interference; the second part splits them at their atomic accesses
  (the closed flag, the ring, the waker slot) and lets senders, a closer and the
  receiver's poll interleave.
\<close>

subsection \<open>Operations\<close>

datatype shard_channel_error = InvalidCapacity

record 'm channel =
  ch_queue :: "'m ring"
  ch_recv_waker :: "waker option"
  ch_closed :: bool

definition channel_new :: "nat \<Rightarrow> shard_channel_error + 'm channel" where
  "channel_new capacity =
     (if capacity < 2 then Inl InvalidCapacity
      else Inr \<lparr>ch_queue = ring_bounded capacity, ch_recv_waker = None, ch_closed = False\<rparr>)"

definition ch_wake_receiver :: "'m channel \<Rightarrow> waker list \<times> 'm channel" where
  "ch_wake_receiver c = (opt_list (ch_recv_waker c), c\<lparr>ch_recv_waker := None\<rparr>)"

definition ch_try_send ::
  "'m \<Rightarrow> 'm channel \<Rightarrow> panic + (('m + unit) \<times> waker list \<times> 'm channel)" where
  "ch_try_send msg c =
     (if ch_closed c then Inr (Inl msg, [], c)
      else case ring_try_push msg (ch_queue c) of
             Inl p \<Rightarrow> Inl p
           | Inr (Inl m) \<Rightarrow> Inr (Inl m, [], c)
           | Inr (Inr q) \<Rightarrow>
               (let (ws, c') = ch_wake_receiver (c\<lparr>ch_queue := q\<rparr>) in Inr (Inr (), ws, c')))"

definition ch_close :: "'m channel \<Rightarrow> waker list \<times> 'm channel" where
  "ch_close c = ch_wake_receiver (c\<lparr>ch_closed := True\<rparr>)"

definition ch_try_recv :: "'m channel \<Rightarrow> panic + ('m option \<times> 'm channel)" where
  "ch_try_recv c =
     (case ring_pop (ch_queue c) of
        Inl p \<Rightarrow> Inl p
      | Inr None \<Rightarrow> Inr (None, c)
      | Inr (Some (m, q)) \<Rightarrow> Inr (Some m, c\<lparr>ch_queue := q\<rparr>))"

definition ch_poll_recv :: "waker \<Rightarrow> 'm channel \<Rightarrow> panic + ('m option poll \<times> 'm channel)" where
  "ch_poll_recv cx c =
     (case ch_try_recv c of
        Inl p \<Rightarrow> Inl p
      | Inr (Some m, c1) \<Rightarrow> Inr (Ready (Some m), c1)
      | Inr (None, c1) \<Rightarrow>
          (if ch_closed c1 then Inr (Ready None, c1)
           else
             let c2 = c1\<lparr>ch_recv_waker := Some cx\<rparr>
             in case ch_try_recv c2 of
                  Inl p \<Rightarrow> Inl p
                | Inr (Some m, c3) \<Rightarrow> Inr (Ready (Some m), c3)
                | Inr (None, c3) \<Rightarrow>
                    (if ch_closed c3 then Inr (Ready None, c3) else Inr (Pending, c3))))"

datatype 'm cop = CSend 'm | CClose | CTryRecv | CPollRecv waker

definition ch_step :: "'m channel \<Rightarrow> 'm cop \<Rightarrow> waker list \<times> 'm channel" where
  "ch_step c x =
     (case x of
        CSend m \<Rightarrow> (case ch_try_send m c of Inl p \<Rightarrow> ([], c) | Inr (_, ws, c') \<Rightarrow> (ws, c'))
      | CClose \<Rightarrow> ch_close c
      | CTryRecv \<Rightarrow> (case ch_try_recv c of Inl p \<Rightarrow> ([], c) | Inr (_, c') \<Rightarrow> ([], c'))
      | CPollRecv cx \<Rightarrow> (case ch_poll_recv cx c of Inl p \<Rightarrow> ([], c) | Inr (_, c') \<Rightarrow> ([], c')))"

definition ch_recv_ready :: "'m channel \<Rightarrow> bool" where
  "ch_recv_ready c \<longleftrightarrow> ring_items (ch_queue c) \<noteq> [] \<or> ch_closed c"

definition ch_inv :: "'m channel \<Rightarrow> bool" where
  "ch_inv c \<longleftrightarrow> ring_ok (ch_queue c) \<and> (ch_recv_waker c \<noteq> None \<longrightarrow> \<not> ch_recv_ready c)"

fun is_cpoll :: "'m cop \<Rightarrow> bool" where
  "is_cpoll (CPollRecv _) = True"
| "is_cpoll _ = False"

subsection \<open>Interleaved senders, closer and receiver\<close>

datatype 'm rx_pc =
    RxIdle
  | RxClosed1
  | RxRegister
  | RxPop2
  | RxClosed2
  | RxParked
  | RxReady "'m option"

text \<open>\<open>rx_checked\<close> counts senders that have read the closed flag as false and not pushed yet;
  \<open>rx_due\<close> counts senders and closers that still have to call \<open>wake_receiver\<close>.
  \<open>rx_woken\<close> says that the receiving task has been woken since its poll began.\<close>

record 'm rx =
  rx_queue :: "'m list"
  rx_bound :: nat
  rx_closed :: bool
  rx_waker :: bool
  rx_woken :: bool
  rx_checked :: nat
  rx_due :: nat
  rx_pc :: "'m rx_pc"

definition rx_init :: "nat \<Rightarrow> 'm rx" where
  "rx_init b = \<lparr>rx_queue = [], rx_bound = b, rx_closed = False, rx_waker = False, rx_woken = False,
     rx_checked = 0, rx_due = 0, rx_pc = RxIdle\<rparr>"

inductive rx_step :: "'m rx \<Rightarrow> 'm rx \<Rightarrow> bool" where
  send_check:
    "\<not> rx_closed s \<Longrightarrow> rx_step s (s\<lparr>rx_checked := rx_checked s + 1\<rparr>)"
| send_full:
    "0 < rx_checked s \<Longrightarrow> rx_bound s \<le> length (rx_queue s) \<Longrightarrow>
     rx_step s (s\<lparr>rx_checked := rx_checked s - 1\<rparr>)"
| send_push:
    "0 < rx_checked s \<Longrightarrow> length (rx_queue s) < rx_bound s \<Longrightarrow>
     rx_step s (s\<lparr>rx_checked := rx_checked s - 1, rx_queue := rx_queue s @ [m],
       rx_due := rx_due s + 1\<rparr>)"
| close_store:
    "rx_step s (s\<lparr>rx_closed := True, rx_due := rx_due s + 1\<rparr>)"
| wake_receiver:
    "0 < rx_due s \<Longrightarrow>
     rx_step s (s\<lparr>rx_due := rx_due s - 1, rx_waker := False, rx_woken := rx_woken s \<or> rx_waker s\<rparr>)"
| poll_pop_some:
    "rx_pc s = RxIdle \<or> rx_pc s = RxParked \<Longrightarrow> rx_queue s = m # q \<Longrightarrow>
     rx_step s (s\<lparr>rx_queue := q, rx_woken := False, rx_pc := RxReady (Some m)\<rparr>)"
| poll_pop_none:
    "rx_pc s = RxIdle \<or> rx_pc s = RxParked \<Longrightarrow> rx_queue s = [] \<Longrightarrow>
     rx_step s (s\<lparr>rx_woken := False, rx_pc := RxClosed1\<rparr>)"
| poll_closed1:
    "rx_pc s = RxClosed1 \<Longrightarrow>
     rx_step s (s\<lparr>rx_pc := if rx_closed s then RxReady None else RxRegister\<rparr>)"
| poll_register:
    "rx_pc s = RxRegister \<Longrightarrow> rx_step s (s\<lparr>rx_waker := True, rx_pc := RxPop2\<rparr>)"
| poll_pop2_some:
    "rx_pc s = RxPop2 \<Longrightarrow> rx_queue s = m # q \<Longrightarrow>
     rx_step s (s\<lparr>rx_queue := q, rx_pc := RxReady (Some m)\<rparr>)"
| poll_pop2_none:
    "rx_pc s = RxPop2 \<Longrightarrow> rx_queue s = [] \<Longrightarrow> rx_step s (s\<lparr>rx_pc := RxClosed2\<rparr>)"
| poll_closed2:
    "rx_pc s = RxClosed2 \<Longrightarrow>
     rx_step s (s\<lparr>rx_pc := if rx_closed s then RxReady None else RxParked\<rparr>)"
| next_recv:
    "rx_pc s = RxReady (Some m) \<Longrightarrow> rx_step s (s\<lparr>rx_pc := RxIdle\<rparr>)"

definition rx_inv :: "'m rx \<Rightarrow> bool" where
  "rx_inv s \<longleftrightarrow>
     length (rx_queue s) \<le> rx_bound s \<and>
     (rx_pc s \<in> {RxPop2, RxClosed2, RxParked} \<longrightarrow> rx_waker s \<or> rx_woken s) \<and>
     (rx_pc s \<in> {RxClosed2, RxParked} \<and> rx_queue s \<noteq> [] \<longrightarrow> 0 < rx_due s \<or> rx_woken s) \<and>
     (rx_pc s = RxParked \<and> rx_closed s \<longrightarrow> 0 < rx_due s \<or> rx_woken s)"

subsection \<open>Laws of the operations\<close>

lemma ch_try_recv_ok:
  assumes "ch_inv c"
  obtains (empty) "ch_try_recv c = Inr (None, c)" "ring_items (ch_queue c) = []"
    | (some) m q where "ch_try_recv c = Inr (Some m, c\<lparr>ch_queue := q\<rparr>)" "ring_ok q"
      "ring_items (ch_queue c) = m # ring_items q" "ring_bound q = ring_bound (ch_queue c)"
proof -
  from assms have "ring_ok (ch_queue c)" by (simp add: ch_inv_def)
  then show ?thesis
    by (cases rule: ring_queue.pop_cases [of "ch_queue c"])
      (auto simp: ch_try_recv_def intro: empty some)
qed

lemma ch_try_send_ok:
  assumes "ch_inv c"
  obtains (closed) "ch_try_send m c = Inr (Inl m, [], c)" "ch_closed c"
    | (full) "ch_try_send m c = Inr (Inl m, [], c)" "\<not> ch_closed c"
      "ring_bound (ch_queue c) \<le> length (ring_items (ch_queue c))"
    | (sent) q where
      "ch_try_send m c =
         Inr (Inr (), opt_list (ch_recv_waker c), c\<lparr>ch_queue := q, ch_recv_waker := None\<rparr>)"
      "\<not> ch_closed c" "ring_ok q" "ring_items q = ring_items (ch_queue c) @ [m]"
      "ring_bound q = ring_bound (ch_queue c)"
      "length (ring_items (ch_queue c)) < ring_bound (ch_queue c)"
proof (cases "ch_closed c")
  case True
  then show ?thesis by (intro closed) (simp_all add: ch_try_send_def)
next
  case False
  from assms have "ring_ok (ch_queue c)" by (simp add: ch_inv_def)
  then show ?thesis
  proof (cases rule: ring_queue.push_cases [of "ch_queue c" m])
    case (room q')
    then show ?thesis
      using False by (intro sent [of q']) (simp_all add: ch_try_send_def ch_wake_receiver_def)
  next
    case full: full
    then show ?thesis using False by (intro that(2)) (simp_all add: ch_try_send_def)
  qed
qed

lemma ch_poll_recv_ok:
  assumes "ch_inv c"
  obtains (some) m q where "ch_poll_recv cx c = Inr (Ready (Some m), c\<lparr>ch_queue := q\<rparr>)"
      "ring_ok q" "ring_items (ch_queue c) = m # ring_items q"
    | (closed) "ch_poll_recv cx c = Inr (Ready None, c)" "ring_items (ch_queue c) = []"
      "ch_closed c"
    | (pending) "ch_poll_recv cx c = Inr (Pending, c\<lparr>ch_recv_waker := Some cx\<rparr>)"
      "ring_items (ch_queue c) = []" "\<not> ch_closed c"
  using assms
proof (cases rule: ch_try_recv_ok)
  case empty
  then have "ring_pop (ch_queue c) = Inr None"
    using assms by (auto simp: ch_inv_def intro: ring_queue.pop_nil)
  then have "ch_try_recv (c\<lparr>ch_recv_waker := Some cx\<rparr>) = Inr (None, c\<lparr>ch_recv_waker := Some cx\<rparr>)"
    by (simp add: ch_try_recv_def)
  with empty show ?thesis
    by (cases "ch_closed c") (auto simp: ch_poll_recv_def intro: closed pending)
next
  case (some m q)
  then show ?thesis by (intro that(1)) (auto simp: ch_poll_recv_def)
qed

lemma ch_inv_new: "channel_new n = Inr c \<Longrightarrow> ch_inv c"
  by (auto simp: channel_new_def ch_inv_def split: if_splits
      intro!: ring_rep_ok [OF ring_bounded_rep])

lemma ch_inv_not_ready: "ch_inv c \<Longrightarrow> ch_recv_waker c = Some w \<Longrightarrow> \<not> ch_recv_ready c"
  by (simp add: ch_inv_def)

lemma ch_inv_step: "ch_inv c \<Longrightarrow> ch_inv (snd (ch_step c x))"
proof (cases x)
  case (CSend m)
  assume inv: "ch_inv c"
  then show ?thesis
    by (cases rule: ch_try_send_ok [of c m]) (use inv in \<open>auto simp: CSend ch_step_def ch_inv_def\<close>)
next
  case CTryRecv
  assume inv: "ch_inv c"
  then show ?thesis
  proof (cases rule: ch_try_recv_ok)
    case (some m q)
    then have "ch_recv_waker c = None" using inv by (auto simp: ch_inv_def ch_recv_ready_def)
    then show ?thesis using some by (simp add: CTryRecv ch_step_def ch_inv_def)
  qed (use inv in \<open>simp add: CTryRecv ch_step_def\<close>)
next
  case (CPollRecv cx)
  assume inv: "ch_inv c"
  then show ?thesis
  proof (cases rule: ch_poll_recv_ok [of c cx])
    case (some m q)
    then have "ch_recv_waker c = None" using inv by (auto simp: ch_inv_def ch_recv_ready_def)
    then show ?thesis using some by (simp add: CPollRecv ch_step_def ch_inv_def)
  next
    case pending
    then show ?thesis
      using inv by (simp add: CPollRecv ch_step_def ch_inv_def ch_recv_ready_def)
  qed (use inv in \<open>simp add: CPollRecv ch_step_def\<close>)
qed (simp add: ch_step_def ch_close_def ch_wake_receiver_def ch_inv_def)

interpretation ch_recv: wake_contract ch_inv ch_step "set_option \<circ> ch_recv_waker" ch_recv_ready is_cpoll
proof
  fix c :: "'a channel" and w and x :: "'a cop"
  assume inv: "ch_inv c" and "w \<in> (set_option \<circ> ch_recv_waker) c" and np: "\<not> is_cpoll x"
  then have w: "ch_recv_waker c = Some w" by simp
  show "w \<in> set (fst (ch_step c x)) \<or> w \<in> (set_option \<circ> ch_recv_waker) (snd (ch_step c x))"
  proof (cases x)
    case (CSend m)
    then show ?thesis
      using w by (cases rule: ch_try_send_ok [OF inv, of m]) (auto simp: ch_step_def)
  next
    case CClose
    then show ?thesis using w by (simp add: ch_step_def ch_close_def ch_wake_receiver_def)
  next
    case CTryRecv
    then show ?thesis
      using w by (cases rule: ch_try_recv_ok [OF inv]) (auto simp: ch_step_def)
  next
    case (CPollRecv cx)
    with np show ?thesis by simp
  qed
qed (auto intro: ch_inv_step dest: ch_inv_not_ready)

subsection \<open>The interleaved channel\<close>

inductive_cases rx_stepE: "rx_step s s'"

lemma rx_inv_init: "rx_inv (rx_init b)"
  by (simp add: rx_inv_def rx_init_def)

lemma rx_inv_step: "rx_step s s' \<Longrightarrow> rx_inv s \<Longrightarrow> rx_inv s'"
  by (induction rule: rx_step.induct) (auto simp: rx_inv_def)

lemma rx_inv_reachable: "rx_step\<^sup>*\<^sup>* (rx_init b) s \<Longrightarrow> rx_inv s"
  by (induction rule: rtranclp_induct) (auto intro: rx_inv_init rx_inv_step)

subsection \<open>Properties\<close>

text \<open>No operation of a channel in a valid state panics, and the results are those of a
  bounded FIFO: a send is refused with its message exactly when the channel is closed or holds
  \<open>capacity - 1\<close> messages, and appends otherwise; a poll returns the oldest message while there is
  one, then \<open>None\<close> exactly when the channel is closed, and otherwise parks the caller's waker.\<close>

theorem channel_ops_spec:
  assumes "ch_inv c"
  shows "(\<exists>r ws c'. ch_try_send m c = Inr (r, ws, c') \<and> ch_inv c' \<and>
      (if ch_closed c \<or> ring_bound (ch_queue c) \<le> length (ring_items (ch_queue c))
       then r = Inl m \<and> c' = c \<and> ws = []
       else r = Inr () \<and> ring_items (ch_queue c') = ring_items (ch_queue c) @ [m] \<and>
         ws = opt_list (ch_recv_waker c))) \<and>
    (\<exists>r c'. ch_poll_recv cx c = Inr (r, c') \<and> ch_inv c' \<and>
      (case ring_items (ch_queue c) of
         y # ys \<Rightarrow> r = Ready (Some y) \<and> ring_items (ch_queue c') = ys
       | [] \<Rightarrow> (if ch_closed c then r = Ready None \<and> c' = c
               else r = Pending \<and> ch_recv_waker c' = Some cx)))"
proof
  have "ch_inv (snd (ch_step c (CSend m)))" by (rule ch_inv_step [OF assms])
  then show "\<exists>r ws c'. ch_try_send m c = Inr (r, ws, c') \<and> ch_inv c' \<and>
      (if ch_closed c \<or> ring_bound (ch_queue c) \<le> length (ring_items (ch_queue c))
       then r = Inl m \<and> c' = c \<and> ws = []
       else r = Inr () \<and> ring_items (ch_queue c') = ring_items (ch_queue c) @ [m] \<and>
         ws = opt_list (ch_recv_waker c))"
    by (cases rule: ch_try_send_ok [OF assms, of m])
      (auto simp: ch_step_def)
  have "ch_inv (snd (ch_step c (CPollRecv cx)))" by (rule ch_inv_step [OF assms])
  then show "\<exists>r c'. ch_poll_recv cx c = Inr (r, c') \<and> ch_inv c' \<and>
      (case ring_items (ch_queue c) of
         y # ys \<Rightarrow> r = Ready (Some y) \<and> ring_items (ch_queue c') = ys
       | [] \<Rightarrow> (if ch_closed c then r = Ready None \<and> c' = c
               else r = Pending \<and> ch_recv_waker c' = Some cx))"
    by (cases rule: ch_poll_recv_ok [OF assms, of cx]) (auto simp: ch_step_def)
qed

theorem channel_ops_spec_witness:
  "\<exists>c c' :: nat channel. channel_new 2 = Inr c \<and> ch_try_send 4 c = Inr (Inr (), [], c') \<and>
     ring_items (ch_queue c') = [4]"
proof -
  obtain c :: "nat channel" where c: "channel_new 2 = Inr c" by (simp add: channel_new_def)
  then have "\<not> ch_closed c" "ch_recv_waker c = None" "ring_items (ch_queue c) = []"
      "ring_bound (ch_queue c) = 1"
    by (auto simp: channel_new_def ring_items_def ring_len_def ring_bounded_def ring_bound_def)
  with channel_ops_spec [OF ch_inv_new [OF c], of 4 0] c show ?thesis by auto
qed

text \<open>Registering the waker before the second look at the ring and the closed flag is
  enough: in every interleaving of senders, closers and the receiver, a receiver that has parked
  with a message queued, or with the channel closed, either has been woken or will be by a sender
  or closer that has not yet reached \<open>wake_receiver\<close>.\<close>

theorem channel_no_lost_wakeup:
  assumes "rx_step\<^sup>*\<^sup>* (rx_init b) s" "rx_pc s = RxParked" "rx_queue s \<noteq> [] \<or> rx_closed s"
  shows "rx_woken s \<or> 0 < rx_due s"
  using rx_inv_reachable [OF assms(1)] assms(2,3) by (auto simp: rx_inv_def)

text \<open>The witness is the race that the second look is for: the message is pushed after the
  second pop, and the sender has not woken the receiver yet.\<close>

theorem channel_no_lost_wakeup_witness:
  "\<exists>s :: nat rx. rx_step\<^sup>*\<^sup>* (rx_init 1) s \<and> rx_pc s = RxParked \<and> rx_queue s = [3] \<and>
     (rx_woken s \<or> 0 < rx_due s)"
proof -
  define s1 :: "nat rx" where "s1 = (rx_init 1)\<lparr>rx_pc := RxClosed1\<rparr>"
  define s2 where "s2 = s1\<lparr>rx_pc := RxRegister\<rparr>"
  define s3 where "s3 = s2\<lparr>rx_waker := True, rx_pc := RxPop2\<rparr>"
  define s4 where "s4 = s3\<lparr>rx_pc := RxClosed2\<rparr>"
  define s5 where "s5 = s4\<lparr>rx_checked := 1\<rparr>"
  define s6 where "s6 = s5\<lparr>rx_checked := 0, rx_queue := [3], rx_due := 1\<rparr>"
  define s7 where "s7 = s6\<lparr>rx_pc := RxParked\<rparr>"
  note defs = s1_def s2_def s3_def s4_def s5_def s6_def s7_def rx_init_def
  have "rx_step (rx_init 1) s1" using rx_step.poll_pop_none [of "rx_init 1"] by (simp add: defs)
  moreover have "rx_step s1 s2" using rx_step.poll_closed1 [of s1] by (simp add: defs)
  moreover have "rx_step s2 s3" using rx_step.poll_register [of s2] by (simp add: defs)
  moreover have "rx_step s3 s4" using rx_step.poll_pop2_none [of s3] by (simp add: defs)
  moreover have "rx_step s4 s5" using rx_step.send_check [of s4] by (simp add: defs)
  moreover have "rx_step s5 s6" using rx_step.send_push [of s5 3] by (simp add: defs)
  moreover have "rx_step s6 s7" using rx_step.poll_closed2 [of s6] by (simp add: defs)
  ultimately have "rx_step\<^sup>*\<^sup>* (rx_init 1) s7"
    by (meson converse_rtranclp_into_rtranclp rtranclp.rtrancl_refl)
  then show ?thesis
    using channel_no_lost_wakeup [of 1 s7] by (intro exI [of _ s7]) (simp add: defs)
qed

text \<open>C37: draining is not guaranteed under a race with \<open>close\<close>.  Between the receiver's first
  pop, which finds the ring empty, and its load of the closed flag, a sender can push a message and
  close the channel; the poll then reports the end of the channel with the message still queued.\<close>

theorem channel_close_race_loses_message:
  "\<exists>s :: nat rx. rx_step\<^sup>*\<^sup>* (rx_init 1) s \<and> rx_pc s = RxReady None \<and> rx_queue s = [m]"
proof -
  define s1 :: "nat rx" where "s1 = (rx_init 1)\<lparr>rx_pc := RxClosed1\<rparr>"
  define s2 where "s2 = s1\<lparr>rx_checked := 1\<rparr>"
  define s3 where "s3 = s2\<lparr>rx_checked := 0, rx_queue := [m], rx_due := 1\<rparr>"
  define s4 where "s4 = s3\<lparr>rx_due := 0\<rparr>"
  define s5 where "s5 = s4\<lparr>rx_closed := True, rx_due := 1\<rparr>"
  define s6 where "s6 = s5\<lparr>rx_pc := RxReady None\<rparr>"
  note defs = s1_def s2_def s3_def s4_def s5_def s6_def rx_init_def
  have "rx_step (rx_init 1) s1" using rx_step.poll_pop_none [of "rx_init 1"] by (simp add: defs)
  moreover have "rx_step s1 s2" using rx_step.send_check [of s1] by (simp add: defs)
  moreover have "rx_step s2 s3" using rx_step.send_push [of s2 m] by (simp add: defs)
  moreover have "rx_step s3 s4" using rx_step.wake_receiver [of s3] by (simp add: defs)
  moreover have "rx_step s4 s5" using rx_step.close_store [of s4] by (simp add: defs)
  moreover have "rx_step s5 s6" using rx_step.poll_closed1 [of s5] by (simp add: defs)
  ultimately have "rx_step\<^sup>*\<^sup>* (rx_init 1) s6"
    by (meson converse_rtranclp_into_rtranclp rtranclp.rtrancl_refl)
  then show ?thesis by (intro exI [of _ s6]) (simp add: defs)
qed

end
