(* ===== verification/Task_State.thy ===== *)
theory Task_State
  imports Wake_Contract
begin

text \<open>
  The task lifecycle of \<open>executor/task_state.rs\<close> and \<open>executor/task.rs\<close>, with the status
  types of \<open>executor/types.rs\<close>, and the join handle of \<open>executor/join.rs\<close>.  Futures and
  panic handlers are opaque values.  The operations of \<open>TaskState\<close> are functions on the
  record; \<open>task_step\<close> interleaves a poll, which holds the future outside the lock,
  with wakes, cancellations and the closing of the executor, and counts the calls
  of \<open>Scheduler::finish_task\<close>.
\<close>

subsection \<open>Status and snapshots\<close>

datatype task_status = Queued | Polling | Waiting | Completed | Cancelled

datatype task_wait = WaitUnknown | WaitTimer instant | WaitReadable int | WaitWritable int

record task_snapshot =
  tsn_id :: nat
  tsn_name :: "string option"
  tsn_scheduling_group_id :: nat
  tsn_scheduling_group_name :: "string option"
  tsn_status :: task_status
  tsn_waiting_for :: "task_wait option"
  tsn_poll_count :: u64
  tsn_total_poll_time :: duration
  tsn_created_at :: instant
  tsn_last_scheduled_at :: "instant option"
  tsn_last_poll_started_at :: "instant option"
  tsn_last_poll_finished_at :: "instant option"

definition age_at :: "task_snapshot \<Rightarrow> instant \<Rightarrow> duration" where
  "age_at s now = now - tsn_created_at s"

definition time_since_last_scheduled_at :: "task_snapshot \<Rightarrow> instant \<Rightarrow> duration option" where
  "time_since_last_scheduled_at s now = map_option (\<lambda>t. now - t) (tsn_last_scheduled_at s)"

definition time_since_last_poll_started_at :: "task_snapshot \<Rightarrow> instant \<Rightarrow> duration option" where
  "time_since_last_poll_started_at s now = map_option (\<lambda>t. now - t) (tsn_last_poll_started_at s)"

definition time_since_last_poll_finished_at :: "task_snapshot \<Rightarrow> instant \<Rightarrow> duration option" where
  "time_since_last_poll_finished_at s now = map_option (\<lambda>t. now - t) (tsn_last_poll_finished_at s)"

definition state_duration_at :: "task_snapshot \<Rightarrow> instant \<Rightarrow> duration" where
  "state_duration_at s now =
     (let entered =
            (case tsn_status s of
               Queued \<Rightarrow> tsn_last_scheduled_at s
             | Polling \<Rightarrow> tsn_last_poll_started_at s
             | _ \<Rightarrow> tsn_last_poll_finished_at s)
      in now - (case entered of Some t \<Rightarrow> t | None \<Rightarrow> tsn_created_at s))"

subsection \<open>The state and its operations\<close>

record ('f, 'h) task_state =
  ts_future :: "'f option"
  ts_panic_handler :: "'h option"
  ts_queued :: bool
  ts_polling :: bool
  ts_cancel_requested :: bool
  ts_completed :: bool
  ts_poll_count :: u64
  ts_total_poll_time :: duration
  ts_waiting_for :: "task_wait option"
  ts_last_scheduled_at :: "instant option"
  ts_last_poll_started_at :: "instant option"
  ts_last_poll_finished_at :: "instant option"

definition task_state_new :: "'f \<Rightarrow> 'h option \<Rightarrow> ('f, 'h) task_state" where
  "task_state_new future panic_handler =
     \<lparr>ts_future = Some future, ts_panic_handler = panic_handler, ts_queued = False,
      ts_polling = False, ts_cancel_requested = False, ts_completed = False, ts_poll_count = 0,
      ts_total_poll_time = 0, ts_waiting_for = None, ts_last_scheduled_at = None,
      ts_last_poll_started_at = None, ts_last_poll_finished_at = None\<rparr>"

definition take_future_for_poll ::
  "instant \<Rightarrow> ('f, 'h) task_state \<Rightarrow> 'f option \<times> ('f, 'h) task_state" where
  "take_future_for_poll poll_started_at s =
     (let s = s\<lparr>ts_queued := False\<rparr>
      in case ts_future s of
           None \<Rightarrow> (None, s)
         | Some future \<Rightarrow>
             (Some future,
              s\<lparr>ts_future := None, ts_polling := True, ts_waiting_for := None,
                ts_last_poll_started_at := Some poll_started_at,
                ts_poll_count := ts_poll_count s + 1\<rparr>))"

definition finish_ready ::
  "duration \<Rightarrow> instant \<Rightarrow> ('f, 'h) task_state \<Rightarrow> ('f, 'h) task_state" where
  "finish_ready poll_duration poll_finished_at s =
     s\<lparr>ts_polling := False, ts_completed := True, ts_waiting_for := None,
       ts_total_poll_time := ts_total_poll_time s + poll_duration,
       ts_last_poll_finished_at := Some poll_finished_at\<rparr>"

definition finish_pending ::
  "'f \<Rightarrow> duration \<Rightarrow> instant \<Rightarrow> ('f, 'h) task_state \<Rightarrow> bool \<times> ('f, 'h) task_state" where
  "finish_pending future poll_duration poll_finished_at s =
     (let s = s\<lparr>ts_polling := False, ts_total_poll_time := ts_total_poll_time s + poll_duration,
                ts_last_poll_finished_at := Some poll_finished_at\<rparr>;
          s = (if ts_waiting_for s = None then s\<lparr>ts_waiting_for := Some WaitUnknown\<rparr> else s)
      in if ts_cancel_requested s then (True, s\<lparr>ts_completed := True, ts_waiting_for := None\<rparr>)
         else (False, s\<lparr>ts_future := Some future\<rparr>))"

definition finish_panicked ::
  "duration \<Rightarrow> instant \<Rightarrow> ('f, 'h) task_state \<Rightarrow> 'h option \<times> ('f, 'h) task_state" where
  "finish_panicked poll_duration poll_finished_at s =
     (ts_panic_handler s,
      s\<lparr>ts_polling := False, ts_future := None, ts_completed := True, ts_waiting_for := None,
        ts_total_poll_time := ts_total_poll_time s + poll_duration,
        ts_last_poll_finished_at := Some poll_finished_at, ts_panic_handler := None\<rparr>)"

definition mark_queued :: "instant \<Rightarrow> ('f, 'h) task_state \<Rightarrow> bool \<times> ('f, 'h) task_state" where
  "mark_queued now s =
     (if ts_queued s \<or> ts_future s = None \<and> \<not> ts_polling s then (False, s)
      else (True, s\<lparr>ts_queued := True, ts_waiting_for := None, ts_last_scheduled_at := Some now\<rparr>))"

definition cancel :: "('f, 'h) task_state \<Rightarrow> bool option \<times> ('f, 'h) task_state" where
  "cancel s =
     (if ts_future s = None \<and> \<not> ts_polling s then (None, s)
      else
        let s = s\<lparr>ts_cancel_requested := True\<rparr>
        in if ts_polling s then (Some False, s)
           else (Some True, s\<lparr>ts_future := None, ts_queued := False, ts_completed := True,
                   ts_waiting_for := None\<rparr>))"

definition drop_future :: "('f, 'h) task_state \<Rightarrow> ('f, 'h) task_state" where
  "drop_future s =
     (let s = s\<lparr>ts_cancel_requested := True\<rparr>
      in if \<not> ts_polling s then
           s\<lparr>ts_future := None, ts_queued := False, ts_completed := True, ts_waiting_for := None\<rparr>
         else s)"

definition clear_queued :: "('f, 'h) task_state \<Rightarrow> ('f, 'h) task_state" where
  "clear_queued s = s\<lparr>ts_queued := False\<rparr>"

definition set_waiting_for :: "task_wait \<Rightarrow> ('f, 'h) task_state \<Rightarrow> ('f, 'h) task_state" where
  "set_waiting_for w s =
     (if ts_polling s \<and> \<not> ts_completed s then s\<lparr>ts_waiting_for := Some w\<rparr> else s)"

definition task_state_status :: "('f, 'h) task_state \<Rightarrow> task_status" where
  "task_state_status s =
     (if ts_completed s \<and> ts_cancel_requested s then Cancelled
      else if ts_completed s then Completed
      else if ts_polling s then Polling
      else if ts_queued s then Queued
      else Waiting)"

definition task_state_snapshot ::
  "('f, 'h) task_state \<Rightarrow> nat \<Rightarrow> string option \<Rightarrow> nat \<Rightarrow> instant \<Rightarrow> task_snapshot" where
  "task_state_snapshot s tid name group_id created_at =
     \<lparr>tsn_id = tid, tsn_name = name, tsn_scheduling_group_id = group_id,
      tsn_scheduling_group_name = None, tsn_status = task_state_status s,
      tsn_waiting_for = ts_waiting_for s, tsn_poll_count = ts_poll_count s,
      tsn_total_poll_time = ts_total_poll_time s, tsn_created_at = created_at,
      tsn_last_scheduled_at = ts_last_scheduled_at s,
      tsn_last_poll_started_at = ts_last_poll_started_at s,
      tsn_last_poll_finished_at = ts_last_poll_finished_at s\<rparr>"

subsection \<open>A task under concurrent access\<close>

text \<open>\<open>tk_held\<close> is the future that \<open>Task::poll\<close> holds between taking it and finishing the
  poll; \<open>tk_finishes\<close> counts the calls of \<open>Scheduler::finish_task\<close> and \<open>tk_handled\<close> the panic
  handlers called; \<open>tk_closed\<close> says that the executor has dropped the future.\<close>

record ('f, 'h) task =
  tk_state :: "('f, 'h) task_state"
  tk_held :: "'f option"
  tk_finishes :: nat
  tk_handled :: nat
  tk_closed :: bool

definition task_new :: "'f \<Rightarrow> 'h option \<Rightarrow> ('f, 'h) task" where
  "task_new future handler =
     \<lparr>tk_state = task_state_new future handler, tk_held = None, tk_finishes = 0, tk_handled = 0,
      tk_closed = False\<rparr>"

definition task_poll_begin :: "instant \<Rightarrow> ('f, 'h) task \<Rightarrow> ('f, 'h) task" where
  "task_poll_begin now t =
     (case take_future_for_poll now (tk_state t) of
        (None, s) \<Rightarrow> t\<lparr>tk_state := s\<rparr>
      | (Some f, s) \<Rightarrow> t\<lparr>tk_state := s, tk_held := Some f\<rparr>)"

datatype poll_outcome = OutReady | OutPending | OutPanicked

definition task_poll_end ::
  "poll_outcome \<Rightarrow> duration \<Rightarrow> instant \<Rightarrow> ('f, 'h) task \<Rightarrow> ('f, 'h) task" where
  "task_poll_end out d now t =
     (case tk_held t of
        None \<Rightarrow> t
      | Some f \<Rightarrow>
          (case out of
             OutReady \<Rightarrow>
               t\<lparr>tk_state := finish_ready d now (tk_state t), tk_held := None,
                 tk_finishes := tk_finishes t + 1\<rparr>
           | OutPending \<Rightarrow>
               (let (cancelled, s) = finish_pending f d now (tk_state t)
                in t\<lparr>tk_state := s, tk_held := None,
                     tk_finishes := tk_finishes t + (if cancelled then 1 else 0)\<rparr>)
           | OutPanicked \<Rightarrow>
               (let (h, s) = finish_panicked d now (tk_state t)
                in t\<lparr>tk_state := s, tk_held := None, tk_finishes := tk_finishes t + 1,
                     tk_handled := tk_handled t + (if h = None then 0 else 1)\<rparr>)))"

definition task_cancel :: "('f, 'h) task \<Rightarrow> bool \<times> ('f, 'h) task" where
  "task_cancel t =
     (case cancel (tk_state t) of
        (None, s) \<Rightarrow> (False, t)
      | (Some should_finish, s) \<Rightarrow>
          (True, t\<lparr>tk_state := s,
             tk_finishes := tk_finishes t + (if should_finish then 1 else 0)\<rparr>))"

inductive task_step :: "('f, 'h) task \<Rightarrow> ('f, 'h) task \<Rightarrow> bool" where
  ts_poll_begin: "tk_held t = None \<Longrightarrow> task_step t (task_poll_begin now t)"
| ts_poll_end: "tk_held t \<noteq> None \<Longrightarrow> task_step t (task_poll_end out d now t)"
| ts_wake: "task_step t (t\<lparr>tk_state := snd (mark_queued now (tk_state t))\<rparr>)"
| ts_clear: "task_step t (t\<lparr>tk_state := clear_queued (tk_state t)\<rparr>)"
| ts_wait: "task_step t (t\<lparr>tk_state := set_waiting_for w (tk_state t)\<rparr>)"
| ts_cancel: "task_step t (snd (task_cancel t))"
| ts_close: "task_step t (t\<lparr>tk_state := drop_future (tk_state t), tk_closed := True\<rparr>)"

definition task_inv :: "('f, 'h) task \<Rightarrow> bool" where
  "task_inv t \<longleftrightarrow>
     (let s = tk_state t in
        (ts_polling s \<longleftrightarrow> tk_held t \<noteq> None) \<and>
        (ts_polling s \<longrightarrow> ts_future s = None \<and> \<not> ts_completed s) \<and>
        (\<not> ts_polling s \<longrightarrow> (ts_completed s \<longleftrightarrow> ts_future s = None)) \<and>
        (\<not> ts_completed s \<longrightarrow> tk_finishes t = 0 \<and> tk_handled t = 0) \<and>
        (ts_completed s \<longrightarrow> tk_finishes t \<le> 1 \<and> tk_handled t \<le> 1 \<and>
           (tk_closed t \<or> tk_finishes t = 1)))"

subsection \<open>Join handles\<close>

datatype join_error = JoinCanceled | JoinPanic nat

record 'v join_state =
  js_result :: "(join_error + 'v) option"
  js_waker :: "waker option"

definition join_new :: "'v join_state" where
  "join_new = \<lparr>js_result = None, js_waker = None\<rparr>"

definition complete_join ::
  "(join_error + 'v) \<Rightarrow> 'v join_state \<Rightarrow> waker list \<times> 'v join_state" where
  "complete_join result s =
     (if js_result s \<noteq> None then ([], s)
      else (opt_list (js_waker s), \<lparr>js_result = Some result, js_waker = None\<rparr>))"

definition join_poll ::
  "waker \<Rightarrow> 'v join_state \<Rightarrow> (join_error + 'v) poll \<times> 'v join_state" where
  "join_poll cx s =
     (case js_result s of
        Some result \<Rightarrow> (Ready result, s\<lparr>js_result := None\<rparr>)
      | None \<Rightarrow> (Pending, s\<lparr>js_waker := Some cx\<rparr>))"

definition join_abort ::
  "('f, 'h) task \<times> 'v join_state \<Rightarrow> bool \<times> waker list \<times> ('f, 'h) task \<times> 'v join_state" where
  "join_abort x =
     (let (t, s) = x; (ok, t') = task_cancel t
      in if \<not> ok then (False, [], t', s)
         else (let (ws, s') = complete_join (Inl JoinCanceled) s in (True, ws, t', s')))"

datatype 'v jop = JComplete "join_error + 'v" | JPoll waker

definition join_step :: "'v join_state \<Rightarrow> 'v jop \<Rightarrow> waker list \<times> 'v join_state" where
  "join_step s x =
     (case x of JComplete r \<Rightarrow> complete_join r s | JPoll cx \<Rightarrow> ([], snd (join_poll cx s)))"

definition join_inv :: "'v join_state \<Rightarrow> bool" where
  "join_inv s \<longleftrightarrow> js_result s = None \<or> js_waker s = None"

fun is_jpoll :: "'v jop \<Rightarrow> bool" where
  "is_jpoll (JPoll _) = True"
| "is_jpoll (JComplete _) = False"

text \<open>A task and its join state together: the output is stored while the task's future is being
  polled, a panic through the panic handler, an abort by the handle.\<close>

inductive tj_step ::
  "('f, 'h) task \<times> 'v join_state \<Rightarrow> ('f, 'h) task \<times> 'v join_state \<Rightarrow> bool" where
  tj_output: "tk_held t \<noteq> None \<Longrightarrow> tj_step (t, s) (t, snd (complete_join (Inr v) s))"
| tj_panic:
    "tk_held t \<noteq> None \<Longrightarrow> ts_panic_handler (tk_state t) \<noteq> None \<Longrightarrow>
     tj_step (t, s) (task_poll_end OutPanicked d now t, snd (complete_join (Inl (JoinPanic p)) s))"
| tj_abort: "tj_step (t, s) (snd (snd (join_abort (t, s))))"
| tj_task: "task_step t t' \<Longrightarrow> tj_step (t, s) (t', s)"

subsection \<open>Laws\<close>

lemmas task_op_defs =
  take_future_for_poll_def finish_ready_def finish_pending_def finish_panicked_def mark_queued_def
  cancel_def drop_future_def clear_queued_def set_waiting_for_def task_poll_begin_def
  task_poll_end_def task_cancel_def

lemma finish_pending_fields [simp]:
  "fst (finish_pending f d now s) = ts_cancel_requested s"
  "ts_polling (snd (finish_pending f d now s)) = False"
  "ts_queued (snd (finish_pending f d now s)) = ts_queued s"
  "ts_completed (snd (finish_pending f d now s)) = (ts_completed s \<or> ts_cancel_requested s)"
  by (simp_all add: finish_pending_def Let_def)

lemma task_inv_new: "task_inv (task_new f h)"
  by (simp add: task_inv_def task_new_def task_state_new_def)

lemma task_inv_poll_begin: "task_inv t \<Longrightarrow> tk_held t = None \<Longrightarrow> task_inv (task_poll_begin now t)"
  by (auto simp: task_inv_def task_poll_begin_def take_future_for_poll_def Let_def split: option.splits)

lemma task_inv_poll_end: "task_inv t \<Longrightarrow> task_inv (task_poll_end out d now t)"
  by (cases out)
    (auto simp: task_inv_def task_poll_end_def finish_ready_def finish_pending_def
      finish_panicked_def Let_def split: option.splits)

lemma task_inv_cancel: "task_inv t \<Longrightarrow> task_inv (snd (task_cancel t))"
  by (auto simp: task_inv_def task_cancel_def cancel_def Let_def)

lemma task_inv_step: "task_step t t' \<Longrightarrow> task_inv t \<Longrightarrow> task_inv t'"
proof (induction rule: task_step.induct)
  case (ts_close t)
  then show ?case by (auto simp: task_inv_def drop_future_def Let_def)
qed (auto simp: task_inv_poll_begin task_inv_poll_end task_inv_cancel,
    auto simp: task_inv_def mark_queued_def clear_queued_def set_waiting_for_def Let_def)

lemma task_inv_reachable: "task_step\<^sup>*\<^sup>* (task_new f h) t \<Longrightarrow> task_inv t"
  by (induction rule: rtranclp_induct) (auto intro: task_inv_new task_inv_step)

interpretation join_handle:
  wake_contract join_inv join_step "set_option \<circ> js_waker" "\<lambda>s. js_result s \<noteq> None" is_jpoll
proof
  fix s :: "'a join_state" and x :: "'a jop"
  assume "join_inv s"
  then show "join_inv (snd (join_step s x))"
    by (cases x) (auto simp: join_step_def join_inv_def complete_join_def join_poll_def
        split: option.splits)
next
  fix s :: "'a join_state" and w and x :: "'a jop"
  assume "join_inv s" "w \<in> (set_option \<circ> js_waker) s" "\<not> is_jpoll x"
  then show "w \<in> set (fst (join_step s x)) \<or> w \<in> (set_option \<circ> js_waker) (snd (join_step s x))"
    by (cases x) (auto simp: join_step_def complete_join_def)
qed (auto simp: join_inv_def)

lemma task_idle_complete_step:
  assumes "task_step t t'" "tk_held t = None" "ts_future (tk_state t) = None"
    "\<not> ts_polling (tk_state t)"
  shows "tk_held t' = None \<and> ts_future (tk_state t') = None \<and> \<not> ts_polling (tk_state t')"
  using assms
  by (induction rule: task_step.induct) (auto simp: task_op_defs Let_def)

lemma tj_idle_complete_step:
  assumes "tj_step x x'" "tk_held (fst x) = None" "ts_future (tk_state (fst x)) = None"
    "\<not> ts_polling (tk_state (fst x))" "js_result (snd x) = None"
  shows "tk_held (fst x') = None \<and> ts_future (tk_state (fst x')) = None \<and>
    \<not> ts_polling (tk_state (fst x')) \<and> js_result (snd x') = None"
  using assms
proof (induction rule: tj_step.induct)
  case (tj_abort t s)
  then show ?case by (simp add: join_abort_def task_cancel_def cancel_def)
next
  case (tj_task t t' s)
  then show ?case using task_idle_complete_step [of t t'] by simp
qed simp_all

subsection \<open>Properties\<close>

text \<open>Whatever the interleaving of polls, wakes, cancellations and the closing of the
  executor, a task is in exactly one of the phases idle (it holds its future), polling (the poller
  holds it) and completed (nobody does), and the scheduler is told that it finished at most once,
  and exactly once when it completed without the executor being closed; the panic handler runs at
  most once.\<close>

theorem task_finishes_once:
  assumes "task_step\<^sup>*\<^sup>* (task_new f h) t"
  shows "(let s = tk_state t in
      of_bool (ts_future s \<noteq> None) + of_bool (tk_held t \<noteq> None) + of_bool (ts_completed s)
        = (1::nat)) \<and>
    tk_finishes t \<le> 1 \<and> tk_handled t \<le> 1 \<and>
    (tk_finishes t = 1 \<longrightarrow> ts_completed (tk_state t)) \<and>
    (ts_completed (tk_state t) \<and> \<not> tk_closed t \<longrightarrow> tk_finishes t = 1)"
  using task_inv_reachable [OF assms] unfolding task_inv_def Let_def
  by (cases "ts_polling (tk_state t)"; cases "ts_completed (tk_state t)") auto

theorem task_finishes_once_witness:
  "\<exists>t. task_step\<^sup>*\<^sup>* (task_new (7::nat) (None :: unit option)) t \<and> ts_completed (tk_state t) \<and>
     \<not> tk_closed t \<and> tk_finishes t = 1"
proof -
  define t1 where "t1 = task_poll_begin 5 (task_new (7::nat) (None :: unit option))"
  define t2 where "t2 = snd (task_cancel t1)"
  define t3 where "t3 = task_poll_end OutPending 2 7 t2"
  note defs = t1_def t2_def t3_def task_new_def task_state_new_def task_op_defs
  have "task_step (task_new (7::nat) None) t1"
    unfolding t1_def by (rule ts_poll_begin) (simp add: task_new_def)
  moreover have "task_step t1 t2" unfolding t2_def by (rule ts_cancel)
  moreover have "task_step t2 t3" unfolding t3_def by (rule ts_poll_end) (simp add: defs)
  ultimately have r: "task_step\<^sup>*\<^sup>* (task_new (7::nat) (None :: unit option)) t3"
    by (meson converse_rtranclp_into_rtranclp rtranclp.rtrancl_refl)
  have "ts_completed (tk_state t3)" "\<not> tk_closed t3" by (simp_all add: defs)
  then show ?thesis using task_finishes_once [OF r] r by blast
qed

text \<open>A wake that arrives while the task is being polled is not lost: if the poll then
  returns pending and the task was not cancelled, the task is queued again when the poll ends.\<close>

theorem task_wake_during_poll_kept:
  assumes "task_step\<^sup>*\<^sup>* (task_new f h) t" "tk_held t \<noteq> None"
    "\<not> ts_cancel_requested (tk_state t)"
  shows "task_state_status (tk_state
      (task_poll_end OutPending d now' (t\<lparr>tk_state := snd (mark_queued now (tk_state t))\<rparr>))) = Queued"
  using task_inv_reachable [OF assms(1)] assms(2,3)
  by (auto simp: task_inv_def Let_def task_poll_end_def case_prod_unfold mark_queued_def
      task_state_status_def)

theorem task_wake_during_poll_kept_witness:
  "task_state_status (tk_state (task_poll_end OutPending 1 6
     ((task_poll_begin 5 (task_new (7::nat) (None :: unit option)))\<lparr>tk_state :=
        snd (mark_queued 5 (tk_state (task_poll_begin 5 (task_new (7::nat) (None :: unit option)))))\<rparr>)))
   = Queued"
proof (rule task_wake_during_poll_kept)
  show "task_step\<^sup>*\<^sup>* (task_new (7::nat) None) (task_poll_begin 5 (task_new (7::nat) (None :: unit option)))"
    by (intro r_into_rtranclp ts_poll_begin) (simp add: task_new_def)
qed (simp_all add: task_new_def task_state_new_def task_op_defs)

text \<open>A join handle delivers the first result and only that one.  If a task waits on the
  handle, completing it calls the waker; completions after the first (an output after an abort, a
  panic after an output) change nothing; the next poll returns the first result.\<close>

theorem join_first_result_wins:
  assumes "js_result s = None"
  shows "let (ws, s') = wk_run join_step (JComplete r # map JComplete rs) s in
      ws = opt_list (js_waker s) \<and> fst (join_poll cx s') = Ready r"
proof -
  have late: "join_step \<lparr>js_result = Some r, js_waker = None\<rparr> (JComplete r') =
      ([], \<lparr>js_result = Some r, js_waker = None\<rparr>)" for r'
    by (simp add: join_step_def complete_join_def)
  have "wk_run join_step (map JComplete rs) \<lparr>js_result = Some r, js_waker = None\<rparr> =
      ([], \<lparr>js_result = Some r, js_waker = None\<rparr>)"
    by (induction rs) (simp_all add: late)
  moreover have "join_step s (JComplete r) =
      (opt_list (js_waker s), \<lparr>js_result = Some r, js_waker = None\<rparr>)"
    using assms by (simp add: join_step_def complete_join_def)
  ultimately show ?thesis by (simp add: join_poll_def)
qed

theorem join_first_result_wins_witness:
  "let (ws, s') = wk_run join_step
       (JComplete (Inl JoinCanceled) # map JComplete [Inr (3::nat), Inl (JoinPanic 1)])
       \<lparr>js_result = None, js_waker = Some 4\<rparr>
   in ws = [4] \<and> fst (join_poll 9 s') = Ready (Inl JoinCanceled)"
  using join_first_result_wins [of "\<lparr>js_result = None, js_waker = Some 4\<rparr>" "Inl JoinCanceled"
      "[Inr (3::nat), Inl (JoinPanic 1)]" 9]
  by simp

text \<open>An abort that reports success can still be followed by the task's output.  If the
  future has stored its output and its poll has not ended yet, the abort finds the task polling and
  returns true, and awaiting the handle then returns the output and not \<open>Canceled\<close>.\<close>

theorem join_abort_true_then_output:
  "let t = task_poll_begin now (task_new f h);
       s = snd (complete_join (Inr v) join_new);
       (ok, ws, t', s') = join_abort (t, s);
       t'' = task_poll_end OutReady d now' t'
   in ok \<and> fst (join_poll cx s') = Ready (Inr v) \<and> task_state_status (tk_state t'') = Cancelled"
  by (simp add: task_new_def task_state_new_def task_op_defs join_abort_def complete_join_def
      join_new_def join_poll_def task_state_status_def)

text \<open>C39: closing the executor does not complete the join handles of the tasks that it drops.
  Once a task that is not being polled has been dropped with no result stored, its join state stays
  without a result in every continuation, aborts included: whoever awaits the handle waits forever.\<close>

theorem join_never_completes_after_close:
  assumes "task_step\<^sup>*\<^sup>* (task_new f h) t" "tk_held t = None" "js_result s = None"
    and "tj_step\<^sup>*\<^sup>* (t\<lparr>tk_state := drop_future (tk_state t), tk_closed := True\<rparr>, s) (t', s')"
  shows "fst (join_poll cx s') = Pending \<and> fst (join_abort (t', s')) = False"
proof -
  have "\<not> ts_polling (tk_state t)"
    using task_inv_reachable [OF assms(1)] assms(2) by (auto simp: task_inv_def Let_def)
  with assms(2,3) have start: "tk_held (t\<lparr>tk_state := drop_future (tk_state t), tk_closed := True\<rparr>) = None"
    "ts_future (drop_future (tk_state t)) = None" "\<not> ts_polling (drop_future (tk_state t))"
    by (simp_all add: drop_future_def Let_def)
  have "tk_held (fst x) = None \<and> ts_future (tk_state (fst x)) = None \<and>
      \<not> ts_polling (tk_state (fst x)) \<and> js_result (snd x) = None"
    if "tj_step\<^sup>*\<^sup>* (t\<lparr>tk_state := drop_future (tk_state t), tk_closed := True\<rparr>, s) x" for x
    using that
  proof (induction rule: rtranclp_induct)
    case base
    then show ?case using start assms(3) by simp
  next
    case (step y z)
    then show ?case using tj_idle_complete_step [of y z] by blast
  qed
  from this [OF assms(4)] show ?thesis
    by (simp add: join_poll_def join_abort_def task_cancel_def cancel_def)
qed

theorem join_never_completes_after_close_witness:
  "fst (join_poll 3 (join_new :: nat join_state)) = Pending \<and>
   fst (join_abort ((task_new (7::nat) (None :: unit option))
     \<lparr>tk_state := drop_future (task_state_new (7::nat) None), tk_closed := True\<rparr>,
     join_new :: nat join_state)) = False"
  using join_never_completes_after_close [of "7::nat" "None :: unit option" "task_new (7::nat) None"
      "join_new :: nat join_state" "(task_new (7::nat) None)
     \<lparr>tk_state := drop_future (task_state_new (7::nat) None), tk_closed := True\<rparr>" join_new 3]
  by (simp add: task_new_def join_new_def)

end
