(* ===== verification/Keyed_Set.thy ===== *)
theory Keyed_Set
  imports Sitas_Prelude
begin

text \<open>
  Vectors of entries keyed by an identifier, as the timer set and the readiness
  interests keep them: registering overwrites the first entry with the identifier
  or pushes a new one, removing retains the others.  The locale \<open>keyed_set\<close> is what
  the futures that own an identifier rely on.
\<close>

primrec upsert :: "('a \<Rightarrow> bool) \<Rightarrow> 'a \<Rightarrow> 'a list \<Rightarrow> 'a list" where
  "upsert P x [] = [x]"
| "upsert P x (y # ys) = (if P y then x # ys else y # upsert P x ys)"

datatype ('k, 'v) kop = KRegister 'k 'v | KRemove 'k

fun kop_run ::
  "('k \<Rightarrow> 'v \<Rightarrow> 's \<Rightarrow> 's) \<Rightarrow> ('k \<Rightarrow> 's \<Rightarrow> 's) \<Rightarrow> ('k, 'v) kop list \<Rightarrow> 's \<Rightarrow> 's" where
  "kop_run register remove [] s = s"
| "kop_run register remove (KRegister k v # xs) s =
     kop_run register remove xs (register k v s)"
| "kop_run register remove (KRemove k # xs) s = kop_run register remove xs (remove k s)"

definition map_register :: "'k \<Rightarrow> 'v \<Rightarrow> ('k \<Rightarrow> 'v option) \<Rightarrow> ('k \<Rightarrow> 'v option)" where
  "map_register k v m = m(k \<mapsto> v)"

definition map_remove :: "'k \<Rightarrow> ('k \<Rightarrow> 'v option) \<Rightarrow> ('k \<Rightarrow> 'v option)" where
  "map_remove k m = m(k := None)"

locale keyed_set =
  fixes invar :: "'s \<Rightarrow> bool"
    and lookup :: "'s \<Rightarrow> 'k \<Rightarrow> 'v option"
    and register :: "'k \<Rightarrow> 'v \<Rightarrow> 's \<Rightarrow> 's"
    and remove :: "'k \<Rightarrow> 's \<Rightarrow> 's"
  assumes invar_register: "invar s \<Longrightarrow> invar (register k v s)"
    and invar_remove: "invar s \<Longrightarrow> invar (remove k s)"
    and lookup_register: "invar s \<Longrightarrow> lookup (register k v s) = (lookup s)(k \<mapsto> v)"
    and lookup_remove: "invar s \<Longrightarrow> lookup (remove k s) = (lookup s)(k := None)"
begin

lemma invar_run: "invar s \<Longrightarrow> invar (kop_run register remove xs s)"
proof (induction xs arbitrary: s)
  case (Cons x xs)
  then show ?case by (cases x) (simp_all add: invar_register invar_remove)
qed simp

lemma lookup_run:
  "invar s \<Longrightarrow> lookup (kop_run register remove xs s) = kop_run map_register map_remove xs (lookup s)"
proof (induction xs arbitrary: s)
  case (Cons x xs)
  then show ?case
    by (cases x)
      (simp_all add: invar_register invar_remove lookup_register lookup_remove map_register_def
        map_remove_def)
qed simp

end

lemma set_upsert_subset: "set (upsert P x xs) \<subseteq> insert x (set xs)"
  by (induction xs) auto

lemma upsert_in: "x \<in> set (upsert P x xs)"
  by (induction xs) auto

lemma upsert_keeps: "y \<in> set xs \<Longrightarrow> \<not> P y \<Longrightarrow> y \<in> set (upsert P x xs)"
  by (induction xs) auto

end
