(* ===== verification/Timer_Set.thy ===== *)
theory Timer_Set
  imports Keyed_Set
begin

text \<open>
  The timer set of \<open>executor/timer.rs\<close>.  Identifiers are machine words, as
  \<open>allocate_id\<close> wraps.
\<close>

record timer_entry =
  te_id :: u64
  te_deadline :: instant
  te_waker :: waker

record timer_set =
  tm_timers :: "timer_entry list"
  tm_next_id :: u64

definition timer_set_new :: timer_set where
  "timer_set_new = \<lparr>tm_timers = [], tm_next_id = 0\<rparr>"

definition timer_clear :: "timer_set \<Rightarrow> timer_set" where
  "timer_clear s = s\<lparr>tm_timers := []\<rparr>"

definition timer_allocate_id :: "timer_set \<Rightarrow> u64 \<times> timer_set" where
  "timer_allocate_id s = (tm_next_id s, s\<lparr>tm_next_id := tm_next_id s + 1\<rparr>)"

definition timer_len :: "timer_set \<Rightarrow> nat" where
  "timer_len s = length (tm_timers s)"

fun min_option :: "nat list \<Rightarrow> nat option" where
  "min_option [] = None"
| "min_option (x # xs) =
     (case min_option xs of None \<Rightarrow> Some x | Some m \<Rightarrow> Some (min x m))"

definition timer_next_deadline :: "timer_set \<Rightarrow> instant option" where
  "timer_next_deadline s = min_option (map te_deadline (tm_timers s))"

definition timer_register ::
  "u64 \<Rightarrow> instant \<Rightarrow> waker \<Rightarrow> timer_set \<Rightarrow> bool \<times> timer_set" where
  "timer_register tid deadline w s =
     (let previous_next = timer_next_deadline s
      in (case previous_next of None \<Rightarrow> True | Some previous \<Rightarrow> deadline < previous,
          s\<lparr>tm_timers := upsert (\<lambda>t. te_id t = tid)
              \<lparr>te_id = tid, te_deadline = deadline, te_waker = w\<rparr> (tm_timers s)\<rparr>))"

definition timer_remove :: "u64 \<Rightarrow> timer_set \<Rightarrow> timer_set" where
  "timer_remove tid s = s\<lparr>tm_timers := filter (\<lambda>t. te_id t \<noteq> tid) (tm_timers s)\<rparr>"

definition timer_expired :: "instant \<Rightarrow> timer_set \<Rightarrow> waker list \<times> timer_set" where
  "timer_expired now s =
     (map te_waker (filter (\<lambda>t. te_deadline t \<le> now) (tm_timers s)),
      s\<lparr>tm_timers := filter (\<lambda>t. \<not> te_deadline t \<le> now) (tm_timers s)\<rparr>)"

definition timer_time_until_next :: "instant \<Rightarrow> timer_set \<Rightarrow> duration option" where
  "timer_time_until_next now s = map_option (\<lambda>d. d - now) (timer_next_deadline s)"

definition timer_lookup :: "timer_set \<Rightarrow> u64 \<Rightarrow> (instant \<times> waker) option" where
  "timer_lookup s tid =
     map_option (\<lambda>t. (te_deadline t, te_waker t)) (find (\<lambda>t. te_id t = tid) (tm_timers s))"

definition timer_inv :: "timer_set \<Rightarrow> bool" where
  "timer_inv s \<longleftrightarrow> distinct (map te_id (tm_timers s))"

subsection \<open>Laws\<close>

lemma min_option_None [simp]: "min_option xs = None \<longleftrightarrow> xs = []"
  by (cases xs) (auto split: option.splits)

lemma min_option_Some: "min_option xs = Some m \<longleftrightarrow> m \<in> set xs \<and> (\<forall>x\<in>set xs. m \<le> x)"
proof (induction xs arbitrary: m)
  case (Cons x xs)
  show ?case
  proof (cases "min_option xs")
    case None
    then show ?thesis by auto
  next
    case (Some k)
    then have "k \<in> set xs" "\<forall>y\<in>set xs. k \<le> y" using Cons.IH by auto
    then show ?thesis using Some by (auto simp: min_def intro: order.antisym)
  qed
qed simp

lemma find_id_upsert:
  "find (\<lambda>t. te_id t = i) (upsert (\<lambda>t. te_id t = te_id e) e ts) =
   (if i = te_id e then Some e else find (\<lambda>t. te_id t = i) ts)"
  by (induction ts) auto

lemma map_id_upsert:
  "map te_id (upsert (\<lambda>t. te_id t = te_id e) e ts) =
   (if te_id e \<in> te_id ` set ts then map te_id ts else map te_id ts @ [te_id e])"
  by (induction ts) auto

lemma find_filter_id:
  "find (\<lambda>t. te_id t = i) (filter (\<lambda>t. te_id t \<noteq> k) ts) =
   (if i = k then None else find (\<lambda>t. te_id t = i) ts)"
  by (induction ts) auto

interpretation timers: keyed_set timer_inv timer_lookup
  "\<lambda>k v s. snd (timer_register k (fst v) (snd v) s)" timer_remove
proof
  fix s k and v :: "instant \<times> waker"
  let ?e = "\<lparr>te_id = k, te_deadline = fst v, te_waker = snd v\<rparr>"
  assume inv: "timer_inv s"
  show "timer_inv (snd (timer_register k (fst v) (snd v) s))"
    using inv map_id_upsert [of ?e "tm_timers s"]
    by (auto simp: timer_inv_def timer_register_def)
  show "timer_lookup (snd (timer_register k (fst v) (snd v) s)) = (timer_lookup s)(k \<mapsto> v)"
    using find_id_upsert [of _ ?e "tm_timers s"]
    by (auto simp: timer_lookup_def timer_register_def fun_eq_iff)
next
  fix s k
  assume "timer_inv s"
  then show "timer_inv (timer_remove k s)"
    by (simp add: timer_inv_def timer_remove_def distinct_map_filter)
  show "timer_lookup (timer_remove k s) = (timer_lookup s)(k := None)"
    by (auto simp: timer_lookup_def timer_remove_def find_filter_id fun_eq_iff)
qed

lemma timer_inv_new: "timer_inv timer_set_new"
  by (simp add: timer_inv_def timer_set_new_def)

lemma timer_register_timers:
  "tm_timers (snd (timer_register i d w s)) =
   upsert (\<lambda>t. te_id t = i) \<lparr>te_id = i, te_deadline = d, te_waker = w\<rparr> (tm_timers s)"
  by (simp add: timer_register_def)

subsection \<open>Properties\<close>

text \<open>After any sequence of registrations and removals, looking a timer up gives its last
  registered deadline and waker, or nothing if it was removed since: the vector behaves as a map
  from identifiers, with one entry per identifier.\<close>

theorem timer_set_is_map:
  "timer_lookup (kop_run (\<lambda>k v s. snd (timer_register k (fst v) (snd v) s)) timer_remove xs
     timer_set_new) =
   kop_run map_register map_remove xs (\<lambda>_. None) \<and>
   distinct (map te_id (tm_timers (kop_run (\<lambda>k v s. snd (timer_register k (fst v) (snd v) s))
     timer_remove xs timer_set_new)))"
proof -
  have "timer_lookup timer_set_new = (\<lambda>_. None)"
    by (simp add: timer_lookup_def timer_set_new_def fun_eq_iff)
  then show ?thesis
    using timers.lookup_run [OF timer_inv_new, of xs] timers.invar_run [OF timer_inv_new, of xs]
    by (simp add: timer_inv_def)
qed

text \<open>A registration asks for the reactor to be woken exactly when it must.  If it does, the
  new deadline is the earliest one; if it does not, no deadline is earlier than the one the reactor
  is already sleeping towards, so sleeping on is not too late.\<close>

theorem timer_register_wakes_when_needed:
  "case timer_register i d w s of
     (True, s') \<Rightarrow> timer_next_deadline s' = Some d
   | (False, s') \<Rightarrow> (\<exists>p n. timer_next_deadline s = Some p \<and> timer_next_deadline s' = Some n \<and> p \<le> n)"
proof -
  let ?e = "\<lparr>te_id = i, te_deadline = d, te_waker = w\<rparr>"
  let ?ts = "upsert (\<lambda>t. te_id t = i) ?e (tm_timers s)"
  define s' where "s' = snd (timer_register i d w s)"
  have ts: "tm_timers s' = ?ts" by (simp add: s'_def timer_register_timers)
  have e: "?e \<in> set ?ts" "set ?ts \<subseteq> insert ?e (set (tm_timers s))"
    by (rule upsert_in, rule set_upsert_subset)
  show ?thesis
  proof (cases "fst (timer_register i d w s)")
    case True
    then have "\<forall>t\<in>set (tm_timers s). d \<le> te_deadline t"
      by (auto simp: timer_register_def timer_next_deadline_def min_option_Some
          split: option.splits)
    then have "timer_next_deadline s' = Some d"
      unfolding timer_next_deadline_def min_option_Some ts using e by force
    then show ?thesis using True by (cases "timer_register i d w s") (auto simp: s'_def)
  next
    case False
    then obtain p where p: "timer_next_deadline s = Some p" "p \<le> d"
      by (auto simp: timer_register_def split: option.splits)
    have ne: "?ts \<noteq> []" using e(1) by force
    then obtain n where n: "timer_next_deadline s' = Some n"
      by (cases "timer_next_deadline s'") (auto simp: timer_next_deadline_def ts)
    then obtain t where "t \<in> set ?ts" "n = te_deadline t"
      unfolding timer_next_deadline_def min_option_Some ts by auto
    then have "p \<le> n"
      using p e(2) unfolding timer_next_deadline_def min_option_Some by fastforce
    then show ?thesis using False n p by (cases "timer_register i d w s") (auto simp: s'_def)
  qed
qed

text \<open>Firing timers is exact: \<open>expired\<close> returns as many wakers as it removes timers, calls
  the waker of every timer whose deadline has passed, keeps every other timer, and leaves a next
  deadline strictly in the future, so the wait that follows never has a zero timeout.\<close>

theorem timer_expired_exact:
  "case timer_expired now s of (ws, s') \<Rightarrow>
     length ws + length (tm_timers s') = length (tm_timers s) \<and>
     (\<forall>t\<in>set (tm_timers s).
        if te_deadline t \<le> now then te_waker t \<in> set ws else t \<in> set (tm_timers s')) \<and>
     (\<forall>d. timer_next_deadline s' = Some d \<longrightarrow> now < d) \<and>
     timer_time_until_next now s' \<noteq> Some 0"
proof -
  let ?s' = "snd (timer_expired now s)"
  have later: "now < d" if "timer_next_deadline ?s' = Some d" for d
    using that unfolding timer_next_deadline_def min_option_Some by (auto simp: timer_expired_def)
  then have "timer_time_until_next now ?s' \<noteq> Some 0"
    by (fastforce simp: timer_time_until_next_def)
  then show ?thesis
    using later sum_length_filter_compl [of "\<lambda>t. te_deadline t \<le> now" "tm_timers s"]
    by (auto simp: timer_expired_def)
qed

theorem timer_expired_exact_witness:
  "fst (timer_expired 10 \<lparr>tm_timers =
     [\<lparr>te_id = 0, te_deadline = 9, te_waker = 1\<rparr>, \<lparr>te_id = 1, te_deadline = 11, te_waker = 2\<rparr>],
     tm_next_id = 2\<rparr>) = [1]"
  using timer_expired_exact [of "\<lparr>tm_timers =
     [\<lparr>te_id = 0, te_deadline = 9, te_waker = 1\<rparr>, \<lparr>te_id = 1, te_deadline = 11, te_waker = 2\<rparr>],
     tm_next_id = 2\<rparr>" 10]
  by (simp add: timer_expired_def)

end
