(* ===== verification/Io_Interest.thy ===== *)
theory Io_Interest
  imports Keyed_Set
begin

text \<open>
  The readiness interests of \<open>executor/io_interest.rs\<close>: one interest set for reads and
  one for writes.  A file descriptor is an integer.
\<close>

record io_interest =
  ii_id :: u64
  ii_fd :: int
  ii_waker :: waker

record interest_set =
  is_interests :: "io_interest list"
  is_ready :: "u64 list"
  is_next_id :: u64

definition interest_set_new :: interest_set where
  "interest_set_new = \<lparr>is_interests = [], is_ready = [], is_next_id = 0\<rparr>"

definition interest_allocate_id :: "interest_set \<Rightarrow> u64 \<times> interest_set" where
  "interest_allocate_id s = (is_next_id s, s\<lparr>is_next_id := is_next_id s + 1\<rparr>)"

definition interest_register :: "u64 \<Rightarrow> int \<Rightarrow> waker \<Rightarrow> interest_set \<Rightarrow> interest_set" where
  "interest_register i fd w s =
     s\<lparr>is_interests := upsert (\<lambda>x. ii_id x = i) \<lparr>ii_id = i, ii_fd = fd, ii_waker = w\<rparr>
         (is_interests s)\<rparr>"

definition interest_remove :: "u64 \<Rightarrow> interest_set \<Rightarrow> interest_set" where
  "interest_remove i s =
     s\<lparr>is_interests := filter (\<lambda>x. ii_id x \<noteq> i) (is_interests s),
       is_ready := filter (\<lambda>r. r \<noteq> i) (is_ready s)\<rparr>"

definition interest_clear :: "interest_set \<Rightarrow> interest_set" where
  "interest_clear s = s\<lparr>is_interests := [], is_ready := []\<rparr>"

definition interest_fds :: "interest_set \<Rightarrow> int list" where
  "interest_fds s = foldl (\<lambda>fds x. if ii_fd x \<in> set fds then fds else fds @ [ii_fd x]) []
     (is_interests s)"

definition interest_len :: "interest_set \<Rightarrow> nat" where
  "interest_len s = length (is_interests s)"

definition interest_wake_ready :: "int list \<Rightarrow> interest_set \<Rightarrow> waker list \<times> interest_set" where
  "interest_wake_ready ready_fds s =
     (let hit = filter (\<lambda>x. ii_fd x \<in> set ready_fds) (is_interests s);
          pending = filter (\<lambda>x. ii_fd x \<notin> set ready_fds) (is_interests s)
      in (map ii_waker hit, s\<lparr>is_interests := pending, is_ready := is_ready s @ map ii_id hit\<rparr>))"

definition interest_take_ready :: "u64 \<Rightarrow> interest_set \<Rightarrow> bool \<times> interest_set" where
  "interest_take_ready i s =
     (case list_position (\<lambda>r. r = i) (is_ready s) of
        None \<Rightarrow> (False, s)
      | Some pos \<Rightarrow> (True, s\<lparr>is_ready := swap_remove pos (is_ready s)\<rparr>))"

record readiness_interests =
  ri_reads :: interest_set
  ri_writes :: interest_set

definition readiness_new :: readiness_interests where
  "readiness_new = \<lparr>ri_reads = interest_set_new, ri_writes = interest_set_new\<rparr>"

definition readiness_clear :: "readiness_interests \<Rightarrow> readiness_interests" where
  "readiness_clear s =
     \<lparr>ri_reads = interest_clear (ri_reads s), ri_writes = interest_clear (ri_writes s)\<rparr>"

definition register_read :: "u64 \<Rightarrow> int \<Rightarrow> waker \<Rightarrow> readiness_interests \<Rightarrow> readiness_interests" where
  "register_read i fd w s = s\<lparr>ri_reads := interest_register i fd w (ri_reads s)\<rparr>"

definition register_write :: "u64 \<Rightarrow> int \<Rightarrow> waker \<Rightarrow> readiness_interests \<Rightarrow> readiness_interests" where
  "register_write i fd w s = s\<lparr>ri_writes := interest_register i fd w (ri_writes s)\<rparr>"

definition remove_read :: "u64 \<Rightarrow> readiness_interests \<Rightarrow> readiness_interests" where
  "remove_read i s = s\<lparr>ri_reads := interest_remove i (ri_reads s)\<rparr>"

definition remove_write :: "u64 \<Rightarrow> readiness_interests \<Rightarrow> readiness_interests" where
  "remove_write i s = s\<lparr>ri_writes := interest_remove i (ri_writes s)\<rparr>"

definition wake_readable :: "int list \<Rightarrow> readiness_interests \<Rightarrow> waker list \<times> readiness_interests" where
  "wake_readable fds s =
     (let (ws, r) = interest_wake_ready fds (ri_reads s) in (ws, s\<lparr>ri_reads := r\<rparr>))"

definition wake_writable :: "int list \<Rightarrow> readiness_interests \<Rightarrow> waker list \<times> readiness_interests" where
  "wake_writable fds s =
     (let (ws, r) = interest_wake_ready fds (ri_writes s) in (ws, s\<lparr>ri_writes := r\<rparr>))"

definition take_ready_read :: "u64 \<Rightarrow> readiness_interests \<Rightarrow> bool \<times> readiness_interests" where
  "take_ready_read i s =
     (let (b, r) = interest_take_ready i (ri_reads s) in (b, s\<lparr>ri_reads := r\<rparr>))"

definition take_ready_write :: "u64 \<Rightarrow> readiness_interests \<Rightarrow> bool \<times> readiness_interests" where
  "take_ready_write i s =
     (let (b, r) = interest_take_ready i (ri_writes s) in (b, s\<lparr>ri_writes := r\<rparr>))"

definition interest_lookup :: "interest_set \<Rightarrow> u64 \<Rightarrow> (int \<times> waker) option" where
  "interest_lookup s i =
     map_option (\<lambda>x. (ii_fd x, ii_waker x)) (find (\<lambda>x. ii_id x = i) (is_interests s))"

text \<open>An identifier is waiting or ready, never both, and at most once.\<close>

definition interest_inv :: "interest_set \<Rightarrow> bool" where
  "interest_inv s \<longleftrightarrow> distinct (map ii_id (is_interests s) @ is_ready s)"

definition interest_distinct :: "interest_set \<Rightarrow> bool" where
  "interest_distinct s \<longleftrightarrow> distinct (map ii_id (is_interests s))"

subsection \<open>Laws\<close>

lemma find_interest_upsert:
  "find (\<lambda>x. ii_id x = i) (upsert (\<lambda>x. ii_id x = ii_id e) e xs) =
   (if i = ii_id e then Some e else find (\<lambda>x. ii_id x = i) xs)"
  by (induction xs) auto

lemma map_interest_upsert:
  "map ii_id (upsert (\<lambda>x. ii_id x = ii_id e) e xs) =
   (if ii_id e \<in> ii_id ` set xs then map ii_id xs else map ii_id xs @ [ii_id e])"
  by (induction xs) auto

lemma find_interest_filter:
  "find (\<lambda>x. ii_id x = i) (filter (\<lambda>x. ii_id x \<noteq> k) xs) =
   (if i = k then None else find (\<lambda>x. ii_id x = i) xs)"
  by (induction xs) auto

interpretation interests: keyed_set interest_distinct interest_lookup
  "\<lambda>k v s. interest_register k (fst v) (snd v) s" interest_remove
proof
  fix s k and v :: "int \<times> waker"
  let ?e = "\<lparr>ii_id = k, ii_fd = fst v, ii_waker = snd v\<rparr>"
  assume inv: "interest_distinct s"
  show "interest_distinct (interest_register k (fst v) (snd v) s)"
    using inv map_interest_upsert [of ?e "is_interests s"]
    by (auto simp: interest_distinct_def interest_register_def)
  show "interest_lookup (interest_register k (fst v) (snd v) s) = (interest_lookup s)(k \<mapsto> v)"
    using find_interest_upsert [of _ ?e "is_interests s"]
    by (auto simp: interest_lookup_def interest_register_def fun_eq_iff)
next
  fix s k
  assume "interest_distinct s"
  then show "interest_distinct (interest_remove k s)"
    by (simp add: interest_distinct_def interest_remove_def distinct_map_filter)
  show "interest_lookup (interest_remove k s) = (interest_lookup s)(k := None)"
    by (auto simp: interest_lookup_def interest_remove_def find_interest_filter fun_eq_iff)
qed

lemma interest_inv_new: "interest_inv interest_set_new"
  by (simp add: interest_inv_def interest_set_new_def)

lemma interest_inv_register:
  assumes "interest_inv s" "i \<notin> set (is_ready s)"
  shows "interest_inv (interest_register i fd w s)"
  using assms map_interest_upsert [of "\<lparr>ii_id = i, ii_fd = fd, ii_waker = w\<rparr>" "is_interests s"]
  by (auto simp: interest_inv_def interest_register_def)

lemma interest_inv_remove: "interest_inv s \<Longrightarrow> interest_inv (interest_remove i s)"
  by (auto simp: interest_inv_def interest_remove_def distinct_map_filter)

lemma interest_inv_wake: "interest_inv s \<Longrightarrow> interest_inv (snd (interest_wake_ready fds s))"
  by (auto simp: interest_inv_def interest_wake_ready_def Let_def distinct_map_filter inj_on_def
      distinct_map)

lemma mset_take_ready:
  "fst (interest_take_ready i s) \<Longrightarrow>
   mset (is_ready s) = add_mset i (mset (is_ready (snd (interest_take_ready i s))))"
  using list_position_Some [of "\<lambda>r. r = i" "is_ready s"] mset_swap_remove [of _ "is_ready s"]
  by (fastforce simp: interest_take_ready_def split: option.splits)

lemma take_ready_iff: "fst (interest_take_ready i s) \<longleftrightarrow> i \<in> set (is_ready s)"
proof (cases "list_position (\<lambda>r. r = i) (is_ready s)")
  case None
  moreover from None have "i \<notin> set (is_ready s)" by (auto simp: list_position_None)
  ultimately show ?thesis by (simp add: interest_take_ready_def)
next
  case (Some pos)
  then show ?thesis using list_position_Some [OF Some] by (auto simp: interest_take_ready_def)
qed

lemma take_ready_interests [simp]:
  "is_interests (snd (interest_take_ready i s)) = is_interests s"
  by (simp add: interest_take_ready_def split: option.splits)

lemma interest_inv_take:
  assumes "interest_inv s"
  shows "interest_inv (snd (interest_take_ready i s))"
proof (cases "fst (interest_take_ready i s)")
  case True
  from mset_take_ready [OF this] have
    "mset (map ii_id (is_interests s) @ is_ready s) =
     mset (i # map ii_id (is_interests s) @ is_ready (snd (interest_take_ready i s)))" by simp
  from mset_eq_imp_distinct_iff [OF this] assms show ?thesis
    by (simp add: interest_inv_def)
next
  case False
  then show ?thesis
    using assms by (auto simp: interest_take_ready_def split: option.splits)
qed

lemma fds_fold:
  "distinct acc \<Longrightarrow>
   distinct (foldl (\<lambda>fds x. if f x \<in> set fds then fds else fds @ [f x]) acc xs) \<and>
   set (foldl (\<lambda>fds x. if f x \<in> set fds then fds else fds @ [f x]) acc xs) = set acc \<union> f ` set xs"
  by (induction xs arbitrary: acc) auto

subsection \<open>Properties\<close>

text \<open>The descriptors handed to the reactor are the descriptors with an interest, each once,
  however many tasks wait on the same one.\<close>

theorem interest_fds_dedup:
  "distinct (interest_fds s) \<and> set (interest_fds s) = ii_fd ` set (is_interests s)"
  using fds_fold [of "[]" ii_fd "is_interests s"] by (simp add: interest_fds_def)

text \<open>A readiness event is delivered to exactly the interested tasks, once.  Every interest
  on a ready descriptor is woken and leaves the set, every other interest stays, and afterwards an
  interest that was woken takes its readiness exactly once: the first \<open>take_ready\<close> succeeds, the
  second does not.\<close>

theorem interest_readiness_once:
  assumes "interest_inv s" "x \<in> set (is_interests s)"
  shows "let (ws, s') = interest_wake_ready fds s; (b1, s1) = interest_take_ready (ii_id x) s';
           (b2, s2) = interest_take_ready (ii_id x) s1
    in interest_inv s' \<and>
       (if ii_fd x \<in> set fds
        then ii_waker x \<in> set ws \<and> x \<notin> set (is_interests s') \<and> b1 \<and> \<not> b2
        else x \<in> set (is_interests s') \<and> \<not> b1)"
proof -
  define s' where "s' = snd (interest_wake_ready fds s)"
  have inv': "interest_inv s'" unfolding s'_def by (rule interest_inv_wake [OF assms(1)])
  have ready: "is_ready s' = is_ready s @ map ii_id (filter (\<lambda>y. ii_fd y \<in> set fds) (is_interests s))"
    by (simp add: s'_def interest_wake_ready_def Let_def)
  have old: "ii_id x \<notin> set (is_ready s)" using assms by (auto simp: interest_inv_def)
  have same: "y = x" if "y \<in> set (is_interests s)" "ii_id y = ii_id x" for y
    using assms that by (auto simp: interest_inv_def distinct_map inj_on_def)
  have b1: "fst (interest_take_ready (ii_id x) s') \<longleftrightarrow> ii_fd x \<in> set fds"
  proof
    assume "fst (interest_take_ready (ii_id x) s')"
    then obtain y where "y \<in> set (is_interests s)" "ii_id y = ii_id x" "ii_fd y \<in> set fds"
      using old by (auto simp: take_ready_iff ready)
    then show "ii_fd x \<in> set fds" using same by blast
  next
    assume "ii_fd x \<in> set fds"
    then show "fst (interest_take_ready (ii_id x) s')"
      using assms(2) by (simp add: take_ready_iff ready)
  qed
  have b2: "\<not> fst (interest_take_ready (ii_id x) (snd (interest_take_ready (ii_id x) s')))"
    if "fst (interest_take_ready (ii_id x) s')"
  proof -
    have "distinct (is_ready s')" using inv' by (simp add: interest_inv_def)
    moreover have "mset (is_ready s') =
        mset (ii_id x # is_ready (snd (interest_take_ready (ii_id x) s')))"
      using mset_take_ready [OF that] by simp
    ultimately have "ii_id x \<notin> set (is_ready (snd (interest_take_ready (ii_id x) s')))"
      using mset_eq_imp_distinct_iff by fastforce
    then show ?thesis by (simp add: take_ready_iff)
  qed
  have ws: "ii_fd x \<in> set fds \<Longrightarrow> ii_waker x \<in> set (fst (interest_wake_ready fds s))"
    and kept: "x \<in> set (is_interests s') \<longleftrightarrow> ii_fd x \<notin> set fds"
    using assms(2) by (auto simp: s'_def interest_wake_ready_def Let_def)
  show ?thesis
    unfolding Let_def case_prod_unfold s'_def [symmetric] using ws kept b1 b2 inv' by simp
qed

theorem interest_readiness_once_witness:
  "let s = interest_register 1 5 31 (interest_register 0 4 30 interest_set_new);
       (ws, s') = interest_wake_ready [5] s; (b1, s1) = interest_take_ready 1 s';
       (b2, s2) = interest_take_ready 1 s1
   in ws = [31] \<and> b1 \<and> \<not> b2"
  using interest_readiness_once [of "interest_register 1 5 31 (interest_register 0 4 30 interest_set_new)"
      "\<lparr>ii_id = 1, ii_fd = 5, ii_waker = 31\<rparr>" "[5]"]
  by (simp add: interest_register_def interest_set_new_def interest_inv_def interest_wake_ready_def
      Let_def case_prod_unfold)

end
