(* ===== verification/Task_Set.thy ===== *)
theory Task_Set
  imports Task_State
begin

text \<open>
  Task storage and the weighted scheduling groups of \<open>executor/task_set.rs\<close>, with the
  counters of \<open>executor/counters.rs\<close>.  A task reference is its number and its group.
  Whether a weak reference can still be upgraded is the argument \<open>alive\<close>.  Virtual
  runtimes are natural numbers: \<open>charge_bound\<close> shows that one poll adds less
  than \<open>2^101\<close>, so the \<open>u128\<close> accumulator has room for \<open>2^27\<close> longest-possible polls.
\<close>

subsection \<open>Groups and tasks\<close>

definition default_group_id :: nat where
  "default_group_id = 0"

definition default_group_shares :: nat where
  "default_group_shares = 100"

definition compaction_min :: nat where
  "compaction_min = 64"

record task_ref =
  tr_id :: nat
  tr_group :: nat

record sched_group =
  sg_id :: nat
  sg_name :: string
  sg_shares :: nat
  sg_virtual_runtime :: nat
  sg_total_polls :: nat
  sg_total_poll_time :: duration
  sg_queue :: "task_ref list"

record task_set =
  st_groups :: "sched_group list"
  st_tasks :: "task_ref list"
  st_accepting :: bool
  st_spawner_count :: nat
  st_task_count :: nat
  st_next_task_id :: u64

datatype spawn_error = SpawnClosed | SchedulingGroupExecutorMismatch | SpawnBackpressure

definition task_set_new :: task_set where
  "task_set_new =
     \<lparr>st_groups = [\<lparr>sg_id = default_group_id, sg_name = ''default'',
        sg_shares = default_group_shares, sg_virtual_runtime = 0, sg_total_polls = 0,
        sg_total_poll_time = 0, sg_queue = []\<rparr>],
      st_tasks = [], st_accepting = True, st_spawner_count = 1, st_task_count = 0,
      st_next_task_id = 0\<rparr>"

definition allocate_task_id :: "task_set \<Rightarrow> u64 \<times> task_set" where
  "allocate_task_id s = (st_next_task_id s, s\<lparr>st_next_task_id := st_next_task_id s + 1\<rparr>)"

definition minimum_virtual_runtime :: "task_set \<Rightarrow> nat" where
  "minimum_virtual_runtime s =
     (case map sg_virtual_runtime (st_groups s) of [] \<Rightarrow> 0 | v # vs \<Rightarrow> fold min vs v)"

definition create_scheduling_group :: "string \<Rightarrow> nat \<Rightarrow> task_set \<Rightarrow> nat \<times> task_set" where
  "create_scheduling_group name shares s =
     (let gid = length (st_groups s)
      in (gid, s\<lparr>st_groups := st_groups s @ [\<lparr>sg_id = gid, sg_name = name, sg_shares = shares,
             sg_virtual_runtime = minimum_virtual_runtime s, sg_total_polls = 0,
             sg_total_poll_time = 0, sg_queue = []\<rparr>]\<rparr>))"

definition add_spawner :: "task_set \<Rightarrow> task_set" where
  "add_spawner s = s\<lparr>st_spawner_count := st_spawner_count s + 1\<rparr>"

definition remove_spawner :: "task_set \<Rightarrow> bool \<times> task_set" where
  "remove_spawner s =
     (let n = st_spawner_count s - 1 in (n = 0, s\<lparr>st_spawner_count := n\<rparr>))"

definition group_index :: "nat \<Rightarrow> task_set \<Rightarrow> nat option" where
  "group_index gid s =
     (if gid < length (st_groups s) \<and> sg_id (st_groups s ! gid) = gid then Some gid else None)"

definition enqueue_group :: "nat \<Rightarrow> task_ref \<Rightarrow> task_set \<Rightarrow> task_set" where
  "enqueue_group idx t s =
     s\<lparr>st_groups := (st_groups s)[idx := (st_groups s ! idx)
         \<lparr>sg_queue := sg_queue (st_groups s ! idx) @ [t]\<rparr>]\<rparr>"

definition maybe_compact_tasks :: "(task_ref \<Rightarrow> bool) \<Rightarrow> task_set \<Rightarrow> task_set" where
  "maybe_compact_tasks alive s =
     (if compaction_min \<le> length (st_tasks s) \<and> st_task_count s * 2 < length (st_tasks s)
      then s\<lparr>st_tasks := filter alive (st_tasks s)\<rparr> else s)"

text \<open>The boolean says that the queued flag of the task is cleared.\<close>

definition schedule_new ::
  "(task_ref \<Rightarrow> bool) \<Rightarrow> task_ref \<Rightarrow> task_set \<Rightarrow> (spawn_error + unit) \<times> bool \<times> task_set" where
  "schedule_new alive t s =
     (if \<not> st_accepting s then (Inl SpawnClosed, True, s)
      else case group_index (tr_group t) s of
             None \<Rightarrow> (Inl SpawnClosed, True, s)
           | Some idx \<Rightarrow>
               (let s = s\<lparr>st_task_count := st_task_count s + 1\<rparr>;
                    s = maybe_compact_tasks alive s;
                    s = s\<lparr>st_tasks := st_tasks s @ [t]\<rparr>
                in (Inr (), False, enqueue_group idx t s)))"

definition schedule_existing ::
  "task_ref \<Rightarrow> task_set \<Rightarrow> (spawn_error + unit) \<times> bool \<times> task_set" where
  "schedule_existing t s =
     (if \<not> st_accepting s then (Inl SpawnClosed, True, s)
      else case group_index (tr_group t) s of
             None \<Rightarrow> (Inl SpawnClosed, True, s)
           | Some idx \<Rightarrow> (Inr (), False, enqueue_group idx t s))"

definition key_less :: "sched_group \<Rightarrow> sched_group \<Rightarrow> bool" where
  "key_less g h \<longleftrightarrow>
     sg_virtual_runtime g < sg_virtual_runtime h \<or>
     sg_virtual_runtime g = sg_virtual_runtime h \<and> sg_id g < sg_id h"

fun min_group :: "sched_group list \<Rightarrow> nat list \<Rightarrow> nat option" where
  "min_group gs [] = None"
| "min_group gs (i # is) =
     (case min_group gs is of
        None \<Rightarrow> Some i
      | Some j \<Rightarrow> Some (if key_less (gs ! j) (gs ! i) then j else i))"

definition pick_group :: "task_set \<Rightarrow> nat option" where
  "pick_group s =
     min_group (st_groups s)
       (filter (\<lambda>i. sg_queue (st_groups s ! i) \<noteq> []) [0..<length (st_groups s)])"

definition next_task :: "task_set \<Rightarrow> task_ref option \<times> task_set" where
  "next_task s =
     (case pick_group s of
        None \<Rightarrow> (None, s)
      | Some i \<Rightarrow>
          (Some (hd (sg_queue (st_groups s ! i))),
           s\<lparr>st_groups := (st_groups s)[i := (st_groups s ! i)
               \<lparr>sg_queue := tl (sg_queue (st_groups s ! i))\<rparr>]\<rparr>))"

definition poll_charge :: "duration \<Rightarrow> nat \<Rightarrow> nat" where
  "poll_charge nanos shares = max nanos 1 * default_group_shares div shares"

definition record_task_poll :: "nat \<Rightarrow> duration \<Rightarrow> task_set \<Rightarrow> task_set" where
  "record_task_poll gid poll_duration s =
     (case group_index gid s of
        None \<Rightarrow> s
      | Some idx \<Rightarrow>
          (let g = st_groups s ! idx
           in s\<lparr>st_groups := (st_groups s)[idx := g
                \<lparr>sg_total_poll_time := sg_total_poll_time g + poll_duration,
                 sg_total_polls := sg_total_polls g + 1,
                 sg_virtual_runtime :=
                   sg_virtual_runtime g + poll_charge poll_duration (sg_shares g)\<rparr>]\<rparr>))"

definition ready_queue_len :: "task_set \<Rightarrow> nat" where
  "ready_queue_len s = sum_list (map (\<lambda>g. length (sg_queue g)) (st_groups s))"

definition is_drained :: "task_set \<Rightarrow> bool" where
  "is_drained s \<longleftrightarrow> ready_queue_len s = 0 \<and> st_spawner_count s = 0 \<and> st_task_count s = 0"

definition has_ready_tasks :: "task_set \<Rightarrow> bool" where
  "has_ready_tasks s \<longleftrightarrow> 0 < ready_queue_len s"

definition task_set_close :: "(task_ref \<Rightarrow> bool) \<Rightarrow> task_set \<Rightarrow> task_ref list \<times> task_set" where
  "task_set_close alive s =
     (filter alive (st_tasks s),
      s\<lparr>st_accepting := False, st_task_count := 0,
        st_groups := map (\<lambda>g. g\<lparr>sg_queue := []\<rparr>) (st_groups s), st_tasks := []\<rparr>)"

definition finish_task :: "task_set \<Rightarrow> bool \<times> task_set" where
  "finish_task s =
     (let s = s\<lparr>st_task_count := st_task_count s - 1\<rparr> in (is_drained s, s))"

record group_snapshot =
  gsn_id :: nat
  gsn_name :: string
  gsn_shares :: nat
  gsn_ready_queue_len :: nat
  gsn_virtual_runtime :: nat
  gsn_total_polls :: nat
  gsn_total_poll_time :: duration

definition group_snapshots :: "task_set \<Rightarrow> group_snapshot list" where
  "group_snapshots s =
     map (\<lambda>g. \<lparr>gsn_id = sg_id g, gsn_name = sg_name g, gsn_shares = sg_shares g,
        gsn_ready_queue_len = length (sg_queue g), gsn_virtual_runtime = sg_virtual_runtime g,
        gsn_total_polls = sg_total_polls g, gsn_total_poll_time = sg_total_poll_time g\<rparr>)
       (st_groups s)"

record task_set_snapshot =
  tss_accepting :: bool
  tss_spawner_count :: nat
  tss_task_count :: nat
  tss_ready_queue_len :: nat
  tss_groups :: "group_snapshot list"
  tss_tasks :: "task_ref list"

definition task_set_snapshot_of :: "task_set \<Rightarrow> task_set_snapshot" where
  "task_set_snapshot_of s =
     \<lparr>tss_accepting = st_accepting s, tss_spawner_count = st_spawner_count s,
      tss_task_count = st_task_count s, tss_ready_queue_len = ready_queue_len s,
      tss_groups = group_snapshots s, tss_tasks = st_tasks s\<rparr>"

subsection \<open>Counters\<close>

record counters =
  ct_spawned :: u64
  ct_completed :: u64
  ct_task_polls :: u64
  ct_budget_exhaustions :: u64
  ct_driver_events :: u64
  ct_readiness_events :: u64
  ct_readable_events :: u64
  ct_writable_events :: u64
  ct_completion_events :: u64
  ct_dispatch_batches :: u64
  ct_dispatched :: u64
  ct_dispatch_exhaustions :: u64

definition counters_new :: counters where
  "counters_new =
     \<lparr>ct_spawned = 0, ct_completed = 0, ct_task_polls = 0, ct_budget_exhaustions = 0,
      ct_driver_events = 0, ct_readiness_events = 0, ct_readable_events = 0,
      ct_writable_events = 0, ct_completion_events = 0, ct_dispatch_batches = 0,
      ct_dispatched = 0, ct_dispatch_exhaustions = 0\<rparr>"

definition record_spawned_task :: "counters \<Rightarrow> counters" where
  "record_spawned_task c = c\<lparr>ct_spawned := ct_spawned c + 1\<rparr>"

definition record_completed_task :: "counters \<Rightarrow> counters" where
  "record_completed_task c = c\<lparr>ct_completed := ct_completed c + 1\<rparr>"

definition record_ready_poll_batch :: "nat \<Rightarrow> bool \<Rightarrow> counters \<Rightarrow> counters" where
  "record_ready_poll_batch polled exhausted c =
     c\<lparr>ct_task_polls := ct_task_polls c + of_nat polled,
       ct_budget_exhaustions := ct_budget_exhaustions c + (if exhausted then 1 else 0)\<rparr>"

definition record_completion_dispatch_batch :: "nat \<Rightarrow> bool \<Rightarrow> counters \<Rightarrow> counters" where
  "record_completion_dispatch_batch dispatched exhausted c =
     c\<lparr>ct_dispatch_batches := ct_dispatch_batches c + 1,
       ct_dispatched := ct_dispatched c + of_nat dispatched,
       ct_dispatch_exhaustions := ct_dispatch_exhaustions c + (if exhausted then 1 else 0)\<rparr>"

definition record_driver_event :: "bool \<Rightarrow> bool \<Rightarrow> bool \<Rightarrow> bool \<Rightarrow> counters \<Rightarrow> counters" where
  "record_driver_event readiness readable writable completion c =
     (let c = c\<lparr>ct_driver_events := ct_driver_events c + 1\<rparr>;
          c = (if readiness then
                 c\<lparr>ct_readiness_events := ct_readiness_events c + 1,
                   ct_readable_events := ct_readable_events c + (if readable then 1 else 0),
                   ct_writable_events := ct_writable_events c + (if writable then 1 else 0)\<rparr>
               else c)
      in if completion then c\<lparr>ct_completion_events := ct_completion_events c + 1\<rparr> else c)"

definition group_inv :: "task_set \<Rightarrow> bool" where
  "group_inv s \<longleftrightarrow>
     st_groups s \<noteq> [] \<and> map sg_id (st_groups s) = [0..<length (st_groups s)] \<and>
     (\<forall>g\<in>set (st_groups s). 0 < sg_shares g \<and> (\<forall>t\<in>set (sg_queue g). tr_group t = sg_id g))"

text \<open>One scheduling round of a task that is ready again when its poll ends.\<close>

definition serve_round :: "duration \<Rightarrow> task_set \<Rightarrow> task_set" where
  "serve_round d s =
     (case next_task s of
        (None, s') \<Rightarrow> s'
      | (Some t, s') \<Rightarrow>
          record_task_poll (tr_group t) d (snd (snd (schedule_existing t s'))))"

definition backlogged :: "task_set \<Rightarrow> nat list" where
  "backlogged s = filter (\<lambda>i. sg_queue (st_groups s ! i) \<noteq> []) [0..<length (st_groups s)]"

definition spread_within :: "nat \<Rightarrow> task_set \<Rightarrow> bool" where
  "spread_within c s \<longleftrightarrow>
     (\<forall>i\<in>set (backlogged s). \<forall>j\<in>set (backlogged s).
        sg_virtual_runtime (st_groups s ! i) \<le> sg_virtual_runtime (st_groups s ! j) + c)"

subsection \<open>Laws\<close>

lemma min_group_None [simp]: "min_group gs is = None \<longleftrightarrow> is = []"
  by (cases "is") (auto split: option.splits)

lemma min_group_Some:
  "min_group gs is = Some i \<Longrightarrow> i \<in> set is \<and> (\<forall>j\<in>set is. \<not> key_less (gs ! j) (gs ! i))"
proof (induction "is" arbitrary: i)
  case (Cons k ks)
  show ?case
  proof (cases "min_group gs ks")
    case None
    then show ?thesis using Cons.prems by (auto simp: key_less_def)
  next
    case (Some j)
    from Cons.IH [OF Some] Cons.prems Some show ?thesis
      by (auto simp: key_less_def split: if_splits)
  qed
qed simp

lemma backlogged_iff:
  "i \<in> set (backlogged s) \<longleftrightarrow> i < length (st_groups s) \<and> sg_queue (st_groups s ! i) \<noteq> []"
  by (auto simp: backlogged_def)

lemma pick_group_Some:
  assumes "pick_group s = Some i"
  shows "i < length (st_groups s)" "sg_queue (st_groups s ! i) \<noteq> []"
    "\<And>j. j \<in> set (backlogged s) \<Longrightarrow> \<not> key_less (st_groups s ! j) (st_groups s ! i)"
proof -
  have "i \<in> set (backlogged s) \<and>
      (\<forall>j\<in>set (backlogged s). \<not> key_less (st_groups s ! j) (st_groups s ! i))"
    using min_group_Some [of "st_groups s" "backlogged s" i] assms
    by (simp add: pick_group_def flip: backlogged_def)
  then show "i < length (st_groups s)" "sg_queue (st_groups s ! i) \<noteq> []"
    "\<And>j. j \<in> set (backlogged s) \<Longrightarrow> \<not> key_less (st_groups s ! j) (st_groups s ! i)"
    by (auto simp: backlogged_iff)
qed

lemma pick_group_vr:
  "pick_group s = Some i \<Longrightarrow> j \<in> set (backlogged s) \<Longrightarrow>
   sg_virtual_runtime (st_groups s ! i) \<le> sg_virtual_runtime (st_groups s ! j)"
  using pick_group_Some(3) [of s i j] by (auto simp: key_less_def)

lemma ready_queue_len_0: "ready_queue_len s = 0 \<longleftrightarrow> backlogged s = []"
  by (auto simp: ready_queue_len_def backlogged_def filter_empty_conv all_set_conv_all_nth)

lemma pick_group_None: "pick_group s = None \<longleftrightarrow> ready_queue_len s = 0"
  by (simp add: pick_group_def ready_queue_len_0 flip: backlogged_def)

lemma group_inv_id: "group_inv s \<Longrightarrow> i < length (st_groups s) \<Longrightarrow> sg_id (st_groups s ! i) = i"
  by (metis group_inv_def add_0 diff_zero nth_map nth_upt)

lemma group_index_inv:
  "group_inv s \<Longrightarrow> group_index i s = (if i < length (st_groups s) then Some i else None)"
  by (auto simp: group_index_def group_inv_id)

lemma group_inv_new: "group_inv task_set_new"
  by (simp add: group_inv_def task_set_new_def default_group_id_def default_group_shares_def)

lemma group_inv_update:
  assumes "group_inv s" "i < length (st_groups s)" "sg_id g = i" "0 < sg_shares g"
    "\<forall>t\<in>set (sg_queue g). tr_group t = i"
  shows "group_inv (s\<lparr>st_groups := (st_groups s)[i := g]\<rparr>)"
proof -
  have "map sg_id ((st_groups s)[i := g]) = map sg_id (st_groups s)"
    using assms by (metis map_update list_update_id nth_map group_inv_id)
  then show ?thesis
    using assms by (auto simp: group_inv_def dest!: subsetD [OF set_update_subset_insert])
qed

lemma group_invD:
  assumes "group_inv s" "i < length (st_groups s)"
  shows "0 < sg_shares (st_groups s ! i)" "t \<in> set (sg_queue (st_groups s ! i)) \<Longrightarrow> tr_group t = i"
  using assms group_inv_id [OF assms] unfolding group_inv_def by (metis nth_mem)+

lemma group_inv_enqueue [inv_intros]:
  assumes "group_inv s" "tr_group t < length (st_groups s)"
  shows "group_inv (enqueue_group (tr_group t) t s)"
  unfolding enqueue_group_def using assms group_invD [OF assms]
  by (intro group_inv_update) (auto simp: group_inv_id)

lemma group_inv_next [inv_intros]:
  assumes "group_inv s"
  shows "group_inv (snd (next_task s))"
proof (cases "pick_group s")
  case None
  then show ?thesis using assms by (simp add: next_task_def)
next
  case (Some i)
  note i = pick_group_Some(1,2) [OF Some]
  have "\<forall>t\<in>set (tl (sg_queue (st_groups s ! i))). tr_group t = i"
    using group_invD(2) [OF assms i(1)] list.set_sel(2) [OF i(2)] by blast
  then show ?thesis
    using group_invD(1) [OF assms i(1)] i assms
    by (auto simp: next_task_def Some group_inv_id intro!: group_inv_update)
qed

lemma group_inv_record [inv_intros]:
  assumes "group_inv s"
  shows "group_inv (record_task_poll gid d s)"
proof (cases "gid < length (st_groups s)")
  case True
  then show ?thesis
    unfolding record_task_poll_def Let_def group_index_inv [OF assms] using group_invD [OF assms True] assms
    by (auto intro!: group_inv_update simp: group_inv_id)
next
  case False
  then show ?thesis using assms by (simp add: record_task_poll_def group_index_inv)
qed

lemma group_inv_create [inv_intros]:
  "group_inv s \<Longrightarrow> 0 < shares \<Longrightarrow> group_inv (snd (create_scheduling_group name shares s))"
  by (auto simp: group_inv_def create_scheduling_group_def Let_def)

lemma group_inv_schedule_existing [inv_intros]:
  "group_inv s \<Longrightarrow> group_inv (snd (snd (schedule_existing t s)))"
  by (auto simp: schedule_existing_def group_index_inv intro: inv_intros)

lemma group_inv_schedule_new [inv_intros]:
  assumes "group_inv s"
  shows "group_inv (snd (snd (schedule_new alive t s)))"
proof -
  have "group_inv (maybe_compact_tasks alive (s\<lparr>st_task_count := n\<rparr>)\<lparr>st_tasks := ts\<rparr>)" for n ts
    using assms by (simp add: group_inv_def maybe_compact_tasks_def)
  moreover have "st_groups (maybe_compact_tasks alive (s\<lparr>st_task_count := n\<rparr>)\<lparr>st_tasks := ts\<rparr>)
      = st_groups s" for n ts
    by (simp add: maybe_compact_tasks_def)
  ultimately show ?thesis
    using assms by (auto simp: schedule_new_def group_index_inv Let_def intro!: group_inv_enqueue)
qed

lemma serve_round_eq:
  assumes "group_inv s" "st_accepting s" "pick_group s = Some i"
  defines "g \<equiv> st_groups s ! i"
  shows "serve_round d s = s\<lparr>st_groups := (st_groups s)[i := g
     \<lparr>sg_queue := tl (sg_queue g) @ [hd (sg_queue g)],
      sg_total_poll_time := sg_total_poll_time g + d, sg_total_polls := sg_total_polls g + 1,
      sg_virtual_runtime := sg_virtual_runtime g + poll_charge d (sg_shares g)\<rparr>]\<rparr>"
proof -
  note i = pick_group_Some(1,2) [OF assms(3)]
  let ?t = "hd (sg_queue g)"
  define s1 where "s1 = snd (next_task s)"
  have n: "next_task s = (Some ?t, s1)" by (simp add: s1_def next_task_def assms(3) g_def)
  have t: "tr_group ?t = i"
    using group_invD(2) [OF assms(1) i(1)] i(2) by (simp add: g_def)
  have s1: "s1 = s\<lparr>st_groups := (st_groups s)[i := g\<lparr>sg_queue := tl (sg_queue g)\<rparr>]\<rparr>"
    by (simp add: s1_def next_task_def assms(3) g_def)
  have inv1: "group_inv s1" unfolding s1_def by (rule group_inv_next [OF assms(1)])
  let ?s2 = "enqueue_group i ?t s1"
  have s2: "snd (snd (schedule_existing ?t s1)) = ?s2"
  proof -
    have "group_index i s1 = Some i" using group_index_inv [OF inv1, of i] i(1) by (simp add: s1)
    moreover have "st_accepting s1" using assms(2) by (simp add: s1)
    ultimately show ?thesis by (simp add: schedule_existing_def t)
  qed
  have inv2: "group_inv ?s2"
    using group_inv_enqueue [OF inv1, of ?t] i(1) t s1 by simp
  have s2': "?s2 = s\<lparr>st_groups := (st_groups s)[i := g\<lparr>sg_queue := tl (sg_queue g) @ [?t]\<rparr>]\<rparr>"
    using i(1) by (simp add: enqueue_group_def s1)
  have "group_index i ?s2 = Some i"
    using group_index_inv [OF inv2, of i] i(1) by (simp add: enqueue_group_def s1)
  then have "record_task_poll i d ?s2 = ?s2\<lparr>st_groups := (st_groups ?s2)[i := (st_groups ?s2 ! i)
     \<lparr>sg_total_poll_time := sg_total_poll_time (st_groups ?s2 ! i) + d,
      sg_total_polls := sg_total_polls (st_groups ?s2 ! i) + 1,
      sg_virtual_runtime := sg_virtual_runtime (st_groups ?s2 ! i) +
        poll_charge d (sg_shares (st_groups ?s2 ! i))\<rparr>]\<rparr>"
    by (simp add: record_task_poll_def Let_def)
  moreover have "serve_round d s = record_task_poll i d ?s2"
    by (simp add: serve_round_def n s2 t)
  ultimately show ?thesis
    unfolding s2' using i(1) by simp
qed

lemma serve_round_none: "pick_group s = None \<Longrightarrow> serve_round d s = s"
  by (simp add: serve_round_def next_task_def)

lemma serve_round_inv [inv_intros]: "group_inv s \<Longrightarrow> group_inv (serve_round d s)"
  using group_inv_next [of s]
  by (cases "next_task s"; cases "fst (next_task s)")
    (simp_all add: serve_round_def group_inv_record group_inv_schedule_existing)

lemma serve_round_accepting: "group_inv s \<Longrightarrow> st_accepting s \<Longrightarrow> st_accepting (serve_round d s)"
  by (cases "pick_group s") (simp_all add: serve_round_none serve_round_eq)

lemma serve_round_shares:
  "group_inv s \<Longrightarrow> st_accepting s \<Longrightarrow>
   map sg_shares (st_groups (serve_round d s)) = map sg_shares (st_groups s)"
proof (cases "pick_group s")
  case (Some i)
  assume "group_inv s" "st_accepting s"
  then have "map sg_shares (st_groups (serve_round d s)) =
      (map sg_shares (st_groups s))[i := sg_shares (st_groups s ! i)]"
    by (simp add: serve_round_eq [OF _ _ Some] map_update)
  then show ?thesis
    using pick_group_Some(1) [OF Some] by (metis list_update_id nth_map)
qed (simp add: serve_round_none)

lemma serve_round_backlogged:
  assumes "group_inv s" "st_accepting s"
  shows "set (backlogged (serve_round d s)) = set (backlogged s)"
proof (cases "pick_group s")
  case (Some i)
  then show ?thesis
    using pick_group_Some(1,2) [OF Some]
    by (auto simp: serve_round_eq [OF assms Some] backlogged_iff nth_list_update split: if_splits)
qed (simp add: serve_round_none)

lemma serve_round_spread:
  assumes "group_inv s" "st_accepting s" "spread_within c s"
    and "\<forall>g\<in>set (st_groups s). poll_charge d (sg_shares g) \<le> c"
  shows "spread_within c (serve_round d s)"
proof (cases "pick_group s")
  case (Some i)
  note i = pick_group_Some(1) [OF Some]
  let ?v = "\<lambda>k. sg_virtual_runtime (st_groups s ! k)"
  let ?v' = "\<lambda>k. sg_virtual_runtime (st_groups (serve_round d s) ! k)"
  have v': "?v' k = (if k = i then ?v i + poll_charge d (sg_shares (st_groups s ! i)) else ?v k)"
    if "k < length (st_groups s)" for k
    using i that by (simp add: serve_round_eq [OF assms(1,2) Some] nth_list_update)
  have ch: "poll_charge d (sg_shares (st_groups s ! i)) \<le> c" using assms(4) i by simp
  show ?thesis
    unfolding spread_within_def serve_round_backlogged [OF assms(1,2)]
  proof (intro ballI)
    fix a b
    assume a: "a \<in> set (backlogged s)" and b: "b \<in> set (backlogged s)"
    have "?v a \<le> ?v b + c" using assms(3) a b by (simp add: spread_within_def)
    moreover have "?v i \<le> ?v b" by (rule pick_group_vr [OF Some b])
    ultimately show "?v' a \<le> ?v' b + c"
      using a b v' ch by (auto simp: backlogged_iff)
  qed
qed (simp add: serve_round_none assms(3))

lemma min_group_cong:
  assumes "\<forall>i\<in>set is. sg_virtual_runtime (gs ! i) = sg_virtual_runtime (hs ! i) \<and>
    sg_id (gs ! i) = sg_id (hs ! i)"
  shows "min_group gs is = min_group hs is"
  using assms
proof (induction "is")
  case (Cons k ks)
  then have IH: "min_group gs ks = min_group hs ks" by simp
  show ?case
  proof (cases "min_group hs ks")
    case (Some j)
    then have "j \<in> set ks" by (simp add: min_group_Some)
    then show ?thesis using Cons.prems Some IH by (simp add: key_less_def)
  qed (simp add: IH)
qed simp

lemma serve_round_free_pick:
  assumes "group_inv s" "st_accepting s" "pick_group s = Some i"
    and "poll_charge d (sg_shares (st_groups s ! i)) = 0"
  shows "pick_group (serve_round d s) = Some i"
    "j \<noteq> i \<Longrightarrow> st_groups (serve_round d s) ! j = st_groups s ! j"
    "sg_shares (st_groups (serve_round d s) ! i) = sg_shares (st_groups s ! i)"
proof -
  note i = pick_group_Some(1,2) [OF assms(3)]
  note eq = serve_round_eq [OF assms(1-3), of d]
  have len: "length (st_groups (serve_round d s)) = length (st_groups s)" by (simp add: eq)
  have q: "sg_queue (st_groups (serve_round d s) ! k) \<noteq> [] \<longleftrightarrow> sg_queue (st_groups s ! k) \<noteq> []"
    if "k < length (st_groups s)" for k
    using i that by (auto simp: eq nth_list_update)
  have "backlogged (serve_round d s) = backlogged s"
    unfolding backlogged_def len by (rule filter_cong) (use q in auto)
  moreover have "min_group (st_groups (serve_round d s)) (backlogged s) = min_group (st_groups s) (backlogged s)"
    using i assms(4) by (intro min_group_cong) (auto simp: eq nth_list_update backlogged_iff)
  ultimately show "pick_group (serve_round d s) = Some i"
    using assms(3) by (simp add: pick_group_def flip: backlogged_def)
  show "j \<noteq> i \<Longrightarrow> st_groups (serve_round d s) ! j = st_groups s ! j" by (simp add: eq)
  show "sg_shares (st_groups (serve_round d s) ! i) = sg_shares (st_groups s ! i)"
    using i by (simp add: eq)
qed

lemma charge_bound:
  assumes "d < 2 ^ 64 * 10 ^ 9" "0 < shares"
  shows "poll_charge d shares < 2 ^ 101"
proof -
  have "poll_charge d shares \<le> max d 1 * 100"
    by (simp add: poll_charge_def default_group_shares_def)
  also have "\<dots> < 2 ^ 101" using assms(1) by (simp add: max_def)
  finally show ?thesis .
qed

lemma fold_serve_inv:
  assumes "group_inv s" "st_accepting s" "spread_within c s"
    and "\<forall>d\<in>set ds. \<forall>sh\<in>set (map sg_shares (st_groups s)). poll_charge d sh \<le> c"
  shows "spread_within c (fold serve_round ds s)"
  using assms
proof (induction ds arbitrary: s)
  case (Cons d ds)
  have "\<forall>g\<in>set (st_groups s). poll_charge d (sg_shares g) \<le> c" using Cons.prems(4) by simp
  from serve_round_spread [OF Cons.prems(1-3) this] show ?case
    using Cons.IH [of "serve_round d s"] Cons.prems
    by (simp add: serve_round_inv serve_round_accepting serve_round_shares)
qed simp

lemma fold_serve_free:
  assumes "group_inv s" "st_accepting s" "pick_group s = Some i"
    and "poll_charge d (sg_shares (st_groups s ! i)) = 0" "j \<noteq> i"
  shows "pick_group (fold serve_round (replicate n d) s) = Some i \<and>
    st_groups (fold serve_round (replicate n d) s) ! j = st_groups s ! j"
  using assms
proof (induction n arbitrary: s)
  case (Suc n)
  note r = serve_round_free_pick [OF Suc.prems(1-4)]
  have z: "poll_charge d (sg_shares (st_groups (serve_round d s) ! i)) = 0"
    using r(3) Suc.prems(4) by simp
  from Suc.IH [OF serve_round_inv [OF Suc.prems(1)] serve_round_accepting [OF Suc.prems(1,2)] r(1) z
      Suc.prems(5)] r(2) [OF Suc.prems(5)]
  show ?case by simp
qed simp

subsection \<open>Properties\<close>

text \<open>The scheduler takes the oldest task of a ready group with the least virtual runtime,
  and the least identifier among those; it finds none exactly when no task is ready; nothing but
  that one queue changes.\<close>

theorem next_task_minimal:
  "case next_task s of
     (None, s') \<Rightarrow> ready_queue_len s = 0 \<and> s' = s
   | (Some t, s') \<Rightarrow>
       (\<exists>i<length (st_groups s). \<exists>q.
          sg_queue (st_groups s ! i) = t # q \<and>
          s' = s\<lparr>st_groups := (st_groups s)[i := (st_groups s ! i)\<lparr>sg_queue := q\<rparr>]\<rparr> \<and>
          list_all (\<lambda>g. sg_queue g = [] \<or>
              sg_virtual_runtime (st_groups s ! i) < sg_virtual_runtime g \<or>
              sg_virtual_runtime (st_groups s ! i) = sg_virtual_runtime g \<and>
                sg_id (st_groups s ! i) \<le> sg_id g) (st_groups s))"
proof (cases "pick_group s")
  case None
  then have "ready_queue_len s = 0" by (simp add: pick_group_None)
  with None show ?thesis by (simp add: next_task_def)
next
  case (Some i)
  note i = pick_group_Some [OF Some]
  have "list_all (\<lambda>g. sg_queue g = [] \<or>
              sg_virtual_runtime (st_groups s ! i) < sg_virtual_runtime g \<or>
              sg_virtual_runtime (st_groups s ! i) = sg_virtual_runtime g \<and>
                sg_id (st_groups s ! i) \<le> sg_id g) (st_groups s)"
    unfolding list_all_length
  proof (intro allI impI)
    fix j assume j: "j < length (st_groups s)"
    show "sg_queue (st_groups s ! j) = [] \<or>
        sg_virtual_runtime (st_groups s ! i) < sg_virtual_runtime (st_groups s ! j) \<or>
        sg_virtual_runtime (st_groups s ! i) = sg_virtual_runtime (st_groups s ! j) \<and>
          sg_id (st_groups s ! i) \<le> sg_id (st_groups s ! j)"
      using i(3) [of j] j by (auto simp: backlogged_iff key_less_def)
  qed
  then show ?thesis
    using i(1,2) by (auto simp: next_task_def Some intro!: exI [of _ i] exI [of _ "tl (sg_queue (st_groups s ! i))"])
qed



text \<open>C40: a group whose shares exceed a hundred times the poll time in nanoseconds is charged
  nothing, because the division rounds to zero.  If such a group is the one picked, it is picked in
  every later round, and no other ready group is ever served.\<close>

theorem zero_charge_starves:
  assumes "group_inv s" "st_accepting s" "pick_group s = Some i" "j \<noteq> i"
    and "max d 1 * 100 < sg_shares (st_groups s ! i)"
  shows "pick_group (fold serve_round (replicate n d) s) = Some i \<and>
    st_groups (fold serve_round (replicate n d) s) ! j = st_groups s ! j"
proof (rule fold_serve_free [OF assms(1-3) _ assms(4)])
  show "poll_charge d (sg_shares (st_groups s ! i)) = 0"
    using assms(5) by (simp add: poll_charge_def default_group_shares_def)
qed

text \<open>The witness: a group with 100000 shares next to the default group, polls of 200
  nanoseconds, after the default group has been served once.\<close>

theorem zero_charge_starves_witness:
  "let g = \<lparr>sg_id = 0, sg_name = ''default'', sg_shares = 100, sg_virtual_runtime = 200,
         sg_total_polls = 1, sg_total_poll_time = 200, sg_queue = [\<lparr>tr_id = 0, tr_group = 0\<rparr>]\<rparr>;
       h = g\<lparr>sg_id := 1, sg_shares := 100000, sg_virtual_runtime := 0,
             sg_queue := [\<lparr>tr_id = 1, tr_group = 1\<rparr>]\<rparr>
   in st_groups (fold serve_round (replicate 1000000 200) (task_set_new\<lparr>st_groups := [g, h]\<rparr>)) ! 0
        = g"
proof -
  let ?g = "\<lparr>sg_id = 0, sg_name = ''default'', sg_shares = 100, sg_virtual_runtime = 200,
         sg_total_polls = 1, sg_total_poll_time = 200, sg_queue = [\<lparr>tr_id = 0, tr_group = 0\<rparr>]\<rparr>"
  let ?h = "?g\<lparr>sg_id := 1, sg_shares := 100000, sg_virtual_runtime := 0,
             sg_queue := [\<lparr>tr_id = 1, tr_group = 1\<rparr>]\<rparr>"
  let ?s = "task_set_new\<lparr>st_groups := [?g, ?h]\<rparr>"
  have "group_inv ?s" "st_accepting ?s" "pick_group ?s = Some 1"
    by (simp_all add: group_inv_def task_set_new_def pick_group_def key_less_def)
  from zero_charge_starves [OF this, of 0 200 1000000] show ?thesis by (simp add: Let_def)
qed

text \<open>A new task is accepted exactly while the executor accepts tasks and its group exists;
  it is then the newest of its group's queue and counted, and compacting the list of weak
  references drops no live task and keeps the list at most \<open>max 64 (2 * task_count)\<close> long, plus the
  live ones.\<close>

theorem schedule_new_keeps_live_tasks:
  assumes "group_inv s"
  shows "case schedule_new alive t s of
      (Inl e, cleared, s') \<Rightarrow>
        s' = s \<and> cleared \<and> (st_accepting s \<longrightarrow> length (st_groups s) \<le> tr_group t)
    | (Inr _, cleared, s') \<Rightarrow>
        st_accepting s \<and> \<not> cleared \<and> group_inv s' \<and>
        st_task_count s' = st_task_count s + 1 \<and>
        sg_queue (st_groups s' ! tr_group t) = sg_queue (st_groups s ! tr_group t) @ [t] \<and>
        set (filter alive (st_tasks s)) \<subseteq> set (st_tasks s') \<and> t \<in> set (st_tasks s') \<and>
        length (st_tasks s') \<le>
          max (max compaction_min (2 * st_task_count s')) (length (filter alive (st_tasks s))) + 1"
proof (cases "st_accepting s \<and> tr_group t < length (st_groups s)")
  case True
  then have "group_inv (snd (snd (schedule_new alive t s)))"
    by (intro group_inv_schedule_new assms)
  with True show ?thesis
    by (auto simp: schedule_new_def group_index_inv [OF assms] Let_def enqueue_group_def
        maybe_compact_tasks_def)
next
  case False
  then show ?thesis by (auto simp: schedule_new_def group_index_inv [OF assms])
qed

theorem schedule_new_keeps_live_tasks_witness:
  "\<exists>s'. schedule_new (\<lambda>_. True) \<lparr>tr_id = 3, tr_group = 0\<rparr> task_set_new = (Inr (), False, s') \<and>
     st_task_count s' = 1 \<and> sg_queue (st_groups s' ! 0) = [\<lparr>tr_id = 3, tr_group = 0\<rparr>]"
proof -
  let ?t = "\<lparr>tr_id = 3, tr_group = 0\<rparr> :: task_ref"
  have new: "st_accepting task_set_new" "length (st_groups task_set_new) = 1"
      "sg_queue (st_groups task_set_new ! 0) = []" "st_task_count task_set_new = 0"
    by (simp_all add: task_set_new_def)
  obtain r c s' where r: "schedule_new (\<lambda>_. True) ?t task_set_new = (r, c, s')"
    by (cases "schedule_new (\<lambda>_. True) ?t task_set_new")
  from schedule_new_keeps_live_tasks [OF group_inv_new, of ?t "\<lambda>_. True"] new r show ?thesis
    by (cases r) auto
qed

end
