(* ===== verification/Exec_Core.thy ===== *)
theory Exec_Core
  imports Task_Set Timer_Set Io_Interest
begin

text \<open>
  The executor: the scheduler of \<open>executor/scheduler.rs\<close>, the spawner's \<open>spawn_inner\<close> and
  \<open>apply_event\<close> of \<open>executor/driver.rs\<close>.  Tasks are numbered by their creation and a waker
  is the number of its task.  A wake marks the task under the task lock and pushes it under the
  scheduler lock; \<open>ex_step\<close> has these as two steps, so that the two locks interleave.
\<close>

subsection \<open>State\<close>

text \<open>\<open>ex_pushing\<close> holds the tasks that are marked as queued and not yet pushed, \<open>ex_popped\<close> the
  task that was taken from the ready queue and whose poll has not begun, \<open>ex_wakes\<close> counts the
  calls of \<open>wake_reactor\<close>.\<close>

record ('f, 'h) exec =
  ex_set :: task_set
  ex_tasks :: "(nat \<times> ('f, 'h) task) list"
  ex_pushing :: "task_ref list"
  ex_popped :: "task_ref option"
  ex_timers :: timer_set
  ex_io :: readiness_interests
  ex_counters :: counters
  ex_stopping :: bool
  ex_wakes :: nat

definition exec_new :: "('f, 'h) exec" where
  "exec_new =
     \<lparr>ex_set = task_set_new, ex_tasks = [], ex_pushing = [], ex_popped = None,
      ex_timers = timer_set_new, ex_io = readiness_new, ex_counters = counters_new,
      ex_stopping = False, ex_wakes = 0\<rparr>"

definition ex_task :: "('f, 'h) exec \<Rightarrow> nat \<Rightarrow> ('f, 'h) task" where
  "ex_task e n = snd (ex_tasks e ! n)"

definition ex_ref :: "('f, 'h) exec \<Rightarrow> nat \<Rightarrow> task_ref" where
  "ex_ref e n = \<lparr>tr_id = n, tr_group = fst (ex_tasks e ! n)\<rparr>"

definition ex_set_task :: "nat \<Rightarrow> ('f, 'h) task \<Rightarrow> ('f, 'h) exec \<Rightarrow> ('f, 'h) exec" where
  "ex_set_task n t e = e\<lparr>ex_tasks := (ex_tasks e)[n := (fst (ex_tasks e ! n), t)]\<rparr>"

definition wake_reactor :: "('f, 'h) exec \<Rightarrow> ('f, 'h) exec" where
  "wake_reactor e = e\<lparr>ex_wakes := ex_wakes e + 1\<rparr>"

subsection \<open>Scheduler operations\<close>

definition request_stop :: "('f, 'h) exec \<Rightarrow> ('f, 'h) exec" where
  "request_stop e = wake_reactor (e\<lparr>ex_stopping := True\<rparr>)"

definition ex_remove_spawner :: "('f, 'h) exec \<Rightarrow> ('f, 'h) exec" where
  "ex_remove_spawner e =
     (let (zero, s) = remove_spawner (ex_set e); e = e\<lparr>ex_set := s\<rparr>
      in if zero then wake_reactor e else e)"

definition ex_add_spawner :: "('f, 'h) exec \<Rightarrow> ('f, 'h) exec" where
  "ex_add_spawner e = e\<lparr>ex_set := add_spawner (ex_set e)\<rparr>"

definition ex_finish_task :: "('f, 'h) exec \<Rightarrow> ('f, 'h) exec" where
  "ex_finish_task e =
     (let (drained, s) = finish_task (ex_set e);
          e = e\<lparr>ex_set := s, ex_counters := record_completed_task (ex_counters e)\<rparr>
      in if drained then wake_reactor e else e)"

text \<open>\<open>Spawner::spawn_inner\<close> with \<open>Scheduler::schedule\<close>: a rejected task is dropped.\<close>

definition ex_spawn ::
  "(task_ref \<Rightarrow> bool) \<Rightarrow> instant \<Rightarrow> nat \<Rightarrow> 'f \<Rightarrow> 'h option \<Rightarrow> ('f, 'h) exec \<Rightarrow>
   (spawn_error + nat) \<times> ('f, 'h) exec" where
  "ex_spawn alive now gid f h e =
     (let n = length (ex_tasks e);
          (_, s0) = allocate_task_id (ex_set e);
          t = task_new f h;
          t = t\<lparr>tk_state := snd (mark_queued now (tk_state t))\<rparr>
      in case schedule_new alive \<lparr>tr_id = n, tr_group = gid\<rparr> s0 of
           (Inl err, _, s) \<Rightarrow> (Inl err, e\<lparr>ex_set := s\<rparr>)
         | (Inr _, _, s) \<Rightarrow>
             (Inr n, wake_reactor (e\<lparr>ex_set := s, ex_tasks := ex_tasks e @ [(gid, t)],
                ex_counters := record_spawned_task (ex_counters e)\<rparr>)))"

definition ex_wake_mark :: "instant \<Rightarrow> nat \<Rightarrow> ('f, 'h) exec \<Rightarrow> ('f, 'h) exec" where
  "ex_wake_mark now n e =
     (let t = ex_task e n; (ok, s) = mark_queued now (tk_state t)
      in if \<not> ok then e
         else (ex_set_task n (t\<lparr>tk_state := s\<rparr>) e)\<lparr>ex_pushing := ex_pushing e @ [ex_ref e n]\<rparr>)"

definition ex_wake_push :: "nat \<Rightarrow> ('f, 'h) exec \<Rightarrow> ('f, 'h) exec" where
  "ex_wake_push k e =
     (let r = ex_pushing e ! k; e = e\<lparr>ex_pushing := remove_at k (ex_pushing e)\<rparr>
      in case schedule_existing r (ex_set e) of
           (Inl err, _, s) \<Rightarrow>
             (let t = ex_task e (tr_id r)
              in ex_set_task (tr_id r) (t\<lparr>tk_state := clear_queued (tk_state t)\<rparr>) e\<lparr>ex_set := s\<rparr>)
         | (Inr _, _, s) \<Rightarrow> wake_reactor (e\<lparr>ex_set := s\<rparr>))"

definition ex_wake :: "instant \<Rightarrow> nat \<Rightarrow> ('f, 'h) exec \<Rightarrow> ('f, 'h) exec" where
  "ex_wake now n e =
     (let e' = ex_wake_mark now n e
      in if length (ex_pushing e') = length (ex_pushing e) then e'
         else ex_wake_push (length (ex_pushing e)) e')"

definition ex_next_task :: "('f, 'h) exec \<Rightarrow> ('f, 'h) exec" where
  "ex_next_task e = (let (r, s) = next_task (ex_set e) in e\<lparr>ex_set := s, ex_popped := r\<rparr>)"

definition ex_poll_begin :: "instant \<Rightarrow> ('f, 'h) exec \<Rightarrow> ('f, 'h) exec" where
  "ex_poll_begin now e =
     (case ex_popped e of
        None \<Rightarrow> e
      | Some r \<Rightarrow>
          (ex_set_task (tr_id r) (task_poll_begin now (ex_task e (tr_id r))) e)\<lparr>ex_popped := None\<rparr>)"

definition ex_finish_if :: "bool \<Rightarrow> ('f, 'h) exec \<Rightarrow> ('f, 'h) exec" where
  "ex_finish_if b e = (if b then ex_finish_task e else e)"

definition ex_poll_end ::
  "nat \<Rightarrow> poll_outcome \<Rightarrow> duration \<Rightarrow> instant \<Rightarrow> ('f, 'h) exec \<Rightarrow> ('f, 'h) exec" where
  "ex_poll_end n out d now e =
     (let t = ex_task e n; t' = task_poll_end out d now t;
          e = ex_finish_if (tk_finishes t < tk_finishes t') (ex_set_task n t' e)
      in if out = OutPending \<and> tk_finishes t < tk_finishes t' then wake_reactor e else e)"

definition ex_cancel :: "nat \<Rightarrow> ('f, 'h) exec \<Rightarrow> bool \<times> ('f, 'h) exec" where
  "ex_cancel n e =
     (let t = ex_task e n; (ok, t') = task_cancel t
      in if \<not> ok then (False, e)
         else (True, wake_reactor
                 (ex_finish_if (tk_finishes t < tk_finishes t') (ex_set_task n t' e))))"

definition ex_set_waiting :: "nat \<Rightarrow> task_wait \<Rightarrow> ('f, 'h) exec \<Rightarrow> ('f, 'h) exec" where
  "ex_set_waiting n w e =
     (let t = ex_task e n in ex_set_task n (t\<lparr>tk_state := set_waiting_for w (tk_state t)\<rparr>) e)"

definition ex_record_task_poll :: "nat \<Rightarrow> duration \<Rightarrow> ('f, 'h) exec \<Rightarrow> ('f, 'h) exec" where
  "ex_record_task_poll gid d e = e\<lparr>ex_set := record_task_poll gid d (ex_set e)\<rparr>"

definition ex_close :: "(task_ref \<Rightarrow> bool) \<Rightarrow> ('f, 'h) exec \<Rightarrow> ('f, 'h) exec" where
  "ex_close alive e =
     (let (dropped, s) = task_set_close alive (ex_set e)
      in wake_reactor (e\<lparr>ex_set := s, ex_timers := timer_clear (ex_timers e),
           ex_io := readiness_clear (ex_io e),
           ex_tasks := map (\<lambda>(n, g, t).
               if n \<in> tr_id ` set dropped
               then (g, t\<lparr>tk_state := drop_future (tk_state t), tk_closed := True\<rparr>) else (g, t))
             (enumerate 0 (ex_tasks e))\<rparr>))"

subsection \<open>Timers and readiness\<close>

definition ex_register_timer ::
  "nat \<Rightarrow> u64 \<Rightarrow> instant \<Rightarrow> ('f, 'h) exec \<Rightarrow> ('f, 'h) exec" where
  "ex_register_timer n tid deadline e =
     (let e = ex_set_waiting n (WaitTimer deadline) e;
          (should_wake, ts) = timer_register tid deadline n (ex_timers e);
          e = e\<lparr>ex_timers := ts\<rparr>
      in if should_wake then wake_reactor e else e)"

definition ex_wake_all :: "instant \<Rightarrow> waker list \<Rightarrow> ('f, 'h) exec \<Rightarrow> ('f, 'h) exec" where
  "ex_wake_all now ws e = fold (ex_wake now) ws e"

definition ex_wake_expired_timers :: "instant \<Rightarrow> ('f, 'h) exec \<Rightarrow> ('f, 'h) exec" where
  "ex_wake_expired_timers now e =
     (let (ws, ts) = timer_expired now (ex_timers e) in ex_wake_all now ws (e\<lparr>ex_timers := ts\<rparr>))"

definition ex_register_read_interest ::
  "nat \<Rightarrow> u64 \<Rightarrow> int \<Rightarrow> ('f, 'h) exec \<Rightarrow> ('f, 'h) exec" where
  "ex_register_read_interest n i fd e =
     (let e = ex_set_waiting n (WaitReadable fd) e
      in wake_reactor (e\<lparr>ex_io := register_read i fd n (ex_io e)\<rparr>))"

definition ex_register_write_interest ::
  "nat \<Rightarrow> u64 \<Rightarrow> int \<Rightarrow> ('f, 'h) exec \<Rightarrow> ('f, 'h) exec" where
  "ex_register_write_interest n i fd e =
     (let e = ex_set_waiting n (WaitWritable fd) e
      in wake_reactor (e\<lparr>ex_io := register_write i fd n (ex_io e)\<rparr>))"

definition ex_wake_readable_fds :: "instant \<Rightarrow> int list \<Rightarrow> ('f, 'h) exec \<Rightarrow> ('f, 'h) exec" where
  "ex_wake_readable_fds now fds e =
     (let (ws, io) = wake_readable fds (ex_io e) in ex_wake_all now ws (e\<lparr>ex_io := io\<rparr>))"

definition ex_wake_writable_fds :: "instant \<Rightarrow> int list \<Rightarrow> ('f, 'h) exec \<Rightarrow> ('f, 'h) exec" where
  "ex_wake_writable_fds now fds e =
     (let (ws, io) = wake_writable fds (ex_io e) in ex_wake_all now ws (e\<lparr>ex_io := io\<rparr>))"

record driver_event =
  de_readiness :: "(int list \<times> int list) option"
  de_completion :: bool

definition apply_event :: "instant \<Rightarrow> driver_event option \<Rightarrow> ('f, 'h) exec \<Rightarrow> ('f, 'h) exec" where
  "apply_event now event e =
     (case event of
        None \<Rightarrow> e
      | Some ev \<Rightarrow>
          (let e = e\<lparr>ex_counters := record_driver_event (de_readiness ev \<noteq> None)
                 (case de_readiness ev of None \<Rightarrow> False | Some (r, w) \<Rightarrow> r \<noteq> [])
                 (case de_readiness ev of None \<Rightarrow> False | Some (r, w) \<Rightarrow> w \<noteq> [])
                 (de_completion ev) (ex_counters e)\<rparr>
           in case de_readiness ev of
                None \<Rightarrow> e
              | Some (r, w) \<Rightarrow> ex_wake_writable_fds now w (ex_wake_readable_fds now r e)))"

subsection \<open>Steps\<close>

inductive ex_step :: "(task_ref \<Rightarrow> bool) \<Rightarrow> ('f, 'h) exec \<Rightarrow> ('f, 'h) exec \<Rightarrow> bool"
  for alive where
  st_spawn: "ex_step alive e (snd (ex_spawn alive now gid f h e))"
| st_mark: "n < length (ex_tasks e) \<Longrightarrow> ex_step alive e (ex_wake_mark now n e)"
| st_push: "k < length (ex_pushing e) \<Longrightarrow> ex_step alive e (ex_wake_push k e)"
| st_next: "ex_popped e = None \<Longrightarrow> ex_step alive e (ex_next_task e)"
| st_begin:
    "\<forall>n<length (ex_tasks e). tk_held (ex_task e n) = None \<Longrightarrow>
     ex_step alive e (ex_poll_begin now e)"
| st_end: "n < length (ex_tasks e) \<Longrightarrow> ex_step alive e (ex_poll_end n out d now e)"
| st_cancel: "n < length (ex_tasks e) \<Longrightarrow> ex_step alive e (snd (ex_cancel n e))"
| st_waiting: "n < length (ex_tasks e) \<Longrightarrow> ex_step alive e (ex_set_waiting n w e)"
| st_charge: "ex_step alive e (ex_record_task_poll gid d e)"
| st_group:
    "0 < shares \<Longrightarrow>
     ex_step alive e (e\<lparr>ex_set := snd (create_scheduling_group name shares (ex_set e))\<rparr>)"
| st_add_spawner: "ex_step alive e (ex_add_spawner e)"
| st_remove_spawner: "ex_step alive e (ex_remove_spawner e)"
| st_timers: "ex_step alive e (e\<lparr>ex_timers := ts, ex_io := io, ex_wakes := w\<rparr>)"

definition queue_all :: "task_set \<Rightarrow> task_ref list" where
  "queue_all s = concat (map sg_queue (st_groups s))"

definition ex_refs :: "('f, 'h) exec \<Rightarrow> task_ref list" where
  "ex_refs e = queue_all (ex_set e) @ ex_pushing e @ opt_list (ex_popped e)"

definition ex_occ :: "('f, 'h) exec \<Rightarrow> nat \<Rightarrow> nat" where
  "ex_occ e n = count (mset (map tr_id (ex_refs e))) n"

definition ex_unfinished :: "('f, 'h) exec \<Rightarrow> nat" where
  "ex_unfinished e = length (filter (\<lambda>x. \<not> ts_completed (tk_state (snd x))) (ex_tasks e))"

definition ex_struct :: "('f, 'h) exec \<Rightarrow> bool" where
  "ex_struct e \<longleftrightarrow>
     group_inv (ex_set e) \<and> st_accepting (ex_set e) \<and>
     (\<forall>n<length (ex_tasks e). task_inv (ex_task e n) \<and> \<not> tk_closed (ex_task e n) \<and>
        fst (ex_tasks e ! n) < length (st_groups (ex_set e))) \<and>
     (\<forall>r\<in>set (ex_refs e). tr_id r < length (ex_tasks e) \<and> tr_group r = fst (ex_tasks e ! tr_id r))"

definition ex_queues :: "('f, 'h) exec \<Rightarrow> bool" where
  "ex_queues e \<longleftrightarrow>
     (\<forall>n<length (ex_tasks e). let s = tk_state (ex_task e n) in
        ex_occ e n \<le> 1 \<and> (ts_queued s \<longrightarrow> ex_occ e n = 1) \<and>
        (ex_occ e n = 1 \<and> \<not> ts_queued s \<longrightarrow> ts_completed s))"

definition ex_counts :: "('f, 'h) exec \<Rightarrow> bool" where
  "ex_counts e \<longleftrightarrow>
     st_task_count (ex_set e) = ex_unfinished e \<and>
     ct_spawned (ex_counters e) = of_nat (length (ex_tasks e)) \<and>
     ct_completed (ex_counters e) + of_nat (ex_unfinished e) = of_nat (length (ex_tasks e))"

definition ex_inv :: "('f, 'h) exec \<Rightarrow> bool" where
  "ex_inv e \<longleftrightarrow> ex_struct e \<and> ex_queues e \<and> ex_counts e"

subsection \<open>Queues\<close>

lemma ex_occ_add:
  "mset (ex_refs e') = add_mset r (mset (ex_refs e)) \<Longrightarrow>
   ex_occ e' m = ex_occ e m + of_bool (m = tr_id r)"
  by (simp add: ex_occ_def)

lemma queue_all_enqueue:
  "i < length (st_groups s) \<Longrightarrow> mset (queue_all (enqueue_group i t s)) = add_mset t (mset (queue_all s))"
  using mset_concat_map_update [of i "st_groups s" sg_queue
      "(st_groups s ! i)\<lparr>sg_queue := sg_queue (st_groups s ! i) @ [t]\<rparr>"]
  by (simp add: queue_all_def enqueue_group_def)

lemma queue_all_next:
  assumes "next_task s = (Some r, s')"
  shows "mset (queue_all s) = add_mset r (mset (queue_all s'))"
proof -
  from assms obtain i where i: "pick_group s = Some i"
    by (auto simp: next_task_def split: option.splits)
  note p = pick_group_Some(1,2) [OF i]
  let ?g = "st_groups s ! i"
  have r: "r = hd (sg_queue ?g)"
    and s': "s' = s\<lparr>st_groups := (st_groups s)[i := ?g\<lparr>sg_queue := tl (sg_queue ?g)\<rparr>]\<rparr>"
    using assms by (auto simp: next_task_def i)
  have "mset (sg_queue ?g) = add_mset r (mset (tl (sg_queue ?g)))"
    using p(2) r by (cases "sg_queue ?g") auto
  then show ?thesis
    using mset_concat_map_update [OF p(1), of sg_queue "?g\<lparr>sg_queue := tl (sg_queue ?g)\<rparr>"]
    by (simp add: queue_all_def s')
qed

lemma queue_all_next_None: "next_task s = (None, s') \<Longrightarrow> s' = s"
  by (simp add: next_task_def split: option.splits)

lemma queue_all_record: "queue_all (record_task_poll gid d s) = queue_all s"
proof (cases "group_index gid s")
  case (Some i)
  then have i: "i < length (st_groups s)" by (simp add: group_index_def split: if_splits)
  let ?g = "st_groups s ! i"
  have "map sg_queue ((st_groups s)[i := h]) = map sg_queue (st_groups s)"
    if "sg_queue h = sg_queue ?g" for h
    using i that by (metis map_update list_update_id nth_map)
  then show ?thesis using Some by (simp add: queue_all_def record_task_poll_def Let_def)
qed (simp add: record_task_poll_def)

lemma queue_all_create: "queue_all (snd (create_scheduling_group name shares s)) = queue_all s"
  by (simp add: queue_all_def create_scheduling_group_def Let_def)

lemma ex_set_task_simps [simp]:
  "ex_set (ex_set_task n t e) = ex_set e"
  "length (ex_tasks (ex_set_task n t e)) = length (ex_tasks e)"
  "ex_pushing (ex_set_task n t e) = ex_pushing e"
  "ex_popped (ex_set_task n t e) = ex_popped e"
  "ex_counters (ex_set_task n t e) = ex_counters e"
  "ex_refs (ex_set_task n t e) = ex_refs e"
  "ex_occ (ex_set_task n t e) = ex_occ e"
  by (simp_all add: ex_set_task_def ex_refs_def ex_occ_def fun_eq_iff)

lemma ex_set_task_nth:
  "n < length (ex_tasks e) \<Longrightarrow> ex_task (ex_set_task n t e) m = (if m = n then t else ex_task e m)"
  by (simp add: ex_task_def ex_set_task_def)

lemma ex_set_task_fst: "fst (ex_tasks (ex_set_task n t e) ! m) = fst (ex_tasks e ! m)"
  by (cases "n < length (ex_tasks e)"; cases "m = n")
    (simp_all add: ex_set_task_def list_update_beyond)

lemma ex_unfinished_set_task:
  assumes "n < length (ex_tasks e)"
  shows "ex_unfinished (ex_set_task n t e) + of_bool (\<not> ts_completed (tk_state (ex_task e n))) =
    ex_unfinished e + of_bool (\<not> ts_completed (tk_state t))"
  using length_filter_update [OF assms, of "\<lambda>x. \<not> ts_completed (tk_state (snd x))" "(fst (ex_tasks e ! n), t)"]
  by (simp add: ex_unfinished_def ex_set_task_def ex_task_def)

lemma ex_finish_simps [simp]:
  "st_groups (ex_set (ex_finish_task e)) = st_groups (ex_set e)"
  "st_accepting (ex_set (ex_finish_task e)) = st_accepting (ex_set e)"
  "st_task_count (ex_set (ex_finish_task e)) = st_task_count (ex_set e) - 1"
  "ex_tasks (ex_finish_task e) = ex_tasks e"
  "ex_pushing (ex_finish_task e) = ex_pushing e"
  "ex_popped (ex_finish_task e) = ex_popped e"
  "ct_completed (ex_counters (ex_finish_task e)) = ct_completed (ex_counters e) + 1"
  "ct_spawned (ex_counters (ex_finish_task e)) = ct_spawned (ex_counters e)"
  by (simp_all add: ex_finish_task_def finish_task_def Let_def wake_reactor_def
      record_completed_task_def)

text \<open>The parts of the state that the invariant depends on.\<close>

lemma ex_inv_cong:
  assumes "st_groups (ex_set e) = st_groups (ex_set e')"
    "st_accepting (ex_set e) = st_accepting (ex_set e')"
    "st_task_count (ex_set e) = st_task_count (ex_set e')"
    "ex_tasks e = ex_tasks e'" "ex_pushing e = ex_pushing e'" "ex_popped e = ex_popped e'"
    "ct_spawned (ex_counters e) = ct_spawned (ex_counters e')"
    "ct_completed (ex_counters e) = ct_completed (ex_counters e')"
  shows "ex_inv e \<longleftrightarrow> ex_inv e'"
proof -
  have "ex_refs e = ex_refs e'" using assms by (simp add: ex_refs_def queue_all_def)
  moreover have "group_inv (ex_set e) \<longleftrightarrow> group_inv (ex_set e')"
    using assms(1) by (simp add: group_inv_def)
  ultimately show ?thesis
    using assms by (simp add: ex_inv_def ex_struct_def ex_queues_def ex_counts_def ex_occ_def
        ex_unfinished_def ex_task_def)
qed

lemma ex_inv_wake_reactor [simp]: "ex_inv (wake_reactor e) \<longleftrightarrow> ex_inv e"
  by (rule ex_inv_cong) (simp_all add: wake_reactor_def)

lemma ex_inv_wake_if: "ex_inv (if b then wake_reactor e else e) \<longleftrightarrow> ex_inv e"
  by simp

subsection \<open>Preservation of the invariant\<close>

lemma task_finishes_link:
  assumes "task_inv t" "\<not> tk_closed t" "task_inv t'" "\<not> tk_closed t'"
  shows "tk_finishes t < tk_finishes t' \<longleftrightarrow>
    \<not> ts_completed (tk_state t) \<and> ts_completed (tk_state t')"
  using assms
  by (cases "ts_completed (tk_state t)"; cases "ts_completed (tk_state t')")
    (auto simp: task_inv_def Let_def)

lemma task_poll_end_fields:
  "ts_queued (tk_state (task_poll_end out d now t)) = ts_queued (tk_state t)"
  "tk_closed (task_poll_end out d now t) = tk_closed t"
  "ts_completed (tk_state t) \<Longrightarrow> ts_completed (tk_state (task_poll_end out d now t))"
  by (cases out; auto simp: task_poll_end_def finish_ready_def finish_panicked_def case_prod_unfold
      split: option.splits)+

lemma task_cancel_fields:
  "tk_closed (snd (task_cancel t)) = tk_closed t"
  "ts_queued (tk_state (snd (task_cancel t))) \<Longrightarrow> ts_queued (tk_state t)"
  "ts_queued (tk_state t) \<Longrightarrow> \<not> ts_queued (tk_state (snd (task_cancel t))) \<Longrightarrow>
     ts_completed (tk_state (snd (task_cancel t)))"
  "ts_completed (tk_state t) \<Longrightarrow> ts_completed (tk_state (snd (task_cancel t)))"
  "\<not> fst (task_cancel t) \<Longrightarrow> snd (task_cancel t) = t"
  by (auto simp: task_cancel_def cancel_def Let_def split: if_splits)

lemma ex_invD:
  assumes "ex_inv e" "n < length (ex_tasks e)"
  shows "task_inv (ex_task e n)" "\<not> tk_closed (ex_task e n)"
    "fst (ex_tasks e ! n) < length (st_groups (ex_set e))"
  using assms by (auto simp: ex_inv_def ex_struct_def)

lemma ex_invD_set: "ex_inv e \<Longrightarrow> group_inv (ex_set e)" "ex_inv e \<Longrightarrow> st_accepting (ex_set e)"
  by (auto simp: ex_inv_def ex_struct_def)

lemma ex_inv_set_task:
  assumes "ex_inv e" "n < length (ex_tasks e)" "task_inv t'" "\<not> tk_closed t'"
    and "ts_queued (tk_state t') \<Longrightarrow> ts_queued (tk_state (ex_task e n))"
    and "ts_queued (tk_state (ex_task e n)) \<Longrightarrow> \<not> ts_queued (tk_state t') \<Longrightarrow> ts_completed (tk_state t')"
    and "ts_completed (tk_state (ex_task e n)) \<Longrightarrow> ts_completed (tk_state t')"
  shows "ex_inv (ex_finish_if (tk_finishes (ex_task e n) < tk_finishes t') (ex_set_task n t' e))"
proof -
  let ?t = "ex_task e n" and ?e = "ex_set_task n t' e"
  let ?b = "\<not> ts_completed (tk_state ?t) \<and> ts_completed (tk_state t')"
  have b: "tk_finishes ?t < tk_finishes t' \<longleftrightarrow> ?b"
    using task_finishes_link [OF ex_invD(1,2) [OF assms(1,2)] assms(3,4)] .
  have st: "ex_struct ?e"
    using assms(1-4) by (auto simp: ex_inv_def ex_struct_def ex_set_task_nth ex_set_task_fst)
  have qs: "ex_queues ?e"
    using assms by (auto simp: ex_inv_def ex_queues_def ex_set_task_nth Let_def)
  have u: "ex_unfinished ?e + of_bool ?b = ex_unfinished e"
    using ex_unfinished_set_task [OF assms(2), of t'] assms(7)
    by (cases "ts_completed (tk_state ?t)"; cases "ts_completed (tk_state t')") simp_all
  have co: "st_task_count (ex_set e) = ex_unfinished e"
    "ct_spawned (ex_counters e) = of_nat (length (ex_tasks e))"
    "ct_completed (ex_counters e) + of_nat (ex_unfinished e) = of_nat (length (ex_tasks e))"
    using assms(1) by (simp_all add: ex_inv_def ex_counts_def)
  show ?thesis
  proof (cases ?b)
    case False
    then have "of_bool ?b = (0::nat)" by simp
    with u have "ex_unfinished ?e = ex_unfinished e" by linarith
    then have "ex_counts ?e" using co by (simp add: ex_counts_def)
    moreover have "\<not> tk_finishes ?t < tk_finishes t'" using False b by blast
    ultimately show ?thesis using st qs by (simp add: ex_inv_def ex_finish_if_def)
  next
    case True
    then have u': "ex_unfinished e = Suc (ex_unfinished ?e)" using u by simp
    have "ex_counts (ex_finish_task ?e)"
      using co unfolding u' by (simp add: ex_counts_def ex_unfinished_def algebra_simps)
    moreover have "ex_refs (ex_finish_task ?e) = ex_refs ?e"
      by (simp add: ex_refs_def queue_all_def)
    moreover have "ex_task (ex_finish_task ?e) = ex_task ?e" by (simp add: ex_task_def fun_eq_iff)
    moreover have "group_inv (ex_set (ex_finish_task ?e))"
      using st by (simp add: ex_struct_def group_inv_def)
    ultimately have "ex_struct (ex_finish_task ?e)" "ex_queues (ex_finish_task ?e)"
      using st qs by (simp_all add: ex_struct_def ex_queues_def ex_occ_def)
    moreover have "tk_finishes ?t < tk_finishes t'" using True b by blast
    ultimately show ?thesis
      using \<open>ex_counts (ex_finish_task ?e)\<close> by (simp add: ex_inv_def ex_finish_if_def)
  qed
qed

lemma ex_inv_poll_end:
  assumes "ex_inv e" "n < length (ex_tasks e)"
  shows "ex_inv (ex_poll_end n out d now e)"
proof -
  let ?t' = "task_poll_end out d now (ex_task e n)"
  have "ex_inv (ex_finish_if (tk_finishes (ex_task e n) < tk_finishes ?t') (ex_set_task n ?t' e))"
    using ex_inv_set_task [OF assms task_inv_poll_end [OF ex_invD(1) [OF assms]], of out d now]
      ex_invD [OF assms] by (simp add: task_poll_end_fields)
  then show ?thesis
    by (simp only: ex_poll_end_def Let_def ex_inv_wake_if)
qed

lemma ex_inv_cancel:
  assumes "ex_inv e" "n < length (ex_tasks e)"
  shows "ex_inv (snd (ex_cancel n e))"
proof -
  let ?t = "ex_task e n"
  let ?t' = "snd (task_cancel ?t)"
  have "ex_inv (ex_finish_if (tk_finishes ?t < tk_finishes ?t') (ex_set_task n ?t' e))"
    using ex_inv_set_task [OF assms task_inv_cancel [OF ex_invD(1) [OF assms]]]
      task_cancel_fields [of ?t] ex_invD(2) [OF assms] by blast
  then show ?thesis
    using assms(1) by (simp add: ex_cancel_def Let_def case_prod_unfold)
qed

lemma ex_inv_set_waiting:
  assumes "ex_inv e" "n < length (ex_tasks e)"
  shows "ex_inv (ex_set_waiting n w e)"
proof -
  let ?t = "ex_task e n"
  let ?t' = "?t\<lparr>tk_state := set_waiting_for w (tk_state ?t)\<rparr>"
  have "task_inv ?t'"
    using task_inv_step [OF ts_wait ex_invD(1) [OF assms]] .
  moreover have "ts_queued (tk_state ?t') = ts_queued (tk_state ?t)"
      "ts_completed (tk_state ?t') = ts_completed (tk_state ?t)"
    by (simp_all add: set_waiting_for_def)
  ultimately show ?thesis
    using ex_inv_set_task [OF assms, of ?t'] ex_invD [OF assms]
    by (simp add: ex_set_waiting_def Let_def ex_finish_if_def)
qed

lemma ex_inv_mark:
  assumes "ex_inv e" "n < length (ex_tasks e)"
  shows "ex_inv (ex_wake_mark now n e)"
proof (cases "fst (mark_queued now (tk_state (ex_task e n)))")
  case False
  then show ?thesis using assms(1) by (simp add: ex_wake_mark_def Let_def case_prod_unfold)
next
  case True
  let ?t = "ex_task e n"
  let ?t' = "?t\<lparr>tk_state := snd (mark_queued now (tk_state ?t))\<rparr>"
  let ?e = "(ex_set_task n ?t' e)\<lparr>ex_pushing := ex_pushing e @ [ex_ref e n]\<rparr>"
  have e': "ex_wake_mark now n e = ?e"
    using True by (simp add: ex_wake_mark_def Let_def case_prod_unfold)
  have ti: "task_inv ?t'" using task_inv_step [OF ts_wake ex_invD(1) [OF assms]] .
  have q: "\<not> ts_queued (tk_state ?t)" "ts_queued (tk_state ?t')" "\<not> ts_completed (tk_state ?t)"
    "ts_completed (tk_state ?t') = ts_completed (tk_state ?t)"
    using True ex_invD(1) [OF assms]
    by (auto simp: mark_queued_def task_inv_def Let_def split: if_splits)
  have refs: "mset (ex_refs ?e) = add_mset (ex_ref e n) (mset (ex_refs e))"
    by (simp add: ex_refs_def)
  have occ: "ex_occ ?e m = ex_occ e m + of_bool (m = n)" for m
    using ex_occ_add [OF refs] by (simp add: ex_ref_def)
  have occ0: "ex_occ e n = 0"
    using assms q by (auto simp: ex_inv_def ex_queues_def Let_def le_Suc_eq)
  have tk: "ex_task ?e m = (if m = n then ?t' else ex_task e m)" for m
    using ex_set_task_nth [OF assms(2)] by (simp add: ex_task_def)
  have fs: "fst (ex_tasks ?e ! m) = fst (ex_tasks e ! m)" for m
    by (simp add: ex_set_task_fst)
  have "set (ex_refs ?e) = insert (ex_ref e n) (set (ex_refs e))"
    using arg_cong [OF refs, of set_mset] by simp
  then have "ex_struct ?e"
    using assms ti ex_invD [OF assms] fs tk
    by (auto simp: ex_inv_def ex_struct_def ex_ref_def)
  moreover have "ex_queues ?e"
    using assms(1) q occ occ0 tk by (auto simp: ex_inv_def ex_queues_def Let_def)
  moreover have "ex_counts ?e"
    using assms(1) ex_unfinished_set_task [OF assms(2), of ?t'] q
    by (simp add: ex_inv_def ex_counts_def ex_unfinished_def)
  ultimately show ?thesis by (simp add: e' ex_inv_def)
qed

text \<open>Steps that move task references between the queues and leave the tasks alone.\<close>

lemma ex_inv_move:
  assumes "ex_inv e" "ex_tasks e' = ex_tasks e" "mset (ex_refs e') = mset (ex_refs e)"
    and "group_inv (ex_set e')" "st_accepting (ex_set e')"
    and "st_task_count (ex_set e') = st_task_count (ex_set e)"
    and "length (st_groups (ex_set e)) \<le> length (st_groups (ex_set e'))"
    and "ct_spawned (ex_counters e') = ct_spawned (ex_counters e)"
    and "ct_completed (ex_counters e') = ct_completed (ex_counters e)"
  shows "ex_inv e'"
proof -
  have "ex_occ e' = ex_occ e" using assms(3) by (simp add: ex_occ_def fun_eq_iff)
  moreover have "set (ex_refs e') = set (ex_refs e)" using assms(3) by (rule mset_eq_setD)
  moreover have "ex_task e' = ex_task e" using assms(2) by (simp add: ex_task_def fun_eq_iff)
  ultimately show ?thesis
    using assms by (auto simp: ex_inv_def ex_struct_def ex_queues_def ex_counts_def ex_unfinished_def)
qed

lemma ex_wake_push_eq:
  assumes "ex_inv e" "k < length (ex_pushing e)"
  defines "r \<equiv> ex_pushing e ! k"
  shows "tr_group r < length (st_groups (ex_set e))"
    "ex_wake_push k e = wake_reactor (e\<lparr>ex_pushing := remove_at k (ex_pushing e),
       ex_set := enqueue_group (tr_group r) r (ex_set e)\<rparr>)"
proof -
  have "r \<in> set (ex_refs e)" using assms(2) by (simp add: ex_refs_def r_def)
  then have r: "tr_id r < length (ex_tasks e)" "tr_group r = fst (ex_tasks e ! tr_id r)"
    using assms(1) by (auto simp: ex_inv_def ex_struct_def)
  show g: "tr_group r < length (st_groups (ex_set e))"
    using ex_invD(3) [OF assms(1) r(1)] r(2) by simp
  show "ex_wake_push k e = wake_reactor (e\<lparr>ex_pushing := remove_at k (ex_pushing e),
       ex_set := enqueue_group (tr_group r) r (ex_set e)\<rparr>)"
    using ex_invD_set [OF assms(1)] g
    by (simp add: ex_wake_push_def Let_def schedule_existing_def group_index_inv r_def)
qed

lemma ex_push_fields:
  assumes "ex_inv e" "k < length (ex_pushing e)"
  shows "ex_tasks (ex_wake_push k e) = ex_tasks e" "ex_popped (ex_wake_push k e) = ex_popped e"
    "ex_pushing (ex_wake_push k e) = remove_at k (ex_pushing e)"
    "mset (ex_refs (ex_wake_push k e)) = mset (ex_refs e)"
    "ex_timers (ex_wake_push k e) = ex_timers e" "ex_io (ex_wake_push k e) = ex_io e"
    "ex_stopping (ex_wake_push k e) = ex_stopping e"
    "st_spawner_count (ex_set (ex_wake_push k e)) = st_spawner_count (ex_set e)"
  using mset_remove_at [OF assms(2)] queue_all_enqueue [OF ex_wake_push_eq(1) [OF assms]]
  by (simp_all add: ex_wake_push_eq(2) [OF assms] wake_reactor_def ex_refs_def enqueue_group_def)

lemma ex_inv_push:
  assumes "ex_inv e" "k < length (ex_pushing e)"
  shows "ex_inv (ex_wake_push k e)"
  using ex_push_fields [OF assms] ex_invD_set [OF assms(1)]
    group_inv_enqueue [OF _ ex_wake_push_eq(1) [OF assms]]
  by (intro ex_inv_move [OF assms(1)])
    (simp_all add: ex_wake_push_eq(2) [OF assms] wake_reactor_def enqueue_group_def)

lemma ex_inv_next:
  assumes "ex_inv e" "ex_popped e = None"
  shows "ex_inv (ex_next_task e)"
proof -
  obtain r s where n: "next_task (ex_set e) = (r, s)" by (cases "next_task (ex_set e)")
  have "mset (ex_refs (ex_next_task e)) = mset (ex_refs e)"
    using queue_all_next [of "ex_set e"] queue_all_next_None [of "ex_set e"] n assms(2)
    by (cases r) (auto simp: ex_refs_def ex_next_task_def)
  moreover have "group_inv s" using group_inv_next [OF ex_invD_set(1) [OF assms(1)]] n by simp
  moreover have "st_accepting s \<and> st_task_count s = st_task_count (ex_set e) \<and>
      length (st_groups s) = length (st_groups (ex_set e))"
    using n ex_invD_set(2) [OF assms(1)] by (auto simp: next_task_def split: option.splits)
  ultimately show ?thesis
    by (intro ex_inv_move [OF assms(1)]) (simp_all add: ex_next_task_def n)
qed

lemma ex_inv_begin:
  assumes "ex_inv e" "\<forall>n<length (ex_tasks e). tk_held (ex_task e n) = None"
  shows "ex_inv (ex_poll_begin now e)"
proof (cases "ex_popped e")
  case None
  then show ?thesis using assms(1) by (simp add: ex_poll_begin_def)
next
  case (Some r)
  let ?n = "tr_id r"
  have "r \<in> set (ex_refs e)" using Some by (simp add: ex_refs_def)
  then have n: "?n < length (ex_tasks e)" using assms(1) by (auto simp: ex_inv_def ex_struct_def)
  let ?t = "ex_task e ?n"
  let ?t' = "task_poll_begin now ?t"
  let ?e = "(ex_set_task ?n ?t' e)\<lparr>ex_popped := None\<rparr>"
  have ti: "task_inv ?t'" using task_inv_poll_begin [OF ex_invD(1) [OF assms(1) n]] assms(2) n by simp
  have f: "\<not> ts_queued (tk_state ?t')" "tk_closed ?t' = tk_closed ?t"
      "ts_completed (tk_state ?t') = ts_completed (tk_state ?t)"
    by (auto simp: task_poll_begin_def take_future_for_poll_def Let_def split: option.splits)
  have refs: "mset (ex_refs e) = add_mset r (mset (ex_refs ?e))"
    using Some by (simp add: ex_refs_def)
  have occ: "ex_occ e m = ex_occ ?e m + of_bool (m = ?n)" for m by (rule ex_occ_add [OF refs])
  have tk: "ex_task ?e m = (if m = ?n then ?t' else ex_task e m)" for m
    using ex_set_task_nth [OF n] by (simp add: ex_task_def)
  have fs: "fst (ex_tasks ?e ! m) = fst (ex_tasks e ! m)" for m by (simp add: ex_set_task_fst)
  have sub: "set (ex_refs ?e) \<subseteq> set (ex_refs e)" using arg_cong [OF refs, of set_mset] by auto
  have qe: "\<forall>m<length (ex_tasks e). let s = tk_state (ex_task e m) in
        ex_occ e m \<le> 1 \<and> (ts_queued s \<longrightarrow> ex_occ e m = 1) \<and>
        (ex_occ e m = 1 \<and> \<not> ts_queued s \<longrightarrow> ts_completed s)"
    using assms(1) by (simp add: ex_inv_def ex_queues_def)
  have "ex_struct ?e"
    using assms(1) ti f ex_invD(2) [OF assms(1) n] sub fs tk by (auto simp: ex_inv_def ex_struct_def)
  moreover have "ex_queues ?e"
    unfolding ex_queues_def Let_def
  proof (intro allI impI)
    fix m assume "m < length (ex_tasks ?e)"
    then have m: "m < length (ex_tasks e)" by simp
    show "ex_occ ?e m \<le> 1 \<and> (ts_queued (tk_state (ex_task ?e m)) \<longrightarrow> ex_occ ?e m = 1) \<and>
        (ex_occ ?e m = 1 \<and> \<not> ts_queued (tk_state (ex_task ?e m)) \<longrightarrow>
          ts_completed (tk_state (ex_task ?e m)))"
      using qe [rule_format, OF m] occ [of m] f tk [of m] by (cases "m = ?n") (simp_all add: Let_def)
  qed
  moreover have "ex_counts ?e"
    using assms(1) ex_unfinished_set_task [OF n, of ?t'] f
    by (simp add: ex_inv_def ex_counts_def ex_unfinished_def)
  ultimately show ?thesis using Some by (simp add: ex_poll_begin_def ex_inv_def)
qed

lemma ex_inv_spawn:
  assumes "ex_inv e"
  shows "ex_inv (snd (ex_spawn alive now gid f h e))"
proof -
  note set = ex_invD_set [OF assms]
  let ?n = "length (ex_tasks e)"
  let ?r = "\<lparr>tr_id = ?n, tr_group = gid\<rparr> :: task_ref"
  define t where "t = (task_new f h)\<lparr>tk_state := snd (mark_queued now (tk_state (task_new f h)))\<rparr>"
  define s0 where "s0 = snd (allocate_task_id (ex_set e))"
  have s0: "st_groups s0 = st_groups (ex_set e)" "st_accepting s0" "group_inv s0"
      "st_task_count s0 = st_task_count (ex_set e)"
    using set by (auto simp: s0_def allocate_task_id_def group_inv_def)
  show ?thesis
  proof (cases "gid < length (st_groups (ex_set e))")
    case False
    then have "ex_spawn alive now gid f h e = (Inl SpawnClosed, e\<lparr>ex_set := s0\<rparr>)"
      using s0 by (simp add: ex_spawn_def Let_def case_prod_unfold schedule_new_def s0_def [symmetric]
          group_index_inv [OF s0(3)])
    moreover have "ex_inv (e\<lparr>ex_set := s0\<rparr>) \<longleftrightarrow> ex_inv e"
      using s0 set by (intro ex_inv_cong) simp_all
    ultimately show ?thesis using assms by simp
  next
    case True
    define s where "s = snd (snd (schedule_new alive ?r s0))"
    define s1 where "s1 = maybe_compact_tasks alive (s0\<lparr>st_task_count := st_task_count s0 + 1\<rparr>)"
    have s: "schedule_new alive ?r s0 = (Inr (), False, s)"
        "s = enqueue_group gid ?r (s1\<lparr>st_tasks := st_tasks s1 @ [?r]\<rparr>)"
      using True s0 by (simp_all add: s_def schedule_new_def group_index_inv [OF s0(3)] Let_def s1_def)
    have s1: "st_groups s1 = st_groups (ex_set e)" "st_accepting s1"
        "st_task_count s1 = st_task_count (ex_set e) + 1"
      using s0 by (simp_all add: s1_def maybe_compact_tasks_def)
    let ?e = "e\<lparr>ex_set := s, ex_tasks := ex_tasks e @ [(gid, t)],
                ex_counters := record_spawned_task (ex_counters e)\<rparr>"
    have eq: "snd (ex_spawn alive now gid f h e) = wake_reactor ?e"
      using s(1) by (simp add: ex_spawn_def Let_def case_prod_unfold s0_def [symmetric] t_def)
    have t: "task_inv t" "ts_queued (tk_state t)" "\<not> tk_closed t" "\<not> ts_completed (tk_state t)"
      by (simp_all add: t_def task_inv_def task_new_def task_state_new_def mark_queued_def Let_def)
    have "mset (queue_all s) = add_mset ?r (mset (queue_all (ex_set e)))"
      using queue_all_enqueue [of gid "s1\<lparr>st_tasks := st_tasks s1 @ [?r]\<rparr>" ?r] True s1(1)
      by (simp add: s(2) queue_all_def)
    then have refs: "mset (ex_refs ?e) = add_mset ?r (mset (ex_refs e))" by (simp add: ex_refs_def)
    have sr: "set (ex_refs ?e) = insert ?r (set (ex_refs e))"
      using arg_cong [OF refs, of set_mset] by simp
    have occ: "ex_occ ?e m = ex_occ e m + of_bool (m = ?n)" for m
      using ex_occ_add [OF refs] by simp
    have fresh: "ex_occ e ?n = 0"
      using assms by (auto simp: ex_occ_def count_eq_zero_iff ex_inv_def ex_struct_def)
    have tk: "ex_task ?e m = (if m = ?n then t else ex_task e m)" if "m \<le> ?n" for m
      using that by (auto simp: ex_task_def nth_append)
    have gi: "group_inv s" unfolding s_def by (rule group_inv_schedule_new [OF s0(3)])
    have len: "length (st_groups s) = length (st_groups (ex_set e))" "st_accepting s"
        "st_task_count s = st_task_count (ex_set e) + 1"
      using s1 by (simp_all add: s(2) enqueue_group_def)
    have "ex_struct ?e"
      using assms gi len t tk True sr
      by (auto simp: ex_inv_def ex_struct_def less_Suc_eq nth_append)
    moreover have "ex_queues ?e"
      using assms t tk occ fresh by (auto simp: ex_inv_def ex_queues_def less_Suc_eq Let_def)
    moreover have "ex_counts ?e"
      using assms t(4) len
      by (simp add: ex_inv_def ex_counts_def ex_unfinished_def record_spawned_task_def
          add.assoc [symmetric])
    ultimately have "ex_inv ?e" by (simp add: ex_inv_def)
    then show ?thesis by (simp add: eq)
  qed
qed

lemma ex_inv_charge:
  assumes "ex_inv e"
  shows "ex_inv (ex_record_task_poll gid d e)"
proof -
  have "st_accepting (record_task_poll gid d s) = st_accepting s \<and>
      st_task_count (record_task_poll gid d s) = st_task_count s \<and>
      length (st_groups (record_task_poll gid d s)) = length (st_groups s)" for s
    by (simp add: record_task_poll_def Let_def split: option.split)
  then show ?thesis
    using ex_invD_set [OF assms]
    by (intro ex_inv_move [OF assms])
      (simp_all add: ex_record_task_poll_def ex_refs_def queue_all_record group_inv_record)
qed

lemma ex_inv_group:
  assumes "ex_inv e" "0 < shares"
  shows "ex_inv (e\<lparr>ex_set := snd (create_scheduling_group name shares (ex_set e))\<rparr>)"
proof -
  let ?s = "snd (create_scheduling_group name shares (ex_set e))"
  have "st_accepting ?s = st_accepting (ex_set e)" "st_task_count ?s = st_task_count (ex_set e)"
      "length (st_groups (ex_set e)) \<le> length (st_groups ?s)"
    by (simp_all add: create_scheduling_group_def Let_def)
  then show ?thesis
    using ex_invD_set [OF assms(1)] assms(2)
    by (intro ex_inv_move [OF assms(1)]) (simp_all add: ex_refs_def queue_all_create group_inv_create)
qed

lemma ex_inv_frame:
  "ex_inv (ex_add_spawner e) \<longleftrightarrow> ex_inv e"
  "ex_inv (ex_remove_spawner e) \<longleftrightarrow> ex_inv e"
  "ex_inv (e\<lparr>ex_timers := ts, ex_io := io, ex_wakes := w\<rparr>) \<longleftrightarrow> ex_inv e"
  by (rule ex_inv_cong; simp add: ex_add_spawner_def add_spawner_def ex_remove_spawner_def
      remove_spawner_def Let_def wake_reactor_def)+

lemma ex_inv_step: "ex_step alive e e' \<Longrightarrow> ex_inv e \<Longrightarrow> ex_inv e'"
  by (induction rule: ex_step.induct)
    (simp_all add: ex_inv_spawn ex_inv_mark ex_inv_push ex_inv_next ex_inv_begin ex_inv_poll_end
      ex_inv_cancel ex_inv_set_waiting ex_inv_charge ex_inv_group ex_inv_frame)

lemma ex_inv_new: "ex_inv exec_new"
proof -
  have "ex_refs exec_new = []"
    by (simp add: exec_new_def ex_refs_def queue_all_def task_set_new_def)
  moreover have "group_inv (ex_set exec_new)" by (simp add: exec_new_def group_inv_new)
  ultimately show ?thesis
    by (simp add: ex_inv_def ex_struct_def ex_queues_def ex_counts_def ex_unfinished_def)
      (simp add: exec_new_def task_set_new_def counters_new_def)
qed

lemma ex_inv_reachable: "(ex_step alive)\<^sup>*\<^sup>* exec_new e \<Longrightarrow> ex_inv e"
  by (induction rule: rtranclp_induct) (auto intro: ex_inv_new ex_inv_step)

lemma ex_occ_uncompleted:
  assumes "ex_inv e" "n < length (ex_tasks e)" "\<not> ts_completed (tk_state (ex_task e n))"
  shows "ex_occ e n = of_bool (ts_queued (tk_state (ex_task e n)))"
proof -
  have "ex_occ e n \<le> 1" "ts_queued (tk_state (ex_task e n)) \<Longrightarrow> ex_occ e n = 1"
      "ex_occ e n = 1 \<Longrightarrow> ts_queued (tk_state (ex_task e n))"
    using assms by (auto simp: ex_inv_def ex_queues_def Let_def)
  then show ?thesis by (cases "ex_occ e n") auto
qed

lemma ex_wake_mark_queued:
  assumes "ex_inv e" "n < length (ex_tasks e)" "\<not> ts_completed (tk_state (ex_task e n))"
  shows "ex_occ (ex_wake_mark now n e) n = 1"
proof -
  let ?e = "ex_wake_mark now n e"
  have "ts_queued (tk_state (ex_task ?e n)) \<and> \<not> ts_completed (tk_state (ex_task ?e n))"
    using ex_set_task_nth [OF assms(2)] ex_invD(1) [OF assms(1,2)] assms(3)
    by (auto simp: ex_wake_mark_def Let_def mark_queued_def ex_task_def task_inv_def)
  moreover have "length (ex_tasks ?e) = length (ex_tasks e)"
    by (simp add: ex_wake_mark_def Let_def case_prod_unfold)
  ultimately show ?thesis
    using ex_occ_uncompleted [OF ex_inv_mark [OF assms(1,2)]] assms(2) by simp
qed

lemma ex_unfinished_0: "ex_unfinished e = 0 \<longleftrightarrow> (\<forall>n<length (ex_tasks e). ts_completed (tk_state (ex_task e n)))"
  by (auto simp: ex_unfinished_def filter_empty_conv all_set_conv_all_nth ex_task_def)

subsection \<open>Properties\<close>

text \<open>C3: the ready queues hold every task at most once, under every interleaving of
  spawns, wakes, cancellations, polls and group changes.  A live task is in exactly one place (a
  ready queue, on its way into one, or just taken from one) when it is marked as queued and in none
  when it waits; and a wake of a live task leaves it in exactly one such place, so it is not
  lost.\<close>

theorem exec_queued_exactly_once:
  assumes "(ex_step alive)\<^sup>*\<^sup>* exec_new e" and "n < length (ex_tasks e)"
  shows "ex_occ e n \<le> 1 \<and>
    (task_state_status (tk_state (ex_task e n)) = Queued \<longrightarrow> ex_occ e n = 1) \<and>
    (task_state_status (tk_state (ex_task e n)) = Waiting \<longrightarrow> ex_occ e n = 0) \<and>
    (\<not> ts_completed (tk_state (ex_task e n)) \<longrightarrow> ex_occ (ex_wake_mark now n e) n = 1)"
proof -
  have inv: "ex_inv e" by (rule ex_inv_reachable [OF assms(1)])
  then have "ex_occ e n \<le> 1" using assms(2) by (simp add: ex_inv_def ex_queues_def Let_def)
  then show ?thesis
    using ex_occ_uncompleted [OF inv assms(2)] ex_wake_mark_queued [OF inv assms(2)]
    by (simp add: task_state_status_def)
qed

theorem exec_queued_exactly_once_witness:
  "let e = snd (ex_spawn (\<lambda>_. True) 5 0 (7::nat) (None :: unit option) exec_new)
   in ex_occ e 0 = 1 \<and> ex_occ (ex_wake_mark 6 0 e) 0 = 1"
proof -
  let ?e = "snd (ex_spawn (\<lambda>_. True) 5 0 (7::nat) (None :: unit option) exec_new)"
  have "(ex_step (\<lambda>_. True))\<^sup>*\<^sup>* exec_new ?e" by (intro r_into_rtranclp st_spawn)
  moreover have "0 < length (ex_tasks ?e) \<and> task_state_status (tk_state (ex_task ?e 0)) = Queued
      \<and> \<not> ts_completed (tk_state (ex_task ?e 0))"
    by code_simp
  ultimately show ?thesis
    using exec_queued_exactly_once [of "\<lambda>_. True" ?e 0 6] by (simp add: Let_def)
qed



end
