(* ===== verification/Exec_Loop.thy ===== *)
theory Exec_Loop
  imports Exec_Core
begin

text \<open>
  The loop of the executor (\<open>executor.rs\<close>): \<open>poll_ready_tasks\<close>, \<open>drive_ready_work\<close> and \<open>run\<close>.
  What the future of a task does while it is polled is a parameter (\<open>script\<close>): the executor
  operations it performs, whether it is ready, and how long it took.
\<close>

subsection \<open>The ready-poll loop\<close>

definition ready_poll_budget :: nat where
  "ready_poll_budget = 64"

datatype ('f, 'h) act =
    ActWake nat
  | ActCancel nat
  | ActSpawn nat 'f "'h option"
  | ActTimer u64 instant
  | ActRead u64 int
  | ActWrite u64 int

fun ex_act ::
  "(task_ref \<Rightarrow> bool) \<Rightarrow> instant \<Rightarrow> nat \<Rightarrow> ('f, 'h) act \<Rightarrow> ('f, 'h) exec \<Rightarrow> ('f, 'h) exec" where
  "ex_act alive now self (ActWake n) e = (if n < length (ex_tasks e) then ex_wake now n e else e)"
| "ex_act alive now self (ActCancel n) e =
     (if n < length (ex_tasks e) then snd (ex_cancel n e) else e)"
| "ex_act alive now self (ActSpawn gid f h) e = snd (ex_spawn alive now gid f h e)"
| "ex_act alive now self (ActTimer tid deadline) e = ex_register_timer self tid deadline e"
| "ex_act alive now self (ActRead i fd) e = ex_register_read_interest self i fd e"
| "ex_act alive now self (ActWrite i fd) e = ex_register_write_interest self i fd e"

type_synonym ('f, 'h) script =
  "nat \<Rightarrow> ('f, 'h) exec \<Rightarrow> ('f, 'h) act list \<times> poll_outcome \<times> duration"

text \<open>One iteration of \<open>poll_ready_tasks\<close>: the boolean says that a task was taken.\<close>

definition ex_poll_next ::
  "(task_ref \<Rightarrow> bool) \<Rightarrow> ('f, 'h) script \<Rightarrow> instant \<Rightarrow> ('f, 'h) exec \<Rightarrow> bool \<times> ('f, 'h) exec" where
  "ex_poll_next alive script now e =
     (let e = ex_next_task e
      in case ex_popped e of
           None \<Rightarrow> (False, e)
         | Some r \<Rightarrow>
             (let n = tr_id r; e = ex_poll_begin now e
              in if tk_held (ex_task e n) = None then (True, e)
                 else
                   let (acts, out, d) = script n e;
                       e = fold (ex_act alive now n) acts e;
                       e = ex_poll_end n out d (now + d) e
                   in (True, ex_record_task_poll (tr_group r) d e)))"

fun ex_poll_batch ::
  "(task_ref \<Rightarrow> bool) \<Rightarrow> ('f, 'h) script \<Rightarrow> instant \<Rightarrow> nat \<Rightarrow> ('f, 'h) exec \<Rightarrow> nat \<times> ('f, 'h) exec"
  where
  "ex_poll_batch alive script now 0 e = (0, e)"
| "ex_poll_batch alive script now (Suc budget) e =
     (case ex_poll_next alive script now e of
        (False, e') \<Rightarrow> (0, e')
      | (True, e') \<Rightarrow>
          (let (polled, e'') = ex_poll_batch alive script now budget e' in (Suc polled, e'')))"

definition poll_ready_tasks ::
  "(task_ref \<Rightarrow> bool) \<Rightarrow> ('f, 'h) script \<Rightarrow> instant \<Rightarrow> ('f, 'h) exec \<Rightarrow> nat \<times> ('f, 'h) exec" where
  "poll_ready_tasks alive script now e =
     (let (polled, e) = ex_poll_batch alive script now ready_poll_budget e
      in (polled, e\<lparr>ex_counters := record_ready_poll_batch polled
            (polled = ready_poll_budget \<and> has_ready_tasks (ex_set e)) (ex_counters e)\<rparr>))"

text \<open>\<open>drive_ready_work\<close> without the completion dispatcher, \<open>wait_for_idle_driver_event\<close> and
  \<open>run\<close>.  The driver events that the loop waits for are the list \<open>evs\<close>; a loop that waits when
  the list is used up has not returned, which is the value \<open>None\<close>, as is the use of all the fuel.\<close>

definition drive_ready_work ::
  "(task_ref \<Rightarrow> bool) \<Rightarrow> ('f, 'h) script \<Rightarrow> instant \<Rightarrow> ('f, 'h) exec \<Rightarrow> ('f, 'h) exec" where
  "drive_ready_work alive script now e =
     ex_wake_expired_timers now (snd (poll_ready_tasks alive script now e))"

definition wait_for_idle_driver_event ::
  "instant \<Rightarrow> driver_event option \<Rightarrow> ('f, 'h) exec \<Rightarrow> ('f, 'h) exec" where
  "wait_for_idle_driver_event now ev e = ex_wake_expired_timers now (apply_event now ev e)"

fun executor_run ::
  "(task_ref \<Rightarrow> bool) \<Rightarrow> ('f, 'h) script \<Rightarrow> nat \<Rightarrow> (instant \<times> driver_event option) list \<Rightarrow> instant \<Rightarrow>
   ('f, 'h) exec \<Rightarrow> ('f, 'h) exec option" where
  "executor_run alive script 0 evs now e = None"
| "executor_run alive script (Suc fuel) evs now e =
     (let e = drive_ready_work alive script now e
      in if is_drained (ex_set e) \<or> ex_stopping e then Some e
         else if has_ready_tasks (ex_set e) then executor_run alive script fuel evs now e
         else case evs of
                [] \<Rightarrow> None
              | (later, ev) # evs \<Rightarrow>
                  executor_run alive script fuel evs later (wait_for_idle_driver_event later ev e))"

definition ex_wakers :: "('f, 'h) exec \<Rightarrow> nat set" where
  "ex_wakers e =
     te_waker ` set (tm_timers (ex_timers e)) \<union>
     ii_waker ` set (is_interests (ri_reads (ex_io e))) \<union>
     ii_waker ` set (is_interests (ri_writes (ex_io e)))"

text \<open>Between two iterations of the loop nothing is in transit, at most the running task \<open>h\<close>
  holds its future, and the registered wakers are wakers of tasks.\<close>

definition ex_calm :: "nat option \<Rightarrow> ('f, 'h) exec \<Rightarrow> bool" where
  "ex_calm h e \<longleftrightarrow>
     ex_inv e \<and> ex_pushing e = [] \<and> ex_popped e = None \<and>
     set_option h \<union> ex_wakers e \<subseteq> {..<length (ex_tasks e)} \<and>
     (\<forall>m<length (ex_tasks e). Some m \<noteq> h \<longrightarrow> tk_held (ex_task e m) = None)"

text \<open>A state in which the remaining work is in the ready queues, and a future that never waits.\<close>

definition ex_pure_work :: "('f, 'h) exec \<Rightarrow> bool" where
  "ex_pure_work e \<longleftrightarrow>
     st_spawner_count (ex_set e) = 0 \<and> \<not> ex_stopping e \<and> tm_timers (ex_timers e) = [] \<and>
     (\<forall>n<length (ex_tasks e). ts_completed (tk_state (ex_task e n)) \<or> ts_queued (tk_state (ex_task e n)))"

definition never_waits :: "('f, 'h) script \<Rightarrow> bool" where
  "never_waits script \<longleftrightarrow>
     (\<forall>n e. fst (script n e) = [] \<and> fst (snd (script n e)) \<noteq> OutPending)"

text \<open>What a wake leaves alone.\<close>

definition ex_frame :: "('f, 'h) exec \<Rightarrow> ('f, 'h) exec \<Rightarrow> bool" where
  "ex_frame e e' \<longleftrightarrow>
     length (ex_tasks e') = length (ex_tasks e) \<and> ex_popped e' = ex_popped e \<and>
     ex_pushing e' = ex_pushing e \<and> ex_timers e' = ex_timers e \<and> ex_io e' = ex_io e \<and>
     (\<forall>m. tk_held (ex_task e' m) = tk_held (ex_task e m) \<and>
          ts_completed (tk_state (ex_task e' m)) = ts_completed (tk_state (ex_task e m)) \<and>
          ex_occ e m \<le> ex_occ e' m)"

subsection \<open>Wakes\<close>

lemma ex_mark_fields:
  assumes "n < length (ex_tasks e)"
  shows "tk_held (ex_task (ex_wake_mark now n e) m) = tk_held (ex_task e m)"
    "ts_completed (tk_state (ex_task (ex_wake_mark now n e) m)) = ts_completed (tk_state (ex_task e m))"
    "length (ex_tasks (ex_wake_mark now n e)) = length (ex_tasks e)"
    "ex_popped (ex_wake_mark now n e) = ex_popped e"
    "ex_timers (ex_wake_mark now n e) = ex_timers e" "ex_io (ex_wake_mark now n e) = ex_io e"
  using ex_set_task_nth [OF assms]
  by (auto simp: ex_wake_mark_def Let_def mark_queued_def ex_task_def ex_set_task_def)

lemma ex_occ_mark_mono: "ex_occ e m \<le> ex_occ (ex_wake_mark now n e) m"
  by (auto simp: ex_wake_mark_def Let_def case_prod_unfold ex_occ_def ex_refs_def ex_set_task_def)

lemma ex_wake_fields:
  assumes "ex_inv e" "n < length (ex_tasks e)"
  shows "ex_inv (ex_wake now n e) \<and> ex_frame e (ex_wake now n e) \<and>
    ex_occ (ex_wake now n e) = ex_occ (ex_wake_mark now n e)"
proof (cases "fst (mark_queued now (tk_state (ex_task e n)))")
  case False
  then have "ex_wake_mark now n e = e" by (simp add: ex_wake_mark_def Let_def case_prod_unfold)
  then show ?thesis using assms(1) by (simp add: ex_wake_def ex_frame_def)
next
  case True
  let ?m = "ex_wake_mark now n e"
  have push: "ex_pushing ?m = ex_pushing e @ [ex_ref e n]"
    using True by (simp add: ex_wake_mark_def Let_def case_prod_unfold)
  have i: "ex_inv ?m" by (rule ex_inv_mark [OF assms])
  have k: "length (ex_pushing e) < length (ex_pushing ?m)" using push by simp
  have w: "ex_wake now n e = ex_wake_push (length (ex_pushing e)) ?m"
    using push by (simp add: ex_wake_def Let_def)
  have occ: "ex_occ (ex_wake now n e) = ex_occ ?m"
    using ex_push_fields(4) [OF i k] by (simp add: w ex_occ_def fun_eq_iff)
  have tk: "ex_task (ex_wake now n e) = ex_task ?m"
    using ex_push_fields(1) [OF i k] by (simp add: w ex_task_def fun_eq_iff)
  have "ex_frame e (ex_wake now n e)"
    unfolding ex_frame_def occ tk
    using push ex_push_fields(1,2,3,5,6) [OF i k] ex_mark_fields [OF assms(2), of now]
    by (simp add: ex_occ_mark_mono w remove_at_def)
  then show ?thesis using occ ex_inv_push [OF i k] by (simp add: w)
qed

lemma ex_frame_trans: "ex_frame e e' \<Longrightarrow> ex_frame e' e'' \<Longrightarrow> ex_frame e e''"
  unfolding ex_frame_def by (metis le_trans)

lemma ex_wake_all_fields:
  assumes "ex_inv e" "set ws \<subseteq> {..<length (ex_tasks e)}"
  shows "ex_inv (ex_wake_all now ws e) \<and> ex_frame e (ex_wake_all now ws e)"
  using assms
proof (induction ws arbitrary: e)
  case (Cons w ws)
  let ?e = "ex_wake now w e"
  have f: "ex_inv ?e" "ex_frame e ?e" using ex_wake_fields [of e w now] Cons.prems by simp_all
  then have "set ws \<subseteq> {..<length (ex_tasks ?e)}" using Cons.prems by (simp add: ex_frame_def)
  from Cons.IH [OF f(1) this] f(2) show ?case
    by (simp add: ex_wake_all_def) (blast intro: ex_frame_trans)
qed (simp add: ex_wake_all_def ex_frame_def)

lemma ex_wake_all_queues:
  assumes "ex_inv e" "set ws \<subseteq> {..<length (ex_tasks e)}" "w \<in> set ws"
    and "\<not> ts_completed (tk_state (ex_task e w))"
  shows "ex_occ (ex_wake_all now ws e) w = 1"
proof -
  obtain xs ys where ws: "ws = xs @ w # ys" using assms(3) by (meson split_list)
  let ?e1 = "ex_wake_all now xs e"
  let ?e2 = "ex_wake now w ?e1"
  have 1: "ex_inv ?e1" "ex_frame e ?e1" using ex_wake_all_fields [of e xs now] assms(1,2) ws by auto
  have w: "w < length (ex_tasks ?e1)" "\<not> ts_completed (tk_state (ex_task ?e1 w))"
    using 1(2) assms by (auto simp: ex_frame_def)
  have 2: "ex_inv ?e2" "ex_frame ?e1 ?e2" "ex_occ ?e2 w = 1"
    using ex_wake_fields [OF 1(1) w(1), of now] ex_wake_mark_queued [OF 1(1) w, of now] by simp_all
  have "set ys \<subseteq> {..<length (ex_tasks ?e2)}"
    using assms(2) 1(2) 2(2) ws by (simp add: ex_frame_def)
  note 3 = ex_wake_all_fields [OF 2(1) this, of now]
  have e: "ex_wake_all now ws e = ex_wake_all now ys ?e2" by (simp add: ws ex_wake_all_def)
  have "1 \<le> ex_occ (ex_wake_all now ws e) w" using 3 2(3) unfolding e ex_frame_def by metis
  moreover have "ex_occ (ex_wake_all now ws e) w \<le> 1"
    using 3 w(1) 2(2) unfolding e by (simp add: ex_inv_def ex_queues_def Let_def ex_frame_def)
  ultimately show ?thesis by simp
qed

lemma ex_calm_frame: "ex_calm h e \<Longrightarrow> ex_inv e' \<Longrightarrow> ex_frame e e' \<Longrightarrow> ex_calm h e'"
  unfolding ex_calm_def ex_frame_def ex_wakers_def by simp

lemma ex_calm_wake: "ex_calm h e \<Longrightarrow> n < length (ex_tasks e) \<Longrightarrow> ex_calm h (ex_wake now n e)"
  using ex_wake_fields [of e n now] ex_calm_frame by (metis ex_calm_def)

lemma ex_calm_wake_all:
  "ex_calm h e \<Longrightarrow> set ws \<subseteq> {..<length (ex_tasks e)} \<Longrightarrow> ex_calm h (ex_wake_all now ws e)"
  using ex_wake_all_fields [of e ws now] ex_calm_frame by (metis ex_calm_def)

subsection \<open>Timers, readiness and the actions of a future\<close>

lemma ex_calm_shrink:
  assumes "ex_calm h e" "ex_wakers (e\<lparr>ex_timers := ts, ex_io := io, ex_counters := c\<rparr>) \<subseteq> {..<length (ex_tasks e)}"
    and "ct_spawned c = ct_spawned (ex_counters e)" "ct_completed c = ct_completed (ex_counters e)"
  shows "ex_calm h (e\<lparr>ex_timers := ts, ex_io := io, ex_counters := c\<rparr>)"
proof -
  let ?e = "e\<lparr>ex_timers := ts, ex_io := io, ex_counters := c\<rparr>"
  have "ex_inv ?e \<longleftrightarrow> ex_inv e" using assms(3,4) by (intro ex_inv_cong) simp_all
  moreover have "ex_task ?e = ex_task e" by (simp add: ex_task_def fun_eq_iff)
  ultimately show ?thesis using assms(1,2) unfolding ex_calm_def by simp
qed

lemma ex_calm_wake_expired: "ex_calm h e \<Longrightarrow> ex_calm h (ex_wake_expired_timers now e)"
proof -
  assume c: "ex_calm h e"
  let ?e = "e\<lparr>ex_timers := snd (timer_expired now (ex_timers e)), ex_io := ex_io e,
      ex_counters := ex_counters e\<rparr>"
  have "ex_calm h ?e"
    using c by (intro ex_calm_shrink) (auto simp: ex_calm_def ex_wakers_def timer_expired_def)
  moreover have "set (fst (timer_expired now (ex_timers e))) \<subseteq> {..<length (ex_tasks e)}"
    using c by (auto simp: ex_calm_def ex_wakers_def timer_expired_def)
  ultimately show ?thesis
    using ex_calm_wake_all [of h ?e _ now] by (simp add: ex_wake_expired_timers_def Let_def case_prod_unfold)
qed

lemma ex_calm_wake_readable: "ex_calm h e \<Longrightarrow> ex_calm h (ex_wake_readable_fds now fds e)"
proof -
  assume c: "ex_calm h e"
  let ?e = "e\<lparr>ex_timers := ex_timers e, ex_io := snd (wake_readable fds (ex_io e)),
      ex_counters := ex_counters e\<rparr>"
  have "ex_calm h ?e"
    using c by (intro ex_calm_shrink)
      (auto simp: ex_calm_def ex_wakers_def wake_readable_def interest_wake_ready_def Let_def)
  moreover have "set (fst (wake_readable fds (ex_io e))) \<subseteq> {..<length (ex_tasks e)}"
    using c by (auto simp: ex_calm_def ex_wakers_def wake_readable_def interest_wake_ready_def Let_def)
  ultimately show ?thesis
    using ex_calm_wake_all [of h ?e _ now] by (simp add: ex_wake_readable_fds_def Let_def case_prod_unfold)
qed

lemma ex_calm_wake_writable: "ex_calm h e \<Longrightarrow> ex_calm h (ex_wake_writable_fds now fds e)"
proof -
  assume c: "ex_calm h e"
  let ?e = "e\<lparr>ex_timers := ex_timers e, ex_io := snd (wake_writable fds (ex_io e)),
      ex_counters := ex_counters e\<rparr>"
  have "ex_calm h ?e"
    using c by (intro ex_calm_shrink)
      (auto simp: ex_calm_def ex_wakers_def wake_writable_def interest_wake_ready_def Let_def)
  moreover have "set (fst (wake_writable fds (ex_io e))) \<subseteq> {..<length (ex_tasks e)}"
    using c by (auto simp: ex_calm_def ex_wakers_def wake_writable_def interest_wake_ready_def Let_def)
  ultimately show ?thesis
    using ex_calm_wake_all [of h ?e _ now] by (simp add: ex_wake_writable_fds_def Let_def case_prod_unfold)
qed

lemma ex_calm_counters:
  assumes "ex_calm h e" "ct_spawned c = ct_spawned (ex_counters e)"
    "ct_completed c = ct_completed (ex_counters e)"
  shows "ex_calm h (e\<lparr>ex_counters := c\<rparr>)"
  using ex_calm_shrink [of h e c "ex_io e" "ex_timers e"] assms by (simp add: ex_calm_def ex_wakers_def)

lemma ex_calm_apply_event: "ex_calm h e \<Longrightarrow> ex_calm h (apply_event now ev e)"
  by (auto simp: apply_event_def Let_def record_driver_event_def split: option.splits prod.splits
      intro!: ex_calm_wake_writable ex_calm_wake_readable ex_calm_counters)

lemma ex_calmI:
  assumes "ex_calm h e" "ex_inv e'" "ex_pushing e' = ex_pushing e" "ex_popped e' = ex_popped e"
    and "length (ex_tasks e) \<le> length (ex_tasks e')"
    and "ex_wakers e' \<subseteq> {..<length (ex_tasks e')}"
    and "\<And>m. m < length (ex_tasks e') \<Longrightarrow>
      tk_held (ex_task e' m) = (if m < length (ex_tasks e) then tk_held (ex_task e m) else None)"
  shows "ex_calm h e'"
  using assms by (cases h) (auto simp: ex_calm_def)

lemma ex_set_waiting_fields:
  assumes "n < length (ex_tasks e)"
  shows "length (ex_tasks (ex_set_waiting n w e)) = length (ex_tasks e)"
    "ex_pushing (ex_set_waiting n w e) = ex_pushing e" "ex_popped (ex_set_waiting n w e) = ex_popped e"
    "ex_timers (ex_set_waiting n w e) = ex_timers e" "ex_io (ex_set_waiting n w e) = ex_io e"
    "tk_held (ex_task (ex_set_waiting n w e) m) = tk_held (ex_task e m)"
    "ex_counters (ex_set_waiting n w e) = ex_counters e"
  using ex_set_task_nth [OF assms]
  by (simp_all add: ex_set_waiting_def Let_def, simp_all add: ex_set_task_def)

lemma ex_calm_set_waiting:
  assumes "ex_calm h e" "n < length (ex_tasks e)"
  shows "ex_calm h (ex_set_waiting n w e)"
proof (rule ex_calmI [OF assms(1)])
  show "ex_inv (ex_set_waiting n w e)" using assms by (simp add: ex_calm_def ex_inv_set_waiting)
qed (use assms ex_set_waiting_fields [OF assms(2)] in \<open>auto simp: ex_calm_def ex_wakers_def\<close>)

lemma ex_calm_wake_reactor: "ex_calm h (wake_reactor e) \<longleftrightarrow> ex_calm h e"
proof -
  have "ex_wakers (wake_reactor e) = ex_wakers e" "ex_task (wake_reactor e) = ex_task e"
      "ex_pushing (wake_reactor e) = ex_pushing e" "ex_popped (wake_reactor e) = ex_popped e"
      "ex_tasks (wake_reactor e) = ex_tasks e"
    by (simp_all add: ex_wakers_def ex_task_def wake_reactor_def fun_eq_iff)
  then show ?thesis by (simp add: ex_calm_def)
qed

lemma ex_calm_register_timer:
  assumes "ex_calm h e" "n < length (ex_tasks e)"
  shows "ex_calm h (ex_register_timer n tid deadline e)"
proof -
  let ?e = "ex_set_waiting n (WaitTimer deadline) e"
  let ?e' = "?e\<lparr>ex_timers := snd (timer_register tid deadline n (ex_timers ?e))\<rparr>"
  have c: "ex_calm h ?e" by (rule ex_calm_set_waiting [OF assms])
  then have "ex_calm h (?e\<lparr>ex_timers := snd (timer_register tid deadline n (ex_timers ?e)),
      ex_io := ex_io ?e, ex_counters := ex_counters ?e\<rparr>)"
    using assms(2) ex_set_waiting_fields [OF assms(2)]
    by (intro ex_calm_shrink)
      (auto simp: ex_calm_def ex_wakers_def timer_register_def Let_def dest!: set_upsert_subset [THEN subsetD])
  then have "ex_calm h ?e'" by simp
  then show ?thesis
    by (simp add: ex_register_timer_def Let_def case_prod_unfold ex_calm_wake_reactor)
qed

lemma ex_calm_register_io:
  assumes "ex_calm h e" "n < length (ex_tasks e)"
  shows "ex_calm h (ex_register_read_interest n i fd e)" "ex_calm h (ex_register_write_interest n i fd e)"
proof -
  have c: "ex_calm h (ex_set_waiting n w e)" for w by (rule ex_calm_set_waiting [OF assms])
  have "ex_calm h (ee\<lparr>ex_io := io\<rparr>)"
    if ee: "ee = ex_set_waiting n w e"
      and io: "io = register_read i fd n (ex_io ee) \<or> io = register_write i fd n (ex_io ee)" for w io ee
  proof -
    have "ex_wakers (ee\<lparr>ex_timers := ex_timers ee, ex_io := io, ex_counters := ex_counters ee\<rparr>)
        \<subseteq> {..<length (ex_tasks ee)}"
      using c [of w] io assms(2) ex_set_waiting_fields(1) [OF assms(2), of w]
      by (auto simp: ee ex_calm_def ex_wakers_def register_read_def register_write_def
          interest_register_def image_subset_iff dest!: set_upsert_subset [THEN subsetD])
    from ex_calm_shrink [OF c [of w, folded ee] this] show ?thesis by simp
  qed
  then show "ex_calm h (ex_register_read_interest n i fd e)" "ex_calm h (ex_register_write_interest n i fd e)"
    by (simp_all add: ex_register_read_interest_def ex_register_write_interest_def Let_def
        ex_calm_wake_reactor)
qed

lemma ex_calm_spawn:
  assumes "ex_calm h e"
  shows "ex_calm h (snd (ex_spawn alive now gid f h' e))"
proof (rule ex_calmI [OF assms])
  show "ex_inv (snd (ex_spawn alive now gid f h' e))"
    using assms by (simp add: ex_calm_def ex_inv_spawn)
qed (use assms in \<open>auto simp: ex_spawn_def Let_def case_prod_unfold ex_calm_def ex_wakers_def
      wake_reactor_def ex_task_def nth_append task_new_def less_Suc_eq split: sum.splits\<close>)

lemma ex_finish_if_fields [simp]:
  "ex_tasks (ex_finish_if b e) = ex_tasks e" "ex_pushing (ex_finish_if b e) = ex_pushing e"
  "ex_popped (ex_finish_if b e) = ex_popped e" "ex_timers (ex_finish_if b e) = ex_timers e"
  "ex_io (ex_finish_if b e) = ex_io e"
  by (simp_all add: ex_finish_if_def ex_finish_task_def finish_task_def Let_def wake_reactor_def)

lemma ex_calm_cancel:
  assumes "ex_calm h e" "n < length (ex_tasks e)"
  shows "ex_calm h (snd (ex_cancel n e))"
proof (cases "fst (task_cancel (ex_task e n))")
  case False
  then show ?thesis using assms(1) by (simp add: ex_cancel_def Let_def case_prod_unfold)
next
  case True
  let ?t = "snd (task_cancel (ex_task e n))"
  let ?e = "ex_finish_if (tk_finishes (ex_task e n) < tk_finishes ?t) (ex_set_task n ?t e)"
  have eq: "snd (ex_cancel n e) = wake_reactor ?e"
    using True by (simp add: ex_cancel_def Let_def case_prod_unfold)
  have held: "tk_held ?t = tk_held (ex_task e n)"
    by (auto simp: task_cancel_def split: prod.splits option.splits)
  have tk: "ex_task ?e m = (if m = n then ?t else ex_task e m)" for m
    using ex_set_task_nth [OF assms(2)] by (simp add: ex_task_def)
  have "ex_calm h ?e"
  proof (rule ex_calmI [OF assms(1)])
    show "ex_inv ?e" using ex_inv_cancel [of e n] assms eq by (simp add: ex_calm_def)
    show "ex_wakers ?e \<subseteq> {..<length (ex_tasks ?e)}"
      using assms(1) by (simp add: ex_calm_def ex_wakers_def ex_set_task_def)
  qed (use held tk in auto)
  then show ?thesis by (simp add: eq ex_calm_wake_reactor)
qed

lemma ex_calm_act:
  "ex_calm (Some n) e \<Longrightarrow> ex_calm (Some n) (ex_act alive now n act e)"
  by (cases act) (auto simp: ex_calm_wake ex_calm_cancel ex_calm_spawn
      intro!: ex_calm_register_timer ex_calm_register_io, auto simp: ex_calm_def)

lemma ex_calm_acts: "ex_calm (Some n) e \<Longrightarrow> ex_calm (Some n) (fold (ex_act alive now n) acts e)"
  by (induction acts arbitrary: e) (auto intro: ex_calm_act)

subsection \<open>One iteration\<close>

lemma ex_next_None:
  assumes "ex_popped e = None" "ex_popped (ex_next_task e) = None"
  shows "ex_next_task e = e" "\<not> has_ready_tasks (ex_set e)"
proof -
  have "pick_group (ex_set e) = None"
    using assms(2) by (auto simp: ex_next_task_def next_task_def split: option.splits)
  then show "ex_next_task e = e" "\<not> has_ready_tasks (ex_set e)"
    using assms(1) by (simp_all add: ex_next_task_def next_task_def has_ready_tasks_def pick_group_None [symmetric])
qed

lemma ex_begin_fields:
  fixes now :: instant
  assumes "ex_popped (ex_next_task e) = Some r"
  defines "e' \<equiv> ex_poll_begin now (ex_next_task e)"
  shows "ex_set e' = ex_set (ex_next_task e)" "ex_pushing e' = ex_pushing e" "ex_popped e' = None"
    "ex_timers e' = ex_timers e" "ex_io e' = ex_io e" "ex_stopping e' = ex_stopping e"
    "length (ex_tasks e') = length (ex_tasks e)"
    "st_spawner_count (ex_set e') = st_spawner_count (ex_set e)"
    "tr_id r < length (ex_tasks e) \<Longrightarrow>
       ex_task e' m = (if m = tr_id r then task_poll_begin now (ex_task e m) else ex_task e m)"
proof -
  let ?e = "ex_next_task e"
  have "ex_tasks ?e = ex_tasks e" by (simp add: ex_next_task_def case_prod_unfold Let_def)
  then show "tr_id r < length (ex_tasks e) \<Longrightarrow>
       ex_task e' m = (if m = tr_id r then task_poll_begin now (ex_task e m) else ex_task e m)"
    using assms(1) ex_set_task_nth [of "tr_id r" ?e]
    by (simp add: e'_def ex_poll_begin_def ex_task_def)
qed (use assms(1) in \<open>simp_all add: e'_def ex_poll_begin_def ex_next_task_def case_prod_unfold Let_def
      ex_set_task_def next_task_def split: option.splits\<close>)

lemma ex_popped_range:
  assumes "ex_calm None e" "ex_popped (ex_next_task e) = Some r"
  shows "ex_inv (ex_next_task e)" "tr_id r < length (ex_tasks e)"
proof -
  show inv: "ex_inv (ex_next_task e)" using assms(1) by (simp add: ex_calm_def ex_inv_next)
  have "r \<in> set (ex_refs (ex_next_task e))" using assms(2) by (simp add: ex_refs_def)
  moreover have "ex_tasks (ex_next_task e) = ex_tasks e"
    by (simp add: ex_next_task_def case_prod_unfold Let_def)
  ultimately show "tr_id r < length (ex_tasks e)" using inv by (auto simp: ex_inv_def ex_struct_def)
qed

lemma ex_calm_begin:
  assumes "ex_calm None e" "ex_popped (ex_next_task e) = Some r"
  shows "ex_calm (Some (tr_id r)) (ex_poll_begin now (ex_next_task e))"
proof -
  let ?e = "ex_next_task e"
  have n: "ex_tasks ?e = ex_tasks e" "ex_task ?e = ex_task e"
    by (simp_all add: ex_next_task_def case_prod_unfold Let_def ex_task_def fun_eq_iff)
  note r = ex_popped_range [OF assms]
  have "ex_inv (ex_poll_begin now ?e)"
    using assms(1) n by (intro ex_inv_begin [OF r(1)]) (simp add: ex_calm_def)
  then show ?thesis
    using assms(1) ex_begin_fields [OF assms(2), of now] r(2) by (simp add: ex_calm_def ex_wakers_def)
qed

lemma ex_calm_weaken: "ex_calm (Some n) e \<Longrightarrow> tk_held (ex_task e n) = None \<Longrightarrow> ex_calm None e"
  unfolding ex_calm_def by fastforce

lemma ex_calm_poll_end:
  assumes "ex_calm (Some n) e"
  shows "ex_calm None (ex_poll_end n out d now e)"
proof -
  have n: "n < length (ex_tasks e)" using assms by (simp add: ex_calm_def)
  let ?t = "task_poll_end out d now (ex_task e n)"
  let ?e = "ex_poll_end n out d now e"
  have f: "ex_tasks ?e = ex_tasks (ex_set_task n ?t e)" "ex_pushing ?e = ex_pushing e"
      "ex_popped ?e = ex_popped e" "ex_timers ?e = ex_timers e" "ex_io ?e = ex_io e"
    by (simp_all add: ex_poll_end_def Let_def wake_reactor_def) (simp_all add: ex_set_task_def)
  have held: "tk_held ?t = None"
    by (cases out) (auto simp: task_poll_end_def case_prod_unfold Let_def split: option.splits)
  have "ex_task ?e m = (if m = n then ?t else ex_task e m)" for m
    using ex_set_task_nth [OF n] f(1) by (simp add: ex_task_def)
  moreover have "ex_inv ?e" using assms n by (simp add: ex_calm_def ex_inv_poll_end)
  ultimately show ?thesis using assms f held by (auto simp: ex_calm_def ex_wakers_def)
qed

lemma ex_calm_record: "ex_calm h e \<Longrightarrow> ex_calm h (ex_record_task_poll gid d e)"
  by (rule ex_calmI) (auto simp: ex_calm_def ex_inv_charge ex_wakers_def ex_record_task_poll_def ex_task_def
    intro: ex_inv_charge [unfolded ex_record_task_poll_def])

lemma ex_poll_next_calm:
  assumes "ex_calm None e"
  shows "case ex_poll_next alive script now e of
      (False, e') \<Rightarrow> e' = e \<and> \<not> has_ready_tasks (ex_set e)
    | (True, e') \<Rightarrow> ex_calm None e'"
proof (cases "ex_popped (ex_next_task e)")
  case None
  then show ?thesis
    using ex_next_None [of e] assms by (simp add: ex_poll_next_def ex_calm_def)
next
  case (Some r)
  note c = ex_calm_begin [OF assms Some, of now]
  show ?thesis
    using c ex_calm_weaken [OF c]
    by (auto simp: ex_poll_next_def Some Let_def case_prod_unfold
        intro!: ex_calm_record ex_calm_poll_end ex_calm_acts)
qed

lemma ex_poll_batch_calm:
  "ex_calm None e \<Longrightarrow> ex_poll_batch alive script now k e = (polled, e') \<Longrightarrow>
   ex_calm None e' \<and> polled \<le> k \<and> (polled < k \<longrightarrow> \<not> has_ready_tasks (ex_set e'))"
proof (induction k arbitrary: e polled e')
  case (Suc k)
  obtain b e1 where p: "ex_poll_next alive script now e = (b, e1)" by fastforce
  show ?case
  proof (cases b)
    case False
    then show ?thesis using Suc.prems ex_poll_next_calm [OF Suc.prems(1), of alive script now] p by simp
  next
    case True
    have "ex_calm None e1" using ex_poll_next_calm [OF Suc.prems(1), of alive script now] p True by simp
    moreover obtain q e2 where q: "ex_poll_batch alive script now k e1 = (q, e2)" by fastforce
    ultimately show ?thesis using Suc.IH [of e1 q e2] Suc.prems(2) p True by auto
  qed
qed simp

lemma ex_calm_poll_ready: "ex_calm None e \<Longrightarrow> ex_calm None (snd (poll_ready_tasks alive script now e))"
  using ex_poll_batch_calm [of e alive script now ready_poll_budget]
  by (auto simp: poll_ready_tasks_def Let_def record_ready_poll_batch_def split: prod.splits
      intro!: ex_calm_counters)

lemma ex_calm_drive: "ex_calm None e \<Longrightarrow> ex_calm None (drive_ready_work alive script now e)"
  by (simp add: drive_ready_work_def ex_calm_wake_expired ex_calm_poll_ready)

lemma ex_calm_wait: "ex_calm None e \<Longrightarrow> ex_calm None (wait_for_idle_driver_event now ev e)"
  by (simp add: wait_for_idle_driver_event_def ex_calm_wake_expired ex_calm_apply_event)

subsection \<open>A run that ends\<close>

lemma ready_queue_len_eq: "ready_queue_len s = length (queue_all s)"
  by (simp add: ready_queue_len_def queue_all_def length_concat comp_def)

lemma ex_end_fields:
  "queue_all (ex_set (ex_poll_end n out d now e)) = queue_all (ex_set e)"
  "st_spawner_count (ex_set (ex_poll_end n out d now e)) = st_spawner_count (ex_set e)"
  "ex_stopping (ex_poll_end n out d now e) = ex_stopping e"
  "ex_timers (ex_poll_end n out d now e) = ex_timers e"
  "length (ex_tasks (ex_poll_end n out d now e)) = length (ex_tasks e)"
  "n < length (ex_tasks e) \<Longrightarrow> ex_task (ex_poll_end n out d now e) m =
     (if m = n then task_poll_end out d now (ex_task e m) else ex_task e m)"
proof -
  have ts: "ex_tasks (ex_poll_end n out d now e) = ex_tasks (ex_set_task n (task_poll_end out d now (ex_task e n)) e)"
    by (simp add: ex_poll_end_def Let_def wake_reactor_def)
  show "n < length (ex_tasks e) \<Longrightarrow> ex_task (ex_poll_end n out d now e) m =
     (if m = n then task_poll_end out d now (ex_task e m) else ex_task e m)"
    using ex_set_task_nth [of n e "task_poll_end out d now (ex_task e n)" m] by (simp add: ts ex_task_def)
qed (simp_all add: ex_poll_end_def Let_def wake_reactor_def queue_all_def ex_finish_if_def
    ex_finish_task_def finish_task_def, simp_all add: ex_set_task_def)

lemma ex_record_fields:
  "queue_all (ex_set (ex_record_task_poll g d e)) = queue_all (ex_set e)"
  "st_spawner_count (ex_set (ex_record_task_poll g d e)) = st_spawner_count (ex_set e)"
  "ex_stopping (ex_record_task_poll g d e) = ex_stopping e"
  "ex_timers (ex_record_task_poll g d e) = ex_timers e"
  "ex_tasks (ex_record_task_poll g d e) = ex_tasks e"
  by (simp_all add: ex_record_task_poll_def queue_all_record)
    (simp add: record_task_poll_def Let_def split: option.split)

lemma task_poll_end_completes:
  assumes "tk_held t \<noteq> None" "out \<noteq> OutPending"
  shows "ts_completed (tk_state (task_poll_end out d now t))"
  using assms by (cases out)
    (auto simp: task_poll_end_def finish_ready_def finish_panicked_def Let_def case_prod_unfold)

lemma task_begin_idle:
  assumes "task_inv t" "tk_held t = None" "tk_held (task_poll_begin now t) = None"
  shows "ts_completed (tk_state (task_poll_begin now t))"
  using assms by (auto simp: task_inv_def task_poll_begin_def take_future_for_poll_def Let_def
      split: option.splits)

lemma ex_pure_work_poll:
  assumes "ex_calm None e" "ex_pure_work e" "never_waits script" "ex_popped (ex_next_task e) = Some r"
  shows "ex_pure_work (snd (ex_poll_next alive script now e)) \<and>
    queue_all (ex_set (snd (ex_poll_next alive script now e))) = queue_all (ex_set (ex_next_task e))"
proof -
  let ?b = "ex_poll_begin now (ex_next_task e)" and ?n = "tr_id r"
  note b = ex_begin_fields [OF assms(4), of now]
  note r = ex_popped_range(2) [OF assms(1,4)]
  have t: "task_inv (ex_task e ?n)" "tk_held (ex_task e ?n) = None"
    using assms(1) ex_invD(1) [OF _ r] r by (auto simp: ex_calm_def)
  show ?thesis
  proof (cases "tk_held (ex_task ?b ?n)")
    case None
    then have "ts_completed (tk_state (ex_task ?b ?n))" using task_begin_idle [OF t] b(9) [OF r] by simp
    then have "ex_pure_work ?b" using assms(2) b(4,6-8) b(9) [OF r] by (auto simp: ex_pure_work_def)
    then show ?thesis using None b(1) by (simp add: ex_poll_next_def assms(4) Let_def)
  next
    case (Some f)
    obtain out d where sc: "script ?n ?b = ([], out, d)" "out \<noteq> OutPending"
      using assms(3) unfolding never_waits_def by (metis prod.collapse)
    let ?c = "ex_record_task_poll (tr_group r) d (ex_poll_end ?n out d (now + d) ?b)"
    have eq: "snd (ex_poll_next alive script now e) = ?c"
      using Some sc(1) by (simp add: ex_poll_next_def assms(4) Let_def)
    have rb: "?n < length (ex_tasks ?b)" using r b(7) by simp
    have "ex_task ?c m = (if m = ?n then task_poll_end out d (now + d) (ex_task ?b m) else ex_task e m)" for m
      using ex_end_fields(6) [OF rb, of out d "now + d" m] b(9) [OF r, of m]
      by (simp add: ex_record_fields ex_task_def)
    then have "ts_completed (tk_state (ex_task ?c m)) \<or> ts_queued (tk_state (ex_task ?c m))"
      if "m < length (ex_tasks e)" for m
      using task_poll_end_completes [OF _ sc(2), of "ex_task ?b ?n"] Some assms(2) that
      by (auto simp: ex_pure_work_def)
    then have "ex_pure_work ?c"
      using assms(2) b by (auto simp: ex_pure_work_def ex_record_fields ex_end_fields)
    then show ?thesis using b(1) by (simp add: eq ex_record_fields ex_end_fields)
  qed
qed

lemma ex_poll_next_progress:
  assumes "ex_calm None e" "ex_pure_work e" "never_waits script" "has_ready_tasks (ex_set e)"
  obtains e' where "ex_poll_next alive script now e = (True, e')" "ex_calm None e'" "ex_pure_work e'"
    "ready_queue_len (ex_set e) = Suc (ready_queue_len (ex_set e'))"
proof -
  obtain b e' where p: "ex_poll_next alive script now e = (b, e')" by fastforce
  have b: "b" "ex_calm None e'"
    using ex_poll_next_calm [OF assms(1), of alive script now] p assms(4) by (cases b; simp)+
  have "ex_popped (ex_next_task e) \<noteq> None"
    using p b(1) by (cases "ex_popped (ex_next_task e)") (simp_all add: ex_poll_next_def Let_def)
  then obtain r where r: "ex_popped (ex_next_task e) = Some r" by auto
  then have "next_task (ex_set e) = (Some r, ex_set (ex_next_task e))"
    by (simp add: ex_next_task_def case_prod_unfold Let_def prod_eq_iff)
  from arg_cong [OF queue_all_next [OF this], of size]
  have "ready_queue_len (ex_set e) = Suc (ready_queue_len (ex_set e'))"
    using ex_pure_work_poll [OF assms(1-3) r, of alive now] p by (simp add: ready_queue_len_eq)
  then show ?thesis
    using that [of e'] p b ex_pure_work_poll [OF assms(1-3) r, of alive now] by simp
qed

lemma ex_poll_batch_progress:
  "ex_calm None e \<Longrightarrow> ex_pure_work e \<Longrightarrow> never_waits script \<Longrightarrow>
   ex_calm None (snd (ex_poll_batch alive script now k e)) \<and>
   ex_pure_work (snd (ex_poll_batch alive script now k e)) \<and>
   ready_queue_len (ex_set (snd (ex_poll_batch alive script now k e))) = ready_queue_len (ex_set e) - k"
proof (induction k arbitrary: e)
  case (Suc k)
  show ?case
  proof (cases "has_ready_tasks (ex_set e)")
    case True
    obtain e' where "ex_poll_next alive script now e = (True, e')" "ex_calm None e'" "ex_pure_work e'"
      "ready_queue_len (ex_set e) = Suc (ready_queue_len (ex_set e'))"
      using ex_poll_next_progress [OF Suc.prems True] .
    then show ?thesis using Suc.IH [of e'] Suc.prems(3) by (simp add: case_prod_unfold Let_def)
  next
    case False
    obtain b e' where p: "ex_poll_next alive script now e = (b, e')" by fastforce
    have "\<not> b \<and> e' = e"
    proof -
      have "pick_group (ex_set e) = None"
        using False pick_group_None [of "ex_set e"] by (simp add: has_ready_tasks_def)
      then have "ex_popped (ex_next_task e) = None" by (simp add: ex_next_task_def next_task_def)
      then show ?thesis using p ex_next_None(1) [of e] Suc.prems(1) by (simp add: ex_poll_next_def ex_calm_def)
    qed
    then show ?thesis using p Suc.prems False by (simp add: has_ready_tasks_def)
  qed
qed simp

lemma drive_progress:
  fixes now :: instant and alive :: "task_ref \<Rightarrow> bool"
  assumes "ex_calm None e" "ex_pure_work e" "never_waits script"
  defines "e' \<equiv> drive_ready_work alive script now e"
  shows "ex_calm None e'" "ex_pure_work e'"
    "ready_queue_len (ex_set e') = ready_queue_len (ex_set e) - ready_poll_budget"
proof -
  let ?b = "snd (ex_poll_batch alive script now ready_poll_budget e)"
  note b = ex_poll_batch_progress [OF assms(1-3), of alive now ready_poll_budget]
  obtain c where p: "snd (poll_ready_tasks alive script now e) = ?b\<lparr>ex_counters := c\<rparr>"
    by (simp add: poll_ready_tasks_def case_prod_unfold Let_def)
  have "tm_timers (ex_timers ?b) = []" using b by (simp add: ex_pure_work_def)
  then have e': "e' = ?b\<lparr>ex_counters := c\<rparr>"
    by (simp add: e'_def drive_ready_work_def p ex_wake_expired_timers_def timer_expired_def Let_def
        ex_wake_all_def)
  show "ex_calm None e'" unfolding e'_def by (rule ex_calm_drive [OF assms(1)])
  show "ex_pure_work e'" using b by (simp add: e' ex_pure_work_def ex_task_def)
  show "ready_queue_len (ex_set e') = ready_queue_len (ex_set e) - ready_poll_budget"
    using b by (simp add: e')
qed

lemma pure_work_drained:
  assumes "ex_calm None e" "ex_pure_work e" "ready_queue_len (ex_set e) = 0"
  shows "is_drained (ex_set e)" "\<forall>n<length (ex_tasks e). ts_completed (tk_state (ex_task e n))"
proof -
  have "ex_refs e = []" using assms by (simp add: ex_calm_def ex_refs_def ready_queue_len_eq)
  then have "\<not> ts_queued (tk_state (ex_task e n))" if "n < length (ex_tasks e)" for n
    using assms(1) that by (auto simp: ex_calm_def ex_inv_def ex_queues_def Let_def ex_occ_def)
  then show c: "\<forall>n<length (ex_tasks e). ts_completed (tk_state (ex_task e n))"
    using assms(2) by (auto simp: ex_pure_work_def)
  have "st_task_count (ex_set e) = 0"
    using c assms(1) ex_unfinished_0 [of e] by (simp add: ex_calm_def ex_inv_def ex_counts_def)
  then show "is_drained (ex_set e)" using assms by (simp add: is_drained_def ex_pure_work_def)
qed

lemma run_progress:
  "ex_calm None e \<Longrightarrow> ex_pure_work e \<Longrightarrow> never_waits script \<Longrightarrow>
   ready_queue_len (ex_set e) < ready_poll_budget * fuel \<Longrightarrow>
   \<exists>e'. executor_run alive script fuel evs now e = Some e' \<and> ex_calm None e' \<and>
     (\<forall>n<length (ex_tasks e'). ts_completed (tk_state (ex_task e' n)))"
proof (induction fuel arbitrary: e)
  case (Suc fuel)
  let ?e = "drive_ready_work alive script now e"
  note d = drive_progress [OF Suc.prems(1-3), of alive now]
  show ?case
  proof (cases "ready_queue_len (ex_set ?e) = 0")
    case True
    then show ?thesis using pure_work_drained [OF d(1,2) True] d(1) by (simp add: Let_def)
  next
    case False
    have "ready_queue_len (ex_set ?e) < ready_poll_budget * fuel" using d(3) Suc.prems(4) False by simp
    from Suc.IH [OF d(1,2) Suc.prems(3) this] show ?thesis
      using False d(2) by (simp add: Let_def is_drained_def has_ready_tasks_def ex_pure_work_def)
  qed
qed simp

lemma run_returns_calm:
  "ex_calm None e \<Longrightarrow> executor_run alive script fuel evs now e = Some e' \<Longrightarrow>
   ex_calm None e' \<and> (is_drained (ex_set e') \<or> ex_stopping e')"
proof (induction alive script fuel evs now e rule: executor_run.induct)
  case (2 alive script fuel evs now e)
  let ?e = "drive_ready_work alive script now e"
  have c: "ex_calm None ?e" by (rule ex_calm_drive [OF "2.prems"(1)])
  show ?case
    using "2.prems"(2) "2.IH" c ex_calm_wait [OF c]
    by (simp add: Let_def split: if_splits list.splits prod.splits)
qed simp

lemma count_image_filter: "count (image_mset f (mset xs)) y = length (filter (\<lambda>x. f x = y) xs)"
  by (induction xs) auto

lemma ex_calm_new: "ex_calm None exec_new"
  using ex_inv_new by (simp add: ex_calm_def ex_wakers_def exec_new_def timer_set_new_def readiness_new_def
      interest_set_new_def)

lemma ex_calm_remove_spawner: "ex_calm h (ex_remove_spawner e) \<longleftrightarrow> ex_calm h e"
  using ex_inv_frame(2) [of e]
  by (simp add: ex_calm_def ex_wakers_def ex_remove_spawner_def remove_spawner_def Let_def
      wake_reactor_def ex_task_def)

subsection \<open>Properties\<close>

text \<open>A batch of \<open>poll_ready_tasks\<close> keeps the executor's invariant whatever the polled
  futures do (wake, cancel, spawn, register timers and interests), takes at most 64 tasks, and takes
  fewer only when no task is ready any more, so a full queue cannot keep the loop from its timers
  and a non-empty queue is never left for an idle wait.\<close>

theorem poll_batch_bounded:
  assumes "ex_calm None e"
  shows "case poll_ready_tasks alive script now e of (polled, e') \<Rightarrow>
    ex_calm None e' \<and> polled \<le> 64 \<and> (polled < 64 \<longrightarrow> \<not> has_ready_tasks (ex_set e'))"
proof -
  obtain polled b where b: "ex_poll_batch alive script now ready_poll_budget e = (polled, b)" by fastforce
  note c = ex_poll_batch_calm [OF assms b]
  have "ex_calm None (snd (poll_ready_tasks alive script now e))" by (rule ex_calm_poll_ready [OF assms])
  then show ?thesis using c b by (simp add: poll_ready_tasks_def) (simp add: ready_poll_budget_def)
qed

theorem poll_batch_bounded_witness:
  "let e = snd (ex_spawn (\<lambda>_. True) 5 0 (7::nat) (None :: unit option) exec_new);
       (polled, e') = poll_ready_tasks (\<lambda>_. True) (\<lambda>n e. ([ActWake 0, ActTimer 0 9], OutPending, 3)) 6 e
   in polled = 64 \<and> ex_calm None e'"
proof -
  let ?e = "snd (ex_spawn (\<lambda>_. True) 5 0 (7::nat) (None :: unit option) exec_new)"
  let ?s = "\<lambda>n e. ([ActWake 0, ActTimer 0 9], OutPending, 3) :: (nat, unit) act list \<times> poll_outcome \<times> nat"
  have "ex_calm None ?e" by (intro ex_calm_spawn ex_calm_new)
  from poll_batch_bounded [OF this, of "\<lambda>_. True" ?s 6]
  have "ex_calm None (snd (poll_ready_tasks (\<lambda>_. True) ?s 6 ?e))" by (simp add: case_prod_unfold)
  moreover have "fst (poll_ready_tasks (\<lambda>_. True) ?s 6 ?e) = 64" by code_simp
  ultimately show ?thesis by (simp add: Let_def case_prod_unfold)
qed

text \<open>C18: \<open>Executor::run\<close> returns only on a stop request or when the work is done: in the
  state it returns in, it was asked to stop, or there is no spawner left, the ready queues are
  empty and every task has completed.\<close>

theorem run_returns_drained:
  assumes "ex_calm None e" "executor_run alive script fuel evs now e = Some e'"
  shows "ex_stopping e' \<or>
    st_spawner_count (ex_set e') = 0 \<and> queue_all (ex_set e') = [] \<and>
    (\<forall>n<length (ex_tasks e'). ts_completed (tk_state (ex_task e' n)))"
proof -
  note r = run_returns_calm [OF assms]
  show ?thesis
  proof (cases "ex_stopping e'")
    case False
    then have "ready_queue_len (ex_set e') = 0" "st_spawner_count (ex_set e') = 0" "ex_unfinished e' = 0"
      using r by (auto simp: is_drained_def ex_calm_def ex_inv_def ex_counts_def)
    then show ?thesis by (simp add: ready_queue_len_eq ex_unfinished_0)
  qed simp
qed

theorem run_returns_drained_witness:
  "let e = snd (ex_spawn (\<lambda>_. True) 5 0 (7::nat) (None :: unit option) exec_new);
       e = ex_remove_spawner e;
       e' = the (executor_run (\<lambda>_. True) (\<lambda>n e. ([], OutReady, 3)) 2 [] 6 e)
   in ex_stopping e' \<or> (\<forall>n<length (ex_tasks e'). ts_completed (tk_state (ex_task e' n)))"
proof -
  let ?e = "ex_remove_spawner (snd (ex_spawn (\<lambda>_. True) 5 0 (7::nat) (None :: unit option) exec_new))"
  let ?r = "executor_run (\<lambda>_. True) (\<lambda>n e. ([], OutReady, 3)) 2 [] 6 ?e"
  have "ex_calm None ?e" unfolding ex_calm_remove_spawner by (intro ex_calm_spawn ex_calm_new)
  moreover have "?r \<noteq> None" by code_simp
  ultimately show ?thesis
    using run_returns_drained [of ?e "\<lambda>_. True" "\<lambda>n e. ([], OutReady, 3)" 2 "[]" 6 "the ?r"]
    by (auto simp: Let_def)
qed



text \<open>Expired timers wake their tasks.  After \<open>wake_expired_timers\<close> no timer with a
  passed deadline is registered, the others still are, and every live task that had registered an
  expired timer is in exactly one ready queue position.\<close>

theorem expired_timers_wake_tasks:
  assumes "ex_calm None e" "t \<in> set (tm_timers (ex_timers e))"
  shows "let e' = ex_wake_expired_timers now e in
    ex_calm None e' \<and>
    (t \<in> set (tm_timers (ex_timers e')) \<longleftrightarrow> now < te_deadline t) \<and>
    (te_deadline t \<le> now \<and> \<not> ts_completed (tk_state (ex_task e (te_waker t))) \<longrightarrow>
       length (filter (\<lambda>r. tr_id r = te_waker t) (queue_all (ex_set e'))) = 1)"
proof -
  let ?ts = "snd (timer_expired now (ex_timers e))" and ?ws = "fst (timer_expired now (ex_timers e))"
  let ?e = "e\<lparr>ex_timers := ?ts\<rparr>"
  let ?e' = "ex_wake_expired_timers now e"
  have e': "?e' = ex_wake_all now ?ws ?e"
    by (simp add: ex_wake_expired_timers_def Let_def case_prod_unfold)
  have c': "ex_calm None ?e'" by (rule ex_calm_wake_expired [OF assms(1)])
  have "ex_inv ?e \<longleftrightarrow> ex_inv e" by (rule ex_inv_cong) simp_all
  then have i: "ex_inv ?e" using assms(1) by (simp add: ex_calm_def)
  have ws: "set ?ws \<subseteq> {..<length (ex_tasks ?e)}"
    using assms(1) by (auto simp: ex_calm_def ex_wakers_def timer_expired_def)
  have "ex_timers ?e' = ?ts" using ex_wake_all_fields [OF i ws, of now] by (simp add: e' ex_frame_def)
  then have 1: "t \<in> set (tm_timers (ex_timers ?e')) \<longleftrightarrow> now < te_deadline t"
    using assms(2) by (auto simp: timer_expired_def)
  have 2: "length (filter (\<lambda>r. tr_id r = te_waker t) (queue_all (ex_set ?e'))) = 1"
    if d: "te_deadline t \<le> now" "\<not> ts_completed (tk_state (ex_task e (te_waker t)))"
  proof -
    have "te_waker t \<in> set ?ws" using d(1) assms(2) by (auto simp: timer_expired_def)
    then have "ex_occ ?e' (te_waker t) = 1"
      unfolding e' using d(2) by (intro ex_wake_all_queues [OF i ws]) (simp_all add: ex_task_def)
    moreover have "ex_refs ?e' = queue_all (ex_set ?e')" using c' by (simp add: ex_calm_def ex_refs_def)
    ultimately show ?thesis
      by (simp add: ex_occ_def count_image_filter)
  qed
  show ?thesis using c' 1 2 by (simp add: Let_def)
qed

theorem expired_timers_wake_tasks_witness:
  "let e = snd (ex_spawn (\<lambda>_. True) 5 0 (7::nat) (None :: unit option) exec_new);
       e = snd (poll_ready_tasks (\<lambda>_. True) (\<lambda>n e. ([ActTimer 0 9], OutPending, 3)) 6 e)
   in \<not> has_ready_tasks (ex_set e) \<and>
      length (filter (\<lambda>r. tr_id r = 0) (queue_all (ex_set (ex_wake_expired_timers 9 e)))) = 1"
proof -
  let ?e = "snd (ex_spawn (\<lambda>_. True) 5 0 (7::nat) (None :: unit option) exec_new)"
  let ?s = "\<lambda>n e. ([ActTimer 0 9], OutPending, 3) :: (nat, unit) act list \<times> poll_outcome \<times> nat"
  let ?e2 = "snd (poll_ready_tasks (\<lambda>_. True) ?s 6 ?e)"
  have "ex_calm None ?e2" by (intro ex_calm_poll_ready ex_calm_spawn ex_calm_new)
  moreover have t: "tm_timers (ex_timers ?e2) = [\<lparr>te_id = 0, te_deadline = 9, te_waker = 0\<rparr>]"
    "\<not> ts_completed (tk_state (ex_task ?e2 0))" "\<not> has_ready_tasks (ex_set ?e2)"
    by code_simp+
  ultimately show ?thesis
    using expired_timers_wake_tasks [of ?e2 "\<lparr>te_id = 0, te_deadline = 9, te_waker = 0\<rparr>" 9]
    by (simp add: Let_def)
qed

text \<open>The poll counter counts tasks taken from the ready queue, not polls.  A task
  that is spawned and cancelled before its first poll is still counted as one poll although no
  future is polled, whatever the futures would have done.\<close>

theorem task_polls_counts_cancelled:
  "let e = snd (ex_cancel 0 (snd (ex_spawn (\<lambda>_. True) 5 0 f h exec_new)));
       e' = snd (poll_ready_tasks (\<lambda>_. True) script 6 e)
   in ct_task_polls (ex_counters e') = 1 \<and> ts_poll_count (tk_state (ex_task e' 0)) = 0"
  by code_simp

end
