(* ===== verification/Reply_Cell.thy ===== *)
theory Reply_Cell
  imports Wake_Contract Placement
begin

text \<open>
  The one-shot replies of \<open>runtime.rs\<close>: the sender half (\<open>ReplySender\<close>), the blocking
  receiver (\<open>Reply\<close>) and the future (\<open>ReplyFuture\<close>), which share one cell under a
  mutex.  A blocking wait gives the mutex up while it sleeps on the condition variable;
  what the sender does during the n-th sleep is the n-th element of a list.
\<close>

subsection \<open>Configuration\<close>

definition default_mailbox_capacity :: nat where
  "default_mailbox_capacity = 1024"

record shard_config =
  sc_shard_count :: nat
  sc_mailbox_capacity :: nat

definition shard_config_new :: "nat \<Rightarrow> shard_config" where
  "shard_config_new n = \<lparr>sc_shard_count = n, sc_mailbox_capacity = default_mailbox_capacity\<rparr>"

definition with_mailbox_capacity :: "nat \<Rightarrow> shard_config \<Rightarrow> shard_config" where
  "with_mailbox_capacity c cfg = cfg\<lparr>sc_mailbox_capacity := c\<rparr>"

definition shard_config_validate :: "shard_config \<Rightarrow> shard_error + shard_config" where
  "shard_config_validate cfg =
     (if sc_shard_count cfg = 0 then Inl InvalidShardCount
      else if sc_mailbox_capacity cfg = 0 then Inl InvalidMailboxCapacity
      else Inr cfg)"

subsection \<open>The cell\<close>

record 'v reply =
  rp_value :: "'v option"
  rp_sender_alive :: bool
  rp_waker :: "waker option"

definition reply_channel :: "'v reply" where
  "reply_channel = \<lparr>rp_value = None, rp_sender_alive = True, rp_waker = None\<rparr>"

definition reply_sender_drop :: "'v reply \<Rightarrow> waker list \<times> 'v reply" where
  "reply_sender_drop r =
     (if \<not> rp_sender_alive r then ([], r)
      else (opt_list (rp_waker r), r\<lparr>rp_sender_alive := False, rp_waker := None\<rparr>))"

text \<open>\<open>send\<close> consumes the sender, so its destructor runs at the end on both paths; after a
  successful send it finds the flag cleared and does nothing.\<close>

definition reply_send :: "'v \<Rightarrow> 'v reply \<Rightarrow> ('v + unit) \<times> waker list \<times> 'v reply" where
  "reply_send v r =
     (if rp_value r \<noteq> None then (Inl v, reply_sender_drop r)
      else (Inr (), opt_list (rp_waker r),
            r\<lparr>rp_value := Some v, rp_sender_alive := False, rp_waker := None\<rparr>))"

definition reply_poll :: "waker \<Rightarrow> 'v reply \<Rightarrow> (shard_error + 'v) poll \<times> 'v reply" where
  "reply_poll cx r =
     (case rp_value r of
        Some v \<Rightarrow> (Ready (Inr v), r\<lparr>rp_value := None\<rparr>)
      | None \<Rightarrow>
          if rp_sender_alive r then (Pending, r\<lparr>rp_waker := Some cx\<rparr>)
          else (Ready (Inl ReplyFailed), r))"

definition reply_try_wait :: "'v reply \<Rightarrow> (shard_error + 'v option) \<times> 'v reply" where
  "reply_try_wait r =
     (case rp_value r of
        Some v \<Rightarrow> (Inr (Some v), r\<lparr>rp_value := None\<rparr>)
      | None \<Rightarrow> if rp_sender_alive r then (Inr None, r) else (Inl ReplyFailed, r))"

text \<open>What the owner of the sender can do: send once, or drop the sender.\<close>

datatype 'v sender_op = SendReply 'v | DropSender

fun sender_step :: "'v reply \<Rightarrow> 'v sender_op \<Rightarrow> waker list \<times> 'v reply" where
  "sender_step r (SendReply v) = (if rp_sender_alive r then snd (reply_send v r) else ([], r))"
| "sender_step r DropSender = reply_sender_drop r"

definition sender_run :: "'v sender_op list \<Rightarrow> 'v reply \<Rightarrow> 'v reply" where
  "sender_run ops r = foldl (\<lambda>r x. snd (sender_step r x)) r ops"

text \<open>The blocking waits.  \<open>None\<close> means that the caller is still asleep after the given sleeps.\<close>

fun reply_wait ::
  "'v sender_op list list \<Rightarrow> 'v reply \<Rightarrow> (shard_error + 'v) option \<times> 'v reply" where
  "reply_wait envs r =
     (case rp_value r of
        Some v \<Rightarrow> (Some (Inr v), r\<lparr>rp_value := None\<rparr>)
      | None \<Rightarrow>
          if \<not> rp_sender_alive r then (Some (Inl ReplyFailed), r)
          else case envs of
                 [] \<Rightarrow> (None, r)
               | ops # envs \<Rightarrow> reply_wait envs (sender_run ops r))"

declare reply_wait.simps [simp del]

text \<open>Each sleep of the timed wait is given with the time at which it starts, what the sender
  does during it, and whether it timed out.\<close>

fun reply_wait_timeout ::
  "instant \<Rightarrow> (instant \<times> 'v sender_op list \<times> bool) list \<Rightarrow> 'v reply \<Rightarrow>
   (shard_error + 'v) option \<times> 'v reply" where
  "reply_wait_timeout deadline sleeps r =
     (case rp_value r of
        Some v \<Rightarrow> (Some (Inr v), r\<lparr>rp_value := None\<rparr>)
      | None \<Rightarrow>
          if \<not> rp_sender_alive r then (Some (Inl ReplyFailed), r)
          else case sleeps of
                 [] \<Rightarrow> (None, r)
               | (now, ops, timed_out) # sleeps \<Rightarrow>
                   if deadline \<le> now then (Some (Inl ReplyTimeout), r)
                   else let r = sender_run ops r
                        in if timed_out \<and> rp_value r = None then (Some (Inl ReplyTimeout), r)
                           else reply_wait_timeout deadline sleeps r)"

declare reply_wait_timeout.simps [simp del]

definition reply_inv :: "'v reply \<Rightarrow> bool" where
  "reply_inv r \<longleftrightarrow>
     (rp_waker r \<noteq> None \<longrightarrow> rp_sender_alive r \<and> rp_value r = None) \<and>
     (rp_sender_alive r \<longrightarrow> rp_value r = None)"

datatype 'v reply_op = ByOwner "'v sender_op" | PollReply waker | TryWait

fun reply_step :: "'v reply \<Rightarrow> 'v reply_op \<Rightarrow> waker list \<times> 'v reply" where
  "reply_step r (ByOwner x) = sender_step r x"
| "reply_step r (PollReply cx) = ([], snd (reply_poll cx r))"
| "reply_step r TryWait = ([], snd (reply_try_wait r))"

fun is_receive :: "'v reply_op \<Rightarrow> bool" where
  "is_receive (ByOwner x) = False"
| "is_receive x = True"

lemmas reply_defs = reply_send_def reply_sender_drop_def reply_poll_def reply_try_wait_def

subsection \<open>Laws\<close>

lemma reply_inv_step: "reply_inv r \<Longrightarrow> reply_inv (snd (reply_step r x))"
  by (cases "(r, x)" rule: reply_step.cases; cases "case x of ByOwner y \<Rightarrow> y | _ \<Rightarrow> DropSender")
    (auto simp: reply_inv_def reply_defs split: option.splits)

interpretation reply_cell:
  wake_contract reply_inv reply_step "set_option \<circ> rp_waker"
    "\<lambda>r. rp_value r \<noteq> None \<or> \<not> rp_sender_alive r" is_receive
proof
  fix r :: "'v reply" and x :: "'v reply_op"
  show "reply_inv r \<Longrightarrow> reply_inv (snd (reply_step r x))" by (rule reply_inv_step)
next
  fix r :: "'v reply" and w
  show "reply_inv r \<Longrightarrow> w \<in> (set_option \<circ> rp_waker) r \<Longrightarrow> \<not> (rp_value r \<noteq> None \<or> \<not> rp_sender_alive r)"
    by (auto simp: reply_inv_def)
next
  fix r :: "'v reply" and w and x :: "'v reply_op"
  assume "reply_inv r" "w \<in> (set_option \<circ> rp_waker) r" "\<not> is_receive x"
  moreover from this obtain y where "x = ByOwner y" by (cases x) auto
  ultimately show "w \<in> set (fst (reply_step r x)) \<or> w \<in> (set_option \<circ> rp_waker) (snd (reply_step r x))"
    by (cases y) (auto simp: reply_inv_def reply_defs)
qed

lemma sender_run_simps [simp]:
  "sender_run [] r = r"
  "sender_run (x # xs) r = sender_run xs (snd (sender_step r x))"
  by (simp_all add: sender_run_def)

lemma sender_run_append: "sender_run (xs @ ys) r = sender_run ys (sender_run xs r)"
  by (simp add: sender_run_def)

lemma sender_run_dead: "\<not> rp_sender_alive r \<Longrightarrow> sender_run xs r = r"
proof (induction xs)
  case (Cons x xs)
  then show ?case by (cases x) (simp_all add: reply_sender_drop_def)
qed simp

text \<open>Only the first operation of the sender counts.\<close>

lemma sender_run_alive:
  "rp_sender_alive r \<Longrightarrow> rp_value r = None \<Longrightarrow>
   sender_run xs r =
     (case xs of [] \<Rightarrow> r
      | SendReply v # _ \<Rightarrow> r\<lparr>rp_value := Some v, rp_sender_alive := False, rp_waker := None\<rparr>
      | DropSender # _ \<Rightarrow> r\<lparr>rp_sender_alive := False, rp_waker := None\<rparr>)"
  by (cases xs; cases "hd xs") (auto simp: reply_defs sender_run_dead)

lemma reply_wait_first:
  "rp_sender_alive r \<Longrightarrow> rp_value r = None \<Longrightarrow>
   fst (reply_wait envs r) =
     (case concat envs of [] \<Rightarrow> None | SendReply v # _ \<Rightarrow> Some (Inr v)
      | DropSender # _ \<Rightarrow> Some (Inl ReplyFailed))"
proof (induction envs arbitrary: r)
  case Nil
  then show ?case by (simp add: reply_wait.simps)
next
  case (Cons ops envs)
  show ?case
  proof (cases ops)
    case Nil
    then show ?thesis using Cons by (simp add: reply_wait.simps [of "_ # _"])
  next
    case (Cons x xs)
    then show ?thesis
      using Cons.prems
      by (cases x) (simp_all add: reply_wait.simps [of "_ # _"] reply_wait.simps [of envs]
          reply_defs sender_run_dead)
  qed
qed

lemma reply_wait_timeout_keeps:
  "reply_wait_timeout deadline sleeps r = (Some (Inl ReplyTimeout), r') \<Longrightarrow> rp_value r' = None"
proof (induction sleeps arbitrary: r)
  case Nil
  then show ?case by (auto simp: reply_wait_timeout.simps split: option.splits if_splits)
next
  case (Cons s sleeps)
  obtain now ops t where s: "s = (now, ops, t)" by (cases s)
  have "reply_wait_timeout deadline sleeps (sender_run ops r) = (Some (Inl ReplyTimeout), r') \<or>
      rp_value r' = None"
    using Cons.prems
    by (auto simp: s reply_wait_timeout.simps [of deadline "_ # _"] Let_def
        split: option.splits if_splits)
  then show ?case using Cons.IH by blast
qed

lemma reply_wait_timeout_first:
  "rp_sender_alive r \<Longrightarrow> rp_value r = None \<Longrightarrow>
   fst (reply_wait_timeout deadline sleeps r) = Some (Inr v) \<Longrightarrow>
   \<exists>xs. concat (map (fst \<circ> snd) sleeps) = SendReply v # xs"
proof (induction sleeps arbitrary: r)
  case Nil
  then show ?case by (simp add: reply_wait_timeout.simps)
next
  case (Cons s sleeps)
  obtain now ops t where s: "s = (now, ops, t)" by (cases s)
  show ?case
  proof (cases ops)
    case Nil
    then show ?thesis
      using Cons by (auto simp: s reply_wait_timeout.simps [of deadline "_ # _"] split: if_splits)
  next
    case (Cons x xs)
    then show ?thesis
      using Cons.prems
      by (cases x) (auto simp: s reply_wait_timeout.simps [of deadline "_ # _"]
          reply_wait_timeout.simps [of deadline sleeps] reply_defs sender_run_dead Let_def split: if_splits)
  qed
qed

subsection \<open>Properties\<close>

text \<open>A reply is delivered exactly once and exactly as sent.  A blocking wait returns the
  value of the send if the sender's first act is a send, the error \<open>ReplyFailed\<close> if it is a drop,
  and sleeps on otherwise, whatever happens later; the timed wait returns a value only if that value
  was sent, and when it reports a timeout no value is in the cell, so no reply is thrown away.\<close>

theorem reply_delivered_exactly:
  "fst (reply_wait envs reply_channel) =
     (case concat envs of [] \<Rightarrow> None | SendReply v # _ \<Rightarrow> Some (Inr v)
      | DropSender # _ \<Rightarrow> Some (Inl ReplyFailed)) \<and>
   (case reply_wait_timeout deadline sleeps reply_channel of
      (Some (Inr v), r) \<Rightarrow> (\<exists>xs. concat (map (fst \<circ> snd) sleeps) = SendReply v # xs)
    | (Some (Inl ReplyTimeout), r) \<Rightarrow> rp_value r = None
    | _ \<Rightarrow> True)"
proof -
  have c: "rp_sender_alive reply_channel" "rp_value reply_channel = None"
    by (simp_all add: reply_channel_def)
  obtain x r where t: "reply_wait_timeout deadline sleeps reply_channel = (x, r)" by fastforce
  show ?thesis
    using reply_wait_first [OF c, of envs] reply_wait_timeout_first [OF c, of deadline sleeps]
      reply_wait_timeout_keeps [of deadline sleeps reply_channel r] t
    by (auto split: option.splits sum.splits shard_error.splits)
qed

text \<open>A task that awaits a reply is never forgotten: if its waker is parked in the
  cell in any reachable state, then after any further operations of the sender, if a poll would now
  complete, the waker has been called.\<close>

theorem reply_no_lost_wakeup:
  assumes "reply_inv r" "rp_waker r = Some w"
    and "wk_run reply_step (map ByOwner xs) r = (ws, r')"
    and "rp_value r' \<noteq> None \<or> \<not> rp_sender_alive r'"
  shows "w \<in> set ws"
  using reply_cell.no_lost_wakeup [of r w "map ByOwner xs"] assms by auto

theorem reply_no_lost_wakeup_witness:
  "fst (wk_run reply_step (map ByOwner [SendReply (5::nat)]) (snd (reply_poll 3 reply_channel))) = [3]"
proof -
  let ?r = "snd (reply_poll 3 (reply_channel :: nat reply))"
  obtain ws r' where w: "wk_run reply_step (map ByOwner [SendReply 5]) ?r = (ws, r')" by fastforce
  have r: "reply_inv ?r" "rp_waker ?r = Some 3"
    by (simp_all add: reply_poll_def reply_channel_def reply_inv_def)
  have "r' = ?r\<lparr>rp_value := Some 5, rp_sender_alive := False, rp_waker := None\<rparr>" "length ws = 1"
    using w by (auto simp: reply_defs reply_channel_def)
  with reply_no_lost_wakeup [OF r w] w show ?thesis by (cases ws) auto
qed

end
