(* ===== verification/Shard_Set.thy ===== *)
theory Shard_Set
  imports Reply_Cell
begin

text \<open>
  The shard set of \<open>runtime.rs\<close>: one thread per shard that takes commands from its bounded
  mailbox in order, executes them on the state it owns and answers each through its reply cell.
  The service is a parameter: \<open>svc c s\<close> is the answer and the new state, or \<open>None\<close> when the
  thread panics.  A command of the queue carries the number of its reply cell.  The fields
  \<open>ss_sent\<close> and \<open>ss_log\<close> are history: the accepted commands in the order of acceptance, and the
  executed ones with their answers in the order of execution.
\<close>

subsection \<open>State\<close>

datatype 'c shard_cmd = Command 'c | StopCommand

datatype 'r answer = Answer 'r | Stopped

datatype shard_status = ShardRunning | ShardExited | ShardPanicked

record ('c, 's) shard =
  sh_queue :: "('c shard_cmd \<times> nat) list"
  sh_state :: 's
  sh_status :: shard_status

record ('c, 's, 'r) shard_set =
  ss_shards :: "('c, 's) shard list"
  ss_capacity :: nat
  ss_replies :: "'r answer reply list"
  ss_sent :: "(nat \<times> 'c shard_cmd \<times> nat) list"
  ss_log :: "(nat \<times> 'c \<times> nat \<times> 'r) list"

type_synonym ('c, 's, 'r) service = "'c \<Rightarrow> 's \<Rightarrow> ('r \<times> 's) option"

definition shard_set_start :: "nat \<Rightarrow> nat \<Rightarrow> (nat \<Rightarrow> 's) \<Rightarrow> ('c, 's, 'r) shard_set" where
  "shard_set_start shard_count capacity initial =
     \<lparr>ss_shards = map (\<lambda>i. \<lparr>sh_queue = [], sh_state = initial i, sh_status = ShardRunning\<rparr>)
        [0..<shard_count],
      ss_capacity = capacity, ss_replies = [], ss_sent = [], ss_log = []\<rparr>"

definition shard_set_len :: "('c, 's, 'r) shard_set \<Rightarrow> nat" where
  "shard_set_len ss = length (ss_shards ss)"

record runtime_snapshot =
  rs_shard_count :: nat
  rs_mailbox_capacity :: nat
  rs_stopped :: bool

definition shard_set_snapshot :: "bool \<Rightarrow> ('c, 's, 'r) shard_set \<Rightarrow> runtime_snapshot" where
  "shard_set_snapshot stopped ss =
     \<lparr>rs_shard_count = shard_set_len ss, rs_mailbox_capacity = ss_capacity ss, rs_stopped = stopped\<rparr>"

definition get_by_id :: "shard_id \<Rightarrow> ('c, 's, 'r) shard_set \<Rightarrow> shard_error + shard_id" where
  "get_by_id i ss = (if i < length (ss_shards ss) then Inr i else Inl (InvalidShardId i))"

subsection \<open>Mailboxes\<close>

definition mailbox_push :: "shard_id \<Rightarrow> 'c shard_cmd \<Rightarrow> ('c, 's, 'r) shard_set \<Rightarrow> ('c, 's, 'r) shard_set"
  where
  "mailbox_push i c ss =
     (let n = length (ss_replies ss); sh = ss_shards ss ! i
      in ss\<lparr>ss_shards := (ss_shards ss)[i := sh\<lparr>sh_queue := sh_queue sh @ [(c, n)]\<rparr>],
            ss_replies := ss_replies ss @ [reply_channel],
            ss_sent := ss_sent ss @ [(i, c, n)]\<rparr>)"

definition mailbox_full :: "shard_id \<Rightarrow> ('c, 's, 'r) shard_set \<Rightarrow> bool" where
  "mailbox_full i ss \<longleftrightarrow> ss_capacity ss \<le> length (sh_queue (ss_shards ss ! i))"

definition mailbox_alive :: "shard_id \<Rightarrow> ('c, 's, 'r) shard_set \<Rightarrow> bool" where
  "mailbox_alive i ss \<longleftrightarrow> sh_status (ss_shards ss ! i) = ShardRunning"

datatype try_send_error = TrySendFull | TrySendDisconnected

fun map_try_send_error :: "try_send_error \<Rightarrow> shard_error" where
  "map_try_send_error TrySendFull = MailboxFull"
| "map_try_send_error TrySendDisconnected = SendFailed"

text \<open>\<open>ShardMailbox::try_request\<close>: the number of the reply cell, or an error.\<close>

definition try_request ::
  "shard_id \<Rightarrow> 'c \<Rightarrow> ('c, 's, 'r) shard_set \<Rightarrow> (shard_error + nat) \<times> ('c, 's, 'r) shard_set" where
  "try_request i c ss =
     (if \<not> mailbox_alive i ss then (Inl (map_try_send_error TrySendDisconnected), ss)
      else if mailbox_full i ss then (Inl (map_try_send_error TrySendFull), ss)
      else (Inr (length (ss_replies ss)), mailbox_push i (Command c) ss))"

subsection \<open>The shard thread\<close>

definition reply_to :: "nat \<Rightarrow> 'r answer \<Rightarrow> 'r answer reply list \<Rightarrow> 'r answer reply list" where
  "reply_to n a rs = rs[n := snd (snd (reply_send a (rs ! n)))]"

definition drop_reply :: "nat \<Rightarrow> 'r answer reply list \<Rightarrow> 'r answer reply list" where
  "drop_reply n rs = rs[n := snd (reply_sender_drop (rs ! n))]"

text \<open>One iteration of a shard's loop.  A thread that leaves the loop, or panics, drops its
  receiver, the commands in it and their reply senders.\<close>

definition shard_step ::
  "('c, 's, 'r) service \<Rightarrow> shard_id \<Rightarrow> ('c, 's, 'r) shard_set \<Rightarrow> ('c, 's, 'r) shard_set" where
  "shard_step svc i ss =
     (let sh = ss_shards ss ! i
      in case (sh_status sh, sh_queue sh) of
           (ShardRunning, (Command c, n) # q) \<Rightarrow>
             (case svc c (sh_state sh) of
                Some (r, s) \<Rightarrow>
                  ss\<lparr>ss_shards := (ss_shards ss)[i := sh\<lparr>sh_queue := q, sh_state := s\<rparr>],
                     ss_replies := reply_to n (Answer r) (ss_replies ss),
                     ss_log := ss_log ss @ [(i, c, n, r)]\<rparr>
              | None \<Rightarrow>
                  ss\<lparr>ss_shards := (ss_shards ss)[i := sh\<lparr>sh_queue := [], sh_status := ShardPanicked\<rparr>],
                     ss_replies := fold drop_reply (n # map snd q) (ss_replies ss)\<rparr>)
         | (ShardRunning, (StopCommand, n) # q) \<Rightarrow>
             ss\<lparr>ss_shards := (ss_shards ss)[i := sh\<lparr>sh_queue := [], sh_status := ShardExited\<rparr>],
                ss_replies := fold drop_reply (map snd q) (reply_to n Stopped (ss_replies ss))\<rparr>
         | _ \<Rightarrow> ss)"

subsection \<open>Blocking calls\<close>

text \<open>A sender that finds the mailbox full sleeps until the shard has taken a command.\<close>

definition make_room ::
  "('c, 's, 'r) service \<Rightarrow> shard_id \<Rightarrow> ('c, 's, 'r) shard_set \<Rightarrow> ('c, 's, 'r) shard_set" where
  "make_room svc i ss = (if mailbox_alive i ss \<and> mailbox_full i ss then shard_step svc i ss else ss)"

definition request ::
  "('c, 's, 'r) service \<Rightarrow> shard_id \<Rightarrow> 'c \<Rightarrow> ('c, 's, 'r) shard_set \<Rightarrow>
   (shard_error + nat) \<times> ('c, 's, 'r) shard_set" where
  "request svc i c ss =
     (let ss = make_room svc i ss
      in if \<not> mailbox_alive i ss then (Inl SendFailed, ss)
         else (Inr (length (ss_replies ss)), mailbox_push i (Command c) ss))"

definition request_stop ::
  "('c, 's, 'r) service \<Rightarrow> shard_id \<Rightarrow> ('c, 's, 'r) shard_set \<Rightarrow>
   (shard_error + nat) \<times> ('c, 's, 'r) shard_set" where
  "request_stop svc i ss =
     (let ss = make_room svc i ss
      in if \<not> mailbox_alive i ss then (Inl ShardStopped, ss)
         else (Inr (length (ss_replies ss)), mailbox_push i StopCommand ss))"

text \<open>\<open>Reply::wait\<close> with the shard thread running: the shard takes steps until the reply is
  there.  The queue of the shard bounds the number of steps.\<close>

fun await_reply ::
  "('c, 's, 'r) service \<Rightarrow> shard_id \<Rightarrow> nat \<Rightarrow> nat \<Rightarrow> ('c, 's, 'r) shard_set \<Rightarrow>
   (shard_error + 'r answer) option \<times> ('c, 's, 'r) shard_set" where
  "await_reply svc i n fuel ss =
     (case reply_try_wait (ss_replies ss ! n) of
        (Inr (Some v), r) \<Rightarrow> (Some (Inr v), ss\<lparr>ss_replies := (ss_replies ss)[n := r]\<rparr>)
      | (Inl e, r) \<Rightarrow> (Some (Inl e), ss)
      | (Inr None, r) \<Rightarrow>
          (case fuel of 0 \<Rightarrow> (None, ss)
           | Suc fuel \<Rightarrow> await_reply svc i n fuel (shard_step svc i ss)))"

declare await_reply.simps [simp del]

definition wait_reply ::
  "('c, 's, 'r) service \<Rightarrow> shard_id \<Rightarrow> nat \<Rightarrow> ('c, 's, 'r) shard_set \<Rightarrow>
   (shard_error + 'r answer) option \<times> ('c, 's, 'r) shard_set" where
  "wait_reply svc i n ss = await_reply svc i n (length (sh_queue (ss_shards ss ! i))) ss"

text \<open>A call that submits and waits.\<close>

definition blocking_call ::
  "('c, 's, 'r) service \<Rightarrow> shard_id \<Rightarrow> 'c \<Rightarrow> ('c, 's, 'r) shard_set \<Rightarrow>
   (shard_error + 'r answer) option \<times> ('c, 's, 'r) shard_set" where
  "blocking_call svc i c ss =
     (case request svc i c ss of
        (Inl e, ss) \<Rightarrow> (Some (Inl e), ss)
      | (Inr n, ss) \<Rightarrow> wait_reply svc i n ss)"

text \<open>\<open>ShardSet::request_all\<close> with a given way to submit to one shard: it stops at the first
  error, and what was accepted before stays accepted.\<close>

fun request_all ::
  "(shard_id \<Rightarrow> ('c, 's, 'r) shard_set \<Rightarrow> (shard_error + 'a) \<times> ('c, 's, 'r) shard_set) \<Rightarrow>
   shard_id list \<Rightarrow> ('c, 's, 'r) shard_set \<Rightarrow>
   (shard_error + 'a list) \<times> ('c, 's, 'r) shard_set" where
  "request_all submit [] ss = (Inr [], ss)"
| "request_all submit (i # is) ss =
     (case submit i ss of
        (Inl e, ss) \<Rightarrow> (Inl e, ss)
      | (Inr n, ss) \<Rightarrow>
          (case request_all submit is ss of
             (Inl e, ss) \<Rightarrow> (Inl e, ss)
           | (Inr ns, ss) \<Rightarrow> (Inr (n # ns), ss)))"

text \<open>Waiting for a list of replies in order, as the aggregate replies do: the first error ends
  the wait.\<close>

fun wait_all ::
  "('c, 's, 'r) service \<Rightarrow> (shard_id \<times> nat) list \<Rightarrow> ('c, 's, 'r) shard_set \<Rightarrow>
   (shard_error + 'r answer list) option \<times> ('c, 's, 'r) shard_set" where
  "wait_all svc [] ss = (Some (Inr []), ss)"
| "wait_all svc ((i, n) # hs) ss =
     (case wait_reply svc i n ss of
        (Some (Inr a), ss) \<Rightarrow>
          (case wait_all svc hs ss of
             (Some (Inr as), ss) \<Rightarrow> (Some (Inr (a # as)), ss)
           | (x, ss) \<Rightarrow> (x, ss))
      | (Some (Inl e), ss) \<Rightarrow> (Some (Inl e), ss)
      | (None, ss) \<Rightarrow> (None, ss))"

definition join_all :: "('c, 's, 'r) shard_set \<Rightarrow> shard_error + unit" where
  "join_all ss =
     (if \<exists>sh\<in>set (ss_shards ss). sh_status sh = ShardPanicked then Inl ThreadJoinFailed else Inr ())"

definition stop_one ::
  "('c, 's, 'r) service \<Rightarrow> shard_id \<Rightarrow> ('c, 's, 'r) shard_set \<Rightarrow>
   (shard_error + unit) \<times> ('c, 's, 'r) shard_set" where
  "stop_one svc i ss =
     (case request_stop svc i ss of
        (Inl e, ss) \<Rightarrow> (Inl e, ss)
      | (Inr n, ss) \<Rightarrow>
          (case wait_reply svc i n ss of
             (Some (Inl e), ss) \<Rightarrow> (Inl e, ss)
           | (_, ss) \<Rightarrow> (Inr (), ss)))"

fun stop_all ::
  "('c, 's, 'r) service \<Rightarrow> shard_id list \<Rightarrow> shard_error + unit \<Rightarrow> ('c, 's, 'r) shard_set \<Rightarrow>
   (shard_error + unit) \<times> ('c, 's, 'r) shard_set" where
  "stop_all svc [] stop_result ss = (stop_result, ss)"
| "stop_all svc (i # is) stop_result ss =
     (case stop_one svc i ss of
        (Inl e, ss) \<Rightarrow> stop_all svc is (Inl e) ss
      | (Inr _, ss) \<Rightarrow> stop_all svc is stop_result ss)"

definition stop_and_join ::
  "('c, 's, 'r) service \<Rightarrow> ('c, 's, 'r) shard_set \<Rightarrow> (shard_error + unit) \<times> ('c, 's, 'r) shard_set" where
  "stop_and_join svc ss =
     (case stop_all svc [0..<length (ss_shards ss)] (Inr ()) ss of
        (Inl e, ss) \<Rightarrow> (Inl e, ss)
      | (Inr _, ss) \<Rightarrow> (join_all ss, ss))"

subsection \<open>Histories\<close>

datatype 'c shard_event =
    EvRequest shard_id 'c
  | EvStop shard_id
  | EvStep shard_id
  | EvTake nat

fun on_event ::
  "('c, 's, 'r) service \<Rightarrow> 'c shard_event \<Rightarrow> ('c, 's, 'r) shard_set \<Rightarrow> ('c, 's, 'r) shard_set" where
  "on_event svc (EvRequest i c) ss =
     (if i < length (ss_shards ss) then snd (try_request i c ss) else ss)"
| "on_event svc (EvStop i) ss =
     (if i < length (ss_shards ss) \<and> mailbox_alive i ss \<and> \<not> mailbox_full i ss
      then mailbox_push i StopCommand ss else ss)"
| "on_event svc (EvStep i) ss =
     (if i < length (ss_shards ss) then shard_step svc i ss else ss)"
| "on_event svc (EvTake n) ss =
     (if n < length (ss_replies ss)
      then ss\<lparr>ss_replies := (ss_replies ss)[n := snd (reply_try_wait (ss_replies ss ! n))]\<rparr> else ss)"

fun svc_run :: "('c, 's, 'r) service \<Rightarrow> 'c list \<Rightarrow> 's \<Rightarrow> ('r list \<times> 's) option" where
  "svc_run svc [] s = Some ([], s)"
| "svc_run svc (c # cs) s =
     (case svc c s of None \<Rightarrow> None
      | Some (r, s) \<Rightarrow> (case svc_run svc cs s of None \<Rightarrow> None | Some (rs, s) \<Rightarrow> Some (r # rs, s)))"

definition log_of :: "shard_id \<Rightarrow> ('c, 's, 'r) shard_set \<Rightarrow> (nat \<times> 'c \<times> nat \<times> 'r) list" where
  "log_of i ss = filter (\<lambda>e. fst e = i) (ss_log ss)"

definition sent_to :: "shard_id \<Rightarrow> ('c, 's, 'r) shard_set \<Rightarrow> ('c shard_cmd \<times> nat) list" where
  "sent_to i ss = map snd (filter (\<lambda>e. fst e = i) (ss_sent ss))"

definition executed_on :: "shard_id \<Rightarrow> ('c, 's, 'r) shard_set \<Rightarrow> ('c shard_cmd \<times> nat) list" where
  "executed_on i ss = map (\<lambda>(_, c, n, _). (Command c, n)) (log_of i ss)"

definition queued_ids :: "('c, 's, 'r) shard_set \<Rightarrow> nat set" where
  "queued_ids ss = (\<Union>sh\<in>set (ss_shards ss). snd ` set (sh_queue sh))"

definition shard_ok ::
  "('c, 's, 'r) service \<Rightarrow> (nat \<Rightarrow> 's) \<Rightarrow> shard_id \<Rightarrow> ('c, 's, 'r) shard_set \<Rightarrow> bool" where
  "shard_ok svc initial i ss \<longleftrightarrow>
     (let sh = ss_shards ss ! i in
        svc_run svc (map (\<lambda>(_, c, _, _). c) (log_of i ss)) (initial i) =
          Some (map (\<lambda>(_, _, _, r). r) (log_of i ss), sh_state sh) \<and>
        (\<exists>q. sent_to i ss = executed_on i ss @ q \<and>
           sh_queue sh = (if sh_status sh = ShardRunning then q else [])) \<and>
        length (sh_queue sh) \<le> ss_capacity ss)"

definition cell_ok :: "nat \<Rightarrow> ('c, 's, 'r) shard_set \<Rightarrow> bool" where
  "cell_ok n ss \<longleftrightarrow>
     (let r = ss_replies ss ! n in
        (rp_sender_alive r \<longleftrightarrow> n \<in> queued_ids ss) \<and> (rp_sender_alive r \<longrightarrow> rp_value r = None) \<and>
        (\<forall>a. rp_value r = Some (Answer a) \<longrightarrow> (\<exists>i c. (i, c, n, a) \<in> set (ss_log ss))))"

definition ss_inv :: "('c, 's, 'r) service \<Rightarrow> (nat \<Rightarrow> 's) \<Rightarrow> ('c, 's, 'r) shard_set \<Rightarrow> bool" where
  "ss_inv svc initial ss \<longleftrightarrow>
     (\<forall>i<length (ss_shards ss). shard_ok svc initial i ss) \<and>
     (\<forall>n<length (ss_replies ss). cell_ok n ss) \<and>
     map (\<lambda>(_, _, n). n) (ss_sent ss) = [0..<length (ss_replies ss)] \<and>
     fst ` set (ss_sent ss) \<subseteq> {..<length (ss_shards ss)}"

definition commands :: "('c \<times> nat) list \<Rightarrow> ('c shard_cmd \<times> nat) list" where
  "commands pre = map (\<lambda>(c, n). (Command c, n)) pre"

definition shard_history ::
  "('c, 's, 'r) service \<Rightarrow> (nat \<Rightarrow> 's) \<Rightarrow> nat \<Rightarrow> nat \<Rightarrow> 'c shard_event list \<Rightarrow> ('c, 's, 'r) shard_set" where
  "shard_history svc initial n cap evs = fold (on_event svc) evs (shard_set_start n cap initial)"

definition svc_total :: "('c, 's, 'r) service \<Rightarrow> bool" where
  "svc_total svc \<longleftrightarrow> (\<forall>c s. svc c s \<noteq> None)"

definition all_serving :: "('c, 's, 'r) shard_set \<Rightarrow> bool" where
  "all_serving ss \<longleftrightarrow>
     (\<forall>sh\<in>set (ss_shards ss). sh_status sh = ShardRunning \<and> (\<exists>pre. sh_queue sh = commands pre))"

definition drained_shard :: "('c, 's, 'r) service \<Rightarrow> ('c, 's) shard \<Rightarrow> ('c, 's) shard \<Rightarrow> bool" where
  "drained_shard svc sh sh' \<longleftrightarrow>
     sh_status sh' = ShardExited \<and> sh_queue sh' = [] \<and>
     (\<exists>pre rs. sh_queue sh = commands pre \<and>
        svc_run svc (map fst pre) (sh_state sh) = Some (rs, sh_state sh'))"

subsection \<open>Laws\<close>

lemma svc_run_snoc:
  "svc_run svc (cs @ [c]) s =
   (case svc_run svc cs s of None \<Rightarrow> None
    | Some (rs, s') \<Rightarrow> (case svc c s' of None \<Rightarrow> None | Some (r, s'') \<Rightarrow> Some (rs @ [r], s'')))"
  by (induction cs arbitrary: s) (auto split: option.splits)

lemma ss_inv_start: "ss_inv svc initial (shard_set_start n cap initial)"
  by (simp add: ss_inv_def shard_ok_def shard_set_start_def log_of_def sent_to_def executed_on_def)

lemma queue_id_in_sent:
  assumes "ss_inv svc initial ss" "i < length (ss_shards ss)" "(c, n) \<in> set (sh_queue (ss_shards ss ! i))"
  shows "(i, c, n) \<in> set (ss_sent ss)"
proof -
  have "(c, n) \<in> set (sent_to i ss)"
    using assms by (auto simp: ss_inv_def shard_ok_def Let_def split: if_splits)
  then show ?thesis by (auto simp: sent_to_def)
qed

lemma sent_ids:
  assumes "ss_inv svc initial ss"
  shows "distinct (map (\<lambda>(_, _, n). n) (ss_sent ss))"
    and "(i, c, n) \<in> set (ss_sent ss) \<Longrightarrow> n < length (ss_replies ss)"
    and "(i, c, n) \<in> set (ss_sent ss) \<Longrightarrow> (j, d, n) \<in> set (ss_sent ss) \<Longrightarrow> i = j \<and> c = d"
proof -
  have m: "map (\<lambda>(_, _, n). n) (ss_sent ss) = [0..<length (ss_replies ss)]"
    using assms by (simp add: ss_inv_def)
  show d: "distinct (map (\<lambda>(_, _, n). n) (ss_sent ss))" by (simp add: m)
  show "(i, c, n) \<in> set (ss_sent ss) \<Longrightarrow> n < length (ss_replies ss)"
    using arg_cong [OF m, of set] by force
  show "(i, c, n) \<in> set (ss_sent ss) \<Longrightarrow> (j, d, n) \<in> set (ss_sent ss) \<Longrightarrow> i = j \<and> c = d"
    using d inj_onD [of "\<lambda>(_, _, n). n" "set (ss_sent ss)" "(i, c, n)" "(j, d, n)"]
    by (auto simp: distinct_map)
qed

lemma queue_distinct:
  assumes "ss_inv svc initial ss" "i < length (ss_shards ss)"
  shows "distinct (map snd (sh_queue (ss_shards ss ! i)))"
proof -
  have "distinct (map snd (sent_to i ss))"
    using sent_ids(1) [OF assms(1)] distinct_map_filter
    unfolding sent_to_def by (fastforce simp: comp_def case_prod_unfold)
  moreover obtain q where "sent_to i ss = executed_on i ss @ q"
      "sh_queue (ss_shards ss ! i) = (if sh_status (ss_shards ss ! i) = ShardRunning then q else [])"
    using assms by (auto simp: ss_inv_def shard_ok_def Let_def)
  ultimately show ?thesis by auto
qed

lemma queued_ids_alt: "n \<in> queued_ids ss \<longleftrightarrow>
    (\<exists>i<length (ss_shards ss). n \<in> snd ` set (sh_queue (ss_shards ss ! i)))"
  by (simp add: queued_ids_def) (metis in_set_conv_nth)

lemma queued_ids_update:
  assumes "ss_inv svc initial ss" "i < length (ss_shards ss)" "sh_queue (ss_shards ss ! i) = (c, n) # q"
    and "ss_shards ss' = (ss_shards ss)[i := sh]" "sh_queue sh = q'" "set q' \<subseteq> set q"
  shows "m \<in> queued_ids ss' \<longleftrightarrow> m \<in> queued_ids ss \<and> m \<noteq> n \<and> (m \<in> snd ` set q \<longrightarrow> m \<in> snd ` set q')"
proof -
  have other: "m \<notin> snd ` set (sh_queue (ss_shards ss ! j))"
    if "m \<in> snd ` set (sh_queue (ss_shards ss ! i))" "j < length (ss_shards ss)" "j \<noteq> i" for j
  proof
    assume "m \<in> snd ` set (sh_queue (ss_shards ss ! j))"
    with that(1) obtain c1 c2 where c: "(c1, m) \<in> set (sh_queue (ss_shards ss ! i))"
        "(c2, m) \<in> set (sh_queue (ss_shards ss ! j))"
      by auto
    show False
      using sent_ids(3) [OF assms(1) queue_id_in_sent [OF assms(1,2) c(1)]
          queue_id_in_sent [OF assms(1) that(2) c(2)]] that(3)
      by simp
  qed
  have n: "n \<notin> snd ` set q" using queue_distinct [OF assms(1,2)] assms(3) by auto
  show ?thesis
  proof (cases "m \<in> snd ` set (sh_queue (ss_shards ss ! i))")
    case True
    then have "m \<in> queued_ids ss' \<longleftrightarrow> m \<in> snd ` set q'"
      using other assms(2,4,5) by (auto simp: queued_ids_alt nth_list_update)
    moreover have "m \<in> queued_ids ss" using True assms(2) by (auto simp: queued_ids_alt)
    ultimately show ?thesis using True assms(3,6) n by auto
  next
    case False
    then have "m \<noteq> n" "m \<notin> snd ` set q" "m \<notin> snd ` set q'" using assms(3,6) by auto
    moreover have "m \<in> queued_ids ss' \<longleftrightarrow> m \<in> queued_ids ss"
      using False assms(2,4,5) \<open>m \<notin> snd ` set q'\<close> by (auto simp: queued_ids_alt nth_list_update)
    ultimately show ?thesis by simp
  qed
qed

lemma ss_inv_push:
  assumes "ss_inv svc initial ss" "i < length (ss_shards ss)" "mailbox_alive i ss" "\<not> mailbox_full i ss"
  shows "ss_inv svc initial (mailbox_push i c ss)"
proof -
  let ?n = "length (ss_replies ss)" and ?ss = "mailbox_push i c ss"
  have sh: "ss_shards ?ss ! j = (if j = i then (ss_shards ss ! i)\<lparr>sh_queue := sh_queue (ss_shards ss ! i) @ [(c, ?n)]\<rparr>
      else ss_shards ss ! j)" for j
    using assms(2) by (simp add: mailbox_push_def Let_def nth_list_update)
  have f: "length (ss_shards ?ss) = length (ss_shards ss)" "ss_capacity ?ss = ss_capacity ss"
      "ss_replies ?ss = ss_replies ss @ [reply_channel]" "ss_sent ?ss = ss_sent ss @ [(i, c, ?n)]"
      "log_of j ?ss = log_of j ss" "executed_on j ?ss = executed_on j ss" "ss_log ?ss = ss_log ss" for j
    by (simp_all add: mailbox_push_def Let_def log_of_def executed_on_def)
  have sent: "sent_to j ?ss = sent_to j ss @ (if j = i then [(c, ?n)] else [])" for j
    by (simp add: sent_to_def f)
  have q: "m \<in> queued_ids ?ss \<longleftrightarrow> m = ?n \<or> m \<in> queued_ids ss" for m
    using assms(2) by (auto simp: queued_ids_alt f sh)
  have new: "?n \<notin> queued_ids ss"
    using sent_ids(2) [OF assms(1) queue_id_in_sent [OF assms(1)]]
    by (fastforce simp: queued_ids_alt)
  have "shard_ok svc initial j ?ss" if "j < length (ss_shards ss)" for j
    using assms that
    by (auto simp: ss_inv_def shard_ok_def Let_def f sent sh mailbox_alive_def mailbox_full_def)
  moreover have "cell_ok m ?ss" if "m < Suc ?n" for m
    using assms(1) that new by (auto simp: ss_inv_def cell_ok_def Let_def f q nth_append reply_channel_def)
  ultimately show ?thesis using assms(1,2) by (auto simp: ss_inv_def f)
qed

lemma ss_inv_take:
  assumes "ss_inv svc initial ss"
  shows "ss_inv svc initial (ss\<lparr>ss_replies := (ss_replies ss)[n := snd (reply_try_wait (ss_replies ss ! n))]\<rparr>)"
proof -
  let ?ss = "ss\<lparr>ss_replies := (ss_replies ss)[n := snd (reply_try_wait (ss_replies ss ! n))]\<rparr>"
  have "shard_ok svc initial i ?ss \<longleftrightarrow> shard_ok svc initial i ss" for i
    by (simp add: shard_ok_def log_of_def sent_to_def executed_on_def)
  moreover have "cell_ok m ?ss" if "m < length (ss_replies ss)" for m
    using assms that
    by (cases "m = n") (auto simp: ss_inv_def cell_ok_def Let_def queued_ids_def reply_try_wait_def
        split: option.splits)
  ultimately show ?thesis using assms by (simp add: ss_inv_def)
qed

lemma drop_reply_nth:
  "length (drop_reply a rs) = length rs"
  "m < length rs \<Longrightarrow> drop_reply a rs ! m = (if m = a then snd (reply_sender_drop (rs ! m)) else rs ! m)"
  by (simp_all add: drop_reply_def)

lemma reply_sender_drop_idem:
  "snd (reply_sender_drop (snd (reply_sender_drop r))) = snd (reply_sender_drop r)"
  by (simp add: reply_sender_drop_def)

lemma length_fold_drop: "length (fold drop_reply ns rs) = length rs"
  by (induction ns arbitrary: rs) (simp_all add: drop_reply_nth)

lemma fold_drop_reply:
  "m < length rs \<Longrightarrow> fold drop_reply ns rs ! m =
     (if m \<in> set ns then snd (reply_sender_drop (rs ! m)) else rs ! m)"
proof (induction ns arbitrary: rs)
  case (Cons a ns)
  then show ?case
    using Cons.IH [of "drop_reply a rs"] by (simp add: drop_reply_nth reply_sender_drop_idem)
qed simp

lemma ss_inv_headD:
  assumes "ss_inv svc initial ss" "i < length (ss_shards ss)" "sh_queue (ss_shards ss ! i) = (c, n) # q"
  shows "n < length (ss_replies ss)" "rp_sender_alive (ss_replies ss ! n)" "rp_value (ss_replies ss ! n) = None"
proof -
  have "(i, c, n) \<in> set (ss_sent ss)" by (rule queue_id_in_sent [OF assms(1,2)]) (simp add: assms(3))
  then show n: "n < length (ss_replies ss)" by (rule sent_ids(2) [OF assms(1)])
  have "n \<in> queued_ids ss" using assms(2,3) by (force simp: queued_ids_alt)
  then show "rp_sender_alive (ss_replies ss ! n)" "rp_value (ss_replies ss ! n) = None"
    using assms(1) n by (auto simp: ss_inv_def cell_ok_def Let_def)
qed

lemma ss_inv_execute:
  assumes "ss_inv svc initial ss" "i < length (ss_shards ss)"
    and "sh_status (ss_shards ss ! i) = ShardRunning"
    and "sh_queue (ss_shards ss ! i) = (Command c, n) # q"
    and "svc c (sh_state (ss_shards ss ! i)) = Some (r, s)"
  shows "ss_inv svc initial (shard_step svc i ss)"
proof -
  let ?sh = "ss_shards ss ! i" and ?ss = "shard_step svc i ss"
  let ?new = "?sh\<lparr>sh_queue := q, sh_state := s\<rparr>"
  have f: "ss_shards ?ss = (ss_shards ss)[i := ?new]" "ss_capacity ?ss = ss_capacity ss"
      "ss_replies ?ss = reply_to n (Answer r) (ss_replies ss)" "ss_sent ?ss = ss_sent ss"
      "ss_log ?ss = ss_log ss @ [(i, c, n, r)]"
    using assms(3-5) by (simp_all add: shard_step_def Let_def)
  note h = ss_inv_headD [OF assms(1,2,4)]
  have sent: "sent_to j ?ss = sent_to j ss" for j by (simp add: sent_to_def f)
  have log: "log_of j ?ss = log_of j ss @ (if j = i then [(i, c, n, r)] else [])" for j
    by (simp add: log_of_def f)
  have ex: "executed_on j ?ss = executed_on j ss @ (if j = i then [(Command c, n)] else [])" for j
    by (simp add: executed_on_def log)
  have q: "m \<in> queued_ids ?ss \<longleftrightarrow> m \<in> queued_ids ss \<and> m \<noteq> n" for m
    using queued_ids_update [OF assms(1,2,4) f(1), of q m] by simp
  have "shard_ok svc initial j ?ss" if "j < length (ss_shards ss)" for j
    using assms that
    by (cases "j = i") (auto simp: ss_inv_def shard_ok_def Let_def f sent log ex svc_run_snoc)
  moreover have "cell_ok m ?ss" if "m < length (ss_replies ss)" for m
    using assms(1) that h
    by (cases "m = n") (auto simp: ss_inv_def cell_ok_def Let_def f q reply_to_def reply_send_def)
  ultimately show ?thesis using assms(1) by (simp add: ss_inv_def f) (simp add: reply_to_def)
qed

text \<open>A shard that exits or panics: its queue is dropped, and the reply of the command it was
  executing holds \<open>Stopped\<close> or nothing.\<close>

lemma ss_inv_exit:
  assumes "ss_inv svc initial ss" "i < length (ss_shards ss)" "status \<noteq> ShardRunning"
    and "sh_status (ss_shards ss ! i) = ShardRunning"
    and "sh_queue (ss_shards ss ! i) = (c, n) # q"
    and "rs = reply_to n Stopped (ss_replies ss) \<or> rs = drop_reply n (ss_replies ss)"
  shows "ss_inv svc initial (ss\<lparr>ss_shards :=
      (ss_shards ss)[i := (ss_shards ss ! i)\<lparr>sh_queue := [], sh_status := status\<rparr>],
      ss_replies := fold drop_reply (map snd q) rs\<rparr>)" (is "ss_inv svc initial ?ss")
proof -
  note h = ss_inv_headD [OF assms(1,2,5)]
  have f: "sent_to j ?ss = sent_to j ss" "log_of j ?ss = log_of j ss" "executed_on j ?ss = executed_on j ss" for j
    by (simp_all add: sent_to_def log_of_def executed_on_def)
  have q: "m \<in> queued_ids ?ss \<longleftrightarrow> m \<in> queued_ids ss \<and> m \<noteq> n \<and> m \<notin> snd ` set q" for m
    using queued_ids_update [OF assms(1,2,5), of ?ss _ "[]" m] by simp
  have len: "length rs = length (ss_replies ss)" using assms(6) by (auto simp: reply_to_def drop_reply_def)
  have rs: "m \<noteq> n \<Longrightarrow> m < length (ss_replies ss) \<Longrightarrow> rs ! m = ss_replies ss ! m"
    "\<not> rp_sender_alive (rs ! n)" "rp_value (rs ! n) = None \<or> rp_value (rs ! n) = Some Stopped" for m
    using assms(6) h by (auto simp: reply_to_def drop_reply_nth reply_defs)
  have "shard_ok svc initial j ?ss" if "j < length (ss_shards ss)" for j
    using assms(1-4) that by (cases "j = i") (auto simp: ss_inv_def shard_ok_def Let_def f)
  moreover have "cell_ok m ?ss" if m: "m < length (ss_replies ss)" for m
  proof -
    have c: "cell_ok m ss" using assms(1) m by (simp add: ss_inv_def)
    have n: "n \<notin> snd ` set q" using queue_distinct [OF assms(1,2)] assms(5) by auto
    have fd: "fold drop_reply (map snd q) rs ! k =
        (if k \<in> snd ` set q then snd (reply_sender_drop (rs ! k)) else rs ! k)"
      if "k < length (ss_replies ss)" for k
      using fold_drop_reply [of k rs "map snd q"] that len by simp
    show ?thesis
      using c rs(1) [of m] rs(2,3) m n
      by (cases "m = n") (auto simp: cell_ok_def Let_def fd q reply_sender_drop_def)
  qed
  ultimately show ?thesis
    using assms(1) by (simp add: ss_inv_def length_fold_drop len)
qed

lemma ss_inv_step:
  assumes "ss_inv svc initial ss" "i < length (ss_shards ss)"
  shows "ss_inv svc initial (shard_step svc i ss)"
proof (cases "sh_status (ss_shards ss ! i) = ShardRunning \<and> sh_queue (ss_shards ss ! i) \<noteq> []")
  case True
  then obtain c n q where q: "sh_queue (ss_shards ss ! i) = (c, n) # q"
    by (cases "sh_queue (ss_shards ss ! i)") auto
  note ex = ss_inv_exit [OF assms _ _ q]
  show ?thesis
  proof (cases c)
    case (Command d)
    show ?thesis
    proof (cases "svc d (sh_state (ss_shards ss ! i))")
      case None
      then show ?thesis
        using ex [of ShardPanicked "drop_reply n (ss_replies ss)"] True q Command
        by (simp add: shard_step_def Let_def)
    next
      case (Some x)
      then show ?thesis
        using ss_inv_execute [OF assms _ q [unfolded Command], of "fst x" "snd x"] True by simp
    qed
  next
    case StopCommand
    then show ?thesis
      using ex [of ShardExited "reply_to n Stopped (ss_replies ss)"] True q
      by (simp add: shard_step_def Let_def)
  qed
next
  case False
  then have "shard_step svc i ss = ss"
    by (auto simp: shard_step_def Let_def split: shard_status.splits list.splits)
  then show ?thesis using assms(1) by simp
qed

lemma ss_inv_event: "ss_inv svc initial ss \<Longrightarrow> ss_inv svc initial (on_event svc ev ss)"
  by (cases ev) (auto simp: try_request_def intro: ss_inv_push ss_inv_step ss_inv_take)

lemma ss_inv_events: "ss_inv svc initial ss \<Longrightarrow> ss_inv svc initial (fold (on_event svc) evs ss)"
  by (induction evs arbitrary: ss) (auto intro: ss_inv_event)

subsection \<open>Blocking calls\<close>

lemma commands_simps [simp]:
  "commands [] = []" "commands ((c, n) # pre) = (Command c, n) # commands pre"
  "length (commands pre) = length pre"
  "commands (pre @ pre') = commands pre @ commands pre'"
  by (simp_all add: commands_def)

lemma shard_step_execute:
  assumes "sh_status (ss_shards ss ! i) = ShardRunning"
    and "sh_queue (ss_shards ss ! i) = (Command c, n) # q"
    and "svc c (sh_state (ss_shards ss ! i)) = Some (r, s)"
  shows "ss_shards (shard_step svc i ss) =
      (ss_shards ss)[i := (ss_shards ss ! i)\<lparr>sh_queue := q, sh_state := s\<rparr>]"
    "ss_capacity (shard_step svc i ss) = ss_capacity ss"
    "ss_replies (shard_step svc i ss) = reply_to n (Answer r) (ss_replies ss)"
    "ss_sent (shard_step svc i ss) = ss_sent ss"
    "ss_log (shard_step svc i ss) = ss_log ss @ [(i, c, n, r)]"
  using assms by (simp_all add: shard_step_def Let_def)

lemma shard_step_stop:
  assumes "sh_status (ss_shards ss ! i) = ShardRunning"
    and "sh_queue (ss_shards ss ! i) = [(StopCommand, n)]"
  shows "ss_shards (shard_step svc i ss) =
      (ss_shards ss)[i := (ss_shards ss ! i)\<lparr>sh_queue := [], sh_status := ShardExited\<rparr>]"
    "ss_capacity (shard_step svc i ss) = ss_capacity ss"
    "ss_replies (shard_step svc i ss) = reply_to n Stopped (ss_replies ss)"
  using assms by (simp_all add: shard_step_def Let_def)

lemma queued_cell:
  assumes "ss_inv svc initial ss" "i < length (ss_shards ss)" "(c, n) \<in> set (sh_queue (ss_shards ss ! i))"
  shows "reply_try_wait (ss_replies ss ! n) = (Inr None, ss_replies ss ! n)"
proof -
  have "n \<in> queued_ids ss" using assms(2,3) by (force simp: queued_ids_alt)
  moreover have "n < length (ss_replies ss)"
    by (rule sent_ids(2) [OF assms(1) queue_id_in_sent [OF assms]])
  ultimately show ?thesis
    using assms(1) by (auto simp: ss_inv_def cell_ok_def Let_def reply_try_wait_def)
qed

lemma shard_update_order:
  fixes x :: "('c, 's) shard"
  shows "x\<lparr>sh_state := s, sh_queue := q\<rparr> = x\<lparr>sh_queue := q, sh_state := s\<rparr>"
    and "x\<lparr>sh_queue := q, sh_state := s, sh_status := t\<rparr> = \<lparr>sh_queue = q, sh_state = s, sh_status = t\<rparr>"
  by (cases x, simp)+

lemma shard_update_same:
  fixes xs :: "('c, 's) shard list"
  assumes "sh_queue (xs ! i) = q" "sh_state (xs ! i) = s"
  shows "xs[i := (xs ! i)\<lparr>sh_queue := q, sh_state := s\<rparr>] = xs"
proof -
  have "(xs ! i)\<lparr>sh_queue := q, sh_state := s\<rparr> = xs ! i" using assms by (cases "xs ! i") simp
  then show ?thesis by simp
qed

text \<open>Waiting for a reply runs through the commands in front of it.\<close>

lemma await_reply_skip:
  assumes "ss_inv svc initial ss" "i < length (ss_shards ss)"
    and "sh_status (ss_shards ss ! i) = ShardRunning"
    and "sh_queue (ss_shards ss ! i) = commands pre @ (c, n) # post"
    and "svc_run svc (map fst pre) (sh_state (ss_shards ss ! i)) = Some (rs, s')"
  shows "\<exists>ss'. await_reply svc i n (length pre + fuel) ss = await_reply svc i n fuel ss' \<and> ss_inv svc initial ss' \<and>
    ss_shards ss' = (ss_shards ss)[i := (ss_shards ss ! i)\<lparr>sh_queue := (c, n) # post, sh_state := s'\<rparr>] \<and>
    ss_capacity ss' = ss_capacity ss"
  using assms
proof (induction pre arbitrary: ss rs)
  case Nil
  then show ?case by (intro exI [of _ ss]) (simp add: shard_update_same)
next
  case (Cons x pre)
  obtain d m where x: "x = (d, m)" by (cases x)
  let ?ss = "shard_step svc i ss"
  have q: "sh_queue (ss_shards ss ! i) = (Command d, m) # commands pre @ (c, n) # post"
    using Cons.prems(4) by (simp add: x)
  from Cons.prems(5) obtain r s rs' where r: "svc d (sh_state (ss_shards ss ! i)) = Some (r, s)"
      "svc_run svc (map fst pre) s = Some (rs', s')"
    by (auto simp: x split: option.splits)
  note f = shard_step_execute [where svc = svc, OF Cons.prems(3) q r(1)]
  have "reply_try_wait (ss_replies ss ! n) = (Inr None, ss_replies ss ! n)"
    by (rule queued_cell [OF Cons.prems(1,2), of c]) (simp add: q)
  then have "await_reply svc i n (length (x # pre) + fuel) ss = await_reply svc i n (length pre + fuel) ?ss"
    by (subst await_reply.simps) simp
  moreover have "\<exists>ss'. await_reply svc i n (length pre + fuel) ?ss = await_reply svc i n fuel ss' \<and>
    ss_inv svc initial ss' \<and>
    ss_shards ss' = (ss_shards ?ss)[i := (ss_shards ?ss ! i)\<lparr>sh_queue := (c, n) # post, sh_state := s'\<rparr>] \<and>
    ss_capacity ss' = ss_capacity ?ss"
    using Cons.IH [OF ss_inv_step [OF Cons.prems(1,2)], of rs'] Cons.prems(2,3) r(2) by (simp add: f)
  ultimately show ?case using f Cons.prems(2) by auto
qed

lemma await_reply_head:
  assumes "ss_inv svc initial ss" "i < length (ss_shards ss)"
    and "sh_queue (ss_shards ss ! i) = (c, n) # q"
    and "ss_replies (shard_step svc i ss) = reply_to n a (ss_replies ss)"
  shows "\<exists>ss'. await_reply svc i n (Suc 0) ss = (Some (Inr a), ss') \<and> ss_inv svc initial ss' \<and>
    ss_shards ss' = ss_shards (shard_step svc i ss) \<and> ss_capacity ss' = ss_capacity (shard_step svc i ss)"
proof -
  let ?ss = "shard_step svc i ss"
  note h = ss_inv_headD [OF assms(1-3)]
  let ?ss' = "?ss\<lparr>ss_replies := (ss_replies ?ss)[n := snd (reply_try_wait (ss_replies ?ss ! n))]\<rparr>"
  have w: "reply_try_wait (ss_replies ss ! n) = (Inr None, ss_replies ss ! n)"
    using h by (simp add: reply_try_wait_def)
  have "rp_value (ss_replies ?ss ! n) = Some a" using h by (simp add: assms(4) reply_to_def reply_send_def)
  then have w': "reply_try_wait (ss_replies ?ss ! n) =
      (Inr (Some a), snd (reply_try_wait (ss_replies ?ss ! n)))"
    by (simp add: reply_try_wait_def)
  have "await_reply svc i n 0 ?ss = (Some (Inr a), ?ss')" by (subst await_reply.simps, subst w') simp
  moreover have "await_reply svc i n (Suc 0) ss = await_reply svc i n 0 ?ss"
    by (subst await_reply.simps) (simp add: w)
  moreover have "ss_inv svc initial ?ss'" by (rule ss_inv_take [OF ss_inv_step [OF assms(1,2)]])
  ultimately show ?thesis by (intro exI [of _ ?ss']) simp
qed

text \<open>Making room and pushing a command behind the ones that are queued.\<close>

lemma make_room_push:
  assumes "ss_inv svc initial ss" "i < length (ss_shards ss)" "0 < ss_capacity ss"
    and "sh_status (ss_shards ss ! i) = ShardRunning"
    and "sh_queue (ss_shards ss ! i) = commands pre"
    and "svc_run svc (map fst pre) (sh_state (ss_shards ss ! i)) = Some (rs, s')"
  shows "\<exists>ss1 pre' rs' s1. make_room svc i ss = ss1 \<and> mailbox_alive i ss1 \<and> \<not> mailbox_full i ss1 \<and>
    ss_inv svc initial ss1 \<and> svc_run svc (map fst pre') s1 = Some (rs', s') \<and>
    ss_shards ss1 = (ss_shards ss)[i := (ss_shards ss ! i)\<lparr>sh_queue := commands pre', sh_state := s1\<rparr>] \<and>
    ss_capacity ss1 = ss_capacity ss"
proof (cases "mailbox_full i ss")
  case False
  then show ?thesis
    using assms shard_update_same [OF assms(5) refl]
    by (intro exI [of _ ss] exI [of _ pre] exI [of _ rs] exI [of _ "sh_state (ss_shards ss ! i)"])
      (simp add: make_room_def mailbox_alive_def)
next
  case True
  then obtain d m pre' where pre: "pre = (d, m) # pre'"
    using assms(3,5) by (cases pre) (auto simp: mailbox_full_def)
  from assms(6) obtain r s rs' where r: "svc d (sh_state (ss_shards ss ! i)) = Some (r, s)"
      "svc_run svc (map fst pre') s = Some (rs', s')"
    by (auto simp: pre split: option.splits)
  note f = shard_step_execute [where svc = svc, OF assms(4) assms(5) [unfolded pre commands_simps] r(1)]
  have "length (sh_queue (ss_shards ss ! i)) \<le> ss_capacity ss"
    using assms(1,2) by (simp add: ss_inv_def shard_ok_def Let_def)
  then show ?thesis
    using True assms(2,4,5) f r(2) ss_inv_step [OF assms(1,2)]
    by (intro exI [of _ "shard_step svc i ss"] exI [of _ pre'] exI [of _ rs'] exI [of _ s])
      (simp add: make_room_def mailbox_alive_def mailbox_full_def pre)
qed

lemma push_and_wait:
  assumes "ss_inv svc initial ss" "i < length (ss_shards ss)" "0 < ss_capacity ss"
    and "sh_status (ss_shards ss ! i) = ShardRunning"
    and "sh_queue (ss_shards ss ! i) = commands pre"
    and "svc_run svc (map fst pre) (sh_state (ss_shards ss ! i)) = Some (rs, s1)"
  shows "\<exists>ss2 n. mailbox_alive i (make_room svc i ss) \<and> n = length (ss_replies (make_room svc i ss)) \<and>
    wait_reply svc i n (mailbox_push i c (make_room svc i ss)) = await_reply svc i n (Suc 0) ss2 \<and>
    ss_inv svc initial ss2 \<and> ss_capacity ss2 = ss_capacity ss \<and>
    ss_shards ss2 = (ss_shards ss)[i := (ss_shards ss ! i)\<lparr>sh_queue := [(c, n)], sh_state := s1\<rparr>]"
proof -
  obtain ss1 pre' rs' s0 where m: "make_room svc i ss = ss1" "mailbox_alive i ss1" "\<not> mailbox_full i ss1"
      "ss_inv svc initial ss1" "svc_run svc (map fst pre') s0 = Some (rs', s1)"
      "ss_shards ss1 = (ss_shards ss)[i := (ss_shards ss ! i)\<lparr>sh_queue := commands pre', sh_state := s0\<rparr>]"
      "ss_capacity ss1 = ss_capacity ss"
    using make_room_push [OF assms] by blast
  let ?n = "length (ss_replies ss1)" and ?p = "mailbox_push i c ss1"
  let ?sh = "(ss_shards ss ! i)\<lparr>sh_queue := commands pre' @ [(c, ?n)], sh_state := s0\<rparr>"
  have i: "i < length (ss_shards ss1)" using assms(2) m(6) by simp
  have p: "ss_inv svc initial ?p" by (rule ss_inv_push [OF m(4) i m(2,3)])
  have shs: "ss_shards ?p = (ss_shards ss)[i := ?sh]" "ss_capacity ?p = ss_capacity ss"
    using assms(2) m(7) by (simp_all add: mailbox_push_def Let_def m(6) shard_update_order)
  have sh: "ss_shards ?p ! i = ?sh" using assms(2) by (simp add: shs)
  have "\<exists>ss2. await_reply svc i ?n (length pre' + Suc 0) ?p = await_reply svc i ?n (Suc 0) ss2 \<and>
      ss_inv svc initial ss2 \<and>
      ss_shards ss2 = (ss_shards ?p)[i := (ss_shards ?p ! i)\<lparr>sh_queue := [(c, ?n)], sh_state := s1\<rparr>] \<and>
      ss_capacity ss2 = ss_capacity ?p"
    using m(5) assms(2,4) by (intro await_reply_skip [OF p]) (simp_all add: sh shs)
  then obtain ss2 where "await_reply svc i ?n (length pre' + Suc 0) ?p = await_reply svc i ?n (Suc 0) ss2"
      "ss_inv svc initial ss2" "ss_capacity ss2 = ss_capacity ss"
      "ss_shards ss2 = (ss_shards ss)[i := (ss_shards ss ! i)\<lparr>sh_queue := [(c, ?n)], sh_state := s1\<rparr>]"
    using assms(2) by (auto simp: sh shs)
  moreover have "wait_reply svc i ?n ?p = await_reply svc i ?n (length pre' + Suc 0) ?p"
    by (simp add: wait_reply_def sh)
  ultimately show ?thesis using m(1,2) by auto
qed

lemma blocking_call_answer:
  assumes "ss_inv svc initial ss" "i < length (ss_shards ss)" "0 < ss_capacity ss"
    and "sh_status (ss_shards ss ! i) = ShardRunning"
    and "sh_queue (ss_shards ss ! i) = commands pre"
    and "svc_run svc (map fst pre) (sh_state (ss_shards ss ! i)) = Some (rs, s1)"
    and "svc d s1 = Some (r, s')"
  shows "\<exists>ss'. blocking_call svc i d ss = (Some (Inr (Answer r)), ss') \<and> ss_inv svc initial ss' \<and>
    ss_shards ss' = (ss_shards ss)[i := (ss_shards ss ! i)\<lparr>sh_queue := [], sh_state := s'\<rparr>] \<and>
    ss_capacity ss' = ss_capacity ss"
proof -
  obtain ss2 n where w: "mailbox_alive i (make_room svc i ss)" "n = length (ss_replies (make_room svc i ss))"
      "wait_reply svc i n (mailbox_push i (Command d) (make_room svc i ss)) = await_reply svc i n (Suc 0) ss2"
      "ss_inv svc initial ss2" "ss_capacity ss2 = ss_capacity ss"
      "ss_shards ss2 = (ss_shards ss)[i := (ss_shards ss ! i)\<lparr>sh_queue := [(Command d, n)], sh_state := s1\<rparr>]"
    using push_and_wait [OF assms(1-6)] by blast
  have i: "i < length (ss_shards ss2)" using assms(2) w(6) by simp
  have q: "sh_status (ss_shards ss2 ! i) = ShardRunning" "sh_queue (ss_shards ss2 ! i) = [(Command d, n)]"
      "svc d (sh_state (ss_shards ss2 ! i)) = Some (r, s')"
    using assms(2,4,7) by (simp_all add: w(6))
  note f = shard_step_execute [where svc = svc, OF q]
  obtain ss' where "await_reply svc i n (Suc 0) ss2 = (Some (Inr (Answer r)), ss')" "ss_inv svc initial ss'"
      "ss_shards ss' = ss_shards (shard_step svc i ss2)" "ss_capacity ss' = ss_capacity (shard_step svc i ss2)"
    using await_reply_head [OF w(4) i q(2) f(3)] by blast
  then show ?thesis
    using w(1-3,5) f(1,2) assms(2) by (simp add: blocking_call_def request_def Let_def w(6))
qed

lemma stop_one_ok:
  assumes "ss_inv svc initial ss" "i < length (ss_shards ss)" "0 < ss_capacity ss"
    and "sh_status (ss_shards ss ! i) = ShardRunning"
    and "sh_queue (ss_shards ss ! i) = commands pre"
    and "svc_run svc (map fst pre) (sh_state (ss_shards ss ! i)) = Some (rs, s1)"
  shows "\<exists>ss'. stop_one svc i ss = (Inr (), ss') \<and> ss_inv svc initial ss' \<and>
    ss_shards ss' = (ss_shards ss)[i := \<lparr>sh_queue = [], sh_state = s1, sh_status = ShardExited\<rparr>] \<and>
    ss_capacity ss' = ss_capacity ss"
proof -
  obtain ss2 n where w: "mailbox_alive i (make_room svc i ss)" "n = length (ss_replies (make_room svc i ss))"
      "wait_reply svc i n (mailbox_push i StopCommand (make_room svc i ss)) = await_reply svc i n (Suc 0) ss2"
      "ss_inv svc initial ss2" "ss_capacity ss2 = ss_capacity ss"
      "ss_shards ss2 = (ss_shards ss)[i := (ss_shards ss ! i)\<lparr>sh_queue := [(StopCommand, n)], sh_state := s1\<rparr>]"
    using push_and_wait [OF assms] by blast
  have i: "i < length (ss_shards ss2)" using assms(2) w(6) by simp
  have q: "sh_status (ss_shards ss2 ! i) = ShardRunning" "sh_queue (ss_shards ss2 ! i) = [(StopCommand, n)]"
    using assms(2,4) by (simp_all add: w(6))
  note f = shard_step_stop [where svc = svc, OF q]
  obtain ss' where "await_reply svc i n (Suc 0) ss2 = (Some (Inr Stopped), ss')" "ss_inv svc initial ss'"
      "ss_shards ss' = ss_shards (shard_step svc i ss2)" "ss_capacity ss' = ss_capacity (shard_step svc i ss2)"
    using await_reply_head [OF w(4) i q(2) f(3)] by blast
  then show ?thesis
    using w(1-3,5) f(1,2) assms(2) by (simp add: stop_one_def request_stop_def Let_def w(6) shard_update_order)
qed

subsection \<open>Aggregate calls on an idle set\<close>

lemma request_idle:
  assumes "ss_inv svc initial ss" "i < length (ss_shards ss)" "0 < ss_capacity ss"
    and "ss_shards ss ! i = \<lparr>sh_queue = [], sh_state = s, sh_status = ShardRunning\<rparr>"
  shows "\<exists>n ss'. request svc i c ss = (Inr n, ss') \<and> ss_inv svc initial ss' \<and>
    ss_capacity ss' = ss_capacity ss \<and>
    ss_shards ss' = (ss_shards ss)[i := \<lparr>sh_queue = [(Command c, n)], sh_state = s, sh_status = ShardRunning\<rparr>]"
proof -
  have m: "mailbox_alive i ss" "\<not> mailbox_full i ss" "make_room svc i ss = ss"
    using assms(3,4) by (simp_all add: mailbox_alive_def mailbox_full_def make_room_def)
  then show ?thesis
    using ss_inv_push [OF assms(1,2) m(1,2), of "Command c"] assms(4)
    by (simp add: request_def mailbox_push_def Let_def)
qed

lemma request_all_idle:
  assumes "ss_inv svc initial ss" "0 < ss_capacity ss" "distinct is"
    and "\<forall>i\<in>set is. i < length (ss_shards ss) \<and>
      ss_shards ss ! i = \<lparr>sh_queue = [], sh_state = st i, sh_status = ShardRunning\<rparr>"
  shows "\<exists>ns ss'. request_all (\<lambda>i. request svc i c) is ss = (Inr ns, ss') \<and> length ns = length is \<and>
    ss_inv svc initial ss' \<and> ss_capacity ss' = ss_capacity ss \<and>
    length (ss_shards ss') = length (ss_shards ss) \<and>
    (\<forall>(i, n)\<in>set (zip is ns). ss_shards ss' ! i =
       \<lparr>sh_queue = [(Command c, n)], sh_state = st i, sh_status = ShardRunning\<rparr>) \<and>
    (\<forall>i. i \<notin> set is \<longrightarrow> ss_shards ss' ! i = ss_shards ss ! i)"
  using assms
proof (induction "is" arbitrary: ss)
  case (Cons i "is")
  have i: "i < length (ss_shards ss)" "ss_shards ss ! i = \<lparr>sh_queue = [], sh_state = st i, sh_status = ShardRunning\<rparr>"
    using Cons.prems(4) by simp_all
  obtain n ss1 where r: "request svc i c ss = (Inr n, ss1)" "ss_inv svc initial ss1"
      "ss_capacity ss1 = ss_capacity ss"
      "ss_shards ss1 = (ss_shards ss)[i := \<lparr>sh_queue = [(Command c, n)], sh_state = st i, sh_status = ShardRunning\<rparr>]"
    using request_idle [OF Cons.prems(1) i(1) Cons.prems(2) i(2), of c] by blast
  have nth: "ss_shards ss1 ! j = ss_shards ss ! j" if "j \<noteq> i" for j using that by (simp add: r(4))
  have "\<exists>ns ss'. request_all (\<lambda>i. request svc i c) is ss1 = (Inr ns, ss') \<and> length ns = length is \<and>
    ss_inv svc initial ss' \<and> ss_capacity ss' = ss_capacity ss1 \<and>
    length (ss_shards ss') = length (ss_shards ss1) \<and>
    (\<forall>(i, n)\<in>set (zip is ns). ss_shards ss' ! i =
       \<lparr>sh_queue = [(Command c, n)], sh_state = st i, sh_status = ShardRunning\<rparr>) \<and>
    (\<forall>i. i \<notin> set is \<longrightarrow> ss_shards ss' ! i = ss_shards ss1 ! i)"
    using Cons.prems r(2,3) by (intro Cons.IH) (auto simp: r(4) nth_list_update)
  then obtain ns ss' where f: "request_all (\<lambda>i. request svc i c) is ss1 = (Inr ns, ss')" "length ns = length is"
      "ss_inv svc initial ss'" "ss_capacity ss' = ss_capacity ss1" "length (ss_shards ss') = length (ss_shards ss1)"
      "\<forall>(i, n)\<in>set (zip is ns). ss_shards ss' ! i =
         \<lparr>sh_queue = [(Command c, n)], sh_state = st i, sh_status = ShardRunning\<rparr>"
      "\<forall>i. i \<notin> set is \<longrightarrow> ss_shards ss' ! i = ss_shards ss1 ! i"
    by blast
  have "ss_shards ss' ! i = \<lparr>sh_queue = [(Command c, n)], sh_state = st i, sh_status = ShardRunning\<rparr>"
    using f(7) Cons.prems(3) i(1) by (simp add: r(4))
  then show ?case
    using f r(1,3) nth by (intro exI [of _ "n # ns"] exI [of _ ss']) (auto simp: r(4))
qed simp

lemma wait_reply_asked:
  assumes "ss_inv svc initial ss" "i < length (ss_shards ss)"
    and "ss_shards ss ! i = \<lparr>sh_queue = [(Command c, n)], sh_state = s, sh_status = ShardRunning\<rparr>"
    and "svc c s = Some (r, s')"
  shows "\<exists>ss'. wait_reply svc i n ss = (Some (Inr (Answer r)), ss') \<and> ss_inv svc initial ss' \<and>
    ss_capacity ss' = ss_capacity ss \<and>
    ss_shards ss' = (ss_shards ss)[i := \<lparr>sh_queue = [], sh_state = s', sh_status = ShardRunning\<rparr>]"
proof -
  have q: "sh_status (ss_shards ss ! i) = ShardRunning" "sh_queue (ss_shards ss ! i) = [(Command c, n)]"
      "svc c (sh_state (ss_shards ss ! i)) = Some (r, s')"
    using assms(3,4) by simp_all
  note f = shard_step_execute [where svc = svc, OF q]
  show ?thesis
    using await_reply_head [OF assms(1,2) q(2) f(3)] f(1,2) assms(3) by (auto simp: wait_reply_def)
qed

lemma wait_all_asked:
  assumes "ss_inv svc initial ss" "distinct (map fst hs)"
    and "\<forall>(i, n)\<in>set hs. i < length (ss_shards ss) \<and>
      ss_shards ss ! i = \<lparr>sh_queue = [(Command c, n)], sh_state = st i, sh_status = ShardRunning\<rparr> \<and>
      svc c (st i) = Some (r i, st i)"
  shows "\<exists>ss'. wait_all svc hs ss = (Some (Inr (map (\<lambda>h. Answer (r (fst h))) hs)), ss') \<and>
    ss_inv svc initial ss' \<and> ss_capacity ss' = ss_capacity ss \<and>
    length (ss_shards ss') = length (ss_shards ss) \<and>
    (\<forall>j. ss_shards ss' ! j = (if j \<in> fst ` set hs
       then \<lparr>sh_queue = [], sh_state = st j, sh_status = ShardRunning\<rparr> else ss_shards ss ! j))"
  using assms
proof (induction hs arbitrary: ss)
  case (Cons h hs)
  obtain i n where h: "h = (i, n)" by (cases h)
  have i: "i < length (ss_shards ss)"
      "ss_shards ss ! i = \<lparr>sh_queue = [(Command c, n)], sh_state = st i, sh_status = ShardRunning\<rparr>"
      "svc c (st i) = Some (r i, st i)"
    using Cons.prems(3) by (simp_all add: h)
  obtain ss1 where w: "wait_reply svc i n ss = (Some (Inr (Answer (r i))), ss1)" "ss_inv svc initial ss1"
      "ss_capacity ss1 = ss_capacity ss"
      "ss_shards ss1 = (ss_shards ss)[i := \<lparr>sh_queue = [], sh_state = st i, sh_status = ShardRunning\<rparr>]"
    using wait_reply_asked [OF Cons.prems(1) i] by blast
  have "\<forall>(j, m)\<in>set hs. j < length (ss_shards ss1) \<and>
      ss_shards ss1 ! j = \<lparr>sh_queue = [(Command c, m)], sh_state = st j, sh_status = ShardRunning\<rparr> \<and>
      svc c (st j) = Some (r j, st j)"
  proof (rule ballI, clarify)
    fix j m assume jm: "(j, m) \<in> set hs"
    then have "j \<noteq> i" using Cons.prems(2) h by (auto simp: image_iff)
    then show "j < length (ss_shards ss1) \<and>
      ss_shards ss1 ! j = \<lparr>sh_queue = [(Command c, m)], sh_state = st j, sh_status = ShardRunning\<rparr> \<and>
      svc c (st j) = Some (r j, st j)"
      using Cons.prems(3) jm by (auto simp: w(4))
  qed
  then obtain ss' where f: "wait_all svc hs ss1 = (Some (Inr (map (\<lambda>h. Answer (r (fst h))) hs)), ss')"
      "ss_inv svc initial ss'" "ss_capacity ss' = ss_capacity ss1"
      "length (ss_shards ss') = length (ss_shards ss1)"
      "\<forall>j. ss_shards ss' ! j = (if j \<in> fst ` set hs
       then \<lparr>sh_queue = [], sh_state = st j, sh_status = ShardRunning\<rparr> else ss_shards ss1 ! j)"
    using Cons.IH [of ss1] w(2) Cons.prems(2) by auto
  have "ss_shards ss' ! j = (if j \<in> fst ` set (h # hs)
       then \<lparr>sh_queue = [], sh_state = st j, sh_status = ShardRunning\<rparr> else ss_shards ss ! j)" for j
    using f(5) [rule_format, of j] i(1) by (cases "j = i") (auto simp: h w(4))
  then show ?case using f w(1,3,4) h by auto
qed simp

text \<open>A read-only command sent to all shards of an idle set, with the replies awaited in
  order.\<close>

lemma broadcast_idle:
  assumes "ss_inv svc initial ss" "0 < ss_capacity ss"
    and "\<forall>i<length (ss_shards ss). \<exists>s. ss_shards ss ! i = \<lparr>sh_queue = [], sh_state = s, sh_status = ShardRunning\<rparr> \<and>
      svc c s = Some (r i, s)"
  shows "\<exists>ns ss1 ss2. request_all (\<lambda>i. request svc i c) [0..<length (ss_shards ss)] ss = (Inr ns, ss1) \<and>
    length ns = length (ss_shards ss) \<and>
    wait_all svc (zip [0..<length (ss_shards ss)] ns) ss1 =
      (Some (Inr (map (\<lambda>i. Answer (r i)) [0..<length (ss_shards ss)])), ss2) \<and>
    ss_inv svc initial ss2 \<and> ss_capacity ss2 = ss_capacity ss \<and> ss_shards ss2 = ss_shards ss"
proof -
  let ?n = "length (ss_shards ss)"
  define st where "st i = sh_state (ss_shards ss ! i)" for i
  have st: "ss_shards ss ! i = \<lparr>sh_queue = [], sh_state = st i, sh_status = ShardRunning\<rparr>"
      "svc c (st i) = Some (r i, st i)" if "i < ?n" for i
    using assms(3) that by (auto simp: st_def)
  obtain ns ss1 where q: "request_all (\<lambda>i. request svc i c) [0..<?n] ss = (Inr ns, ss1)" "length ns = ?n"
      "ss_inv svc initial ss1" "ss_capacity ss1 = ss_capacity ss" "length (ss_shards ss1) = ?n"
      "\<forall>(i, n)\<in>set (zip [0..<?n] ns). ss_shards ss1 ! i =
         \<lparr>sh_queue = [(Command c, n)], sh_state = st i, sh_status = ShardRunning\<rparr>"
    using request_all_idle [OF assms(1,2), of "[0..<?n]" st c] st(1) by auto
  let ?hs = "zip [0..<?n] ns"
  have fst: "map fst ?hs = [0..<?n]" using q(2) by simp
  then have fi: "fst ` set ?hs = {0..<?n}" by (metis list.set_map set_upt)
  have "\<forall>(i, n)\<in>set ?hs. i < length (ss_shards ss1) \<and>
      ss_shards ss1 ! i = \<lparr>sh_queue = [(Command c, n)], sh_state = st i, sh_status = ShardRunning\<rparr> \<and>
      svc c (st i) = Some (r i, st i)"
    using q(5,6) st(2) by (auto dest: set_zip_leftD)
  then obtain ss2 where w: "wait_all svc ?hs ss1 = (Some (Inr (map (\<lambda>h. Answer (r (fst h))) ?hs)), ss2)"
      "ss_inv svc initial ss2" "ss_capacity ss2 = ss_capacity ss1" "length (ss_shards ss2) = ?n"
      "\<forall>j. ss_shards ss2 ! j = (if j \<in> fst ` set ?hs
       then \<lparr>sh_queue = [], sh_state = st j, sh_status = ShardRunning\<rparr> else ss_shards ss1 ! j)"
    using wait_all_asked [OF q(3), of ?hs c st r] fst q(5) by auto
  have "map (\<lambda>h. Answer (r (fst h))) ?hs = map (\<lambda>i. Answer (r i)) [0..<?n]"
    using arg_cong [OF fst, of "map (\<lambda>i. Answer (r i))"] by (simp add: comp_def)
  moreover have "ss_shards ss2 = ss_shards ss"
    using w(4,5) st(1) fi by (intro nth_equalityI) simp_all
  ultimately show ?thesis using q w by auto
qed

subsection \<open>Shutdown\<close>

lemma svc_total_run: "svc_total svc \<Longrightarrow> \<exists>rs s'. svc_run svc cs s = Some (rs, s')"
proof (induction cs arbitrary: s)
  case (Cons c cs)
  obtain r s1 where "svc c s = Some (r, s1)"
    using Cons.prems unfolding svc_total_def by (metis not_None_eq surj_pair)
  then show ?case using Cons.IH [OF Cons.prems, of s1] by auto
qed simp

lemma stop_all_ok:
  assumes "svc_total svc" "0 < ss_capacity ss" "ss_inv svc initial ss" "distinct is"
    and "\<forall>i\<in>set is. i < length (ss_shards ss) \<and> sh_status (ss_shards ss ! i) = ShardRunning \<and>
      (\<exists>pre. sh_queue (ss_shards ss ! i) = commands pre)"
  shows "\<exists>ss'. stop_all svc is res ss = (res, ss') \<and> ss_inv svc initial ss' \<and>
    length (ss_shards ss') = length (ss_shards ss) \<and>
    (\<forall>i<length (ss_shards ss). if i \<in> set is then drained_shard svc (ss_shards ss ! i) (ss_shards ss' ! i)
       else ss_shards ss' ! i = ss_shards ss ! i)"
  using assms(2-)
proof (induction "is" arbitrary: ss)
  case (Cons i "is")
  obtain pre where i: "i < length (ss_shards ss)" "sh_status (ss_shards ss ! i) = ShardRunning"
      "sh_queue (ss_shards ss ! i) = commands pre"
    using Cons.prems(4) by auto
  obtain rs s1 where r: "svc_run svc (map fst pre) (sh_state (ss_shards ss ! i)) = Some (rs, s1)"
    using svc_total_run [OF assms(1)] by blast
  let ?sh = "\<lparr>sh_queue = [], sh_state = s1, sh_status = ShardExited\<rparr>"
  obtain ss1 where s1: "stop_one svc i ss = (Inr (), ss1)" "ss_inv svc initial ss1"
      "ss_shards ss1 = (ss_shards ss)[i := ?sh]" "ss_capacity ss1 = ss_capacity ss"
    using stop_one_ok [OF Cons.prems(2) i(1) Cons.prems(1) i(2,3) r] by blast
  have "\<forall>j\<in>set is. j < length (ss_shards ss1) \<and> sh_status (ss_shards ss1 ! j) = ShardRunning \<and>
      (\<exists>pre. sh_queue (ss_shards ss1 ! j) = commands pre)"
    using Cons.prems(3,4) by (auto simp: s1(3) nth_list_update)
  then obtain ss' where f: "stop_all svc is res ss1 = (res, ss')" "ss_inv svc initial ss'"
      "length (ss_shards ss') = length (ss_shards ss1)"
      "\<forall>j<length (ss_shards ss1). if j \<in> set is then drained_shard svc (ss_shards ss1 ! j) (ss_shards ss' ! j)
         else ss_shards ss' ! j = ss_shards ss1 ! j"
    using Cons.IH [of ss1] Cons.prems(1,3) s1(2,4) by auto
  have "drained_shard svc (ss_shards ss ! i) ?sh" using i(3) r by (auto simp: drained_shard_def)
  moreover have "if j \<in> set (i # is) then drained_shard svc (ss_shards ss ! j) (ss_shards ss' ! j)
       else ss_shards ss' ! j = ss_shards ss ! j" if "j < length (ss_shards ss)"
      and d: "drained_shard svc (ss_shards ss ! i) ?sh" for j
  proof -
    have nth: "ss_shards ss1 ! j = (if j = i then ?sh else ss_shards ss ! j)"
        "length (ss_shards ss1) = length (ss_shards ss)"
      using that(1) by (simp_all add: s1(3) nth_list_update)
    show ?thesis using f(4) [rule_format, of j] that Cons.prems(3) unfolding nth by (cases "j = i") auto
  qed
  ultimately show ?case using f s1 by auto
qed simp

lemma length_shards_step: "length (ss_shards (shard_step svc i ss)) = length (ss_shards ss)"
  by (auto simp: shard_step_def Let_def split: shard_status.splits list.splits prod.splits
      shard_cmd.splits option.splits)

lemma length_shards_event: "length (ss_shards (on_event svc ev ss)) = length (ss_shards ss)"
  by (cases ev) (simp_all add: length_shards_step try_request_def mailbox_push_def Let_def)

lemma length_shards_events:
  "length (ss_shards (fold (on_event svc) evs ss)) = length (ss_shards ss)"
  by (induction evs arbitrary: ss) (simp_all add: length_shards_event)

lemma capacity_event: "ss_capacity (on_event svc ev ss) = ss_capacity ss"
  by (cases ev) (auto simp: try_request_def mailbox_push_def Let_def shard_step_def
      split: shard_status.splits list.splits prod.splits shard_cmd.splits option.splits)

lemma capacity_events: "ss_capacity (fold (on_event svc) evs ss) = ss_capacity ss"
  by (induction evs arbitrary: ss) (simp_all add: capacity_event)

lemma ss_inv_history: "ss_inv svc initial (shard_history svc initial n cap evs)"
  unfolding shard_history_def by (intro ss_inv_events ss_inv_start)

lemma history_shape:
  "length (ss_shards (shard_history svc initial n cap evs)) = n"
  "ss_capacity (shard_history svc initial n cap evs) = cap"
  by (simp_all add: shard_history_def length_shards_events capacity_events)
    (simp_all add: shard_set_start_def)

lemma stop_and_join_ok:
  assumes "svc_total svc" "0 < ss_capacity ss" "ss_inv svc initial ss" "all_serving ss"
  shows "\<exists>ss'. stop_and_join svc ss = (Inr (), ss') \<and> length (ss_shards ss') = length (ss_shards ss) \<and>
    (\<forall>i<length (ss_shards ss). drained_shard svc (ss_shards ss ! i) (ss_shards ss' ! i))"
proof -
  have "\<forall>i\<in>set [0..<length (ss_shards ss)]. i < length (ss_shards ss) \<and>
      sh_status (ss_shards ss ! i) = ShardRunning \<and> (\<exists>pre. sh_queue (ss_shards ss ! i) = commands pre)"
    using assms(4) by (simp add: all_serving_def)
  then obtain ss' where s: "stop_all svc [0..<length (ss_shards ss)] (Inr ()) ss = (Inr (), ss')"
      "length (ss_shards ss') = length (ss_shards ss)"
      "\<forall>i<length (ss_shards ss). drained_shard svc (ss_shards ss ! i) (ss_shards ss' ! i)"
    using stop_all_ok [OF assms(1-3), of "[0..<length (ss_shards ss)]" "Inr ()"] by auto
  then have "join_all ss' = Inr ()"
    by (auto simp: join_all_def in_set_conv_nth drained_shard_def)
  with s show ?thesis by (simp add: stop_and_join_def)
qed

lemma all_serving_event:
  assumes "svc_total svc" "all_serving ss" "\<And>i. ev \<noteq> EvStop i"
  shows "all_serving (on_event svc ev ss)"
proof (cases ev)
  case (EvRequest i c)
  have push: "all_serving (mailbox_push i (Command c) ss)" if "i < length (ss_shards ss)"
  proof -
    have "sh_status (ss_shards ss ! i) = ShardRunning" "\<exists>pre. sh_queue (ss_shards ss ! i) = commands pre"
      using assms(2) that by (simp_all add: all_serving_def)
    moreover have "\<exists>pre'. commands pre @ [(Command c, m)] = commands pre'" for pre m
      by (rule exI [of _ "pre @ [(c, m)]"]) (simp add: commands_def)
    ultimately show ?thesis
      using assms(2) by (auto simp: all_serving_def mailbox_push_def Let_def dest!: set_update_subset_insert [THEN subsetD])
  qed
  then show ?thesis using EvRequest assms(2) by (auto simp: try_request_def)
next
  case (EvStep i)
  show ?thesis
  proof (cases "i < length (ss_shards ss) \<and> sh_queue (ss_shards ss ! i) \<noteq> []")
    case True
    then have run: "sh_status (ss_shards ss ! i) = ShardRunning"
      using assms(2) by (simp add: all_serving_def)
    obtain pre where pre: "sh_queue (ss_shards ss ! i) = commands pre"
      using assms(2) True unfolding all_serving_def by (meson nth_mem)
    obtain c n q where q: "pre = (c, n) # q" using pre True by (cases pre) auto
    obtain r s where r: "svc c (sh_state (ss_shards ss ! i)) = Some (r, s)"
      using assms(1) unfolding svc_total_def by fastforce
    have "ss_shards (shard_step svc i ss) =
        (ss_shards ss)[i := (ss_shards ss ! i)\<lparr>sh_queue := commands q, sh_state := s\<rparr>]"
      using shard_step_execute(1) [where svc = svc, OF run _ r] pre q by simp
    then have "all_serving (shard_step svc i ss)"
      using assms(2) run by (auto simp: all_serving_def dest!: set_update_subset_insert [THEN subsetD])
    then show ?thesis using EvStep True by simp
  next
    case False
    then have "on_event svc ev ss = ss"
      using EvStep by (auto simp: shard_step_def Let_def split: shard_status.splits)
    then show ?thesis using assms(2) by simp
  qed
qed (use assms in \<open>auto simp: all_serving_def\<close>)

lemma all_serving_events:
  "svc_total svc \<Longrightarrow> all_serving ss \<Longrightarrow> \<forall>ev\<in>set evs. \<forall>i. ev \<noteq> EvStop i \<Longrightarrow> all_serving (fold (on_event svc) evs ss)"
  by (induction evs arbitrary: ss) (simp_all add: all_serving_event)

subsection \<open>Properties\<close>

text \<open>C17: every shard behaves as a sequential object.  Whatever the interleaving of
  requests, stop requests, shard steps and reply receptions, for each shard the answers logged are
  those of executing its commands one after the other from the initial state, the commands executed
  are a prefix of those accepted, in order of acceptance (all of them but the queued ones while the
  thread runs), no mailbox exceeds its capacity, and a value in a reply cell is the logged answer of
  that very command.\<close>

theorem shards_sequential:
  "let ss = shard_history svc initial n cap evs in
    (\<forall>i<n. let sh = ss_shards ss ! i in
       svc_run svc (map (\<lambda>(_, c, _, _). c) (log_of i ss)) (initial i) =
         Some (map (\<lambda>(_, _, _, r). r) (log_of i ss), sh_state sh) \<and>
       (\<exists>q. sent_to i ss = executed_on i ss @ q \<and>
          (sh_status sh = ShardRunning \<longrightarrow> sh_queue sh = q)) \<and>
       length (sh_queue sh) \<le> cap) \<and>
    (\<forall>m<length (ss_replies ss). \<forall>a. rp_value (ss_replies ss ! m) = Some (Answer a) \<longrightarrow>
       (\<exists>i c. (i, c, m, a) \<in> set (ss_log ss)))"
proof -
  let ?ss = "shard_history svc initial n cap evs"
  have inv: "ss_inv svc initial ?ss" by (rule ss_inv_history)
  have "\<forall>i<n. shard_ok svc initial i ?ss" using inv by (simp add: ss_inv_def history_shape)
  then have "\<forall>i<n. let sh = ss_shards ?ss ! i in
      svc_run svc (map (\<lambda>(_, c, _, _). c) (log_of i ?ss)) (initial i) =
        Some (map (\<lambda>(_, _, _, r). r) (log_of i ?ss), sh_state sh) \<and>
      (\<exists>q. sent_to i ?ss = executed_on i ?ss @ q \<and>
         (sh_status sh = ShardRunning \<longrightarrow> sh_queue sh = q)) \<and>
      length (sh_queue sh) \<le> cap"
    unfolding shard_ok_def Let_def history_shape by metis
  then show ?thesis using inv by (auto simp: ss_inv_def cell_ok_def Let_def)
qed

theorem shards_sequential_witness:
  "let ss = shard_history (\<lambda>c s. Some (s + c, s + c)) (\<lambda>_. 0 :: nat) 2 4
        [EvRequest 0 3, EvRequest 1 7, EvRequest 0 5, EvStep 0, EvStep 1, EvStep 0]
   in svc_run (\<lambda>c s. Some (s + c, s + c)) [3, 5] 0 = Some ([3, 8], sh_state (ss_shards ss ! 0)) \<and>
      rp_value (ss_replies ss ! 2) = Some (Answer 8)"
proof -
  let ?svc = "\<lambda>c s. Some (s + c, s + c) :: (nat \<times> nat) option"
  let ?ss = "shard_history ?svc (\<lambda>_. 0) 2 4
        [EvRequest 0 3, EvRequest 1 7, EvRequest 0 5, EvStep 0, EvStep 1, EvStep 0]"
  have "log_of 0 ?ss = [(0, 3, 0, 3), (0, 5, 2, 8)]" "rp_value (ss_replies ?ss ! 2) = Some (Answer 8)"
    by code_simp+
  moreover have "(0::nat) < 2" by simp
  ultimately show ?thesis
    using shards_sequential [of ?svc "\<lambda>_. 0" 2 4
        "[EvRequest 0 3, EvRequest 1 7, EvRequest 0 5, EvStep 0, EvStep 1, EvStep 0]"]
    unfolding Let_def by fastforce
qed

text \<open>Shutting a shard set down loses no accepted command.  If every thread runs and
  the service never panics, \<open>stop_and_join\<close> succeeds, every thread has exited, and the state of each
  shard is the one after executing all the commands that were queued, in order.\<close>

theorem shutdown_executes_accepted:
  assumes "svc_total svc" "0 < ss_capacity ss" "ss_inv svc initial ss" "all_serving ss"
  shows "\<exists>ss'. stop_and_join svc ss = (Inr (), ss') \<and> length (ss_shards ss') = length (ss_shards ss) \<and>
    (\<forall>i<length (ss_shards ss). drained_shard svc (ss_shards ss ! i) (ss_shards ss' ! i))"
  by (rule stop_and_join_ok [OF assms])

theorem shutdown_executes_accepted_witness:
  "let svc = (\<lambda>c s. Some (s + c, s + c));
       ss = shard_history svc (\<lambda>_. 0 :: nat) 2 4 [EvRequest 0 3, EvRequest 1 7, EvRequest 0 5]
   in \<exists>ss'. stop_and_join svc ss = (Inr (), ss') \<and> drained_shard svc (ss_shards ss ! 0) (ss_shards ss' ! 0)"
proof -
  let ?svc = "\<lambda>c s. Some (s + c, s + c) :: (nat \<times> nat) option"
  let ?ss = "shard_history ?svc (\<lambda>_. 0) 2 4 [EvRequest 0 3, EvRequest 1 7, EvRequest 0 5]"
  have "svc_total ?svc" by (simp add: svc_total_def)
  moreover have "ss_inv ?svc (\<lambda>_. 0) ?ss" by (rule ss_inv_history)
  moreover have "0 < ss_capacity ?ss" "0 < length (ss_shards ?ss)" by (simp_all add: history_shape)
  moreover have "all_serving ?ss"
  proof -
    have "ss_shards ?ss = [\<lparr>sh_queue = commands [(3, 0), (5, 2)], sh_state = 0, sh_status = ShardRunning\<rparr>,
        \<lparr>sh_queue = commands [(7, 1)], sh_state = 0, sh_status = ShardRunning\<rparr>]"
      by code_simp
    then show ?thesis by (auto simp: all_serving_def simp del: commands_simps)
  qed
  ultimately show ?thesis
    using shutdown_executes_accepted [of ?svc ?ss "\<lambda>_. 0"] unfolding Let_def by blast
qed

end
