(* ===== verification/Keyed_Service.thy ===== *)
theory Keyed_Service
  imports Shard_Set
begin

text \<open>
  Services whose state is partitioned over the shards of a \<open>Shard_Set\<close>: every key belongs to one
  shard, and a command is sent to the shard that owns its key.  The locale \<open>keyed_service\<close> is
  the interface between the runtime and such a service; its client lemma says that the sharded
  service is linearizable: in the order in which the commands were executed, all their answers are
  those of one sequential object over all keys.
\<close>

text \<open>The sequential object runs over the log of a shard set and checks every answer.\<close>

fun spec_run ::
  "(nat \<Rightarrow> 'c \<Rightarrow> ('k \<Rightarrow> 'v) \<Rightarrow> 'r \<times> ('k \<Rightarrow> 'v)) \<Rightarrow> (nat \<times> 'c \<times> nat \<times> 'r) list \<Rightarrow> ('k \<Rightarrow> 'v) \<Rightarrow>
   ('k \<Rightarrow> 'v) option" where
  "spec_run spec [] m = Some m"
| "spec_run spec ((i, c, _, r) # es) m =
     (let (r', m') = spec i c m in if r' = r then spec_run spec es m' else None)"

definition global_view ::
  "('k \<Rightarrow> nat) \<Rightarrow> ('s \<Rightarrow> 'k \<Rightarrow> 'v) \<Rightarrow> ('c, 's, 'r) shard_set \<Rightarrow> 'k \<Rightarrow> 'v" where
  "global_view place view ss k = view (sh_state (ss_shards ss ! place k)) k"

fun event_ok :: "(nat \<Rightarrow> 'c \<Rightarrow> bool) \<Rightarrow> 'c shard_event \<Rightarrow> bool" where
  "event_ok ok (EvRequest i c) = ok i c"
| "event_ok ok _ = True"

definition routed ::
  "(nat \<Rightarrow> 'c \<Rightarrow> bool) \<Rightarrow> (nat \<Rightarrow> 's \<Rightarrow> bool) \<Rightarrow> ('c, 's, 'r) shard_set \<Rightarrow> bool" where
  "routed ok valid ss \<longleftrightarrow>
     (\<forall>i<length (ss_shards ss). valid i (sh_state (ss_shards ss ! i)) \<and>
        (\<forall>c n. (Command c, n) \<in> set (sh_queue (ss_shards ss ! i)) \<longrightarrow> ok i c))"

lemma routedD:
  "routed ok valid ss \<Longrightarrow> i < length (ss_shards ss) \<Longrightarrow> valid i (sh_state (ss_shards ss ! i))"
  "routed ok valid ss \<Longrightarrow> i < length (ss_shards ss) \<Longrightarrow>
     (Command c, n) \<in> set (sh_queue (ss_shards ss ! i)) \<Longrightarrow> ok i c"
  unfolding routed_def by blast+

lemma spec_run_snoc:
  "spec_run spec (es @ [(i, c, n, r)]) m =
   (case spec_run spec es m of None \<Rightarrow> None
    | Some m' \<Rightarrow> if fst (spec i c m') = r then Some (snd (spec i c m')) else None)"
proof (induction es arbitrary: m)
  case (Cons e es)
  obtain j d k a where "e = (j, d, k, a)" by (cases e)
  then show ?case using Cons.IH by (simp add: Let_def case_prod_unfold)
qed (simp add: Let_def case_prod_unfold)

locale keyed_service =
  fixes svc :: "('c, 's, 'r) service"
    and initial :: "nat \<Rightarrow> 's"
    and place :: "'k \<Rightarrow> nat"
    and view :: "'s \<Rightarrow> 'k \<Rightarrow> 'v"
    and ok :: "nat \<Rightarrow> 'c \<Rightarrow> bool"
    and valid :: "nat \<Rightarrow> 's \<Rightarrow> bool"
    and spec :: "nat \<Rightarrow> 'c \<Rightarrow> ('k \<Rightarrow> 'v) \<Rightarrow> 'r \<times> ('k \<Rightarrow> 'v)"
  assumes valid_initial: "valid i (initial i)"
    and valid_step: "valid i s \<Longrightarrow> ok i c \<Longrightarrow> svc c s = Some (r, s') \<Longrightarrow> valid i s'"
    and svc_spec: "valid i s \<Longrightarrow> ok i c \<Longrightarrow> svc c s = Some (r, s') \<Longrightarrow>
      (\<And>k. place k = i \<Longrightarrow> m k = view s k) \<Longrightarrow>
      fst (spec i c m) = r \<and> (\<forall>k. snd (spec i c m) k = (if place k = i then view s' k else m k))"
begin

lemma routed_start: "routed ok valid (shard_set_start n cap initial)"
  by (simp add: routed_def shard_set_start_def valid_initial)

lemma routed_step:
  assumes "routed ok valid ss" "i < length (ss_shards ss)"
  shows "routed ok valid (shard_step svc i ss)"
proof (cases "sh_status (ss_shards ss ! i) = ShardRunning \<and> sh_queue (ss_shards ss ! i) \<noteq> []")
  case True
  then obtain c n q where q: "sh_queue (ss_shards ss ! i) = (c, n) # q"
    by (cases "sh_queue (ss_shards ss ! i)") auto
  have upd: "routed ok valid ss'" if ss': "ss_shards ss' = (ss_shards ss)[i := sh]"
      and sh: "valid i (sh_state sh)" "set (sh_queue sh) \<subseteq> set q" for ss' sh
    unfolding routed_def
  proof (intro allI impI)
    fix j assume j: "j < length (ss_shards ss')"
    then show "valid j (sh_state (ss_shards ss' ! j)) \<and>
        (\<forall>c n. (Command c, n) \<in> set (sh_queue (ss_shards ss' ! j)) \<longrightarrow> ok j c)"
      using sh routedD [OF assms(1), of j] q
      by (cases "j = i") (auto simp: ss' dest!: subsetD [OF sh(2)])
  qed
  have w: "valid i (sh_state (ss_shards ss ! i))" and okc: "\<And>d. c = Command d \<Longrightarrow> ok i d"
    using routedD [OF assms] q by auto
  show ?thesis
  proof (cases c)
    case (Command d)
    show ?thesis
    proof (cases "svc d (sh_state (ss_shards ss ! i))")
      case None
      then show ?thesis
        using True q Command w
        by (intro upd [of _ "(ss_shards ss ! i)\<lparr>sh_queue := [], sh_status := ShardPanicked\<rparr>"])
          (simp_all add: shard_step_def Let_def)
    next
      case (Some x)
      obtain r s where x: "x = (r, s)" by (cases x)
      have "valid i s" using valid_step [OF w okc [OF Command]] Some x by simp
      then show ?thesis
        using True q Command Some x
        by (intro upd [of _ "(ss_shards ss ! i)\<lparr>sh_queue := q, sh_state := s\<rparr>"])
          (simp_all add: shard_step_def Let_def)
    qed
  next
    case StopCommand
    then show ?thesis
      using True q w
      by (intro upd [of _ "(ss_shards ss ! i)\<lparr>sh_queue := [], sh_status := ShardExited\<rparr>"])
        (simp_all add: shard_step_def Let_def)
  qed
next
  case False
  then have "shard_step svc i ss = ss"
    by (auto simp: shard_step_def Let_def split: shard_status.splits list.splits)
  then show ?thesis using assms(1) by simp
qed

lemma routed_push:
  "routed ok valid ss \<Longrightarrow> i < length (ss_shards ss) \<Longrightarrow> (\<And>d. c = Command d \<Longrightarrow> ok i d) \<Longrightarrow>
   routed ok valid (mailbox_push i c ss)"
  by (auto simp: routed_def mailbox_push_def Let_def nth_list_update)

lemma routed_event: "routed ok valid ss \<Longrightarrow> event_ok ok ev \<Longrightarrow> routed ok valid (on_event svc ev ss)"
  by (cases ev) (auto simp: try_request_def intro: routed_step routed_push, auto simp: routed_def)

text \<open>One step of a shard is one step of the sequential object, or none.\<close>

lemma step_spec:
  assumes "routed ok valid ss" "i < length (ss_shards ss)" "\<And>k. place k < length (ss_shards ss)"
    and "spec_run spec (ss_log ss) m0 = Some (global_view place view ss)"
  shows "spec_run spec (ss_log (shard_step svc i ss)) m0 =
    Some (global_view place view (shard_step svc i ss))"
proof (cases "\<exists>c n q r s. sh_status (ss_shards ss ! i) = ShardRunning \<and>
    sh_queue (ss_shards ss ! i) = (Command c, n) # q \<and> svc c (sh_state (ss_shards ss ! i)) = Some (r, s)")
  case True
  then obtain c n q r s where e: "sh_status (ss_shards ss ! i) = ShardRunning"
      "sh_queue (ss_shards ss ! i) = (Command c, n) # q" "svc c (sh_state (ss_shards ss ! i)) = Some (r, s)"
    by blast
  note f = shard_step_execute [where svc = svc, OF e]
  have w: "valid i (sh_state (ss_shards ss ! i))" "ok i c"
    using routedD [OF assms(1,2)] e(2) by auto
  have "global_view place view (shard_step svc i ss) k =
      (if place k = i then view s k else global_view place view ss k)" for k
    using assms(2) by (simp add: global_view_def f(1))
  moreover have "fst (spec i c (global_view place view ss)) = r \<and>
      (\<forall>k. snd (spec i c (global_view place view ss)) k =
        (if place k = i then view s k else global_view place view ss k))"
    by (rule svc_spec [OF w e(3)]) (simp add: global_view_def)
  ultimately show ?thesis by (auto simp: f(5) spec_run_snoc assms(4))
next
  case False
  have "ss_log (shard_step svc i ss) = ss_log ss \<and>
      map sh_state (ss_shards (shard_step svc i ss)) = map sh_state (ss_shards ss)"
    using False assms(2)
    by (auto simp: shard_step_def Let_def map_update list_update_same_conv
        split: shard_status.splits list.splits prod.splits shard_cmd.splits option.splits)
  then have l: "ss_log (shard_step svc i ss) = ss_log ss"
    and m: "map sh_state (ss_shards (shard_step svc i ss)) = map sh_state (ss_shards ss)" by simp_all
  have "sh_state (ss_shards (shard_step svc i ss) ! place k) = sh_state (ss_shards ss ! place k)" for k
    using arg_cong [OF m, of "\<lambda>l. l ! place k"] assms(3) [of k] by (simp add: length_shards_step)
  then have "global_view place view (shard_step svc i ss) = global_view place view ss"
    by (simp add: global_view_def fun_eq_iff)
  then show ?thesis using l assms(4) by simp
qed

lemma event_spec:
  assumes "routed ok valid ss" "\<And>k. place k < length (ss_shards ss)"
    and "spec_run spec (ss_log ss) m0 = Some (global_view place view ss)"
  shows "spec_run spec (ss_log (on_event svc ev ss)) m0 =
    Some (global_view place view (on_event svc ev ss))"
proof -
  have push: "global_view place view (mailbox_push i c ss) = global_view place view ss"
      "ss_log (mailbox_push i c ss) = ss_log ss" for i c
  proof -
    have "sh_state (ss_shards (mailbox_push i c ss) ! j) = sh_state (ss_shards ss ! j)" for j
      by (cases "i < length (ss_shards ss)"; cases "j = i") (simp_all add: mailbox_push_def Let_def list_update_beyond)
    then show "global_view place view (mailbox_push i c ss) = global_view place view ss"
      by (simp add: fun_eq_iff global_view_def)
  qed (simp add: mailbox_push_def Let_def)
  show ?thesis
  proof (cases ev)
    case (EvStep i)
    then show ?thesis using step_spec [OF assms(1) _ assms(2,3), of i] assms(3) by simp
  qed (use assms(3) push in \<open>auto simp: try_request_def global_view_def fun_eq_iff\<close>)
qed

lemma linearizable:
  assumes "\<And>k. place k < n" "\<forall>ev\<in>set evs. event_ok ok ev"
  shows "spec_run spec (ss_log (shard_history svc initial n cap evs)) (\<lambda>k. view (initial (place k)) k) =
    Some (global_view place view (shard_history svc initial n cap evs))"
proof -
  let ?m = "\<lambda>k. view (initial (place k)) k"
  have "spec_run spec (ss_log (fold (on_event svc) evs ss)) ?m =
      Some (global_view place view (fold (on_event svc) evs ss))"
    if "routed ok valid ss" "length (ss_shards ss) = n" "spec_run spec (ss_log ss) ?m = Some (global_view place view ss)"
    for ss
    using that assms(2)
  proof (induction evs arbitrary: ss)
    case (Cons ev evs)
    have "spec_run spec (ss_log (on_event svc ev ss)) ?m = Some (global_view place view (on_event svc ev ss))"
      using event_spec [of ss] Cons.prems assms(1) by simp
    then show ?case
      using Cons.IH [of "on_event svc ev ss"] Cons.prems by (simp add: routed_event length_shards_event)
  qed simp
  from this [of "shard_set_start n cap initial"] show ?thesis
    using routed_start [of n cap] assms(1) unfolding shard_history_def
    by (simp add: shard_set_start_def global_view_def fun_eq_iff)
qed

end

end
