(* ===== verification/Kv_Service.thy ===== *)
theory Kv_Service
  imports Keyed_Service "HOL-Library.AList" "HOL-Library.Char_ord" "HOL-Library.List_Lexorder"
begin

text \<open>
  The sharded key-value store of \<open>kv_service.rs\<close>: the map of one shard, the commands, the shard
  loop, and the store's operations in their three forms (submit, try, and submit-and-wait).  The
  hash map of a shard is an association list with distinct keys.  The placement of keys is a
  parameter \<open>place key shard_count\<close>.  A submitted operation returns its reply handle, the shard and
  the number of the reply cell.
\<close>

subsection \<open>One shard\<close>

record kv_service =
  kv_map :: "(string \<times> string) list"

definition kv_service_new :: kv_service where
  "kv_service_new = \<lparr>kv_map = []\<rparr>"

definition kvs_get :: "string \<Rightarrow> kv_service \<Rightarrow> string option" where
  "kvs_get key s = map_of (kv_map s) key"

definition kvs_put :: "string \<Rightarrow> string \<Rightarrow> kv_service \<Rightarrow> kv_service" where
  "kvs_put key value s = s\<lparr>kv_map := AList.update key value (kv_map s)\<rparr>"

definition kvs_compare_and_put ::
  "string \<Rightarrow> string option \<Rightarrow> string \<Rightarrow> kv_service \<Rightarrow> bool \<times> kv_service" where
  "kvs_compare_and_put key expected value s =
     (if map_of (kv_map s) key = expected then (True, kvs_put key value s) else (False, s))"

definition kvs_get_or_put :: "string \<Rightarrow> string \<Rightarrow> kv_service \<Rightarrow> string \<times> kv_service" where
  "kvs_get_or_put key value s =
     (case map_of (kv_map s) key of
        Some v \<Rightarrow> (v, s)
      | None \<Rightarrow> (value, kvs_put key value s))"

definition kvs_delete :: "string \<Rightarrow> kv_service \<Rightarrow> string option \<times> kv_service" where
  "kvs_delete key s = (map_of (kv_map s) key, s\<lparr>kv_map := AList.delete key (kv_map s)\<rparr>)"

definition kvs_len :: "kv_service \<Rightarrow> nat" where
  "kvs_len s = length (kv_map s)"

definition kvs_keys :: "kv_service \<Rightarrow> string list" where
  "kvs_keys s = sort (map fst (kv_map s))"

datatype kv_command =
    KvGet string
  | KvPut string string
  | KvCompareAndPut string "string option" string
  | KvGetOrPut string string
  | KvDelete string
  | KvLen
  | KvKeys

datatype kv_answer =
    KvUnit
  | KvValue "string option"
  | KvReplaced bool
  | KvString string
  | KvCount nat
  | KvKeyList "string list"

text \<open>The arms of \<open>run_kv_shard\<close>; the stop command is the runtime's.\<close>

fun run_kv_shard :: "(kv_command, kv_service, kv_answer) service" where
  "run_kv_shard (KvGet key) s = Some (KvValue (kvs_get key s), s)"
| "run_kv_shard (KvPut key value) s = Some (KvUnit, kvs_put key value s)"
| "run_kv_shard (KvCompareAndPut key expected value) s =
     (let (replaced, s) = kvs_compare_and_put key expected value s in Some (KvReplaced replaced, s))"
| "run_kv_shard (KvGetOrPut key value) s =
     (let (v, s) = kvs_get_or_put key value s in Some (KvString v, s))"
| "run_kv_shard (KvDelete key) s = (let (v, s) = kvs_delete key s in Some (KvValue v, s))"
| "run_kv_shard KvLen s = Some (KvCount (kvs_len s), s)"
| "run_kv_shard KvKeys s = Some (KvKeyList (kvs_keys s), s)"

subsection \<open>The store\<close>

type_synonym kv_shards = "(kv_command, kv_service, kv_answer) shard_set"
type_synonym kv_placement = "string \<Rightarrow> nat \<Rightarrow> shard_id"
type_synonym kv_reply = "shard_id \<times> nat"
type_synonym 'a kv_result = "(shard_error + 'a) option"

record sharded_kv =
  skv_shards :: kv_shards
  skv_stopped :: bool

definition kv_start_with_placement :: "shard_config \<Rightarrow> shard_error + sharded_kv" where
  "kv_start_with_placement config =
     (case shard_config_validate config of
        Inl e \<Rightarrow> Inl e
      | Inr cfg \<Rightarrow>
          Inr \<lparr>skv_shards = shard_set_start (sc_shard_count cfg) (sc_mailbox_capacity cfg)
                 (\<lambda>_. kv_service_new),
               skv_stopped = False\<rparr>)"

definition kv_shard_count :: "sharded_kv \<Rightarrow> nat" where
  "kv_shard_count kv = shard_set_len (skv_shards kv)"

definition kv_runtime_snapshot :: "sharded_kv \<Rightarrow> runtime_snapshot" where
  "kv_runtime_snapshot kv = shard_set_snapshot (skv_stopped kv) (skv_shards kv)"

definition kv_shard_for_key :: "kv_placement \<Rightarrow> string \<Rightarrow> sharded_kv \<Rightarrow> shard_id" where
  "kv_shard_for_key place key kv = place key (kv_shard_count kv)"

definition kv_ensure_running :: "sharded_kv \<Rightarrow> shard_error + unit" where
  "kv_ensure_running kv = (if skv_stopped kv then Inl ShardStopped else Inr ())"

definition kv_shard :: "shard_id \<Rightarrow> sharded_kv \<Rightarrow> shard_error + shard_id" where
  "kv_shard i kv =
     (case kv_ensure_running kv of Inl e \<Rightarrow> Inl e | Inr _ \<Rightarrow> get_by_id i (skv_shards kv))"

definition shard_for_owned_key :: "kv_placement \<Rightarrow> string \<Rightarrow> sharded_kv \<Rightarrow> shard_error + shard_id" where
  "shard_for_owned_key place key kv =
     (case kv_ensure_running kv of
        Inl e \<Rightarrow> Inl e
      | Inr _ \<Rightarrow> get_by_id (kv_shard_for_key place key kv) (skv_shards kv))"

text \<open>Submitting to a shard that was looked up, with or without waiting for room.\<close>

definition kv_request ::
  "shard_error + shard_id \<Rightarrow> kv_command \<Rightarrow> sharded_kv \<Rightarrow> (shard_error + kv_reply) \<times> sharded_kv" where
  "kv_request shard c kv =
     (case shard of
        Inl e \<Rightarrow> (Inl e, kv)
      | Inr i \<Rightarrow>
          (case request run_kv_shard i c (skv_shards kv) of
             (Inl e, ss) \<Rightarrow> (Inl e, kv\<lparr>skv_shards := ss\<rparr>)
           | (Inr n, ss) \<Rightarrow> (Inr (i, n), kv\<lparr>skv_shards := ss\<rparr>)))"

definition kv_try_request ::
  "shard_error + shard_id \<Rightarrow> kv_command \<Rightarrow> sharded_kv \<Rightarrow> (shard_error + kv_reply) \<times> sharded_kv" where
  "kv_try_request shard c kv =
     (case shard of
        Inl e \<Rightarrow> (Inl e, kv)
      | Inr i \<Rightarrow>
          (case try_request i c (skv_shards kv) of
             (Inl e, ss) \<Rightarrow> (Inl e, kv\<lparr>skv_shards := ss\<rparr>)
           | (Inr n, ss) \<Rightarrow> (Inr (i, n), kv\<lparr>skv_shards := ss\<rparr>)))"

fun kv_unwrap :: "kv_answer answer kv_result \<Rightarrow> kv_answer kv_result" where
  "kv_unwrap (Some (Inr (Answer a))) = Some (Inr a)"
| "kv_unwrap (Some (Inr Stopped)) = None"
| "kv_unwrap (Some (Inl e)) = Some (Inl e)"
| "kv_unwrap None = None"

definition kv_wait :: "(shard_error + kv_reply) \<times> sharded_kv \<Rightarrow> kv_answer kv_result \<times> sharded_kv" where
  "kv_wait submitted =
     (case submitted of
        (Inl e, kv) \<Rightarrow> (Some (Inl e), kv)
      | (Inr (i, n), kv) \<Rightarrow>
          (let (r, ss) = wait_reply run_kv_shard i n (skv_shards kv)
           in (kv_unwrap r, kv\<lparr>skv_shards := ss\<rparr>)))"

subsection \<open>Operations on one key\<close>

definition submit_get ::
  "kv_placement \<Rightarrow> string \<Rightarrow> sharded_kv \<Rightarrow> (shard_error + kv_reply) \<times> sharded_kv" where
  "submit_get place key kv = kv_request (shard_for_owned_key place key kv) (KvGet key) kv"

definition try_submit_get ::
  "kv_placement \<Rightarrow> string \<Rightarrow> sharded_kv \<Rightarrow> (shard_error + kv_reply) \<times> sharded_kv" where
  "try_submit_get place key kv = kv_try_request (shard_for_owned_key place key kv) (KvGet key) kv"

definition kv_get ::
  "kv_placement \<Rightarrow> string \<Rightarrow> sharded_kv \<Rightarrow> kv_answer kv_result \<times> sharded_kv" where
  "kv_get place key kv = kv_wait (submit_get place key kv)"

definition kv_try_get ::
  "kv_placement \<Rightarrow> string \<Rightarrow> sharded_kv \<Rightarrow> kv_answer kv_result \<times> sharded_kv" where
  "kv_try_get place key kv = kv_wait (try_submit_get place key kv)"

definition submit_put ::
  "kv_placement \<Rightarrow> string \<Rightarrow> string \<Rightarrow> sharded_kv \<Rightarrow> (shard_error + kv_reply) \<times> sharded_kv" where
  "submit_put place key value kv = kv_request (shard_for_owned_key place key kv) (KvPut key value) kv"

definition try_submit_put ::
  "kv_placement \<Rightarrow> string \<Rightarrow> string \<Rightarrow> sharded_kv \<Rightarrow> (shard_error + kv_reply) \<times> sharded_kv" where
  "try_submit_put place key value kv = kv_try_request (shard_for_owned_key place key kv) (KvPut key value) kv"

definition kv_put ::
  "kv_placement \<Rightarrow> string \<Rightarrow> string \<Rightarrow> sharded_kv \<Rightarrow> kv_answer kv_result \<times> sharded_kv" where
  "kv_put place key value kv = kv_wait (submit_put place key value kv)"

definition kv_try_put ::
  "kv_placement \<Rightarrow> string \<Rightarrow> string \<Rightarrow> sharded_kv \<Rightarrow> kv_answer kv_result \<times> sharded_kv" where
  "kv_try_put place key value kv = kv_wait (try_submit_put place key value kv)"

definition submit_compare_and_put ::
  "kv_placement \<Rightarrow> string \<Rightarrow> string option \<Rightarrow> string \<Rightarrow> sharded_kv \<Rightarrow> (shard_error + kv_reply) \<times> sharded_kv" where
  "submit_compare_and_put place key expected value kv = kv_request (shard_for_owned_key place key kv) (KvCompareAndPut key expected value) kv"

definition try_submit_compare_and_put ::
  "kv_placement \<Rightarrow> string \<Rightarrow> string option \<Rightarrow> string \<Rightarrow> sharded_kv \<Rightarrow> (shard_error + kv_reply) \<times> sharded_kv" where
  "try_submit_compare_and_put place key expected value kv = kv_try_request (shard_for_owned_key place key kv) (KvCompareAndPut key expected value) kv"

definition kv_compare_and_put ::
  "kv_placement \<Rightarrow> string \<Rightarrow> string option \<Rightarrow> string \<Rightarrow> sharded_kv \<Rightarrow> kv_answer kv_result \<times> sharded_kv" where
  "kv_compare_and_put place key expected value kv = kv_wait (submit_compare_and_put place key expected value kv)"

definition kv_try_compare_and_put ::
  "kv_placement \<Rightarrow> string \<Rightarrow> string option \<Rightarrow> string \<Rightarrow> sharded_kv \<Rightarrow> kv_answer kv_result \<times> sharded_kv" where
  "kv_try_compare_and_put place key expected value kv = kv_wait (try_submit_compare_and_put place key expected value kv)"

definition submit_get_or_put ::
  "kv_placement \<Rightarrow> string \<Rightarrow> string \<Rightarrow> sharded_kv \<Rightarrow> (shard_error + kv_reply) \<times> sharded_kv" where
  "submit_get_or_put place key value kv = kv_request (shard_for_owned_key place key kv) (KvGetOrPut key value) kv"

definition try_submit_get_or_put ::
  "kv_placement \<Rightarrow> string \<Rightarrow> string \<Rightarrow> sharded_kv \<Rightarrow> (shard_error + kv_reply) \<times> sharded_kv" where
  "try_submit_get_or_put place key value kv = kv_try_request (shard_for_owned_key place key kv) (KvGetOrPut key value) kv"

definition kv_get_or_put ::
  "kv_placement \<Rightarrow> string \<Rightarrow> string \<Rightarrow> sharded_kv \<Rightarrow> kv_answer kv_result \<times> sharded_kv" where
  "kv_get_or_put place key value kv = kv_wait (submit_get_or_put place key value kv)"

definition kv_try_get_or_put ::
  "kv_placement \<Rightarrow> string \<Rightarrow> string \<Rightarrow> sharded_kv \<Rightarrow> kv_answer kv_result \<times> sharded_kv" where
  "kv_try_get_or_put place key value kv = kv_wait (try_submit_get_or_put place key value kv)"

definition submit_delete ::
  "kv_placement \<Rightarrow> string \<Rightarrow> sharded_kv \<Rightarrow> (shard_error + kv_reply) \<times> sharded_kv" where
  "submit_delete place key kv = kv_request (shard_for_owned_key place key kv) (KvDelete key) kv"

definition try_submit_delete ::
  "kv_placement \<Rightarrow> string \<Rightarrow> sharded_kv \<Rightarrow> (shard_error + kv_reply) \<times> sharded_kv" where
  "try_submit_delete place key kv = kv_try_request (shard_for_owned_key place key kv) (KvDelete key) kv"

definition kv_delete ::
  "kv_placement \<Rightarrow> string \<Rightarrow> sharded_kv \<Rightarrow> kv_answer kv_result \<times> sharded_kv" where
  "kv_delete place key kv = kv_wait (submit_delete place key kv)"

definition kv_try_delete ::
  "kv_placement \<Rightarrow> string \<Rightarrow> sharded_kv \<Rightarrow> kv_answer kv_result \<times> sharded_kv" where
  "kv_try_delete place key kv = kv_wait (try_submit_delete place key kv)"

subsection \<open>Operations on many keys\<close>

text \<open>Submitting for each key in order; the first error ends the loop.\<close>

fun kv_submit_many ::
  "(string \<Rightarrow> sharded_kv \<Rightarrow> (shard_error + kv_reply) \<times> sharded_kv) \<Rightarrow> string list \<Rightarrow> sharded_kv \<Rightarrow>
   (shard_error + (string \<times> kv_reply) list) \<times> sharded_kv" where
  "kv_submit_many submit [] kv = (Inr [], kv)"
| "kv_submit_many submit (key # keys) kv =
     (case submit key kv of
        (Inl e, kv) \<Rightarrow> (Inl e, kv)
      | (Inr reply, kv) \<Rightarrow>
          (case kv_submit_many submit keys kv of
             (Inl e, kv) \<Rightarrow> (Inl e, kv)
           | (Inr replies, kv) \<Rightarrow> (Inr ((key, reply) # replies), kv)))"

fun kv_wait_many ::
  "(string \<times> kv_reply) list \<Rightarrow> sharded_kv \<Rightarrow> (string \<times> kv_answer) list kv_result \<times> sharded_kv" where
  "kv_wait_many [] kv = (Some (Inr []), kv)"
| "kv_wait_many ((key, reply) # replies) kv =
     (case kv_wait (Inr reply, kv) of
        (Some (Inr a), kv) \<Rightarrow>
          (case kv_wait_many replies kv of
             (Some (Inr as), kv) \<Rightarrow> (Some (Inr ((key, a) # as)), kv)
           | (x, kv) \<Rightarrow> (x, kv))
      | (Some (Inl e), kv) \<Rightarrow> (Some (Inl e), kv)
      | (None, kv) \<Rightarrow> (None, kv))"

definition kv_await_many ::
  "(shard_error + (string \<times> kv_reply) list) \<times> sharded_kv \<Rightarrow>
   (string \<times> kv_answer) list kv_result \<times> sharded_kv" where
  "kv_await_many submitted =
     (case submitted of (Inl e, kv) \<Rightarrow> (Some (Inl e), kv) | (Inr replies, kv) \<Rightarrow> kv_wait_many replies kv)"

definition submit_get_many ::
  "kv_placement \<Rightarrow> string list \<Rightarrow> sharded_kv \<Rightarrow> (shard_error + (string \<times> kv_reply) list) \<times> sharded_kv" where
  "submit_get_many place keys kv = kv_submit_many (submit_get place) keys kv"

definition kv_get_many ::
  "kv_placement \<Rightarrow> string list \<Rightarrow> sharded_kv \<Rightarrow> (string \<times> kv_answer) list kv_result \<times> sharded_kv" where
  "kv_get_many place keys kv = kv_await_many (submit_get_many place keys kv)"

definition submit_delete_many ::
  "kv_placement \<Rightarrow> string list \<Rightarrow> sharded_kv \<Rightarrow> (shard_error + (string \<times> kv_reply) list) \<times> sharded_kv" where
  "submit_delete_many place keys kv = kv_submit_many (submit_delete place) keys kv"

definition kv_delete_many ::
  "kv_placement \<Rightarrow> string list \<Rightarrow> sharded_kv \<Rightarrow> (string \<times> kv_answer) list kv_result \<times> sharded_kv" where
  "kv_delete_many place keys kv = kv_await_many (submit_delete_many place keys kv)"

definition try_submit_get_many ::
  "kv_placement \<Rightarrow> string list \<Rightarrow> sharded_kv \<Rightarrow> (shard_error + (string \<times> kv_reply) list) \<times> sharded_kv" where
  "try_submit_get_many place keys kv = kv_submit_many (try_submit_get place) keys kv"

definition kv_try_get_many ::
  "kv_placement \<Rightarrow> string list \<Rightarrow> sharded_kv \<Rightarrow> (string \<times> kv_answer) list kv_result \<times> sharded_kv" where
  "kv_try_get_many place keys kv = kv_await_many (try_submit_get_many place keys kv)"

definition try_submit_delete_many ::
  "kv_placement \<Rightarrow> string list \<Rightarrow> sharded_kv \<Rightarrow> (shard_error + (string \<times> kv_reply) list) \<times> sharded_kv" where
  "try_submit_delete_many place keys kv = kv_submit_many (try_submit_delete place) keys kv"

definition kv_try_delete_many ::
  "kv_placement \<Rightarrow> string list \<Rightarrow> sharded_kv \<Rightarrow> (string \<times> kv_answer) list kv_result \<times> sharded_kv" where
  "kv_try_delete_many place keys kv = kv_await_many (try_submit_delete_many place keys kv)"

subsection \<open>Operations on shards\<close>

definition submit_len_on_shard ::
  "shard_id \<Rightarrow> sharded_kv \<Rightarrow> (shard_error + kv_reply) \<times> sharded_kv" where
  "submit_len_on_shard i kv = kv_request (kv_shard i kv) KvLen kv"

definition try_submit_len_on_shard ::
  "shard_id \<Rightarrow> sharded_kv \<Rightarrow> (shard_error + kv_reply) \<times> sharded_kv" where
  "try_submit_len_on_shard i kv = kv_try_request (kv_shard i kv) KvLen kv"

definition kv_len_on_shard :: "shard_id \<Rightarrow> sharded_kv \<Rightarrow> kv_answer kv_result \<times> sharded_kv" where
  "kv_len_on_shard i kv = kv_wait (submit_len_on_shard i kv)"

definition kv_try_len_on_shard :: "shard_id \<Rightarrow> sharded_kv \<Rightarrow> kv_answer kv_result \<times> sharded_kv" where
  "kv_try_len_on_shard i kv = kv_wait (try_submit_len_on_shard i kv)"

definition submit_keys_on_shard ::
  "shard_id \<Rightarrow> sharded_kv \<Rightarrow> (shard_error + kv_reply) \<times> sharded_kv" where
  "submit_keys_on_shard i kv = kv_request (kv_shard i kv) KvKeys kv"

definition try_submit_keys_on_shard ::
  "shard_id \<Rightarrow> sharded_kv \<Rightarrow> (shard_error + kv_reply) \<times> sharded_kv" where
  "try_submit_keys_on_shard i kv = kv_try_request (kv_shard i kv) KvKeys kv"

definition kv_keys_on_shard :: "shard_id \<Rightarrow> sharded_kv \<Rightarrow> kv_answer kv_result \<times> sharded_kv" where
  "kv_keys_on_shard i kv = kv_wait (submit_keys_on_shard i kv)"

definition kv_try_keys_on_shard :: "shard_id \<Rightarrow> sharded_kv \<Rightarrow> kv_answer kv_result \<times> sharded_kv" where
  "kv_try_keys_on_shard i kv = kv_wait (try_submit_keys_on_shard i kv)"

subsection \<open>Aggregates\<close>

text \<open>\<open>request_all\<close> over the shards, with the handles in shard order.\<close>

definition kv_request_all ::
  "(shard_id \<Rightarrow> kv_shards \<Rightarrow> (shard_error + nat) \<times> kv_shards) \<Rightarrow> sharded_kv \<Rightarrow>
   (shard_error + kv_reply list) \<times> sharded_kv" where
  "kv_request_all submit kv =
     (case kv_ensure_running kv of
        Inl e \<Rightarrow> (Inl e, kv)
      | Inr _ \<Rightarrow>
          (case request_all submit [0..<kv_shard_count kv] (skv_shards kv) of
             (Inl e, ss) \<Rightarrow> (Inl e, kv\<lparr>skv_shards := ss\<rparr>)
           | (Inr ns, ss) \<Rightarrow> (Inr (zip [0..<kv_shard_count kv] ns), kv\<lparr>skv_shards := ss\<rparr>)))"

definition submit_len_all :: "sharded_kv \<Rightarrow> (shard_error + kv_reply list) \<times> sharded_kv" where
  "submit_len_all kv = kv_request_all (\<lambda>i. request run_kv_shard i KvLen) kv"

definition try_submit_len_all :: "sharded_kv \<Rightarrow> (shard_error + kv_reply list) \<times> sharded_kv" where
  "try_submit_len_all kv = kv_request_all (\<lambda>i. try_request i KvLen) kv"

definition submit_all_keys :: "sharded_kv \<Rightarrow> (shard_error + kv_reply list) \<times> sharded_kv" where
  "submit_all_keys kv = kv_request_all (\<lambda>i. request run_kv_shard i KvKeys) kv"

definition try_submit_all_keys :: "sharded_kv \<Rightarrow> (shard_error + kv_reply list) \<times> sharded_kv" where
  "try_submit_all_keys kv = kv_request_all (\<lambda>i. try_request i KvKeys) kv"

definition kv_wait_all ::
  "(shard_error + kv_reply list) \<times> sharded_kv \<Rightarrow>
   (shard_id \<times> kv_answer) list kv_result \<times> sharded_kv" where
  "kv_wait_all submitted =
     (case submitted of
        (Inl e, kv) \<Rightarrow> (Some (Inl e), kv)
      | (Inr hs, kv) \<Rightarrow>
          (case wait_all run_kv_shard hs (skv_shards kv) of
             (Some (Inr as), ss) \<Rightarrow>
               (Some (Inr (zip (map fst hs) (map (\<lambda>a. case a of Answer r \<Rightarrow> r | Stopped \<Rightarrow> KvUnit) as))),
                kv\<lparr>skv_shards := ss\<rparr>)
           | (Some (Inl e), ss) \<Rightarrow> (Some (Inl e), kv\<lparr>skv_shards := ss\<rparr>)
           | (None, ss) \<Rightarrow> (None, kv\<lparr>skv_shards := ss\<rparr>)))"

fun kv_count :: "kv_answer \<Rightarrow> nat" where
  "kv_count (KvCount n) = n"
| "kv_count _ = 0"

fun kv_key_list :: "kv_answer \<Rightarrow> string list" where
  "kv_key_list (KvKeyList ks) = ks"
| "kv_key_list _ = []"

text \<open>\<open>KvTotalLenReply::wait\<close>, \<open>KvShardSnapshotsReply::wait\<close> and \<open>KvAllKeysReply::wait\<close>.\<close>

definition total_len_wait ::
  "(shard_error + kv_reply list) \<times> sharded_kv \<Rightarrow> nat kv_result \<times> sharded_kv" where
  "total_len_wait submitted =
     (let (r, kv) = kv_wait_all submitted
      in (map_option (map_sum id (\<lambda>as. foldl (\<lambda>total (_, a). total + kv_count a) 0 as)) r, kv))"

definition shard_snapshots_wait ::
  "(shard_error + kv_reply list) \<times> sharded_kv \<Rightarrow> shard_snapshot list kv_result \<times> sharded_kv" where
  "shard_snapshots_wait submitted =
     (let (r, kv) = kv_wait_all submitted
      in (map_option (map_sum id (map (\<lambda>(i, a). \<lparr>snap_shard_id = i, snap_len = kv_count a\<rparr>))) r, kv))"

definition all_keys_wait ::
  "(shard_error + kv_reply list) \<times> sharded_kv \<Rightarrow> string list kv_result \<times> sharded_kv" where
  "all_keys_wait submitted =
     (let (r, kv) = kv_wait_all submitted
      in (map_option (map_sum id (\<lambda>as. sort (foldl (\<lambda>keys (_, a). keys @ kv_key_list a) [] as))) r, kv))"

definition kv_total_len :: "sharded_kv \<Rightarrow> nat kv_result \<times> sharded_kv" where
  "kv_total_len kv = total_len_wait (submit_len_all kv)"

definition kv_try_total_len :: "sharded_kv \<Rightarrow> nat kv_result \<times> sharded_kv" where
  "kv_try_total_len kv = total_len_wait (try_submit_len_all kv)"

definition kv_shard_snapshots :: "sharded_kv \<Rightarrow> shard_snapshot list kv_result \<times> sharded_kv" where
  "kv_shard_snapshots kv = shard_snapshots_wait (submit_len_all kv)"

definition kv_try_shard_snapshots :: "sharded_kv \<Rightarrow> shard_snapshot list kv_result \<times> sharded_kv" where
  "kv_try_shard_snapshots kv = shard_snapshots_wait (try_submit_len_all kv)"

definition kv_all_keys :: "sharded_kv \<Rightarrow> string list kv_result \<times> sharded_kv" where
  "kv_all_keys kv = all_keys_wait (submit_all_keys kv)"

definition kv_try_all_keys :: "sharded_kv \<Rightarrow> string list kv_result \<times> sharded_kv" where
  "kv_try_all_keys kv = all_keys_wait (try_submit_all_keys kv)"

subsection \<open>Shutdown\<close>

definition kv_shutdown :: "sharded_kv \<Rightarrow> (shard_error + unit) \<times> sharded_kv" where
  "kv_shutdown kv =
     (if skv_stopped kv then (Inr (), kv)
      else
        let (r, ss) = stop_and_join run_kv_shard (skv_shards kv)
        in (r, kv\<lparr>skv_stopped := True, skv_shards := ss\<rparr>))"

definition kv_drop :: "sharded_kv \<Rightarrow> sharded_kv" where
  "kv_drop kv =
     (if skv_stopped kv then kv
      else kv\<lparr>skv_stopped := True, skv_shards := snd (stop_and_join run_kv_shard (skv_shards kv))\<rparr>)"

end
