(* ===== verification/Kv_Refinement.thy ===== *)
theory Kv_Refinement
  imports Kv_Service
begin

text \<open>
  The sharded key-value store refines one map.  The commands of \<open>Kv_Service\<close> are given a
  specification on a map over all keys; the store is an instance of \<open>keyed_service\<close>, so its
  answers under any interleaving are those of the map, and its blocking calls and aggregates are
  operations of the map.
\<close>

subsection \<open>Specification\<close>

text \<open>The store as one map over all keys.  A command on a shard reports the keys of that shard.\<close>

fun kv_key :: "kv_command \<Rightarrow> string option" where
  "kv_key (KvGet key) = Some key"
| "kv_key (KvPut key value) = Some key"
| "kv_key (KvCompareAndPut key expected value) = Some key"
| "kv_key (KvGetOrPut key value) = Some key"
| "kv_key (KvDelete key) = Some key"
| "kv_key KvLen = None"
| "kv_key KvKeys = None"

fun kv_spec ::
  "(string \<Rightarrow> nat) \<Rightarrow> nat \<Rightarrow> kv_command \<Rightarrow> (string \<Rightarrow> string option) \<Rightarrow>
   kv_answer \<times> (string \<Rightarrow> string option)" where
  "kv_spec pl i (KvGet key) m = (KvValue (m key), m)"
| "kv_spec pl i (KvPut key value) m = (KvUnit, m(key \<mapsto> value))"
| "kv_spec pl i (KvCompareAndPut key expected value) m =
     (if m key = expected then (KvReplaced True, m(key \<mapsto> value)) else (KvReplaced False, m))"
| "kv_spec pl i (KvGetOrPut key value) m =
     (case m key of Some v \<Rightarrow> (KvString v, m) | None \<Rightarrow> (KvString value, m(key \<mapsto> value)))"
| "kv_spec pl i (KvDelete key) m = (KvValue (m key), m(key := None))"
| "kv_spec pl i KvLen m = (KvCount (card {k \<in> dom m. pl k = i}), m)"
| "kv_spec pl i KvKeys m = (KvKeyList (sorted_list_of_set {k \<in> dom m. pl k = i}), m)"

definition kv_ok :: "(string \<Rightarrow> nat) \<Rightarrow> nat \<Rightarrow> kv_command \<Rightarrow> bool" where
  "kv_ok pl i c \<longleftrightarrow> (\<forall>k. kv_key c = Some k \<longrightarrow> pl k = i)"

definition kv_valid :: "(string \<Rightarrow> nat) \<Rightarrow> nat \<Rightarrow> kv_service \<Rightarrow> bool" where
  "kv_valid pl i s \<longleftrightarrow> distinct (map fst (kv_map s)) \<and> (\<forall>k\<in>fst ` set (kv_map s). pl k = i)"

abbreviation kv_view :: "kv_service \<Rightarrow> string \<Rightarrow> string option" where
  "kv_view s \<equiv> map_of (kv_map s)"

definition kv_contents :: "kv_placement \<Rightarrow> sharded_kv \<Rightarrow> string \<Rightarrow> string option" where
  "kv_contents place kv = global_view (\<lambda>k. place k (kv_shard_count kv)) kv_view (skv_shards kv)"

text \<open>Clients and shard threads interleaved: a submission that does not wait for room, the
  thread of a shard taking a command, and the reception of a reply.  A submission that waits for
  room is a step of the shard followed by one that does not.\<close>

datatype kv_client =
    KvTry kv_command
  | KvTryLen shard_id
  | KvTryKeys shard_id
  | KvServe shard_id
  | KvReceive nat

fun kv_client_step :: "kv_placement \<Rightarrow> kv_client \<Rightarrow> sharded_kv \<Rightarrow> sharded_kv" where
  "kv_client_step place (KvTry c) kv =
     (case c of
        KvGet key \<Rightarrow> snd (try_submit_get place key kv)
      | KvPut key value \<Rightarrow> snd (try_submit_put place key value kv)
      | KvCompareAndPut key expected value \<Rightarrow> snd (try_submit_compare_and_put place key expected value kv)
      | KvGetOrPut key value \<Rightarrow> snd (try_submit_get_or_put place key value kv)
      | KvDelete key \<Rightarrow> snd (try_submit_delete place key kv)
      | _ \<Rightarrow> kv)"
| "kv_client_step place (KvTryLen i) kv = snd (try_submit_len_on_shard i kv)"
| "kv_client_step place (KvTryKeys i) kv = snd (try_submit_keys_on_shard i kv)"
| "kv_client_step place (KvServe i) kv =
     kv\<lparr>skv_shards := on_event run_kv_shard (EvStep i) (skv_shards kv)\<rparr>"
| "kv_client_step place (KvReceive n) kv =
     kv\<lparr>skv_shards := on_event run_kv_shard (EvTake n) (skv_shards kv)\<rparr>"

text \<open>The submit-and-wait operation of a command, and a sequence of them.\<close>

fun kv_api :: "kv_placement \<Rightarrow> kv_command \<Rightarrow> sharded_kv \<Rightarrow> kv_answer kv_result \<times> sharded_kv" where
  "kv_api place (KvGet key) kv = kv_get place key kv"
| "kv_api place (KvPut key value) kv = kv_put place key value kv"
| "kv_api place (KvCompareAndPut key expected value) kv = kv_compare_and_put place key expected value kv"
| "kv_api place (KvGetOrPut key value) kv = kv_get_or_put place key value kv"
| "kv_api place (KvDelete key) kv = kv_delete place key kv"
| "kv_api place KvLen kv = kv_len_on_shard 0 kv"
| "kv_api place KvKeys kv = kv_keys_on_shard 0 kv"

fun kv_api_run ::
  "kv_placement \<Rightarrow> kv_command list \<Rightarrow> sharded_kv \<Rightarrow> kv_answer kv_result list \<times> sharded_kv" where
  "kv_api_run place [] kv = ([], kv)"
| "kv_api_run place (c # cs) kv =
     (let (r, kv) = kv_api place c kv; (rs, kv) = kv_api_run place cs kv in (r # rs, kv))"

fun kv_map_run ::
  "(string \<Rightarrow> nat) \<Rightarrow> kv_command list \<Rightarrow> (string \<Rightarrow> string option) \<Rightarrow>
   kv_answer list \<times> (string \<Rightarrow> string option)" where
  "kv_map_run pl [] m = ([], m)"
| "kv_map_run pl (c # cs) m =
     (let (r, m) = kv_spec pl 0 c m; (rs, m) = kv_map_run pl cs m in (r # rs, m))"

definition kv_idle :: "kv_placement \<Rightarrow> sharded_kv \<Rightarrow> bool" where
  "kv_idle place kv \<longleftrightarrow>
     \<not> skv_stopped kv \<and> 0 < ss_capacity (skv_shards kv) \<and> 0 < kv_shard_count kv \<and>
     ss_inv run_kv_shard (\<lambda>_. kv_service_new) (skv_shards kv) \<and>
     (\<forall>i<kv_shard_count kv. \<exists>s.
        ss_shards (skv_shards kv) ! i = \<lparr>sh_queue = [], sh_state = s, sh_status = ShardRunning\<rparr> \<and>
        kv_valid (\<lambda>k. place k (kv_shard_count kv)) i s)"

subsection \<open>The shard service implements the map\<close>

lemma kv_dom_part:
  assumes "kv_valid pl i s" "\<And>k. pl k = i \<Longrightarrow> m k = kv_view s k"
  shows "{k \<in> dom m. pl k = i} = fst ` set (kv_map s)"
proof -
  have "k \<in> dom m \<longleftrightarrow> k \<in> fst ` set (kv_map s)" if "pl k = i" for k
    using assms(2) [OF that] dom_map_of_conv_image_fst [of "kv_map s"] by (metis domIff)
  then show ?thesis using assms(1) by (auto simp: kv_valid_def)
qed

lemma kvs_put_valid: "kv_valid pl i s \<Longrightarrow> pl key = i \<Longrightarrow> kv_valid pl i (kvs_put key value s)"
  by (auto simp: kv_valid_def kvs_put_def distinct_update dom_update)

lemma kvs_delete_valid: "kv_valid pl i s \<Longrightarrow> kv_valid pl i (snd (kvs_delete key s))"
  by (auto simp: kv_valid_def kvs_delete_def AList.delete_eq distinct_map_filter)

lemma kv_step_valid:
  "kv_valid pl i s \<Longrightarrow> kv_ok pl i c \<Longrightarrow> run_kv_shard c s = Some (r, s') \<Longrightarrow> kv_valid pl i s'"
  by (cases c)
    (auto simp: kv_ok_def kvs_compare_and_put_def kvs_get_or_put_def kvs_put_valid Let_def case_prod_unfold
      kvs_delete_valid split: if_splits option.splits)

lemma kv_service_spec:
  assumes "kv_valid pl i s" "kv_ok pl i c" "run_kv_shard c s = Some (r, s')"
    and m: "\<And>k. pl k = i \<Longrightarrow> m k = kv_view s k"
  shows "fst (kv_spec pl i c m) = r \<and>
    (\<forall>k. snd (kv_spec pl i c m) k = (if pl k = i then kv_view s' k else m k))"
proof -
  note part = kv_dom_part [OF assms(1) m]
  have "sort (map fst (kv_map s)) = sorted_list_of_set (fst ` set (kv_map s))"
    "length (kv_map s) = card (fst ` set (kv_map s))"
    using assms(1) sorted_list_of_set_sort_remdups [of "map fst (kv_map s)"]
      distinct_card [of "map fst (kv_map s)"]
    by (simp_all add: kv_valid_def distinct_remdups_id)
  then show ?thesis
    using assms(2,3) part m
    by (cases c)
      (auto simp: kv_ok_def kvs_get_def kvs_put_def kvs_compare_and_put_def kvs_get_or_put_def
        kvs_delete_def kvs_len_def kvs_keys_def update_conv delete_conv'
        split: if_splits option.splits)
qed

interpretation kv_keyed: keyed_service run_kv_shard "\<lambda>_. kv_service_new" pl kv_view "kv_ok pl" "kv_valid pl"
    "kv_spec pl" for pl :: "string \<Rightarrow> nat"
proof
  show "kv_valid pl i kv_service_new" for i by (simp add: kv_valid_def kv_service_new_def)
qed (rule kv_step_valid kv_service_spec; assumption)+

lemma kv_total: "svc_total run_kv_shard"
proof -
  have "run_kv_shard c s \<noteq> None" for c s by (cases c) (simp_all add: Let_def case_prod_unfold)
  then show ?thesis by (simp add: svc_total_def)
qed

subsection \<open>Interleaved clients\<close>

abbreviation kv_event_ok :: "(string \<Rightarrow> nat) \<Rightarrow> kv_command shard_event \<Rightarrow> bool" where
  "kv_event_ok pl ev \<equiv> event_ok (kv_ok pl) ev \<and> (\<forall>i. ev \<noteq> EvStop i)"

lemma kv_try_request_event:
  assumes "shard = Inl e \<or> shard = Inr i \<and> i < length (ss_shards (skv_shards kv)) \<and> kv_ok pl i c"
  shows "\<exists>es. snd (kv_try_request shard c kv) =
      kv\<lparr>skv_shards := fold (on_event run_kv_shard) es (skv_shards kv)\<rparr> \<and>
    (\<forall>ev\<in>set es. kv_event_ok pl ev)"
proof (cases shard)
  case (Inl e)
  then show ?thesis by (intro exI [of _ "[]"]) (simp add: kv_try_request_def)
next
  case (Inr j)
  then show ?thesis
    using assms by (intro exI [of _ "[EvRequest i c]"])
      (auto simp: kv_try_request_def split: sum.splits prod.splits)
qed

lemma kv_step_events:
  assumes "placement place" "0 < kv_shard_count kv"
  shows "\<exists>es. kv_client_step place ev kv =
      kv\<lparr>skv_shards := fold (on_event run_kv_shard) es (skv_shards kv)\<rparr> \<and>
    (\<forall>ev\<in>set es. kv_event_ok (\<lambda>k. place k (kv_shard_count kv)) ev)"
proof -
  let ?pl = "\<lambda>k. place k (kv_shard_count kv)"
  have key: "\<exists>es. snd (kv_try_request (shard_for_owned_key place k kv) c kv) =
        kv\<lparr>skv_shards := fold (on_event run_kv_shard) es (skv_shards kv)\<rparr> \<and>
      (\<forall>ev\<in>set es. kv_event_ok ?pl ev)" if "kv_key c = Some k" for c k
    by (rule kv_try_request_event [where i = "?pl k" and e = ShardStopped])
      (use that placement.shard_for_less [OF assms] in
        \<open>simp add: shard_for_owned_key_def kv_ensure_running_def get_by_id_def kv_shard_for_key_def
          kv_shard_count_def shard_set_len_def kv_ok_def\<close>)
  have shard: "\<exists>es. snd (kv_try_request (kv_shard i kv) c kv) =
        kv\<lparr>skv_shards := fold (on_event run_kv_shard) es (skv_shards kv)\<rparr> \<and>
      (\<forall>ev\<in>set es. kv_event_ok ?pl ev)" if "kv_key c = None" for c i
    by (rule kv_try_request_event [where i = i and e = "if skv_stopped kv then ShardStopped else InvalidShardId i"])
      (use that in \<open>simp add: kv_shard_def kv_ensure_running_def get_by_id_def kv_ok_def\<close>)
  have ev: "\<exists>es. kv\<lparr>skv_shards := on_event run_kv_shard ev (skv_shards kv)\<rparr> =
        kv\<lparr>skv_shards := fold (on_event run_kv_shard) es (skv_shards kv)\<rparr> \<and>
      (\<forall>ev\<in>set es. kv_event_ok ?pl ev)" if "kv_event_ok ?pl ev" for ev
    by (rule exI [of _ "[ev]"]) (simp add: that)
  have none: "\<exists>es. kv = kv\<lparr>skv_shards := fold (on_event run_kv_shard) es (skv_shards kv)\<rparr> \<and>
      (\<forall>ev\<in>set es. kv_event_ok ?pl ev)"
    by (rule exI [of _ "[]"]) simp
  show ?thesis
  proof (cases ev)
    case (KvTry c)
    show ?thesis
      unfolding KvTry kv_client_step.simps
      by (cases c) (simp_all only: kv_command.case try_submit_get_def try_submit_put_def
          try_submit_compare_and_put_def try_submit_get_or_put_def try_submit_delete_def key kv_key.simps none)
  qed (simp_all only: kv_client_step.simps try_submit_len_on_shard_def try_submit_keys_on_shard_def
      shard kv_key.simps ev event_ok.simps shard_event.distinct simp_thms)
qed

lemma kv_shard_count_update:
  "kv_shard_count (kv\<lparr>skv_shards := fold (on_event run_kv_shard) es (skv_shards kv)\<rparr>) = kv_shard_count kv"
  by (simp add: kv_shard_count_def shard_set_len_def length_shards_events)

lemma kv_history_events:
  assumes "placement place" "0 < kv_shard_count kv"
  shows "\<exists>es. fold (kv_client_step place) evs kv =
      kv\<lparr>skv_shards := fold (on_event run_kv_shard) es (skv_shards kv)\<rparr> \<and>
    (\<forall>ev\<in>set es. kv_event_ok (\<lambda>k. place k (kv_shard_count kv)) ev)"
  using assms(2)
proof (induction evs arbitrary: kv)
  case Nil
  show ?case by (rule exI [of _ "[]"]) simp
next
  case (Cons ev evs)
  obtain es where es: "kv_client_step place ev kv =
      kv\<lparr>skv_shards := fold (on_event run_kv_shard) es (skv_shards kv)\<rparr>"
    "\<forall>ev\<in>set es. kv_event_ok (\<lambda>k. place k (kv_shard_count kv)) ev"
    using kv_step_events [OF assms(1) Cons.prems] by blast
  obtain es' where es': "fold (kv_client_step place) evs (kv_client_step place ev kv) =
      (kv_client_step place ev kv)\<lparr>skv_shards :=
        fold (on_event run_kv_shard) es' (skv_shards (kv_client_step place ev kv))\<rparr>"
    "\<forall>ev\<in>set es'. kv_event_ok (\<lambda>k. place k (kv_shard_count kv)) ev"
    using Cons.IH [of "kv_client_step place ev kv"] Cons.prems by (auto simp: es(1) kv_shard_count_update)
  show ?case
    by (rule exI [of _ "es @ es'"]) (use es es' in auto)
qed

lemma kv_start_ok:
  "kv_start_with_placement cfg = Inr kv \<Longrightarrow>
     kv = \<lparr>skv_shards = shard_set_start (sc_shard_count cfg) (sc_mailbox_capacity cfg) (\<lambda>_. kv_service_new),
           skv_stopped = False\<rparr> \<and> 0 < sc_shard_count cfg \<and> 0 < sc_mailbox_capacity cfg"
  by (auto simp: kv_start_with_placement_def shard_config_validate_def split: if_splits)

lemma kv_started_count: "kv_start_with_placement cfg = Inr kv \<Longrightarrow> kv_shard_count kv = sc_shard_count cfg"
  by (auto simp: kv_shard_count_def shard_set_len_def shard_set_start_def dest!: kv_start_ok)

lemma kv_started_history:
  assumes "placement place" "kv_start_with_placement cfg = Inr kv0"
  shows "\<exists>es. fold (kv_client_step place) evs kv0 =
      kv0\<lparr>skv_shards := fold (on_event run_kv_shard) es (skv_shards kv0)\<rparr> \<and>
    (\<forall>ev\<in>set es. kv_event_ok (\<lambda>k. place k (sc_shard_count cfg)) ev)"
proof -
  have "0 < sc_shard_count cfg" using kv_start_ok [OF assms(2)] by simp
  from kv_history_events [OF assms(1), of kv0 evs, unfolded kv_started_count [OF assms(2)], OF this]
  show ?thesis .
qed

subsection \<open>Blocking calls on an idle store\<close>

lemma kv_wait_request:
  "kv_wait (kv_request (Inr i) c kv) =
   (let (r, ss) = blocking_call run_kv_shard i c (skv_shards kv) in (kv_unwrap r, kv\<lparr>skv_shards := ss\<rparr>))"
  by (auto simp: kv_wait_def kv_request_def blocking_call_def Let_def split: sum.splits prod.splits)

lemma kv_start_idle:
  assumes "placement place" "kv_start_with_placement cfg = Inr kv"
  shows "kv_idle place kv \<and> kv_contents place kv = Map.empty"
proof -
  note kv = kv_start_ok [OF assms(2)]
  have "place k (sc_shard_count cfg) < sc_shard_count cfg" for k
    using placement.shard_for_less [OF assms(1)] kv by simp
  then have "kv_contents place kv = Map.empty"
    using kv by (auto simp: kv_contents_def global_view_def kv_shard_count_def shard_set_len_def
        shard_set_start_def kv_service_new_def fun_eq_iff)
  moreover have "kv_idle place kv"
    using kv ss_inv_start
    by (auto simp: kv_idle_def kv_shard_count_def shard_set_len_def kv_valid_def kv_service_new_def)
      (auto simp: shard_set_start_def)
  ultimately show ?thesis by simp
qed

lemma kv_call_idle:
  assumes "placement place" "kv_idle place kv" "kv_key c = Some k"
  shows "\<exists>kv'. kv_wait (kv_request (shard_for_owned_key place k kv) c kv) =
      (Some (Inr (fst (kv_spec pl i c (kv_contents place kv)))), kv') \<and> kv_idle place kv' \<and>
    kv_contents place kv' = snd (kv_spec pl i c (kv_contents place kv))"
proof -
  let ?n = "kv_shard_count kv" and ?ss = "skv_shards kv"
  let ?pl = "\<lambda>k. place k ?n"
  let ?i = "?pl k"
  have i: "?i < ?n" using assms by (simp add: kv_idle_def placement.shard_for_less)
  then obtain s where s: "ss_shards ?ss ! ?i = \<lparr>sh_queue = [], sh_state = s, sh_status = ShardRunning\<rparr>"
      "kv_valid ?pl ?i s"
    using assms(2) unfolding kv_idle_def by blast
  have ok: "kv_ok ?pl ?i c" using assms(3) by (simp add: kv_ok_def)
  obtain r s' where r: "run_kv_shard c s = Some (r, s')"
    using kv_total unfolding svc_total_def by fastforce
  have "\<exists>ss'. blocking_call run_kv_shard ?i c ?ss = (Some (Inr (Answer r)), ss') \<and>
      ss_inv run_kv_shard (\<lambda>_. kv_service_new) ss' \<and>
      ss_shards ss' = (ss_shards ?ss)[?i := (ss_shards ?ss ! ?i)\<lparr>sh_queue := [], sh_state := s'\<rparr>] \<and>
      ss_capacity ss' = ss_capacity ?ss"
    by (rule blocking_call_answer [where pre = "[]" and rs = "[]" and ?s1.0 = s])
      (use assms(2) i s r in \<open>simp_all add: kv_idle_def kv_shard_count_def shard_set_len_def\<close>)
  then obtain ss' where c: "blocking_call run_kv_shard ?i c ?ss = (Some (Inr (Answer r)), ss')"
      "ss_inv run_kv_shard (\<lambda>_. kv_service_new) ss'" "ss_capacity ss' = ss_capacity ?ss"
      "ss_shards ss' = (ss_shards ?ss)[?i := \<lparr>sh_queue = [], sh_state = s', sh_status = ShardRunning\<rparr>]"
    by (auto simp: s(1))
  let ?kv' = "kv\<lparr>skv_shards := ss'\<rparr>"
  have n': "kv_shard_count ?kv' = ?n" by (simp add: kv_shard_count_def shard_set_len_def c(4))
  have len: "length (ss_shards ?ss) = ?n" by (simp add: kv_shard_count_def shard_set_len_def)
  have spec: "fst (kv_spec ?pl ?i c (kv_contents place kv)) = r \<and>
      (\<forall>x. snd (kv_spec ?pl ?i c (kv_contents place kv)) x =
        (if ?pl x = ?i then kv_view s' x else kv_contents place kv x))"
    by (rule kv_service_spec [OF s(2) ok r]) (simp add: kv_contents_def global_view_def s(1))
  have same: "kv_spec pl i c m = kv_spec ?pl ?i c m" for m using assms(3) by (cases c) simp_all
  have "kv_contents place ?kv' x = (if ?pl x = ?i then kv_view s' x else kv_contents place kv x)" for x
    using i by (auto simp: kv_contents_def global_view_def n' c(4) len nth_list_update)
  then have "kv_contents place ?kv' = snd (kv_spec pl i c (kv_contents place kv))"
    using spec by (auto simp: same fun_eq_iff)
  moreover have "kv_idle place ?kv'"
  proof -
    have "\<exists>s. ss_shards ss' ! j = \<lparr>sh_queue = [], sh_state = s, sh_status = ShardRunning\<rparr> \<and> kv_valid ?pl j s"
      if "j < ?n" for j
      using that assms(2) i kv_step_valid [OF s(2) ok r]
      by (cases "j = ?i") (auto simp: c(4) len kv_idle_def)
    then show ?thesis using assms(2) c(2,3) n' by (simp add: kv_idle_def)
  qed
  moreover have "kv_wait (kv_request (shard_for_owned_key place k kv) c kv) = (Some (Inr r), ?kv')"
  proof -
    have "shard_for_owned_key place k kv = Inr ?i"
      using assms(2) i len by (simp add: shard_for_owned_key_def kv_ensure_running_def get_by_id_def
          kv_shard_for_key_def kv_idle_def)
    then show ?thesis by (simp add: kv_wait_request c(1))
  qed
  ultimately show ?thesis using spec by (intro exI [of _ ?kv']) (simp add: same)
qed

lemma kv_api_idle:
  assumes "placement place" "kv_idle place kv" "kv_key c = Some k"
  shows "\<exists>kv'. kv_api place c kv = (Some (Inr (fst (kv_spec pl i c (kv_contents place kv)))), kv') \<and>
    kv_idle place kv' \<and> kv_contents place kv' = snd (kv_spec pl i c (kv_contents place kv))"
proof -
  have "kv_api place c kv = kv_wait (kv_request (shard_for_owned_key place k kv) c kv)"
    using assms(3) by (cases c) (simp_all add: kv_get_def submit_get_def kv_put_def submit_put_def
        kv_compare_and_put_def submit_compare_and_put_def kv_get_or_put_def submit_get_or_put_def
        kv_delete_def submit_delete_def)
  then show ?thesis using kv_call_idle [OF assms] by simp
qed

subsection \<open>Aggregates on an idle store\<close>

lemma kv_broadcast_idle:
  assumes "kv_idle place kv" "\<And>s. run_kv_shard c s = Some (r s, s)"
  shows "\<exists>kv'. kv_wait_all (kv_request_all (\<lambda>i. request run_kv_shard i c) kv) =
      (Some (Inr (map (\<lambda>i. (i, r (sh_state (ss_shards (skv_shards kv) ! i)))) [0..<kv_shard_count kv])), kv') \<and>
    kv_idle place kv' \<and> kv_contents place kv' = kv_contents place kv"
proof -
  let ?n = "kv_shard_count kv" and ?ss = "skv_shards kv"
  have len: "length (ss_shards ?ss) = ?n" by (simp add: kv_shard_count_def shard_set_len_def)
  have idle: "\<forall>i<?n. \<exists>s. ss_shards ?ss ! i = \<lparr>sh_queue = [], sh_state = s, sh_status = ShardRunning\<rparr> \<and>
      run_kv_shard c s = Some (r (sh_state (ss_shards ?ss ! i)), s)"
  proof (intro allI impI)
    fix i assume "i < ?n"
    then obtain s where "ss_shards ?ss ! i = \<lparr>sh_queue = [], sh_state = s, sh_status = ShardRunning\<rparr>"
      using assms(1) unfolding kv_idle_def by blast
    then show "\<exists>s. ss_shards ?ss ! i = \<lparr>sh_queue = [], sh_state = s, sh_status = ShardRunning\<rparr> \<and>
        run_kv_shard c s = Some (r (sh_state (ss_shards ?ss ! i)), s)" using assms(2) by simp
  qed
  have inv: "ss_inv run_kv_shard (\<lambda>_. kv_service_new) ?ss" "0 < ss_capacity ?ss"
    using assms(1) by (simp_all add: kv_idle_def)
  obtain ns ss1 ss2 where b: "request_all (\<lambda>i. request run_kv_shard i c) [0..<?n] ?ss = (Inr ns, ss1)"
      "length ns = ?n" "wait_all run_kv_shard (zip [0..<?n] ns) ss1 =
        (Some (Inr (map (\<lambda>i. Answer (r (sh_state (ss_shards ?ss ! i)))) [0..<?n])), ss2)"
      "ss_inv run_kv_shard (\<lambda>_. kv_service_new) ss2" "ss_capacity ss2 = ss_capacity ?ss"
      "ss_shards ss2 = ss_shards ?ss"
    using broadcast_idle [where svc = run_kv_shard and c = c and r = "\<lambda>i. r (sh_state (ss_shards ?ss ! i))",
        OF inv, unfolded len, OF idle] by blast
  have "kv_idle place (kv\<lparr>skv_shards := ss2\<rparr>)" "kv_contents place (kv\<lparr>skv_shards := ss2\<rparr>) = kv_contents place kv"
    using assms(1) b(4-6) by (simp_all add: kv_idle_def kv_contents_def kv_shard_count_def shard_set_len_def
        global_view_def fun_eq_iff)
  moreover have "kv_wait_all (kv_request_all (\<lambda>i. request run_kv_shard i c) kv) =
      (Some (Inr (map (\<lambda>i. (i, r (sh_state (ss_shards ?ss ! i)))) [0..<?n])), kv\<lparr>skv_shards := ss2\<rparr>)"
    using assms(1) b(1-3)
    by (simp add: kv_wait_all_def kv_request_all_def kv_ensure_running_def kv_idle_def o_def zip_map2 zip_same_conv_map)
  ultimately show ?thesis by blast
qed

lemma kv_dom_shards:
  assumes "placement place" "kv_idle place kv"
  shows "dom (kv_contents place kv) =
      (\<Union>i<kv_shard_count kv. fst ` set (kv_map (sh_state (ss_shards (skv_shards kv) ! i))))" (is ?dom)
    and "i < kv_shard_count kv \<Longrightarrow> distinct (map fst (kv_map (sh_state (ss_shards (skv_shards kv) ! i))))"
    and "i < kv_shard_count kv \<Longrightarrow> k \<in> fst ` set (kv_map (sh_state (ss_shards (skv_shards kv) ! i))) \<Longrightarrow>
      place k (kv_shard_count kv) = i"
proof -
  have v: "kv_valid (\<lambda>k. place k (kv_shard_count kv)) i (sh_state (ss_shards (skv_shards kv) ! i))"
    if "i < kv_shard_count kv" for i
    using assms(2) that by (auto simp: kv_idle_def)
  let ?keys = "\<lambda>i. fst ` set (kv_map (sh_state (ss_shards (skv_shards kv) ! i)))"
  have "place k (kv_shard_count kv) < kv_shard_count kv" for k
    using assms by (simp add: kv_idle_def placement.shard_for_less)
  moreover have "k \<in> dom (kv_contents place kv) \<longleftrightarrow> k \<in> ?keys (place k (kv_shard_count kv))" for k
    by (simp add: kv_contents_def global_view_def domIff map_of_eq_None_iff)
  moreover have "place k (kv_shard_count kv) = i" if "i < kv_shard_count kv" "k \<in> ?keys i" for i k
    using v [OF that(1)] that(2) unfolding kv_valid_def by blast
  ultimately have "k \<in> dom (kv_contents place kv) \<longleftrightarrow> (\<exists>i<kv_shard_count kv. k \<in> ?keys i)" for k
    by metis
  then show ?dom by blast
  show "i < kv_shard_count kv \<Longrightarrow> distinct (map fst (kv_map (sh_state (ss_shards (skv_shards kv) ! i))))"
    using v [of i] by (simp add: kv_valid_def)
  show "i < kv_shard_count kv \<Longrightarrow> k \<in> fst ` set (kv_map (sh_state (ss_shards (skv_shards kv) ! i))) \<Longrightarrow>
      place k (kv_shard_count kv) = i"
    using v [of i] unfolding kv_valid_def by blast
qed

lemma kv_disjoint_keys:
  fixes key :: "nat \<Rightarrow> string list"
  assumes "\<And>i. i < n \<Longrightarrow> distinct (key i)" "\<And>i k. i < n \<Longrightarrow> k \<in> set (key i) \<Longrightarrow> pl k = i"
  shows "distinct (concat (map key [0..<n]))"
  using assms
proof (induction n)
  case (Suc n)
  have "set (key n) \<inter> (\<Union>x\<in>{..<n}. set (key x)) = {}"
  proof -
    have False if "k \<in> set (key n)" "x < n" "k \<in> set (key x)" for k x
      using Suc.prems(2) [of n k] Suc.prems(2) [of x k] that by simp
    then show ?thesis by blast
  qed
  then show ?case using Suc by (auto simp: atLeast0LessThan)
qed simp

lemma foldl_concat: "foldl (\<lambda>ks x. ks @ f x) ks xs = ks @ concat (map f xs)"
  by (induction xs arbitrary: ks) simp_all

lemma foldl_total: "foldl (\<lambda>(t :: nat) x. t + f x) t xs = t + sum_list (map f xs)"
  by (induction xs arbitrary: t) simp_all

lemma kv_stopped_errors:
  "skv_stopped kv \<Longrightarrow> kv_api place c kv = (Some (Inl ShardStopped), kv)"
  by (cases c) (simp_all add: kv_get_def submit_get_def kv_put_def submit_put_def
        kv_compare_and_put_def submit_compare_and_put_def kv_get_or_put_def submit_get_or_put_def
        kv_delete_def submit_delete_def kv_len_on_shard_def submit_len_on_shard_def kv_keys_on_shard_def
        submit_keys_on_shard_def kv_shard_def shard_for_owned_key_def kv_ensure_running_def
        kv_request_def kv_wait_def)

subsection \<open>Properties\<close>

text \<open>C2: the sharded store is linearizable.  From the started store, under any
  interleaving of client submissions, shard threads and reply receptions, and for every placement
  that keeps the contract of the trait, all the answers given by all the shards are, in the order of
  execution, those of one sequential map over all keys that starts empty; the states of the shards
  together are that map.\<close>

theorem kv_linearizable:
  assumes "placement place" "kv_start_with_placement cfg = Inr kv0"
  shows "let kv = fold (kv_client_step place) evs kv0 in
    spec_run (kv_spec (\<lambda>k. place k (sc_shard_count cfg))) (ss_log (skv_shards kv)) Map.empty =
      Some (kv_contents place kv)"
proof -
  let ?n = "sc_shard_count cfg"
  note kv0 = kv_start_ok [OF assms(2)] and n = kv_started_count [OF assms(2)]
  obtain es where es: "fold (kv_client_step place) evs kv0 =
      kv0\<lparr>skv_shards := fold (on_event run_kv_shard) es (skv_shards kv0)\<rparr>"
    "\<forall>ev\<in>set es. kv_event_ok (\<lambda>k. place k ?n) ev"
    using kv_started_history [OF assms(1,2)] by blast
  have "kv_shard_count (fold (kv_client_step place) evs kv0) = ?n"
    by (simp only: es(1) kv_shard_count_update n)
  moreover have "place k ?n < ?n" for k using placement.shard_for_less [OF assms(1)] kv0 by simp
  ultimately show ?thesis
    using kv_keyed.linearizable [of "\<lambda>k. place k ?n" ?n es "sc_mailbox_capacity cfg"] es kv0
    by (simp add: Let_def kv_contents_def shard_history_def kv_service_new_def)
qed

theorem kv_linearizable_witness:
  "\<exists>kv0. kv_start_with_placement (with_mailbox_capacity 2 (shard_config_new 3)) = Inr kv0 \<and>
     (let place = (\<lambda>k n. length k mod n);
          kv = fold (kv_client_step place)
            [KvTry (KvPut ''a'' ''1''), KvTry (KvPut ''bb'' ''2''), KvServe 1, KvServe 2,
             KvTry (KvGet ''a''), KvServe 1] kv0
      in spec_run (kv_spec (\<lambda>k. place k 3)) (ss_log (skv_shards kv)) Map.empty =
           Some (kv_contents place kv) \<and>
         map (\<lambda>(_, _, _, r). r) (ss_log (skv_shards kv)) = [KvUnit, KvUnit, KvValue (Some ''1'')])"
proof -
  let ?cfg = "with_mailbox_capacity 2 (shard_config_new 3)"
  let ?pl = "\<lambda>(k :: string) n. length k mod n"
  let ?evs = "[KvTry (KvPut ''a'' ''1''), KvTry (KvPut ''bb'' ''2''), KvServe 1, KvServe 2,
             KvTry (KvGet ''a''), KvServe 1]"
  have pl: "placement ?pl" by unfold_locales simp
  have "case kv_start_with_placement ?cfg of Inl e \<Rightarrow> False
    | Inr kv0 \<Rightarrow> map (\<lambda>(_, _, _, r). r) (ss_log (skv_shards (fold (kv_client_step ?pl) ?evs kv0))) =
        [KvUnit, KvUnit, KvValue (Some ''1'')]"
    by code_simp
  then obtain kv0 where kv0: "kv_start_with_placement ?cfg = Inr kv0"
      "map (\<lambda>(_, _, _, r). r) (ss_log (skv_shards (fold (kv_client_step ?pl) ?evs kv0))) =
        [KvUnit, KvUnit, KvValue (Some ''1'')]"
    by (auto split: sum.splits)
  have "sc_shard_count ?cfg = 3" by (simp add: with_mailbox_capacity_def shard_config_new_def)
  with kv0 show ?thesis
    using kv_linearizable [OF pl kv0(1), of ?evs] unfolding Let_def by metis
qed

text \<open>C6: calls that wait for their answer are operations of one map.  On a store whose
  threads run and whose mailboxes are empty, any sequence of \<open>get\<close>, \<open>put\<close>, \<open>compare_and_put\<close>,
  \<open>get_or_put\<close> and \<open>delete\<close> returns, without an error and without waiting forever, the answers of
  those operations on the map the store holds, and leaves the store holding the resulting map.\<close>

theorem kv_calls_refine_map:
  assumes "placement place" "kv_idle place kv" "\<forall>c\<in>set cs. kv_key c \<noteq> None"
  shows "\<exists>kv'. kv_api_run place cs kv =
      (map (\<lambda>a. Some (Inr a)) (fst (kv_map_run pl cs (kv_contents place kv))), kv') \<and>
    kv_idle place kv' \<and> kv_contents place kv' = snd (kv_map_run pl cs (kv_contents place kv))"
  using assms(2,3)
proof (induction cs arbitrary: kv)
  case (Cons c cs)
  obtain k where "kv_key c = Some k" using Cons.prems(2) by auto
  then obtain kv1 where c: "kv_api place c kv = (Some (Inr (fst (kv_spec pl 0 c (kv_contents place kv)))), kv1)"
      "kv_idle place kv1" "kv_contents place kv1 = snd (kv_spec pl 0 c (kv_contents place kv))"
    using kv_api_idle [OF assms(1) Cons.prems(1)] by blast
  show ?case using Cons.IH [OF c(2)] Cons.prems(2) by (auto simp: c(1,3) Let_def case_prod_unfold)
qed simp

theorem kv_calls_refine_map_witness:
  "\<exists>kv0 kv'. kv_start_with_placement (shard_config_new 4) = Inr kv0 \<and>
     kv_api_run hash_shard_for [KvPut ''a'' ''1'', KvCompareAndPut ''a'' (Some ''0'') ''2'', KvGetOrPut ''b'' ''3'',
         KvDelete ''a'', KvGet ''a''] kv0 =
       (map (\<lambda>a. Some (Inr a)) [KvUnit, KvReplaced False, KvString ''3'', KvValue (Some ''1''), KvValue None], kv')"
proof -
  let ?cfg = "shard_config_new 4"
  let ?cs = "[KvPut ''a'' ''1'', KvCompareAndPut ''a'' (Some ''0'') ''2'', KvGetOrPut ''b'' ''3'',
         KvDelete ''a'', KvGet ''a'']"
  have "case kv_start_with_placement ?cfg of Inl e \<Rightarrow> False | Inr kv0 \<Rightarrow> True" by code_simp
  then obtain kv0 where kv0: "kv_start_with_placement ?cfg = Inr kv0" by (auto split: sum.splits)
  note idle = kv_start_idle [OF hash_placement.placement_axioms kv0]
  have cs: "\<forall>c\<in>set ?cs. kv_key c \<noteq> None" by simp
  show ?thesis
    using kv_calls_refine_map [OF hash_placement.placement_axioms conjunct1 [OF idle] cs, of "\<lambda>_. 0"] kv0 idle
    by (auto simp: Let_def)
qed

text \<open>The aggregates see every shard once.  On an idle store \<open>total_len\<close> is the number
  of keys of the map, \<open>all_keys\<close> the sorted list of its keys, the shard snapshots report the number
  of keys placed on each shard, and none of the three changes the map.\<close>

theorem kv_aggregates_exact:
  assumes "placement place" "kv_idle place kv"
  shows "\<exists>kv1 kv2 kv3.
    kv_total_len kv = (Some (Inr (card (dom (kv_contents place kv)))), kv1) \<and>
    kv_all_keys kv = (Some (Inr (sorted_list_of_set (dom (kv_contents place kv)))), kv2) \<and>
    kv_shard_snapshots kv = (Some (Inr (map (\<lambda>i. \<lparr>snap_shard_id = i,
        snap_len = card {k \<in> dom (kv_contents place kv). place k (kv_shard_count kv) = i}\<rparr>)
        [0..<kv_shard_count kv])), kv3) \<and>
    (\<forall>kv'\<in>{kv1, kv2, kv3}. kv_idle place kv' \<and> kv_contents place kv' = kv_contents place kv)"
proof -
  let ?n = "kv_shard_count kv" and ?st = "\<lambda>i. sh_state (ss_shards (skv_shards kv) ! i)"
  let ?keys = "\<lambda>i. map fst (kv_map (?st i))"
  note shards = kv_dom_shards [OF assms]
  have keys: "distinct (?keys i)" "\<And>k. k \<in> set (?keys i) \<Longrightarrow> place k ?n = i" if "i < ?n" for i
    using shards(2,3) [OF that] by simp_all
  have all: "distinct (concat (map ?keys [0..<?n]))"
    by (rule kv_disjoint_keys [where pl = "\<lambda>k. place k ?n"]) (use keys in blast)+
  have dom: "dom (kv_contents place kv) = set (concat (map ?keys [0..<?n]))"
    unfolding shards(1) by (simp add: atLeast0LessThan)
  have part: "{k \<in> dom (kv_contents place kv). place k ?n = i} = set (?keys i)" if "i < ?n" for i
    unfolding shards(1) using keys(2) that by auto
  have len: "length (kv_map (?st i)) = card {k \<in> dom (kv_contents place kv). place k ?n = i}" if "i < ?n" for i
    unfolding part [OF that] using distinct_card [OF shards(2) [OF that]] by simp
  obtain kv1 where kv1: "kv_wait_all (submit_len_all kv) =
      (Some (Inr (map (\<lambda>i. (i, KvCount (kvs_len (?st i)))) [0..<?n])), kv1)"
      "kv_idle place kv1" "kv_contents place kv1 = kv_contents place kv"
    using kv_broadcast_idle [OF assms(2), of KvLen "\<lambda>s. KvCount (kvs_len s)"] unfolding submit_len_all_def by auto
  obtain kv2 where kv2: "kv_wait_all (submit_all_keys kv) =
      (Some (Inr (map (\<lambda>i. (i, KvKeyList (kvs_keys (?st i)))) [0..<?n])), kv2)"
      "kv_idle place kv2" "kv_contents place kv2 = kv_contents place kv"
    using kv_broadcast_idle [OF assms(2), of KvKeys "\<lambda>s. KvKeyList (kvs_keys s)"] unfolding submit_all_keys_def by auto
  have "kv_total_len kv = (Some (Inr (card (dom (kv_contents place kv)))), kv1)"
    using distinct_card [OF all] unfolding dom
    by (simp add: kv_total_len_def total_len_wait_def kv1(1) case_prod_unfold foldl_total o_def kvs_len_def
        length_concat)
  moreover have "kv_all_keys kv = (Some (Inr (sorted_list_of_set (dom (kv_contents place kv)))), kv2)"
  proof -
    have "distinct (concat (map (\<lambda>i. kvs_keys (?st i)) [0..<?n]))"
      by (rule kv_disjoint_keys [where pl = "\<lambda>k. place k ?n"])
        (use keys in \<open>simp_all add: kvs_keys_def\<close>)
    moreover have "set (concat (map (\<lambda>i. kvs_keys (?st i)) [0..<?n])) = dom (kv_contents place kv)"
      unfolding dom by (simp add: kvs_keys_def)
    ultimately show ?thesis
      using sorted_list_of_set_sort_remdups [of "concat (map (\<lambda>i. kvs_keys (?st i)) [0..<?n])"]
      by (simp add: kv_all_keys_def all_keys_wait_def kv2(1) case_prod_unfold foldl_concat o_def distinct_remdups_id)
  qed
  moreover have "kv_shard_snapshots kv = (Some (Inr (map (\<lambda>i. \<lparr>snap_shard_id = i,
        snap_len = card {k \<in> dom (kv_contents place kv). place k ?n = i}\<rparr>) [0..<?n])), kv1)"
    by (simp add: kv_shard_snapshots_def shard_snapshots_wait_def kv1(1) o_def kvs_len_def len)
  ultimately show ?thesis using kv1 kv2 by blast
qed

theorem kv_aggregates_exact_witness:
  "\<exists>kv0 kv1. kv_start_with_placement (shard_config_new 2) = Inr kv0 \<and> kv_total_len kv0 = (Some (Inr 0), kv1)"
proof -
  have "case kv_start_with_placement (shard_config_new 2) of Inl e \<Rightarrow> False | Inr kv0 \<Rightarrow> True" by code_simp
  then obtain kv0 where kv0: "kv_start_with_placement (shard_config_new 2) = Inr kv0" by (auto split: sum.splits)
  note idle = kv_start_idle [OF hash_placement.placement_axioms kv0]
  show ?thesis
    using kv_aggregates_exact [OF hash_placement.placement_axioms conjunct1 [OF idle]] kv0 idle by auto
qed

text \<open>Shutting the store down is final and loses nothing.  After any interleaving of
  clients and shards, \<open>shutdown\<close> succeeds, every command accepted before has been executed on its
  shard, a second \<open>shutdown\<close> succeeds without any effect, and every later operation reports
  \<open>ShardStopped\<close>.\<close>

theorem kv_shutdown_final:
  assumes "placement place" "kv_start_with_placement cfg = Inr kv0"
    and "kv = fold (kv_client_step place) evs kv0"
  shows "\<exists>kv'. kv_shutdown kv = (Inr (), kv') \<and> kv_shutdown kv' = (Inr (), kv') \<and>
    (\<forall>c. kv_api place c kv' = (Some (Inl ShardStopped), kv')) \<and>
    (\<forall>i < sc_shard_count cfg.
       drained_shard run_kv_shard (ss_shards (skv_shards kv) ! i) (ss_shards (skv_shards kv') ! i))"
proof -
  note kv0 = kv_start_ok [OF assms(2)] and n = kv_started_count [OF assms(2)]
  obtain es where es: "kv = kv0\<lparr>skv_shards := fold (on_event run_kv_shard) es (skv_shards kv0)\<rparr>"
    "\<forall>ev\<in>set es. kv_event_ok (\<lambda>k. place k (sc_shard_count cfg)) ev"
    using kv_started_history [OF assms(1,2)] assms(3) by blast
  have "all_serving (skv_shards kv0)"
    using kv0 by (auto simp: all_serving_def shard_set_start_def commands_def)
  then have "all_serving (skv_shards kv)" using es all_serving_events [OF kv_total] by simp
  moreover have "ss_inv run_kv_shard (\<lambda>_. kv_service_new) (skv_shards kv)"
    using es kv0 by (simp add: ss_inv_events ss_inv_start)
  moreover have "0 < ss_capacity (skv_shards kv)" "length (ss_shards (skv_shards kv)) = sc_shard_count cfg"
    using es kv0 by (simp_all add: capacity_events length_shards_events) (simp_all add: shard_set_start_def)
  ultimately obtain ss' where ss': "stop_and_join run_kv_shard (skv_shards kv) = (Inr (), ss')"
      "\<forall>i < sc_shard_count cfg. drained_shard run_kv_shard (ss_shards (skv_shards kv) ! i) (ss_shards ss' ! i)"
    using stop_and_join_ok [OF kv_total] by metis
  have "\<not> skv_stopped kv" using es kv0 by simp
  then have "kv_shutdown kv = (Inr (), kv\<lparr>skv_stopped := True, skv_shards := ss'\<rparr>)"
    by (simp add: kv_shutdown_def ss'(1))
  then show ?thesis using ss'(2) kv_stopped_errors by (simp add: kv_shutdown_def)
qed

theorem kv_shutdown_final_witness:
  "\<exists>kv0 kv'. kv_start_with_placement (shard_config_new 2) = Inr kv0 \<and>
     (let kv = fold (kv_client_step hash_shard_for) [KvTry (KvPut ''a'' ''1''), KvTry (KvPut ''b'' ''2'')] kv0
      in kv_shutdown kv = (Inr (), kv') \<and> kv_api hash_shard_for (KvGet ''a'') kv' = (Some (Inl ShardStopped), kv') \<and>
        drained_shard run_kv_shard (ss_shards (skv_shards kv) ! 0) (ss_shards (skv_shards kv') ! 0))"
proof -
  let ?cfg = "shard_config_new 2"
  have "case kv_start_with_placement ?cfg of Inl e \<Rightarrow> False | Inr kv0 \<Rightarrow> True" by code_simp
  then obtain kv0 where kv0: "kv_start_with_placement ?cfg = Inr kv0" by (auto split: sum.splits)
  have "0 < sc_shard_count ?cfg" by (simp add: shard_config_new_def)
  then show ?thesis
    using kv_shutdown_final [OF hash_placement.placement_axioms kv0 refl,
        of "[KvTry (KvPut ''a'' ''1''), KvTry (KvPut ''b'' ''2'')]"] kv0
    unfolding Let_def by blast
qed

end
