(* ===== verification/Counter.thy ===== *)
theory Counter
  imports Shard_Set
begin

text \<open>
  The sharded counter of \<open>counter.rs\<close>: one accumulator per shard.  The \<open>i64\<close> values are 64-bit
  words read by \<open>sint\<close>.  The parameter \<open>checks\<close> says whether the build checks arithmetic overflow:
  with checks an overflowing addition panics the thread that performs it, without them it wraps.
\<close>

subsection \<open>One shard\<close>

type_synonym i64 = "64 word"

definition i64_add :: "bool \<Rightarrow> i64 \<Rightarrow> i64 \<Rightarrow> i64 option" where
  "i64_add checks a b = (if checks \<and> sint (a + b) \<noteq> sint a + sint b then None else Some (a + b))"

record counter_service =
  cs_value :: i64

definition counter_service_default :: counter_service where
  "counter_service_default = \<lparr>cs_value = 0\<rparr>"

definition cs_add :: "bool \<Rightarrow> i64 \<Rightarrow> counter_service \<Rightarrow> (i64 \<times> counter_service) option" where
  "cs_add checks delta s =
     (case i64_add checks (cs_value s) delta of
        None \<Rightarrow> None
      | Some v \<Rightarrow> Some (v, s\<lparr>cs_value := v\<rparr>))"

definition cs_get :: "counter_service \<Rightarrow> i64" where
  "cs_get s = cs_value s"

datatype counter_command = CounterAdd i64 | CounterGet

fun run_counter_shard :: "bool \<Rightarrow> (counter_command, counter_service, i64) service" where
  "run_counter_shard checks (CounterAdd delta) s = cs_add checks delta s"
| "run_counter_shard checks CounterGet s = Some (cs_get s, s)"

subsection \<open>The counter\<close>

type_synonym counter_shards = "(counter_command, counter_service, i64) shard_set"
type_synonym counter_reply = "shard_id \<times> nat"

record sharded_counter =
  ct_shards :: counter_shards
  ct_stopped :: bool

definition counter_start_with_config :: "shard_config \<Rightarrow> shard_error + sharded_counter" where
  "counter_start_with_config config =
     (case shard_config_validate config of
        Inl e \<Rightarrow> Inl e
      | Inr cfg \<Rightarrow>
          Inr \<lparr>ct_shards = shard_set_start (sc_shard_count cfg) (sc_mailbox_capacity cfg)
                 (\<lambda>_. counter_service_default),
               ct_stopped = False\<rparr>)"

definition counter_shard_count :: "sharded_counter \<Rightarrow> nat" where
  "counter_shard_count c = shard_set_len (ct_shards c)"

definition counter_mailbox_capacity :: "sharded_counter \<Rightarrow> nat" where
  "counter_mailbox_capacity c = ss_capacity (ct_shards c)"

definition counter_runtime_snapshot :: "sharded_counter \<Rightarrow> runtime_snapshot" where
  "counter_runtime_snapshot c = shard_set_snapshot (ct_stopped c) (ct_shards c)"

definition counter_ensure_running :: "sharded_counter \<Rightarrow> shard_error + unit" where
  "counter_ensure_running c = (if ct_stopped c then Inl ShardStopped else Inr ())"

definition counter_shard :: "shard_id \<Rightarrow> sharded_counter \<Rightarrow> shard_error + shard_id" where
  "counter_shard i c =
     (case counter_ensure_running c of Inl e \<Rightarrow> Inl e | Inr _ \<Rightarrow> get_by_id i (ct_shards c))"

text \<open>The handle of a shard: \<open>submit_add\<close>, \<open>submit_get\<close> and the variants that do not wait for room.\<close>

definition counter_request ::
  "bool \<Rightarrow> shard_error + shard_id \<Rightarrow> counter_command \<Rightarrow> sharded_counter \<Rightarrow>
   (shard_error + counter_reply) \<times> sharded_counter" where
  "counter_request checks shard cmd c =
     (case shard of
        Inl e \<Rightarrow> (Inl e, c)
      | Inr i \<Rightarrow>
          (let (r, ss) = request (run_counter_shard checks) i cmd (ct_shards c)
           in (map_sum id (Pair i) r, c\<lparr>ct_shards := ss\<rparr>)))"

definition counter_try_request ::
  "shard_error + shard_id \<Rightarrow> counter_command \<Rightarrow> sharded_counter \<Rightarrow>
   (shard_error + counter_reply) \<times> sharded_counter" where
  "counter_try_request shard cmd c =
     (case shard of
        Inl e \<Rightarrow> (Inl e, c)
      | Inr i \<Rightarrow>
          (let (r, ss) = try_request i cmd (ct_shards c)
           in (map_sum id (Pair i) r, c\<lparr>ct_shards := ss\<rparr>)))"

fun counter_unwrap :: "(shard_error + i64 answer) option \<Rightarrow> (shard_error + i64) option" where
  "counter_unwrap (Some (Inr (Answer v))) = Some (Inr v)"
| "counter_unwrap (Some (Inr Stopped)) = None"
| "counter_unwrap (Some (Inl e)) = Some (Inl e)"
| "counter_unwrap None = None"

definition counter_wait ::
  "bool \<Rightarrow> (shard_error + counter_reply) \<times> sharded_counter \<Rightarrow>
   (shard_error + i64) option \<times> sharded_counter" where
  "counter_wait checks submitted =
     (case submitted of
        (Inl e, c) \<Rightarrow> (Some (Inl e), c)
      | (Inr (i, n), c) \<Rightarrow>
          (let (r, ss) = wait_reply (run_counter_shard checks) i n (ct_shards c)
           in (counter_unwrap r, c\<lparr>ct_shards := ss\<rparr>)))"

definition submit_add_on_shard ::
  "bool \<Rightarrow> shard_id \<Rightarrow> i64 \<Rightarrow> sharded_counter \<Rightarrow> (shard_error + counter_reply) \<times> sharded_counter" where
  "submit_add_on_shard checks i delta c = counter_request checks (counter_shard i c) (CounterAdd delta) c"

definition try_submit_add_on_shard ::
  "shard_id \<Rightarrow> i64 \<Rightarrow> sharded_counter \<Rightarrow> (shard_error + counter_reply) \<times> sharded_counter" where
  "try_submit_add_on_shard i delta c = counter_try_request (counter_shard i c) (CounterAdd delta) c"

definition add_on_shard ::
  "bool \<Rightarrow> shard_id \<Rightarrow> i64 \<Rightarrow> sharded_counter \<Rightarrow> (shard_error + i64) option \<times> sharded_counter" where
  "add_on_shard checks i delta c = counter_wait checks (submit_add_on_shard checks i delta c)"

definition try_add_on_shard ::
  "bool \<Rightarrow> shard_id \<Rightarrow> i64 \<Rightarrow> sharded_counter \<Rightarrow> (shard_error + i64) option \<times> sharded_counter" where
  "try_add_on_shard checks i delta c = counter_wait checks (try_submit_add_on_shard i delta c)"

definition submit_get_on_shard ::
  "bool \<Rightarrow> shard_id \<Rightarrow> sharded_counter \<Rightarrow> (shard_error + counter_reply) \<times> sharded_counter" where
  "submit_get_on_shard checks i c = counter_request checks (counter_shard i c) CounterGet c"

definition try_submit_get_on_shard ::
  "shard_id \<Rightarrow> sharded_counter \<Rightarrow> (shard_error + counter_reply) \<times> sharded_counter" where
  "try_submit_get_on_shard i c = counter_try_request (counter_shard i c) CounterGet c"

definition get_on_shard ::
  "bool \<Rightarrow> shard_id \<Rightarrow> sharded_counter \<Rightarrow> (shard_error + i64) option \<times> sharded_counter" where
  "get_on_shard checks i c = counter_wait checks (submit_get_on_shard checks i c)"

definition try_get_on_shard ::
  "bool \<Rightarrow> shard_id \<Rightarrow> sharded_counter \<Rightarrow> (shard_error + i64) option \<times> sharded_counter" where
  "try_get_on_shard checks i c = counter_wait checks (try_submit_get_on_shard i c)"

subsection \<open>Aggregates\<close>

definition counter_request_all ::
  "(shard_id \<Rightarrow> counter_shards \<Rightarrow> (shard_error + nat) \<times> counter_shards) \<Rightarrow> sharded_counter \<Rightarrow>
   (shard_error + counter_reply list) \<times> sharded_counter" where
  "counter_request_all submit c =
     (case counter_ensure_running c of
        Inl e \<Rightarrow> (Inl e, c)
      | Inr _ \<Rightarrow>
          (let (r, ss) = request_all submit [0..<counter_shard_count c] (ct_shards c)
           in (map_sum id (zip [0..<counter_shard_count c]) r, c\<lparr>ct_shards := ss\<rparr>)))"

definition submit_total ::
  "bool \<Rightarrow> sharded_counter \<Rightarrow> (shard_error + counter_reply list) \<times> sharded_counter" where
  "submit_total checks c = counter_request_all (\<lambda>i. request (run_counter_shard checks) i CounterGet) c"

definition try_submit_total ::
  "sharded_counter \<Rightarrow> (shard_error + counter_reply list) \<times> sharded_counter" where
  "try_submit_total c = counter_request_all (\<lambda>i. try_request i CounterGet) c"

text \<open>The fold of \<open>CounterTotalReply::wait\<close>: the sum of the waiting thread can overflow too.\<close>

fun total_fold ::
  "bool \<Rightarrow> counter_reply list \<Rightarrow> i64 \<Rightarrow> sharded_counter \<Rightarrow>
   (panic + (shard_error + i64)) option \<times> sharded_counter" where
  "total_fold checks [] acc c = (Some (Inr (Inr acc)), c)"
| "total_fold checks (h # hs) acc c =
     (case counter_wait checks (Inr h, c) of
        (None, c) \<Rightarrow> (None, c)
      | (Some (Inl e), c) \<Rightarrow> (Some (Inr (Inl e)), c)
      | (Some (Inr v), c) \<Rightarrow>
          (case i64_add checks acc v of
             None \<Rightarrow> (Some (Inl ArithmeticOverflow), c)
           | Some t \<Rightarrow> total_fold checks hs t c))"

definition counter_total_wait ::
  "bool \<Rightarrow> (shard_error + counter_reply list) \<times> sharded_counter \<Rightarrow>
   (panic + (shard_error + i64)) option \<times> sharded_counter" where
  "counter_total_wait checks submitted =
     (case submitted of
        (Inl e, c) \<Rightarrow> (Some (Inr (Inl e)), c)
      | (Inr hs, c) \<Rightarrow> total_fold checks hs 0 c)"

definition counter_total ::
  "bool \<Rightarrow> sharded_counter \<Rightarrow> (panic + (shard_error + i64)) option \<times> sharded_counter" where
  "counter_total checks c = counter_total_wait checks (submit_total checks c)"

definition counter_try_total ::
  "bool \<Rightarrow> sharded_counter \<Rightarrow> (panic + (shard_error + i64)) option \<times> sharded_counter" where
  "counter_try_total checks c = counter_total_wait checks (try_submit_total c)"

record counter_shard_snapshot =
  css_shard_id :: shard_id
  css_value :: i64

fun counter_snapshots_wait ::
  "bool \<Rightarrow> counter_reply list \<Rightarrow> sharded_counter \<Rightarrow>
   (shard_error + counter_shard_snapshot list) option \<times> sharded_counter" where
  "counter_snapshots_wait checks [] c = (Some (Inr []), c)"
| "counter_snapshots_wait checks (h # hs) c =
     (case counter_wait checks (Inr h, c) of
        (None, c) \<Rightarrow> (None, c)
      | (Some (Inl e), c) \<Rightarrow> (Some (Inl e), c)
      | (Some (Inr v), c) \<Rightarrow>
          (case counter_snapshots_wait checks hs c of
             (Some (Inr ss), c) \<Rightarrow> (Some (Inr (\<lparr>css_shard_id = fst h, css_value = v\<rparr> # ss)), c)
           | (x, c) \<Rightarrow> (x, c)))"

definition counter_shard_snapshots ::
  "bool \<Rightarrow> sharded_counter \<Rightarrow> (shard_error + counter_shard_snapshot list) option \<times> sharded_counter" where
  "counter_shard_snapshots checks c =
     (case submit_total checks c of
        (Inl e, c) \<Rightarrow> (Some (Inl e), c)
      | (Inr hs, c) \<Rightarrow> counter_snapshots_wait checks hs c)"

definition counter_try_shard_snapshots ::
  "bool \<Rightarrow> sharded_counter \<Rightarrow> (shard_error + counter_shard_snapshot list) option \<times> sharded_counter" where
  "counter_try_shard_snapshots checks c =
     (case try_submit_total c of
        (Inl e, c) \<Rightarrow> (Some (Inl e), c)
      | (Inr hs, c) \<Rightarrow> counter_snapshots_wait checks hs c)"

subsection \<open>Shutdown\<close>

definition counter_shutdown ::
  "bool \<Rightarrow> sharded_counter \<Rightarrow> (shard_error + unit) \<times> sharded_counter" where
  "counter_shutdown checks c =
     (if ct_stopped c then (Inr (), c)
      else
        let (r, ss) = stop_and_join (run_counter_shard checks) (ct_shards c)
        in (r, c\<lparr>ct_stopped := True, ct_shards := ss\<rparr>))"

definition counter_drop :: "bool \<Rightarrow> sharded_counter \<Rightarrow> sharded_counter" where
  "counter_drop checks c = snd (counter_shutdown checks c)"

subsection \<open>Histories\<close>

datatype counter_client =
    CtTryAdd shard_id i64
  | CtTryGet shard_id
  | CtServe shard_id
  | CtReceive nat

fun counter_client_step :: "bool \<Rightarrow> counter_client \<Rightarrow> sharded_counter \<Rightarrow> sharded_counter" where
  "counter_client_step checks (CtTryAdd i delta) c = snd (try_submit_add_on_shard i delta c)"
| "counter_client_step checks (CtTryGet i) c = snd (try_submit_get_on_shard i c)"
| "counter_client_step checks (CtServe i) c =
     c\<lparr>ct_shards := on_event (run_counter_shard checks) (EvStep i) (ct_shards c)\<rparr>"
| "counter_client_step checks (CtReceive n) c =
     c\<lparr>ct_shards := on_event (run_counter_shard checks) (EvTake n) (ct_shards c)\<rparr>"

fun counter_delta :: "counter_command \<Rightarrow> i64" where
  "counter_delta (CounterAdd d) = d"
| "counter_delta CounterGet = 0"

definition counter_value :: "shard_id \<Rightarrow> sharded_counter \<Rightarrow> i64" where
  "counter_value i c = cs_value (sh_state (ss_shards (ct_shards c) ! i))"

definition executed_deltas :: "shard_id \<Rightarrow> sharded_counter \<Rightarrow> i64 list" where
  "executed_deltas i c = map (\<lambda>(_, cmd, _, _). counter_delta cmd) (log_of i (ct_shards c))"

abbreviation counter_inv :: "bool \<Rightarrow> sharded_counter \<Rightarrow> bool" where
  "counter_inv checks c \<equiv> ss_inv (run_counter_shard checks) (\<lambda>_. counter_service_default) (ct_shards c)"

definition counter_idle :: "bool \<Rightarrow> sharded_counter \<Rightarrow> bool" where
  "counter_idle checks c \<longleftrightarrow>
     \<not> ct_stopped c \<and> counter_inv checks c \<and> 0 < ss_capacity (ct_shards c) \<and>
     (\<forall>i<counter_shard_count c.
        ss_shards (ct_shards c) ! i =
          \<lparr>sh_queue = [], sh_state = \<lparr>cs_value = counter_value i c\<rparr>, sh_status = ShardRunning\<rparr>)"

text \<open>The sum of a list of values, or a panic when a partial sum overflows.\<close>

fun checked_sum :: "bool \<Rightarrow> i64 \<Rightarrow> i64 list \<Rightarrow> panic + i64" where
  "checked_sum checks t [] = Inr t"
| "checked_sum checks t (v # vs) =
     (case i64_add checks t v of None \<Rightarrow> Inl ArithmeticOverflow | Some t \<Rightarrow> checked_sum checks t vs)"

subsection \<open>Laws\<close>

lemma counter_run_sum:
  assumes "svc_run (run_counter_shard checks) cs s = Some (rs, s')"
  shows "cs_value s' = cs_value s + sum_list (map counter_delta cs) \<and>
    (checks \<longrightarrow> sint (cs_value s') = sint (cs_value s) + sum_list (map (sint \<circ> counter_delta) cs))"
  using assms
proof (induction cs arbitrary: s rs)
  case (Cons c cs)
  then obtain r s1 rs' where s1: "run_counter_shard checks c s = Some (r, s1)"
      "svc_run (run_counter_shard checks) cs s1 = Some (rs', s')"
    by (auto split: option.splits)
  have "cs_value s1 = cs_value s + counter_delta c \<and>
      (checks \<longrightarrow> sint (cs_value s1) = sint (cs_value s) + sint (counter_delta c))"
    using s1(1) by (cases c) (auto simp: cs_add_def i64_add_def split: if_splits)
  then show ?case using Cons.IH [OF s1(2)] by (auto simp: add.assoc)
qed simp

lemma counter_try_request_inv:
  assumes "counter_inv checks c"
  shows "counter_inv checks (snd (counter_try_request (counter_shard i c) cmd c))"
    and "counter_shard_count (snd (counter_try_request (counter_shard i c) cmd c)) = counter_shard_count c"
proof -
  have "\<exists>es. ct_shards (snd (counter_try_request (counter_shard i c) cmd c)) =
      fold (on_event (run_counter_shard checks)) es (ct_shards c)"
  proof (cases "\<not> ct_stopped c \<and> i < length (ss_shards (ct_shards c))")
    case True
    then show ?thesis
      by (intro exI [of _ "[EvRequest i cmd]"])
        (simp add: counter_try_request_def counter_shard_def counter_ensure_running_def get_by_id_def
          Let_def case_prod_unfold)
  next
    case False
    then show ?thesis
      by (intro exI [of _ "[]"])
        (auto simp: counter_try_request_def counter_shard_def counter_ensure_running_def get_by_id_def)
  qed
  then obtain es where "ct_shards (snd (counter_try_request (counter_shard i c) cmd c)) =
      fold (on_event (run_counter_shard checks)) es (ct_shards c)" by blast
  then show "counter_inv checks (snd (counter_try_request (counter_shard i c) cmd c))"
    "counter_shard_count (snd (counter_try_request (counter_shard i c) cmd c)) = counter_shard_count c"
    using assms by (simp_all add: ss_inv_events counter_shard_count_def shard_set_len_def length_shards_events)
qed

lemma counter_step_inv:
  "counter_inv checks c \<Longrightarrow> counter_inv checks (counter_client_step checks ev c)"
  by (cases ev) (simp_all add: try_submit_add_on_shard_def try_submit_get_on_shard_def
      counter_try_request_inv ss_inv_event del: on_event.simps)

lemma counter_count_event:
  "counter_shard_count (c\<lparr>ct_shards := on_event svc ev (ct_shards c)\<rparr>) = counter_shard_count c"
  by (simp add: counter_shard_count_def shard_set_len_def length_shards_event)

lemma counter_step_count:
  "counter_inv checks c \<Longrightarrow> counter_shard_count (counter_client_step checks ev c) = counter_shard_count c"
  by (cases ev) (simp_all add: try_submit_add_on_shard_def try_submit_get_on_shard_def
      counter_try_request_inv counter_count_event del: on_event.simps)

lemma counter_history_inv:
  "counter_inv checks c \<Longrightarrow> counter_inv checks (fold (counter_client_step checks) evs c) \<and>
     counter_shard_count (fold (counter_client_step checks) evs c) = counter_shard_count c"
  by (induction evs arbitrary: c) (simp_all add: counter_step_inv counter_step_count)

lemma counter_started:
  "counter_start_with_config cfg = Inr c \<Longrightarrow>
     c = \<lparr>ct_shards = shard_set_start (sc_shard_count cfg) (sc_mailbox_capacity cfg) (\<lambda>_. counter_service_default),
          ct_stopped = False\<rparr> \<and> 0 < sc_shard_count cfg \<and> 0 < sc_mailbox_capacity cfg"
  by (auto simp: counter_start_with_config_def shard_config_validate_def split: if_splits)

lemma counter_start_inv:
  "counter_start_with_config cfg = Inr c \<Longrightarrow> counter_inv checks c \<and> counter_shard_count c = sc_shard_count cfg"
  using counter_started [of cfg c] ss_inv_start
  by (simp add: counter_shard_count_def shard_set_len_def) (simp add: shard_set_start_def)

lemma counter_start_idle: "counter_start_with_config cfg = Inr c \<Longrightarrow> counter_idle checks c"
  using counter_started [of cfg c] counter_start_inv [of cfg c checks]
  by (auto simp: counter_idle_def counter_shard_count_def shard_set_len_def counter_value_def)
    (auto simp: shard_set_start_def counter_service_default_def)

lemma counter_wait_request:
  "counter_wait checks (counter_request checks (Inr i) cmd c) =
   (let (r, ss) = blocking_call (run_counter_shard checks) i cmd (ct_shards c)
    in (counter_unwrap r, c\<lparr>ct_shards := ss\<rparr>))"
  by (auto simp: counter_wait_def counter_request_def blocking_call_def Let_def split: sum.splits prod.splits)

lemma add_on_shard_idle:
  assumes "counter_idle checks c" "i < counter_shard_count c" "i64_add checks (counter_value i c) delta = Some v"
  shows "\<exists>c'. add_on_shard checks i delta c = (Some (Inr v), c') \<and> counter_idle checks c' \<and>
    counter_shard_count c' = counter_shard_count c \<and>
    (\<forall>j. counter_value j c' = (if j = i then v else counter_value j c))"
proof -
  let ?ss = "ct_shards c" and ?svc = "run_counter_shard checks"
  let ?s' = "\<lparr>cs_value = v\<rparr>"
  have len: "length (ss_shards ?ss) = counter_shard_count c" by (simp add: counter_shard_count_def shard_set_len_def)
  note idle = assms(1) [unfolded counter_idle_def]
  have i: "ss_shards ?ss ! i =
      \<lparr>sh_queue = [], sh_state = \<lparr>cs_value = counter_value i c\<rparr>, sh_status = ShardRunning\<rparr>"
    using idle assms(2) by blast
  have "\<exists>ss'. blocking_call ?svc i (CounterAdd delta) ?ss = (Some (Inr (Answer v)), ss') \<and>
      ss_inv ?svc (\<lambda>_. counter_service_default) ss' \<and>
      ss_shards ss' = (ss_shards ?ss)[i := (ss_shards ?ss ! i)\<lparr>sh_queue := [], sh_state := ?s'\<rparr>] \<and>
      ss_capacity ss' = ss_capacity ?ss"
    by (rule blocking_call_answer [where pre = "[]" and rs = "[]" and ?s1.0 = "\<lparr>cs_value = counter_value i c\<rparr>"])
      (use idle assms(2,3) len i in \<open>simp_all add: cs_add_def\<close>)
  then obtain ss' where b: "blocking_call ?svc i (CounterAdd delta) ?ss = (Some (Inr (Answer v)), ss')"
      "ss_inv ?svc (\<lambda>_. counter_service_default) ss'" "ss_capacity ss' = ss_capacity ?ss"
      "ss_shards ss' = (ss_shards ?ss)[i := \<lparr>sh_queue = [], sh_state = ?s', sh_status = ShardRunning\<rparr>]"
    by (auto simp: i)
  let ?c' = "c\<lparr>ct_shards := ss'\<rparr>"
  have vals: "counter_value j ?c' = (if j = i then v else counter_value j c)" for j
    using assms(2) len by (cases "j = i") (simp_all add: counter_value_def b(4))
  have count: "counter_shard_count ?c' = counter_shard_count c"
    by (simp add: counter_shard_count_def shard_set_len_def b(4))
  have "ss_shards ss' ! j = \<lparr>sh_queue = [], sh_state = \<lparr>cs_value = counter_value j ?c'\<rparr>, sh_status = ShardRunning\<rparr>"
    if "j < counter_shard_count c" for j
    using that idle len vals by (cases "j = i") (simp_all add: b(4))
  then have "counter_idle checks ?c'" using idle b(2,3) count by (simp add: counter_idle_def)
  moreover have "add_on_shard checks i delta c = (Some (Inr v), ?c')"
    using idle assms(2) len by (simp add: add_on_shard_def submit_add_on_shard_def counter_shard_def
        counter_ensure_running_def get_by_id_def counter_wait_request b(1))
  ultimately show ?thesis using vals count by blast
qed

text \<open>A command on which the thread of an idle shard panics.\<close>

lemma blocking_call_panic:
  assumes "ss_inv svc initial ss" "i < length (ss_shards ss)" "0 < ss_capacity ss"
    and "ss_shards ss ! i = \<lparr>sh_queue = [], sh_state = s, sh_status = ShardRunning\<rparr>"
    and "svc c s = None"
  shows "\<exists>ss'. blocking_call svc i c ss = (Some (Inl ReplyFailed), ss') \<and> ss_inv svc initial ss' \<and>
    ss_capacity ss' = ss_capacity ss \<and>
    ss_shards ss' = (ss_shards ss)[i := \<lparr>sh_queue = [], sh_state = s, sh_status = ShardPanicked\<rparr>]"
proof -
  obtain n ss1 where r: "request svc i c ss = (Inr n, ss1)" "ss_inv svc initial ss1"
      "ss_capacity ss1 = ss_capacity ss"
      "ss_shards ss1 = (ss_shards ss)[i := \<lparr>sh_queue = [(Command c, n)], sh_state = s, sh_status = ShardRunning\<rparr>]"
    using request_idle [where svc = svc and c = c, OF assms(1-4)] by blast
  have q: "sh_queue (ss_shards ss1 ! i) = [(Command c, n)]" "i < length (ss_shards ss1)"
    using r(4) assms(2) by simp_all
  have step: "ss_shards (shard_step svc i ss1) =
        (ss_shards ss)[i := \<lparr>sh_queue = [], sh_state = s, sh_status = ShardPanicked\<rparr>]"
      "ss_replies (shard_step svc i ss1) = drop_reply n (ss_replies ss1)"
      "ss_capacity (shard_step svc i ss1) = ss_capacity ss"
    using r(3,4) assms(2,5) by (simp_all add: shard_step_def Let_def)
  have cell: "reply_try_wait (ss_replies ss1 ! n) = (Inr None, ss_replies ss1 ! n)"
    by (rule queued_cell [OF r(2) q(2), of "Command c"]) (simp add: q(1))
  have n: "n < length (ss_replies ss1)"
    by (rule sent_ids(2) [OF r(2) queue_id_in_sent [OF r(2) q(2), of "Command c"]]) (simp add: q(1))
  have "fst (reply_try_wait (ss_replies (shard_step svc i ss1) ! n)) = Inl ReplyFailed"
    using cell n by (auto simp: step(2) drop_reply_def reply_sender_drop_def reply_try_wait_def Let_def
        split: option.splits if_splits)
  then obtain x where x: "reply_try_wait (ss_replies (shard_step svc i ss1) ! n) = (Inl ReplyFailed, x)"
    by (cases "reply_try_wait (ss_replies (shard_step svc i ss1) ! n)") simp
  have "await_reply svc i n (Suc 0) ss1 = await_reply svc i n 0 (shard_step svc i ss1)"
    by (subst await_reply.simps) (simp add: cell)
  also have "\<dots> = (Some (Inl ReplyFailed), shard_step svc i ss1)"
    by (subst await_reply.simps) (simp add: x)
  finally have "blocking_call svc i c ss = (Some (Inl ReplyFailed), shard_step svc i ss1)"
    by (simp add: blocking_call_def r(1) wait_reply_def q(1))
  then show ?thesis using step ss_inv_step [OF r(2) q(2)] by blast
qed

text \<open>Stopping shards without queued commands, some of which have died.\<close>

lemma stop_all_dead:
  assumes "0 < ss_capacity ss" "ss_inv svc initial ss" "distinct is"
    and "\<forall>j\<in>set is. j < length (ss_shards ss) \<and> sh_queue (ss_shards ss ! j) = []"
  shows "\<exists>ss'. stop_all svc is res ss = (if \<forall>j\<in>set is. mailbox_alive j ss then res else Inl ShardStopped, ss') \<and>
    (\<forall>j\<in>set is. mailbox_alive j ss \<longrightarrow> sh_status (ss_shards ss' ! j) = ShardExited) \<and>
    (\<forall>j. j \<notin> set is \<longrightarrow> ss_shards ss' ! j = ss_shards ss ! j)"
  using assms
proof (induction "is" arbitrary: ss res)
  case (Cons i "is")
  have i: "i < length (ss_shards ss)" "sh_queue (ss_shards ss ! i) = commands []"
    using Cons.prems(4) by simp_all
  show ?case
  proof (cases "mailbox_alive i ss")
    case True
    obtain ss1 where s1: "stop_one svc i ss = (Inr (), ss1)" "ss_inv svc initial ss1" "ss_capacity ss1 = ss_capacity ss"
        "ss_shards ss1 = (ss_shards ss)[i := \<lparr>sh_queue = [], sh_state = sh_state (ss_shards ss ! i), sh_status = ShardExited\<rparr>]"
      using stop_one_ok [where svc = svc, OF Cons.prems(2) i(1) Cons.prems(1) _ i(2), of "[]" "sh_state (ss_shards ss ! i)"]
        True by (auto simp: mailbox_alive_def)
    have other: "ss_shards ss1 ! j = ss_shards ss ! j" if "j \<noteq> i" for j
      using that by (simp add: s1(4))
    have alive: "mailbox_alive j ss1 \<longleftrightarrow> mailbox_alive j ss" if "j \<in> set is" for j
    proof -
      have "j \<noteq> i" using that Cons.prems(3) by auto
      then show ?thesis by (simp add: mailbox_alive_def other)
    qed
    have "j < length (ss_shards ss1) \<and> sh_queue (ss_shards ss1 ! j) = []" if "j \<in> set is" for j
    proof -
      have "j \<noteq> i" using that Cons.prems(3) by auto
      then show ?thesis using Cons.prems(4) that by (simp add: other) (simp add: s1(4))
    qed
    then have "\<forall>j\<in>set is. j < length (ss_shards ss1) \<and> sh_queue (ss_shards ss1 ! j) = []" by blast
    then obtain ss' where "stop_all svc is res ss1 = (if \<forall>j\<in>set is. mailbox_alive j ss1 then res else Inl ShardStopped, ss')"
        "\<forall>j\<in>set is. mailbox_alive j ss1 \<longrightarrow> sh_status (ss_shards ss' ! j) = ShardExited"
        "\<forall>j. j \<notin> set is \<longrightarrow> ss_shards ss' ! j = ss_shards ss1 ! j"
      using Cons.IH [of ss1 res] Cons.prems(1,3) s1(2,3) by auto
    then show ?thesis
      using Cons.prems(3) i(1) True s1(1) by (intro exI [of _ ss']) (auto simp: alive other, simp add: s1(4))
  next
    case False
    have "stop_one svc i ss = (Inl ShardStopped, ss)"
      using False by (simp add: stop_one_def request_stop_def make_room_def)
    then show ?thesis
      using Cons.IH [of ss "Inl ShardStopped"] Cons.prems False by auto
  qed
qed simp

lemma total_fold_wait_all:
  assumes "wait_all (run_counter_shard checks) hs (ct_shards c) = (Some (Inr (map Answer vs)), ss)"
  shows "case checked_sum checks acc vs of
      Inr t \<Rightarrow> total_fold checks hs acc c = (Some (Inr (Inr t)), c\<lparr>ct_shards := ss\<rparr>)
    | Inl p \<Rightarrow> fst (total_fold checks hs acc c) = Some (Inl p)"
  using assms
proof (induction hs arbitrary: c acc vs)
  case (Cons h hs)
  obtain i n where h: "h = (i, n)" by (cases h)
  from Cons.prems obtain v vs' ss1 where w: "wait_reply (run_counter_shard checks) i n (ct_shards c) = (Some (Inr (Answer v)), ss1)"
      "wait_all (run_counter_shard checks) hs ss1 = (Some (Inr (map Answer vs')), ss)" "vs = v # vs'"
    by (auto simp: h split: prod.splits option.splits sum.splits)
  have v: "counter_wait checks (Inr h, c) = (Some (Inr v), c\<lparr>ct_shards := ss1\<rparr>)"
    by (simp add: counter_wait_def h w(1))
  show ?case
  proof (cases "i64_add checks acc v")
    case None
    then show ?thesis by (simp add: w(3) v)
  next
    case (Some t)
    then show ?thesis
      using Cons.IH [of "c\<lparr>ct_shards := ss1\<rparr>" vs' t] w(2)
      by (cases "checked_sum checks t vs'") (simp_all add: w(3) v)
  qed
qed simp

subsection \<open>Properties\<close>

text \<open>No addition is lost or applied twice.  In every interleaving of clients and
  shard threads, the value of each shard is the sum of the deltas it executed (modulo 2 to the 64),
  the commands executed are a prefix of those accepted by that shard, in order, and with overflow
  checks the value is that sum exactly, as an integer.\<close>

theorem counter_values_are_sums:
  assumes "counter_start_with_config cfg = Inr c0" "i < sc_shard_count cfg"
  shows "let c = fold (counter_client_step checks) evs c0 in
    counter_value i c = sum_list (executed_deltas i c) \<and>
    (checks \<longrightarrow> sint (counter_value i c) = sum_list (map sint (executed_deltas i c))) \<and>
    (\<exists>q. sent_to i (ct_shards c) = executed_on i (ct_shards c) @ q)"
proof -
  let ?c = "fold (counter_client_step checks) evs c0"
  have "counter_inv checks ?c" "counter_shard_count ?c = sc_shard_count cfg"
    using counter_history_inv counter_start_inv [OF assms(1)] by simp_all
  then have "shard_ok (run_counter_shard checks) (\<lambda>_. counter_service_default) i (ct_shards ?c)"
    using assms(2) by (simp add: ss_inv_def counter_shard_count_def shard_set_len_def)
  then have r: "svc_run (run_counter_shard checks) (map (\<lambda>(_, c, _, _). c) (log_of i (ct_shards ?c)))
        counter_service_default =
      Some (map (\<lambda>(_, _, _, r). r) (log_of i (ct_shards ?c)), sh_state (ss_shards (ct_shards ?c) ! i))"
    and q: "\<exists>q. sent_to i (ct_shards ?c) = executed_on i (ct_shards ?c) @ q"
    unfolding shard_ok_def Let_def by blast+
  show ?thesis
    using counter_run_sum [OF r] q
    by (simp add: Let_def counter_value_def executed_deltas_def counter_service_default_def o_def case_prod_unfold)
qed

theorem counter_values_are_sums_witness:
  "\<exists>c0. counter_start_with_config (shard_config_new 2) = Inr c0 \<and>
     (let c = fold (counter_client_step True)
          [CtTryAdd 0 5, CtTryAdd 1 7, CtServe 0, CtTryAdd 0 (- 8), CtServe 0] c0
      in executed_deltas 0 c = [5, - 8] \<and> sint (counter_value 0 c) = - 3)"
proof -
  let ?evs = "[CtTryAdd 0 5, CtTryAdd 1 7, CtServe 0, CtTryAdd 0 (- 8), CtServe 0]"
  have "case counter_start_with_config (shard_config_new 2) of Inl e \<Rightarrow> False
    | Inr c0 \<Rightarrow> executed_deltas 0 (fold (counter_client_step True) ?evs c0) = [5, - 8]"
    by code_simp
  then obtain c0 where c0: "counter_start_with_config (shard_config_new 2) = Inr c0"
      "executed_deltas 0 (fold (counter_client_step True) ?evs c0) = [5, - 8]"
    by (auto split: sum.splits)
  have "0 < sc_shard_count (shard_config_new 2)" by (simp add: shard_config_new_def)
  then show ?thesis
    using counter_values_are_sums [OF c0(1), of 0 True ?evs] c0 by (simp add: Let_def)
qed

text \<open>An overflow with overflow checks takes down one shard and no more.  On an idle
  counter, an addition that overflows its shard reports \<open>ReplyFailed\<close>; later commands to that shard
  report \<open>SendFailed\<close>, the other shards keep their values and serve on, and shutting down reports
  \<open>ShardStopped\<close> while it still stops all the others.\<close>

theorem counter_overflow_isolated:
  assumes "counter_idle True c" "i < counter_shard_count c"
    and "sint (counter_value i c) + sint delta \<noteq> sint (counter_value i c + delta)"
  shows "\<exists>c'. add_on_shard True i delta c = (Some (Inl ReplyFailed), c') \<and>
    (\<forall>d. add_on_shard True i d c' = (Some (Inl SendFailed), c')) \<and>
    (\<forall>j<counter_shard_count c. j \<noteq> i \<longrightarrow>
       fst (get_on_shard True j c') = Some (Inr (counter_value j c))) \<and>
    (\<exists>c''. counter_shutdown True c' = (Inl ShardStopped, c'') \<and>
       (\<forall>j<counter_shard_count c. j \<noteq> i \<longrightarrow> sh_status (ss_shards (ct_shards c'') ! j) = ShardExited))"
proof -
  let ?ss = "ct_shards c" and ?svc = "run_counter_shard True" and ?init = "\<lambda>_. counter_service_default"
  have len: "length (ss_shards ?ss) = counter_shard_count c"
    by (simp add: counter_shard_count_def shard_set_len_def)
  note idle = assms(1) [unfolded counter_idle_def]
  have i: "ss_shards ?ss ! i =
      \<lparr>sh_queue = [], sh_state = \<lparr>cs_value = counter_value i c\<rparr>, sh_status = ShardRunning\<rparr>"
    using idle assms(2) by blast
  have "?svc (CounterAdd delta) \<lparr>cs_value = counter_value i c\<rparr> = None"
    using assms(3) by (simp add: cs_add_def i64_add_def)
  then obtain ss' where b: "blocking_call ?svc i (CounterAdd delta) ?ss = (Some (Inl ReplyFailed), ss')"
      "ss_inv ?svc ?init ss'" "ss_capacity ss' = ss_capacity ?ss"
      "ss_shards ss' = (ss_shards ?ss)[i := \<lparr>sh_queue = [], sh_state = \<lparr>cs_value = counter_value i c\<rparr>,
         sh_status = ShardPanicked\<rparr>]"
    using blocking_call_panic [where svc = ?svc and initial = ?init and c = "CounterAdd delta", OF _ _ _ i]
      idle assms(2) len by metis
  let ?c' = "c\<lparr>ct_shards := ss'\<rparr>"
  have shard: "counter_shard j c = Inr j" "counter_shard j ?c' = Inr j" if "j < counter_shard_count c" for j
    using that idle b(4) len by (simp_all add: counter_shard_def counter_ensure_running_def get_by_id_def)
  have add: "add_on_shard True i delta c = (Some (Inl ReplyFailed), ?c')"
    by (simp add: add_on_shard_def submit_add_on_shard_def shard assms(2) counter_wait_request b(1))
  have dead: "add_on_shard True i d ?c' = (Some (Inl SendFailed), ?c')" for d
    using assms(2) len
    by (simp add: add_on_shard_def submit_add_on_shard_def shard counter_wait_def counter_request_def request_def
        make_room_def mailbox_alive_def b(4))
  have get: "fst (get_on_shard True j ?c') = Some (Inr (counter_value j c))"
    if "j < counter_shard_count c" "j \<noteq> i" for j
  proof -
    have j: "ss_shards ss' ! j =
        \<lparr>sh_queue = [], sh_state = \<lparr>cs_value = counter_value j c\<rparr>, sh_status = ShardRunning\<rparr>"
      using idle that b(4) by simp
    have "\<exists>ss2. blocking_call ?svc j CounterGet ss' = (Some (Inr (Answer (counter_value j c))), ss2) \<and>
        ss_inv ?svc ?init ss2 \<and>
        ss_shards ss2 = (ss_shards ss')[j := (ss_shards ss' ! j)\<lparr>sh_queue := [], sh_state := \<lparr>cs_value = counter_value j c\<rparr>\<rparr>] \<and>
        ss_capacity ss2 = ss_capacity ss'"
      by (rule blocking_call_answer [where pre = "[]" and rs = "[]" and ?s1.0 = "\<lparr>cs_value = counter_value j c\<rparr>"])
        (use b(2-4) idle that len j in \<open>simp_all add: cs_get_def\<close>)
    then show ?thesis
      using that(1) by (auto simp: get_on_shard_def submit_get_on_shard_def shard counter_wait_request)
  qed
  have queues: "\<forall>j\<in>set [0..<counter_shard_count c]. j < length (ss_shards ss') \<and> sh_queue (ss_shards ss' ! j) = []"
  proof
    fix j assume "j \<in> set [0..<counter_shard_count c]"
    then show "j < length (ss_shards ss') \<and> sh_queue (ss_shards ss' ! j) = []"
      using idle len by (cases "j = i") (simp_all add: b(4))
  qed
  have alive: "mailbox_alive j ss' \<longleftrightarrow> j \<noteq> i" if "j < counter_shard_count c" for j
    using idle that len by (cases "j = i") (simp_all add: mailbox_alive_def b(4))
  have "0 < ss_capacity ss'" using b(3) idle by simp
  then obtain ss2 where "stop_all ?svc [0..<counter_shard_count c] (Inr ()) ss' = (Inl ShardStopped, ss2)"
      "\<forall>j<counter_shard_count c. j \<noteq> i \<longrightarrow> sh_status (ss_shards ss2 ! j) = ShardExited"
    using stop_all_dead [OF _ b(2) distinct_upt queues, of "Inr ()"] assms(2) alive by fastforce
  moreover have "length (ss_shards ss') = counter_shard_count c" "\<not> ct_stopped c" using len b(4) idle by simp_all
  ultimately have "\<exists>c''. counter_shutdown True ?c' = (Inl ShardStopped, c'') \<and>
      (\<forall>j<counter_shard_count c. j \<noteq> i \<longrightarrow> sh_status (ss_shards (ct_shards c'') ! j) = ShardExited)"
    by (simp add: counter_shutdown_def stop_and_join_def)
  then show ?thesis using add dead get by blast
qed

theorem counter_overflow_isolated_witness:
  "\<exists>c0 c1 c2. counter_start_with_config (shard_config_new 2) = Inr c0 \<and>
     add_on_shard True 0 0x7FFFFFFFFFFFFFFF c0 = (Some (Inr 0x7FFFFFFFFFFFFFFF), c1) \<and>
     add_on_shard True 0 1 c1 = (Some (Inl ReplyFailed), c2) \<and>
     fst (get_on_shard True 1 c2) = Some (Inr 0)"
proof -
  have "case counter_start_with_config (shard_config_new 2) of Inl e \<Rightarrow> False
    | Inr c0 \<Rightarrow> counter_value 0 c0 = 0 \<and> counter_value 1 c0 = 0 \<and> counter_shard_count c0 = 2"
    by code_simp
  then obtain c0 where c0: "counter_start_with_config (shard_config_new 2) = Inr c0"
      "counter_value 0 c0 = 0" "counter_value 1 c0 = 0" "counter_shard_count c0 = 2"
    by (auto split: sum.splits)
  obtain c1 where c1: "add_on_shard True 0 0x7FFFFFFFFFFFFFFF c0 = (Some (Inr 0x7FFFFFFFFFFFFFFF), c1)"
      "counter_idle True c1" "counter_shard_count c1 = 2"
      "\<And>j. counter_value j c1 = (if j = 0 then 0x7FFFFFFFFFFFFFFF else counter_value j c0)"
    using add_on_shard_idle [OF counter_start_idle [OF c0(1)], of 0 True "0x7FFFFFFFFFFFFFFF" "0x7FFFFFFFFFFFFFFF"] c0
    by (auto simp: i64_add_def)
  have "sint (counter_value 0 c1) + sint (1 :: i64) \<noteq> sint (counter_value 0 c1 + 1)" by (simp add: c1(4))
  then show ?thesis
    using counter_overflow_isolated [OF c1(2), of 0 1] c0 c1 by fastforce
qed

text \<open>The total is the sum over all shards.  On an idle counter \<open>total\<close> returns the sum
  of the shard values added in shard order, or panics in the calling thread when overflow checks are
  on and a partial sum overflows; it changes no shard.\<close>

theorem counter_total_exact:
  assumes "counter_idle checks c"
  shows "case checked_sum checks 0 (map (\<lambda>i. counter_value i c) [0..<counter_shard_count c]) of
      Inr t \<Rightarrow> \<exists>c'. counter_total checks c = (Some (Inr (Inr t)), c') \<and> counter_idle checks c' \<and>
        (\<forall>i. counter_value i c' = counter_value i c)
    | Inl p \<Rightarrow> fst (counter_total checks c) = Some (Inl p)"
proof -
  let ?n = "counter_shard_count c" and ?ss = "ct_shards c" and ?svc = "run_counter_shard checks"
  have len: "length (ss_shards ?ss) = ?n" by (simp add: counter_shard_count_def shard_set_len_def)
  note idle = assms [unfolded counter_idle_def]
  have "\<forall>i<?n. \<exists>s. ss_shards ?ss ! i = \<lparr>sh_queue = [], sh_state = s, sh_status = ShardRunning\<rparr> \<and>
      ?svc CounterGet s = Some (counter_value i c, s)"
    using idle by (simp add: cs_get_def)
  note all = broadcast_idle [where svc = ?svc and c = CounterGet and r = "\<lambda>i. counter_value i c" and ss = ?ss
        and initial = "\<lambda>_. counter_service_default", unfolded len, OF _ _ this]
  obtain ns ss1 ss2 where b: "request_all (\<lambda>i. request ?svc i CounterGet) [0..<?n] ?ss = (Inr ns, ss1)"
      "wait_all ?svc (zip [0..<?n] ns) ss1 = (Some (Inr (map (\<lambda>i. Answer (counter_value i c)) [0..<?n])), ss2)"
      "ss_inv ?svc (\<lambda>_. counter_service_default) ss2" "ss_capacity ss2 = ss_capacity ?ss" "ss_shards ss2 = ss_shards ?ss"
    using all idle by metis
  have w: "wait_all ?svc (zip [0..<?n] ns) (ct_shards (c\<lparr>ct_shards := ss1\<rparr>)) =
      (Some (Inr (map Answer (map (\<lambda>i. counter_value i c) [0..<?n]))), ss2)"
    using b(2) by (simp add: o_def)
  have t: "counter_total checks c = total_fold checks (zip [0..<?n] ns) 0 (c\<lparr>ct_shards := ss1\<rparr>)"
    using idle by (simp add: counter_total_def submit_total_def counter_request_all_def counter_ensure_running_def
        b(1) counter_total_wait_def)
  have same: "counter_value i (c\<lparr>ct_shards := ss2\<rparr>) = counter_value i c"
      "counter_shard_count (c\<lparr>ct_shards := ss2\<rparr>) = ?n" for i
    using b(5) by (simp_all add: counter_value_def counter_shard_count_def shard_set_len_def)
  have "counter_idle checks (c\<lparr>ct_shards := ss2\<rparr>)"
    using idle b(3-5) same by (simp add: counter_idle_def)
  then show ?thesis
    using total_fold_wait_all [OF w, of 0] same
    by (cases "checked_sum checks 0 (map (\<lambda>i. counter_value i c) [0..<?n])") (auto simp: t)
qed

theorem counter_total_exact_witness:
  "\<exists>c0 c'. counter_start_with_config (shard_config_new 2) = Inr c0 \<and>
     counter_total True c0 = (Some (Inr (Inr 0)), c')"
proof -
  have "case counter_start_with_config (shard_config_new 2) of Inl e \<Rightarrow> False
    | Inr c0 \<Rightarrow> checked_sum True 0 (map (\<lambda>i. counter_value i c0) [0..<counter_shard_count c0]) = Inr 0"
    by code_simp
  then obtain c0 where c0: "counter_start_with_config (shard_config_new 2) = Inr c0"
      "checked_sum True 0 (map (\<lambda>i. counter_value i c0) [0..<counter_shard_count c0]) = Inr 0"
    by (auto split: sum.splits)
  show ?thesis using counter_total_exact [OF counter_start_idle [OF c0(1)], of True] c0 by auto
qed

end
