(* ===== verification/Sharded.thy ===== *)
theory Sharded
  imports Shard_Set
begin

text \<open>
  The generic sharded service of \<open>sharded.rs\<close>: a shard set, whose service is the implementation of
  the \<open>ShardService\<close> trait, and a stopped flag.  The service and its initial states are parameters.
  A command sent without a reply has a reply cell that nobody reads.
\<close>

subsection \<open>The service\<close>

record ('c, 's, 'r) sharded =
  sd_shards :: "('c, 's, 'r) shard_set"
  sd_stopped :: bool

definition sharded_start_with_placement ::
  "(shard_id \<Rightarrow> 's) \<Rightarrow> shard_config \<Rightarrow> shard_error + ('c, 's, 'r) sharded" where
  "sharded_start_with_placement initial_state config =
     (case shard_config_validate config of
        Inl e \<Rightarrow> Inl e
      | Inr cfg \<Rightarrow>
          Inr \<lparr>sd_shards = shard_set_start (sc_shard_count cfg) (sc_mailbox_capacity cfg) initial_state,
               sd_stopped = False\<rparr>)"

definition sharded_shard_count :: "('c, 's, 'r) sharded \<Rightarrow> nat" where
  "sharded_shard_count sd = shard_set_len (sd_shards sd)"

definition sharded_mailbox_capacity :: "('c, 's, 'r) sharded \<Rightarrow> nat" where
  "sharded_mailbox_capacity sd = ss_capacity (sd_shards sd)"

definition sharded_runtime_snapshot :: "('c, 's, 'r) sharded \<Rightarrow> runtime_snapshot" where
  "sharded_runtime_snapshot sd = shard_set_snapshot (sd_stopped sd) (sd_shards sd)"

definition sharded_ensure_running :: "('c, 's, 'r) sharded \<Rightarrow> shard_error + unit" where
  "sharded_ensure_running sd = (if sd_stopped sd then Inl ShardStopped else Inr ())"

definition sharded_shard :: "shard_id \<Rightarrow> ('c, 's, 'r) sharded \<Rightarrow> shard_error + shard_id" where
  "sharded_shard i sd =
     (case sharded_ensure_running sd of Inl e \<Rightarrow> Inl e | Inr _ \<Rightarrow> get_by_id i (sd_shards sd))"

definition sharded_request ::
  "('c, 's, 'r) service \<Rightarrow> shard_id \<Rightarrow> 'c \<Rightarrow> ('c, 's, 'r) sharded \<Rightarrow>
   (shard_error + shard_id \<times> nat) \<times> ('c, 's, 'r) sharded" where
  "sharded_request svc i c sd =
     (case sharded_shard i sd of
        Inl e \<Rightarrow> (Inl e, sd)
      | Inr i \<Rightarrow>
          (let (r, ss) = request svc i c (sd_shards sd) in (map_sum id (Pair i) r, sd\<lparr>sd_shards := ss\<rparr>)))"

definition sharded_try_request ::
  "shard_id \<Rightarrow> 'c \<Rightarrow> ('c, 's, 'r) sharded \<Rightarrow> (shard_error + shard_id \<times> nat) \<times> ('c, 's, 'r) sharded" where
  "sharded_try_request i c sd =
     (case sharded_shard i sd of
        Inl e \<Rightarrow> (Inl e, sd)
      | Inr i \<Rightarrow>
          (let (r, ss) = try_request i c (sd_shards sd) in (map_sum id (Pair i) r, sd\<lparr>sd_shards := ss\<rparr>)))"

definition sharded_send ::
  "('c, 's, 'r) service \<Rightarrow> shard_id \<Rightarrow> 'c \<Rightarrow> ('c, 's, 'r) sharded \<Rightarrow>
   (shard_error + unit) \<times> ('c, 's, 'r) sharded" where
  "sharded_send svc i c sd = (let (r, sd) = sharded_request svc i c sd in (map_sum id (\<lambda>_. ()) r, sd))"

definition sharded_try_send ::
  "shard_id \<Rightarrow> 'c \<Rightarrow> ('c, 's, 'r) sharded \<Rightarrow> (shard_error + unit) \<times> ('c, 's, 'r) sharded" where
  "sharded_try_send i c sd = (let (r, sd) = sharded_try_request i c sd in (map_sum id (\<lambda>_. ()) r, sd))"

definition sharded_request_stopped ::
  "('c, 's, 'r) service \<Rightarrow> shard_id \<Rightarrow> 'c \<Rightarrow> ('c, 's, 'r) sharded \<Rightarrow>
   (shard_error + 'r answer) option \<times> ('c, 's, 'r) sharded" where
  "sharded_request_stopped svc i c sd =
     (case sharded_shard i sd of
        Inl e \<Rightarrow> (Some (Inl e), sd)
      | Inr i \<Rightarrow>
          (case request svc i c (sd_shards sd) of
             (Inl _, ss) \<Rightarrow> (Some (Inl ShardStopped), sd\<lparr>sd_shards := ss\<rparr>)
           | (Inr n, ss) \<Rightarrow>
               (let (r, ss) = wait_reply svc i n ss in (r, sd\<lparr>sd_shards := ss\<rparr>))))"

text \<open>\<open>send_all\<close> and \<open>try_send_all\<close> take the handles from the shard set directly.\<close>

definition sharded_send_all ::
  "('c, 's, 'r) service \<Rightarrow> (shard_id \<Rightarrow> 'c) \<Rightarrow> ('c, 's, 'r) sharded \<Rightarrow>
   (shard_error + unit) \<times> ('c, 's, 'r) sharded" where
  "sharded_send_all svc make_command sd =
     (let (r, ss) = Shard_Set.request_all (\<lambda>i. request svc i (make_command i))
          [0..<sharded_shard_count sd] (sd_shards sd)
      in (map_sum id (\<lambda>_. ()) r, sd\<lparr>sd_shards := ss\<rparr>))"

definition sharded_try_send_all ::
  "(shard_id \<Rightarrow> 'c) \<Rightarrow> ('c, 's, 'r) sharded \<Rightarrow> (shard_error + unit) \<times> ('c, 's, 'r) sharded" where
  "sharded_try_send_all make_command sd =
     (let (r, ss) = Shard_Set.request_all (\<lambda>i. try_request i (make_command i))
          [0..<sharded_shard_count sd] (sd_shards sd)
      in (map_sum id (\<lambda>_. ()) r, sd\<lparr>sd_shards := ss\<rparr>))"

definition sharded_request_all ::
  "(shard_id \<Rightarrow> ('c, 's, 'r) shard_set \<Rightarrow> (shard_error + nat) \<times> ('c, 's, 'r) shard_set) \<Rightarrow>
   ('c, 's, 'r) sharded \<Rightarrow> (shard_error + (shard_id \<times> nat) list) \<times> ('c, 's, 'r) sharded" where
  "sharded_request_all submit sd =
     (case sharded_ensure_running sd of
        Inl e \<Rightarrow> (Inl e, sd)
      | Inr _ \<Rightarrow>
          (let (r, ss) = Shard_Set.request_all submit [0..<sharded_shard_count sd] (sd_shards sd)
           in (map_sum id (zip [0..<sharded_shard_count sd]) r, sd\<lparr>sd_shards := ss\<rparr>)))"

definition sharded_shutdown ::
  "('c, 's, 'r) service \<Rightarrow> ('c, 's, 'r) sharded \<Rightarrow> (shard_error + unit) \<times> ('c, 's, 'r) sharded" where
  "sharded_shutdown svc sd =
     (if sd_stopped sd then (Inr (), sd)
      else
        let (r, ss) = stop_and_join svc (sd_shards sd)
        in (r, sd\<lparr>sd_stopped := True, sd_shards := ss\<rparr>))"

definition sharded_drop ::
  "('c, 's, 'r) service \<Rightarrow> ('c, 's, 'r) sharded \<Rightarrow> ('c, 's, 'r) sharded" where
  "sharded_drop svc sd =
     (if sd_stopped sd then sd
      else sd\<lparr>sd_stopped := True, sd_shards := snd (stop_and_join svc (sd_shards sd))\<rparr>)"

subsection \<open>Laws\<close>

lemma sharded_shutdown_drains:
  assumes "svc_total svc" "\<not> sd_stopped sd" "0 < ss_capacity (sd_shards sd)"
    and "ss_inv svc initial (sd_shards sd)" "all_serving (sd_shards sd)"
  shows "\<exists>sd'. sharded_shutdown svc sd = (Inr (), sd') \<and> sd_stopped sd' \<and>
    sharded_shard_count sd' = sharded_shard_count sd \<and>
    (\<forall>i < sharded_shard_count sd. drained_shard svc (ss_shards (sd_shards sd) ! i) (ss_shards (sd_shards sd') ! i))"
proof -
  obtain ss' where ss': "stop_and_join svc (sd_shards sd) = (Inr (), ss')"
      "length (ss_shards ss') = length (ss_shards (sd_shards sd))"
      "\<forall>i<length (ss_shards (sd_shards sd)). drained_shard svc (ss_shards (sd_shards sd) ! i) (ss_shards ss' ! i)"
    using stop_and_join_ok [OF assms(1,3-5)] by blast
  then show ?thesis
    using assms(2) by (simp add: sharded_shutdown_def sharded_shard_count_def shard_set_len_def)
qed

subsection \<open>Properties\<close>

text \<open>What a stopped service answers.  After \<open>shutdown\<close> of a running service with at
  least one shard, requests and sends to a shard and \<open>request_all\<close> report \<open>ShardStopped\<close> and change
  nothing, whereas \<open>send_all\<close> and \<open>try_send_all\<close>, which do not look at the stopped flag, report
  \<open>SendFailed\<close> of the first mailbox; no command is accepted by any of them.\<close>

theorem sharded_stopped_errors:
  assumes "svc_total svc" "\<not> sd_stopped sd" "0 < ss_capacity (sd_shards sd)" "0 < sharded_shard_count sd"
    and "ss_inv svc initial (sd_shards sd)" "all_serving (sd_shards sd)"
    and "sd' = snd (sharded_shutdown svc sd)"
  shows "sharded_request svc i c sd' = (Inl ShardStopped, sd') \<and>
    sharded_try_request i c sd' = (Inl ShardStopped, sd') \<and>
    sharded_send svc i c sd' = (Inl ShardStopped, sd') \<and>
    sharded_try_send i c sd' = (Inl ShardStopped, sd') \<and>
    sharded_request_all submit sd' = (Inl ShardStopped, sd') \<and>
    sharded_send_all svc mk sd' = (Inl SendFailed, sd') \<and>
    sharded_try_send_all mk sd' = (Inl SendFailed, sd')"
proof -
  obtain sd1 where sd1: "sharded_shutdown svc sd = (Inr (), sd1)" "sd_stopped sd1"
      "sharded_shard_count sd1 = sharded_shard_count sd"
      "\<forall>i < sharded_shard_count sd. drained_shard svc (ss_shards (sd_shards sd) ! i) (ss_shards (sd_shards sd1) ! i)"
    using sharded_shutdown_drains [OF assms(1-3,5,6)] by blast
  then have sd': "sd' = sd1" "sd_stopped sd'" using assms(7) by simp_all
  have dead: "\<not> mailbox_alive 0 (sd_shards sd')"
    using sd1(4) assms(4) by (simp add: sd' drained_shard_def mailbox_alive_def)
  have n: "[0..<sharded_shard_count sd'] = 0 # [1..<sharded_shard_count sd']"
    using assms(4) by (simp add: sd' sd1(3) upt_conv_Cons)
  have "sharded_send_all svc mk sd' = (Inl SendFailed, sd')"
    "sharded_try_send_all mk sd' = (Inl SendFailed, sd')"
    unfolding sharded_send_all_def sharded_try_send_all_def n
    using dead by (simp_all add: request_def try_request_def make_room_def)
  then show ?thesis
    using sd'(2) by (simp add: sharded_request_def sharded_try_request_def sharded_send_def sharded_try_send_def
        sharded_request_all_def sharded_shard_def sharded_ensure_running_def)
qed

theorem sharded_stopped_errors_witness:
  "let svc = (\<lambda>c s. Some (s + c, s + c)) :: (nat, nat, nat) service;
       sd = \<lparr>sd_shards = shard_set_start 2 4 (\<lambda>_. 0), sd_stopped = False\<rparr>;
       sd' = snd (sharded_shutdown svc sd)
   in sharded_request svc 0 3 sd' = (Inl ShardStopped, sd') \<and> sharded_send_all svc (\<lambda>_. 3) sd' = (Inl SendFailed, sd')"
proof -
  let ?svc = "(\<lambda>c s. Some (s + c, s + c)) :: (nat, nat, nat) service"
  let ?sd = "\<lparr>sd_shards = shard_set_start 2 4 (\<lambda>_. 0), sd_stopped = False\<rparr> :: (nat, nat, nat) sharded"
  have "svc_total ?svc" "\<not> sd_stopped ?sd" "0 < ss_capacity (sd_shards ?sd)" "0 < sharded_shard_count ?sd"
    "ss_inv ?svc (\<lambda>_. 0) (sd_shards ?sd)" "all_serving (sd_shards ?sd)"
    by (simp_all add: svc_total_def ss_inv_start sharded_shard_count_def shard_set_len_def)
      (auto simp: shard_set_start_def all_serving_def commands_def)
  from sharded_stopped_errors [OF this refl, of 0 3 "\<lambda>i. try_request i 3" "\<lambda>_. 3"]
  show ?thesis by (simp add: Let_def)
qed

end
