(* ===== verification/Stream_Reply.thy ===== *)
theory Stream_Reply
  imports Wake_Contract
begin

text \<open>
  The streaming replies of \<open>stream_reply.rs\<close>: several senders push values, one receiver takes them
  in batches, blocking or as a future.  Each section under the mutex is one step; dropping the last
  sender decrements the sender count first and takes the waker in a second step
  (\<open>sr_dropping\<close> counts the drops in between), and a poll of \<open>StreamBatch\<close> is two steps.  The
  receiver's index is always zero, because values are drained from the front.
\<close>

subsection \<open>State\<close>

datatype stream_error = SenderDropped | ReceiverDropped

record 'a stream =
  sr_values :: "'a list"
  sr_done :: bool
  sr_waker :: "waker option"
  sr_senders :: nat
  sr_dropping :: nat

definition stream_channel :: "'a stream" where
  "stream_channel = \<lparr>sr_values = [], sr_done = False, sr_waker = None, sr_senders = 1, sr_dropping = 0\<rparr>"

subsection \<open>Senders\<close>

definition stream_send :: "'a \<Rightarrow> 'a stream \<Rightarrow> (stream_error + unit) \<times> waker list \<times> 'a stream" where
  "stream_send v s =
     (if sr_done s then (Inl ReceiverDropped, [], s)
      else (Inr (), (case sr_waker s of None \<Rightarrow> [] | Some w \<Rightarrow> [w]),
            s\<lparr>sr_values := sr_values s @ [v], sr_waker := None\<rparr>))"

definition stream_sender_clone :: "'a stream \<Rightarrow> 'a stream" where
  "stream_sender_clone s = s\<lparr>sr_senders := Suc (sr_senders s)\<rparr>"

text \<open>The two steps of dropping a sender, and the whole drop.\<close>

definition stream_drop_count :: "'a stream \<Rightarrow> 'a stream" where
  "stream_drop_count s =
     s\<lparr>sr_senders := sr_senders s - 1,
       sr_dropping := (if sr_senders s = 1 then Suc (sr_dropping s) else sr_dropping s)\<rparr>"

definition stream_drop_wake :: "'a stream \<Rightarrow> waker list \<times> 'a stream" where
  "stream_drop_wake s =
     ((case sr_waker s of None \<Rightarrow> [] | Some w \<Rightarrow> [w]),
      s\<lparr>sr_waker := None, sr_dropping := sr_dropping s - 1\<rparr>)"

definition stream_sender_drop :: "'a stream \<Rightarrow> waker list \<times> 'a stream" where
  "stream_sender_drop s =
     (if sr_senders s = 1 then stream_drop_wake (stream_drop_count s)
      else ([], stream_drop_count s))"

subsection \<open>The receiver\<close>

definition stream_drain :: "nat \<Rightarrow> 'a stream \<Rightarrow> 'a list \<times> 'a stream" where
  "stream_drain max_items s =
     (take max_items (sr_values s), s\<lparr>sr_values := drop max_items (sr_values s)\<rparr>)"

text \<open>One pass of the loop of \<open>recv_batch\<close>: \<open>None\<close> is a wait on the condition variable.\<close>

definition stream_recv_batch :: "nat \<Rightarrow> 'a stream \<Rightarrow> 'a list option \<times> 'a stream" where
  "stream_recv_batch max_items s =
     (if sr_values s \<noteq> [] then (let (batch, s) = stream_drain max_items s in (Some batch, s))
      else if sr_senders s = 0 then (Some [], s\<lparr>sr_done := True\<rparr>)
      else (None, s))"

definition stream_recv :: "'a stream \<Rightarrow> 'a option option \<times> 'a stream" where
  "stream_recv s =
     (case stream_recv_batch 1 s of
        (None, s) \<Rightarrow> (None, s)
      | (Some [], s) \<Rightarrow> (Some None, s)
      | (Some (v # _), s) \<Rightarrow> (Some (Some v), s))"

definition stream_try_recv :: "nat \<Rightarrow> 'a stream \<Rightarrow> (stream_error + 'a list option) \<times> 'a stream" where
  "stream_try_recv max_items s =
     (if sr_values s \<noteq> [] then (let (batch, s) = stream_drain max_items s in (Inr (Some batch), s))
      else if sr_senders s = 0 then (Inr None, s)
      else (Inr None, s))"

definition stream_is_done :: "'a stream \<Rightarrow> bool" where
  "stream_is_done s \<longleftrightarrow> sr_senders s = 0 \<and> sr_values s = []"

definition stream_reply_drop :: "'a stream \<Rightarrow> 'a stream" where
  "stream_reply_drop s = s\<lparr>sr_done := True\<rparr>"

text \<open>What the senders do while the receiver waits.\<close>

datatype 'a producer = Push 'a | CloneSender | DropSender

fun stream_produce :: "'a producer \<Rightarrow> 'a stream \<Rightarrow> 'a stream" where
  "stream_produce (Push v) s = (if sr_senders s = 0 then s else snd (snd (stream_send v s)))"
| "stream_produce CloneSender s = (if sr_senders s = 0 then s else stream_sender_clone s)"
| "stream_produce DropSender s = (if sr_senders s = 0 then s else snd (stream_sender_drop s))"

text \<open>The loops of \<open>collect\<close> and \<open>fold\<close>.  A pass that would wait lets the senders act once; with
  no act left the receiver waits forever.  The batch size of both is \<open>usize::MAX\<close>, which a vector
  cannot exceed, so that a batch is all that is queued.\<close>

function stream_fold :: "('b \<Rightarrow> 'a \<Rightarrow> 'b) \<Rightarrow> 'a producer list \<Rightarrow> 'b \<Rightarrow> 'a stream \<Rightarrow> 'b option \<times> 'a stream"
  where
  "stream_fold f acts acc s =
     (case stream_recv_batch (length (sr_values s)) s of
        (Some [], s) \<Rightarrow> (Some acc, s)
      | (Some (v # vs), s) \<Rightarrow> stream_fold f acts (foldl f acc (v # vs)) s
      | (None, s) \<Rightarrow>
          (case acts of [] \<Rightarrow> (None, s)
           | a # acts \<Rightarrow> stream_fold f acts acc (stream_produce a s)))"
  by pat_completeness auto
termination
  by (relation "measures [\<lambda>(_, acts, _, _). length acts, \<lambda>(_, _, _, s). length (sr_values s)]")
    (auto simp: stream_recv_batch_def stream_drain_def Let_def split: if_splits)

declare stream_fold.simps [simp del]

definition stream_collect :: "'a producer list \<Rightarrow> 'a stream \<Rightarrow> 'a list option \<times> 'a stream" where
  "stream_collect acts s = stream_fold (\<lambda>all v. all @ [v]) acts [] s"

subsection \<open>The future\<close>

text \<open>\<open>StreamBatch::poll\<close>: the first section is \<open>try_recv\<close>, the second decides between the end of
  the stream, another round and parking the waker.\<close>

datatype 'a batch_step = BatchDone "'a list option" | BatchAgain | BatchPending

definition stream_batch_first :: "'a stream \<Rightarrow> 'a list option \<times> 'a stream" where
  "stream_batch_first s =
     (case stream_try_recv (length (sr_values s)) s of
        (Inr (Some batch), s) \<Rightarrow> (Some batch, s)
      | (_, s) \<Rightarrow> (None, s))"

definition stream_batch_second :: "waker \<Rightarrow> 'a stream \<Rightarrow> 'a batch_step \<times> 'a stream" where
  "stream_batch_second w s =
     (if sr_senders s = 0 \<and> sr_values s = [] then (BatchDone None, s)
      else if sr_values s \<noteq> [] then (BatchAgain, s)
      else (BatchPending, s\<lparr>sr_waker := Some w\<rparr>))"

subsection \<open>Histories\<close>

datatype 'a stream_op =
    SSend 'a
  | SClone
  | SDropCount
  | SDropWake
  | SFirst
  | SSecond waker

text \<open>Operations of senders need a live sender; \<open>SDropWake\<close> needs a drop in progress.\<close>

fun stream_step :: "'a stream \<Rightarrow> 'a stream_op \<Rightarrow> waker list \<times> 'a stream" where
  "stream_step s (SSend v) = (if sr_senders s = 0 then ([], s) else snd (stream_send v s))"
| "stream_step s SClone = (if sr_senders s = 0 then ([], s) else ([], stream_sender_clone s))"
| "stream_step s SDropCount = (if sr_senders s = 0 then ([], s) else ([], stream_drop_count s))"
| "stream_step s SDropWake = (if sr_dropping s = 0 then ([], s) else stream_drop_wake s)"
| "stream_step s SFirst = ([], snd (stream_batch_first s))"
| "stream_step s (SSecond w) = ([], snd (stream_batch_second w s))"

fun stream_sent :: "'a stream \<Rightarrow> 'a stream_op list \<Rightarrow> 'a list" where
  "stream_sent s [] = []"
| "stream_sent s (x # xs) =
     (case x of SSend v \<Rightarrow> if sr_senders s = 0 \<or> sr_done s then [] else [v] | _ \<Rightarrow> [])
     @ stream_sent (snd (stream_step s x)) xs"

fun stream_received :: "'a stream \<Rightarrow> 'a stream_op list \<Rightarrow> 'a list" where
  "stream_received s [] = []"
| "stream_received s (x # xs) =
     (case x of SFirst \<Rightarrow> (case fst (stream_batch_first s) of None \<Rightarrow> [] | Some vs \<Rightarrow> vs) | _ \<Rightarrow> [])
     @ stream_received (snd (stream_step s x)) xs"

definition stream_inv :: "'a stream \<Rightarrow> bool" where
  "stream_inv s \<longleftrightarrow>
     (sr_waker s \<noteq> None \<longrightarrow> sr_values s = [] \<and> (sr_senders s > 0 \<or> sr_dropping s > 0))"

text \<open>A poll would complete, and no sender is about to take the waker.\<close>

definition stream_ready :: "'a stream \<Rightarrow> bool" where
  "stream_ready s \<longleftrightarrow> sr_values s \<noteq> [] \<or> sr_senders s = 0 \<and> sr_dropping s = 0"

fun is_poll :: "'a stream_op \<Rightarrow> bool" where
  "is_poll (SSecond w) = True"
| "is_poll _ = False"

fun pushed :: "nat \<Rightarrow> 'a producer list \<Rightarrow> 'a list" where
  "pushed n [] = []"
| "pushed n (Push v # acts) = (if n = 0 then [] else v # pushed n acts)"
| "pushed n (CloneSender # acts) = (if n = 0 then [] else pushed (Suc n) acts)"
| "pushed n (DropSender # acts) = (if n = 0 then [] else pushed (n - 1) acts)"

fun live_senders :: "nat \<Rightarrow> 'a producer list \<Rightarrow> nat" where
  "live_senders n [] = n"
| "live_senders n (Push v # acts) = live_senders n acts"
| "live_senders n (CloneSender # acts) = live_senders (if n = 0 then 0 else Suc n) acts"
| "live_senders n (DropSender # acts) = live_senders (n - 1) acts"

subsection \<open>Laws\<close>

lemmas stream_defs = stream_send_def stream_sender_clone_def stream_drop_count_def stream_drop_wake_def
  stream_sender_drop_def stream_batch_first_def stream_batch_second_def stream_try_recv_def stream_drain_def

lemma stream_inv_step: "stream_inv s \<Longrightarrow> stream_inv (snd (stream_step s x))"
  by (cases x) (auto simp: stream_inv_def stream_defs Let_def)

interpretation stream_contract: wake_contract stream_inv stream_step "set_option \<circ> sr_waker" stream_ready is_poll
proof
  fix s :: "'a stream" and x :: "'a stream_op"
  show "stream_inv s \<Longrightarrow> stream_inv (snd (stream_step s x))" by (rule stream_inv_step)
next
  fix s :: "'a stream" and w
  show "stream_inv s \<Longrightarrow> w \<in> (set_option \<circ> sr_waker) s \<Longrightarrow> \<not> stream_ready s"
    by (auto simp: stream_inv_def stream_ready_def)
next
  fix s :: "'a stream" and w and x :: "'a stream_op"
  show "stream_inv s \<Longrightarrow> w \<in> (set_option \<circ> sr_waker) s \<Longrightarrow> \<not> is_poll x \<Longrightarrow>
      w \<in> set (fst (stream_step s x)) \<or> w \<in> (set_option \<circ> sr_waker) (snd (stream_step s x))"
    by (cases x) (auto simp: stream_defs Let_def)
qed

lemma stream_fifo_gen:
  "sr_values s @ stream_sent s xs = stream_received s xs @ sr_values (snd (wk_run stream_step xs s))"
proof (induction xs arbitrary: s)
  case (Cons x xs)
  show ?case
    using Cons.IH [of "snd (stream_step s x)"]
    by (cases x) (auto simp: stream_defs Let_def case_prod_unfold)
qed simp

lemma stream_fold_all:
  assumes "\<not> sr_done s" "live_senders (sr_senders s) acts = 0"
  shows "\<exists>s'. stream_fold f acts acc s =
    (Some (foldl f (foldl f acc (sr_values s)) (pushed (sr_senders s) acts)), s') \<and> stream_is_done s'"
  using assms
proof (induction f acts acc s rule: stream_fold.induct)
  case (1 f acts acc s)
  show ?case
  proof (cases "sr_values s")
    case (Cons v vs)
    have batch: "stream_recv_batch (length (sr_values s)) s = (Some (v # vs), s\<lparr>sr_values := []\<rparr>)"
      by (simp add: stream_recv_batch_def stream_drain_def Cons)
    then show ?thesis
      using "1.IH"(2) [OF batch [symmetric] refl refl] "1.prems" Cons by (subst stream_fold.simps) simp
  next
    case Nil
    show ?thesis
    proof (cases "sr_senders s")
      case 0
      then have "pushed (sr_senders s) acts = []" by (cases acts; cases "hd acts") auto
      then show ?thesis
        using Nil 0 by (subst stream_fold.simps) (simp add: stream_recv_batch_def stream_is_done_def)
    next
      case (Suc n)
      have wait: "stream_recv_batch (length (sr_values s)) s = (None, s)"
        by (simp add: stream_recv_batch_def Nil Suc)
      show ?thesis
      proof (cases acts)
        case Nil
        then show ?thesis using "1.prems" Suc by simp
      next
        case (Cons a acts')
        have "\<not> sr_done (stream_produce a s)" "live_senders (sr_senders (stream_produce a s)) acts' = 0"
          "sr_values (stream_produce a s) @ pushed (sr_senders (stream_produce a s)) acts' =
             pushed (sr_senders s) acts"
          using "1.prems" \<open>sr_values s = []\<close> Suc
          by (cases a; auto simp: Cons stream_defs)+
        then show ?thesis
          using "1.IH"(1) [OF wait [symmetric] refl Cons] wait Cons \<open>sr_values s = []\<close>
          by (subst stream_fold.simps) (auto simp flip: foldl_append)
      qed
    qed
  qed
qed

subsection \<open>Properties\<close>

text \<open>C26: a stream delivers what was sent, in order, exactly once.  Under every
  interleaving of the senders and the polls of the receiver, the values received followed by those
  still queued are the values accepted, in the order of acceptance.\<close>

theorem stream_fifo:
  "stream_sent stream_channel xs =
     stream_received stream_channel xs @ sr_values (snd (wk_run stream_step xs stream_channel))"
  using stream_fifo_gen [of stream_channel xs] by (simp add: stream_channel_def)

text \<open>The receiver of a stream is never forgotten.  If its waker is parked in a state
  reached from a fresh stream, then after any steps of the senders, if values are there or all
  senders are gone and their drops are over, the waker has been called.\<close>

theorem stream_no_lost_wakeup:
  assumes "s = snd (wk_run stream_step xs stream_channel)" "sr_waker s = Some w"
    and "\<forall>x\<in>set ys. \<not> is_poll x" "wk_run stream_step ys s = (ws, s')"
    and "sr_values s' \<noteq> [] \<or> sr_senders s' = 0 \<and> sr_dropping s' = 0"
  shows "w \<in> set ws"
proof -
  have "stream_inv (stream_channel :: 'a stream)" by (simp add: stream_inv_def stream_channel_def)
  then have "stream_inv s" using stream_contract.inv_run assms(1) by blast
  then show ?thesis
    using stream_contract.no_lost_wakeup [of s w ys] assms by (simp add: stream_ready_def)
qed

theorem stream_no_lost_wakeup_witness:
  "let s = snd (wk_run stream_step [SClone, SFirst, SSecond 4, SDropCount] (stream_channel :: nat stream))
   in sr_waker s = Some 4 \<and> (\<exists>ws s'. wk_run stream_step [SDropCount, SDropWake] s = (ws, s') \<and> 4 \<in> set ws)"
proof -
  let ?s = "snd (wk_run stream_step [SClone, SFirst, SSecond 4, SDropCount] (stream_channel :: nat stream))"
  have w: "sr_waker ?s = Some 4" by code_simp
  obtain ws s' where r: "wk_run stream_step [SDropCount, SDropWake] ?s = (ws, s')" by fastforce
  have "sr_senders (snd (wk_run stream_step [SDropCount, SDropWake] ?s)) = 0"
    "sr_dropping (snd (wk_run stream_step [SDropCount, SDropWake] ?s)) = 0" by code_simp+
  then show ?thesis
    using stream_no_lost_wakeup [OF refl w _ r] w r by (simp add: Let_def)
qed

text \<open>Folding a stream terminates and sees every value.  When the senders drop all
  their handles, \<open>fold\<close> returns the fold over the values queued at the start and those pushed while it
  waits, in order, and the stream is exhausted; \<open>collect\<close> is the fold that appends, so it returns
  exactly these values.\<close>

theorem stream_fold_returns_all:
  fixes s :: "'a stream"
  assumes "\<not> sr_done s" "live_senders (sr_senders s) acts = 0"
  shows "(\<exists>s'. stream_fold f acts acc s =
      (Some (foldl f acc (sr_values s @ pushed (sr_senders s) acts)), s') \<and> stream_is_done s') \<and>
    fst (stream_collect acts s) = Some (sr_values s @ pushed (sr_senders s) acts)"
proof -
  have app: "foldl (\<lambda>all v. all @ [v]) vs ws = vs @ ws" for vs ws :: "'a list"
    by (induction ws arbitrary: vs) simp_all
  show ?thesis
    using stream_fold_all [OF assms, of f acc] stream_fold_all [OF assms, of "\<lambda>all v. all @ [v]" "[]"]
    by (auto simp: stream_collect_def app)
qed

theorem stream_fold_returns_all_witness:
  "fst (stream_fold (+) [Push (3::nat), CloneSender, DropSender, Push 4, DropSender, Push 9] 0 stream_channel) = Some 7"
  using stream_fold_returns_all [of stream_channel "[Push (3::nat), CloneSender, DropSender, Push 4, DropSender, Push 9]" "(+)" 0]
  by (auto simp: stream_channel_def)

text \<open>\<open>try_recv\<close> never reports \<open>SenderDropped\<close>: on an exhausted stream whose senders are
  all gone it returns \<open>Ok(None)\<close>, the answer it also gives while a sender is alive, so that a client
  cannot tell the end of the stream from a stream that is still open.\<close>

theorem stream_try_recv_hides_end:
  "fst (stream_try_recv n s) \<noteq> Inl e \<and>
   fst (stream_try_recv n (snd (stream_sender_drop stream_channel))) =
     fst (stream_try_recv n stream_channel)"
  by (simp add: stream_try_recv_def stream_drain_def Let_def stream_channel_def stream_sender_drop_def
      stream_drop_wake_def stream_drop_count_def)

end
