(* ===== verification/Sync_Events.thy ===== *)
theory Sync_Events
  imports Wake_Contract
begin

text \<open>
  The events of \<open>executor/sync.rs\<close>: the cooperative stop signal (\<open>StopSource\<close>, \<open>StopToken\<close>) and
  the one-shot notification (\<open>Notify\<close>, \<open>Notified\<close>).  Each operation is one section under the mutex
  of the shared state; the clones of a handle share it.  Both events provide \<open>wake_contract\<close>.
\<close>

subsection \<open>Stop signals\<close>

record stop_state =
  sp_stopped :: bool
  sp_wakers :: "waker list"

definition stop_pair :: stop_state where
  "stop_pair = \<lparr>sp_stopped = False, sp_wakers = []\<rparr>"

definition stop_source_stop :: "stop_state \<Rightarrow> bool \<times> waker list \<times> stop_state" where
  "stop_source_stop s =
     (if sp_stopped s then (False, [], s)
      else (True, sp_wakers s, s\<lparr>sp_stopped := True, sp_wakers := []\<rparr>))"

definition stop_is_stopped :: "stop_state \<Rightarrow> bool" where
  "stop_is_stopped s = sp_stopped s"

definition stop_token_poll :: "waker \<Rightarrow> stop_state \<Rightarrow> unit poll \<times> stop_state" where
  "stop_token_poll w s =
     (if sp_stopped s then (Ready (), s)
      else (Pending, s\<lparr>sp_wakers := push_unique w (sp_wakers s)\<rparr>))"

subsection \<open>Notifications\<close>

record notify_state =
  nf_notified :: bool
  nf_wakers :: "waker list"

definition notify_new :: notify_state where
  "notify_new = \<lparr>nf_notified = False, nf_wakers = []\<rparr>"

definition notify_waiters :: "notify_state \<Rightarrow> bool \<times> waker list \<times> notify_state" where
  "notify_waiters s =
     (if nf_notified s then (False, [], s)
      else (True, nf_wakers s, s\<lparr>nf_notified := True, nf_wakers := []\<rparr>))"

definition is_notified :: "notify_state \<Rightarrow> bool" where
  "is_notified s = nf_notified s"

definition notified_poll :: "waker \<Rightarrow> notify_state \<Rightarrow> unit poll \<times> notify_state" where
  "notified_poll w s =
     (if nf_notified s then (Ready (), s)
      else (Pending, s\<lparr>nf_wakers := push_unique w (nf_wakers s)\<rparr>))"

subsection \<open>Histories\<close>

datatype event_op = Fire | Wait waker

fun stop_step :: "stop_state \<Rightarrow> event_op \<Rightarrow> waker list \<times> stop_state" where
  "stop_step s Fire = snd (stop_source_stop s)"
| "stop_step s (Wait w) = ([], snd (stop_token_poll w s))"

fun notify_step :: "notify_state \<Rightarrow> event_op \<Rightarrow> waker list \<times> notify_state" where
  "notify_step s Fire = snd (notify_waiters s)"
| "notify_step s (Wait w) = ([], snd (notified_poll w s))"

definition stop_inv :: "stop_state \<Rightarrow> bool" where
  "stop_inv s \<longleftrightarrow> distinct (sp_wakers s) \<and> (sp_stopped s \<longrightarrow> sp_wakers s = [])"

definition notify_inv :: "notify_state \<Rightarrow> bool" where
  "notify_inv s \<longleftrightarrow> distinct (nf_wakers s) \<and> (nf_notified s \<longrightarrow> nf_wakers s = [])"

text \<open>The tasks that waited before the first \<open>Fire\<close>, in the order of their first poll.\<close>

fun waited :: "event_op list \<Rightarrow> waker list \<Rightarrow> waker list" where
  "waited [] ws = ws"
| "waited (Fire # ops) ws = ws"
| "waited (Wait w # ops) ws = waited ops (push_unique w ws)"

subsection \<open>Laws\<close>

lemmas sync_defs = stop_source_stop_def stop_token_poll_def notify_waiters_def notified_poll_def
  stop_inv_def notify_inv_def push_unique_def

lemma stop_inv_step: "stop_inv s \<Longrightarrow> stop_inv (snd (stop_step s x))"
  by (cases x) (auto simp: sync_defs)

lemma notify_inv_step: "notify_inv s \<Longrightarrow> notify_inv (snd (notify_step s x))"
  by (cases x) (auto simp: sync_defs)

interpretation stop_signal: wake_contract stop_inv stop_step "set \<circ> sp_wakers" sp_stopped "\<lambda>_. False"
proof
  show "stop_inv (snd (stop_step s x))" if "stop_inv s" for s x using that by (rule stop_inv_step)
  show "\<not> sp_stopped s" if "stop_inv s" "w \<in> (set \<circ> sp_wakers) s" for s w
    using that by (auto simp: stop_inv_def)
  show "w \<in> set (fst (stop_step s x)) \<or> w \<in> (set \<circ> sp_wakers) (snd (stop_step s x))"
    if "stop_inv s" "w \<in> (set \<circ> sp_wakers) s" for s w x
    using that by (cases x) (auto simp: sync_defs)
qed

interpretation notification: wake_contract notify_inv notify_step "set \<circ> nf_wakers" nf_notified "\<lambda>_. False"
proof
  show "notify_inv (snd (notify_step s x))" if "notify_inv s" for s x using that by (rule notify_inv_step)
  show "\<not> nf_notified s" if "notify_inv s" "w \<in> (set \<circ> nf_wakers) s" for s w
    using that by (auto simp: notify_inv_def)
  show "w \<in> set (fst (notify_step s x)) \<or> w \<in> (set \<circ> nf_wakers) (snd (notify_step s x))"
    if "notify_inv s" "w \<in> (set \<circ> nf_wakers) s" for s w x
    using that by (cases x) (auto simp: sync_defs)
qed

lemma stop_run_stopped: "sp_stopped s \<Longrightarrow> wk_run stop_step ops s = ([], s)"
proof (induction ops)
  case (Cons x ops)
  then show ?case by (cases x) (simp_all add: sync_defs)
qed simp

lemma stop_run:
  "\<not> sp_stopped s \<Longrightarrow> wk_run stop_step ops s =
     (if Fire \<in> set ops then (waited ops (sp_wakers s), \<lparr>sp_stopped = True, sp_wakers = []\<rparr>)
      else ([], s\<lparr>sp_wakers := waited ops (sp_wakers s)\<rparr>))"
proof (induction ops arbitrary: s)
  case (Cons x ops)
  then show ?case
    by (cases x) (simp_all add: stop_source_stop_def stop_token_poll_def stop_run_stopped)
qed simp

lemma notify_run_notified: "nf_notified s \<Longrightarrow> wk_run notify_step ops s = ([], s)"
proof (induction ops)
  case (Cons x ops)
  then show ?case by (cases x) (simp_all add: sync_defs)
qed simp

lemma notify_run:
  "\<not> nf_notified s \<Longrightarrow> wk_run notify_step ops s =
     (if Fire \<in> set ops then (waited ops (nf_wakers s), \<lparr>nf_notified = True, nf_wakers = []\<rparr>)
      else ([], s\<lparr>nf_wakers := waited ops (nf_wakers s)\<rparr>))"
proof (induction ops arbitrary: s)
  case (Cons x ops)
  then show ?case
    by (cases x) (simp_all add: notify_waiters_def notified_poll_def notify_run_notified)
qed simp

lemma waited_set:
  "set (waited ops ws) = set ws \<union> {w. \<exists>pre post. ops = pre @ Wait w # post \<and> Fire \<notin> set pre}"
proof (induction ops ws rule: waited.induct)
  case (3 w ops ws)
  have "{v. \<exists>pre post. Wait w # ops = pre @ Wait v # post \<and> Fire \<notin> set pre} =
      insert w {v. \<exists>pre post. ops = pre @ Wait v # post \<and> Fire \<notin> set pre}" (is "?L = ?R")
  proof
    show "?L \<subseteq> ?R" by (auto simp: Cons_eq_append_conv)
    have "w \<in> ?L" by force
    moreover have "v \<in> ?L" if "ops = pre @ Wait v # post" "Fire \<notin> set pre" for v pre post
      by (rule CollectI, rule exI [of _ "Wait w # pre"], rule exI [of _ post]) (use that in simp)
    ultimately show "?R \<subseteq> ?L" by blast
  qed
  then show ?case using "3.IH" by (auto simp: push_unique_def)
qed (auto simp: Cons_eq_append_conv)

lemma waited_distinct: "distinct ws \<Longrightarrow> distinct (waited ops ws)"
  by (induction ops ws rule: waited.induct) (simp_all add: push_unique_def)

subsection \<open>Properties\<close>

text \<open>An event wakes exactly the tasks that wait for it, each once.  In every history of
  a fresh stop signal and of a fresh notification, if it was fired the wakers called are the distinct
  tasks that polled before the first firing, in the order of their first poll, none is called twice
  and none is left parked; if it was never fired no waker is called and all of them are parked.\<close>

theorem events_wake_waiters_once:
  "let ws = waited ops [] in
     distinct ws \<and> set ws = {w. \<exists>pre post. ops = pre @ Wait w # post \<and> Fire \<notin> set pre} \<and>
     wk_run stop_step ops stop_pair =
       (if Fire \<in> set ops then (ws, \<lparr>sp_stopped = True, sp_wakers = []\<rparr>)
        else ([], \<lparr>sp_stopped = False, sp_wakers = ws\<rparr>)) \<and>
     wk_run notify_step ops notify_new =
       (if Fire \<in> set ops then (ws, \<lparr>nf_notified = True, nf_wakers = []\<rparr>)
        else ([], \<lparr>nf_notified = False, nf_wakers = ws\<rparr>))"
  using waited_set [of ops "[]"] waited_distinct [of "[]" ops]
  by (simp add: Let_def stop_run notify_run stop_pair_def notify_new_def)

end
