(* ===== verification/Backpressure.thy ===== *)
theory Backpressure
  imports Sitas_Prelude
begin

text \<open>
  The counting semaphore of \<open>executor/backpressure.rs\<close>.  The capacity check with its
  compare-and-exchange is one step, and so are the registration of a waiter, the release of a permit
  and the waking of the waiters; polling an \<open>AcquirePermit\<close> is a check followed by a registration, and
  dropping a \<open>Permit\<close> a release followed by the wakeups.  Wait identifiers are 64-bit words.
\<close>

subsection \<open>The guard\<close>

record backpressure =
  bp_capacity :: nat
  bp_in_flight :: nat
  bp_waiters :: "(u64 \<times> waker) list"
  bp_next_wait_id :: u64

definition backpressure_new :: "nat \<Rightarrow> panic + backpressure" where
  "backpressure_new capacity =
     (if capacity > 0
      then Inr \<lparr>bp_capacity = capacity, bp_in_flight = 0, bp_waiters = [], bp_next_wait_id = 0\<rparr>
      else Inl AssertionFailed)"

definition bp_available :: "backpressure \<Rightarrow> nat" where
  "bp_available g = bp_capacity g - bp_in_flight g"

text \<open>The loop of \<open>try_acquire\<close>, also at the start of \<open>AcquirePermit::poll\<close>: whether a permit
  was taken.\<close>

definition bp_try_acquire :: "backpressure \<Rightarrow> bool \<times> backpressure" where
  "bp_try_acquire g =
     (if bp_in_flight g < bp_capacity g then (True, g\<lparr>bp_in_flight := bp_in_flight g + 1\<rparr>)
      else (False, g))"

subsection \<open>Acquiring with waiting\<close>

record acquire_permit =
  ap_registered :: bool
  ap_wait_id :: u64

definition bp_acquire :: "backpressure \<Rightarrow> acquire_permit \<times> backpressure" where
  "bp_acquire g =
     (\<lparr>ap_registered = False, ap_wait_id = bp_next_wait_id g\<rparr>,
      g\<lparr>bp_next_wait_id := bp_next_wait_id g + 1\<rparr>)"

definition acquire_register ::
  "waker \<Rightarrow> acquire_permit \<Rightarrow> backpressure \<Rightarrow> acquire_permit \<times> backpressure" where
  "acquire_register w a g =
     (if ap_registered a then (a, g)
      else (a\<lparr>ap_registered := True\<rparr>, g\<lparr>bp_waiters := bp_waiters g @ [(ap_wait_id a, w)]\<rparr>))"

definition acquire_poll ::
  "waker \<Rightarrow> acquire_permit \<Rightarrow> backpressure \<Rightarrow> unit poll \<times> acquire_permit \<times> backpressure" where
  "acquire_poll w a g =
     (let (taken, g) = bp_try_acquire g
      in if taken then (Ready (), a, g) else (Pending, acquire_register w a g))"

definition acquire_drop :: "acquire_permit \<Rightarrow> backpressure \<Rightarrow> backpressure" where
  "acquire_drop a g =
     (if ap_registered a then g\<lparr>bp_waiters := filter (\<lambda>(i, _). i \<noteq> ap_wait_id a) (bp_waiters g)\<rparr> else g)"

subsection \<open>Permits\<close>

definition permit_release :: "backpressure \<Rightarrow> backpressure" where
  "permit_release g = g\<lparr>bp_in_flight := bp_in_flight g - 1\<rparr>"

definition permit_wake :: "backpressure \<Rightarrow> waker list \<times> backpressure" where
  "permit_wake g = (map snd (bp_waiters g), g\<lparr>bp_waiters := []\<rparr>)"

definition permit_drop :: "backpressure \<Rightarrow> waker list \<times> backpressure" where
  "permit_drop g = permit_wake (permit_release g)"

subsection \<open>Clients\<close>

text \<open>The guard with the permits handed out, the futures in existence, the drops of permits
  between their two steps, and the polls that found no capacity and have not registered yet.\<close>

record bp_clients =
  bc_guard :: backpressure
  bc_permits :: nat
  bc_futures :: "acquire_permit list"
  bc_releasing :: nat
  bc_parking :: "(nat \<times> waker) list"

datatype bp_op =
    BpTry
  | BpAcquire
  | BpCheck nat waker
  | BpPark
  | BpRelease
  | BpWake
  | BpDropFuture nat

fun bp_step :: "bp_clients \<Rightarrow> bp_op \<Rightarrow> waker list \<times> bp_clients" where
  "bp_step c BpTry =
     (let (taken, g) = bp_try_acquire (bc_guard c)
      in ([], c\<lparr>bc_guard := g, bc_permits := (if taken then bc_permits c + 1 else bc_permits c)\<rparr>))"
| "bp_step c BpAcquire =
     (let (a, g) = bp_acquire (bc_guard c) in ([], c\<lparr>bc_guard := g, bc_futures := bc_futures c @ [a]\<rparr>))"
| "bp_step c (BpCheck k w) =
     (if k < length (bc_futures c)
      then (let (taken, g) = bp_try_acquire (bc_guard c)
            in ([], if taken then c\<lparr>bc_guard := g, bc_permits := bc_permits c + 1\<rparr>
                    else c\<lparr>bc_parking := bc_parking c @ [(k, w)]\<rparr>))
      else ([], c))"
| "bp_step c BpPark =
     (case bc_parking c of
        [] \<Rightarrow> ([], c)
      | (k, w) # ps \<Rightarrow>
          (let (a, g) = acquire_register w (bc_futures c ! k) (bc_guard c)
           in ([], c\<lparr>bc_guard := g, bc_futures := (bc_futures c)[k := a], bc_parking := ps\<rparr>)))"
| "bp_step c BpRelease =
     (if bc_permits c > 0
      then ([], c\<lparr>bc_guard := permit_release (bc_guard c), bc_permits := bc_permits c - 1,
                  bc_releasing := bc_releasing c + 1\<rparr>)
      else ([], c))"
| "bp_step c BpWake =
     (if bc_releasing c > 0
      then (let (ws, g) = permit_wake (bc_guard c)
            in (ws, c\<lparr>bc_guard := g, bc_releasing := bc_releasing c - 1\<rparr>))
      else ([], c))"
| "bp_step c (BpDropFuture k) =
     (if k < length (bc_futures c)
      then ([], c\<lparr>bc_guard := acquire_drop (bc_futures c ! k) (bc_guard c)\<rparr>)
      else ([], c))"

fun bp_run :: "bp_op list \<Rightarrow> bp_clients \<Rightarrow> waker list \<times> bp_clients" where
  "bp_run [] c = ([], c)"
| "bp_run (x # xs) c = (let (ws, c) = bp_step c x; (ws', c) = bp_run xs c in (ws @ ws', c))"

definition bp_clients_new :: "backpressure \<Rightarrow> bp_clients" where
  "bp_clients_new g =
     \<lparr>bc_guard = g, bc_permits = 0, bc_futures = [], bc_releasing = 0, bc_parking = []\<rparr>"

definition bp_inv :: "bp_clients \<Rightarrow> bool" where
  "bp_inv c \<longleftrightarrow> bp_in_flight (bc_guard c) = bc_permits c \<and> bc_permits c \<le> bp_capacity (bc_guard c)"

subsection \<open>Laws\<close>

lemmas bp_defs = bp_try_acquire_def bp_acquire_def acquire_register_def acquire_drop_def
  permit_release_def permit_wake_def

lemma bp_capacity_step: "bp_capacity (bc_guard (snd (bp_step c x))) = bp_capacity (bc_guard c)"
  by (cases x) (auto simp: bp_defs Let_def case_prod_unfold split: list.splits prod.splits)

lemma bp_inv_step: "bp_inv c \<Longrightarrow> bp_inv (snd (bp_step c x))"
  by (cases x) (auto simp: bp_inv_def bp_defs Let_def case_prod_unfold split: list.splits prod.splits)

lemma bp_inv_run:
  "bp_inv c \<Longrightarrow> bp_inv (snd (bp_run xs c)) \<and> bp_capacity (bc_guard (snd (bp_run xs c))) = bp_capacity (bc_guard c)"
proof (induction xs arbitrary: c)
  case (Cons x xs)
  then show ?case
    using Cons.IH [OF bp_inv_step [OF Cons.prems, of x]] bp_capacity_step [of c x]
    by (simp add: Let_def case_prod_unfold)
qed simp

lemma bp_start: "backpressure_new capacity = Inr g \<Longrightarrow> bp_inv (bp_clients_new g) \<and> bp_capacity g = capacity"
  by (auto simp: backpressure_new_def bp_inv_def bp_clients_new_def split: if_splits)

subsection \<open>Properties\<close>

text \<open>The limit holds.  Whatever the interleaving of tries, polls, releases and
  cancellations, the in-flight count is the number of permits that are held, it never exceeds the
  capacity, the available permits are the rest, and a try succeeds exactly if a permit is available.\<close>

theorem bp_limit_holds:
  assumes "backpressure_new capacity = Inr g"
  shows "let c = snd (bp_run xs (bp_clients_new g)) in
    bp_in_flight (bc_guard c) = bc_permits c \<and> bc_permits c \<le> capacity \<and>
    bp_available (bc_guard c) = capacity - bc_permits c \<and>
    (fst (bp_try_acquire (bc_guard c)) \<longleftrightarrow> bc_permits c < capacity)"
  using bp_inv_run [of "bp_clients_new g" xs] bp_start [OF assms]
  by (auto simp: Let_def bp_inv_def bp_available_def bp_try_acquire_def bp_clients_new_def)

theorem bp_limit_holds_witness:
  "\<exists>g. backpressure_new 2 = Inr g \<and>
     (let c = snd (bp_run [BpTry, BpAcquire, BpTry, BpCheck 0 5, BpPark, BpRelease, BpWake, BpCheck 0 5] (bp_clients_new g))
      in bc_permits c = 2 \<and> bp_available (bc_guard c) = 0)"
proof -
  let ?xs = "[BpTry, BpAcquire, BpTry, BpCheck 0 5, BpPark, BpRelease, BpWake, BpCheck 0 5]"
  have "case backpressure_new 2 of Inl e \<Rightarrow> False | Inr g \<Rightarrow> bc_permits (snd (bp_run ?xs (bp_clients_new g))) = 2"
    by code_simp
  then obtain g where g: "backpressure_new 2 = Inr g" "bc_permits (snd (bp_run ?xs (bp_clients_new g))) = 2"
    by (auto split: sum.splits)
  then show ?thesis using bp_limit_holds [OF g(1), of ?xs] by (auto simp: Let_def)
qed

text \<open>A release wakes every registered waiter, once each and in order of registration,
  and clears the list; a dropped acquisition is not among them.\<close>

theorem bp_release_wakes_all:
  "permit_drop g = (map snd (bp_waiters g), g\<lparr>bp_in_flight := bp_in_flight g - 1, bp_waiters := []\<rparr>) \<and>
   (ap_registered a \<longrightarrow> fst (permit_drop (acquire_drop a g)) =
      map snd (filter (\<lambda>(i, _). i \<noteq> ap_wait_id a) (bp_waiters g)))"
  by (simp add: permit_drop_def permit_wake_def permit_release_def acquire_drop_def)

theorem bp_release_wakes_all_witness:
  "let g = \<lparr>bp_capacity = 1, bp_in_flight = 1, bp_waiters = [(0, 7), (1, 8)], bp_next_wait_id = 2\<rparr>
   in fst (permit_drop g) = [7, 8] \<and>
      fst (permit_drop (acquire_drop \<lparr>ap_registered = True, ap_wait_id = 0\<rparr> g)) = [8]"
  using bp_release_wakes_all [of "\<lparr>bp_capacity = 1, bp_in_flight = 1, bp_waiters = [(0, 7), (1, 8)], bp_next_wait_id = 2\<rparr>"
      "\<lparr>ap_registered = True, ap_wait_id = 0\<rparr>"]
  by (simp add: Let_def)


end
