(* ===== verification/Mailbox_Index.thy ===== *)
theory Mailbox_Index
  imports Placement "HOL-Library.Product_Lexorder"
begin

text \<open>
  The index build of \<open>mailbox_index.rs\<close>: scanner shards route the records of their partition to
  assemblers in batches, assemblers sort what they receive into runs, and the coordinator merges and
  verifies the runs.  A scanner is the list of messages it sends, with their destinations; the
  retry loop around a full mailbox repeats a send until it is accepted, so that an assembler receives
  an interleaving of the messages of the scanners, in the order each scanner sent them.  The binary
  heap of the merge is a sorted list.  The debug assertions on the shard of a message are left out:
  a scanner sends its own index, which is below the shard count.
\<close>

unbundle bit_operations_syntax

subsection \<open>Data\<close>

definition record_count :: nat where "record_count = 1024"
definition shard_count :: nat where "shard_count = 2"
definition assembler_count :: nat where "assembler_count = 3"
definition seed :: u64 where "seed = 0x517a5eed"
definition success_sentinel :: u32 where "success_sentinel = of_nat record_count"
definition failure_sentinel :: u32 where "failure_sentinel = 0xBADC0DE"
definition send_batch_entries :: nat where "send_batch_entries = 32"

datatype index_entry = IndexEntry (ie_key: u64) (ie_offset: u64)

instantiation index_entry :: linorder
begin

definition less_eq_index_entry :: "index_entry \<Rightarrow> index_entry \<Rightarrow> bool" where
  "a \<le> b \<longleftrightarrow> (ie_key a, ie_offset a) \<le> (ie_key b, ie_offset b)"

definition less_index_entry :: "index_entry \<Rightarrow> index_entry \<Rightarrow> bool" where
  "a < b \<longleftrightarrow> (ie_key a, ie_offset a) < (ie_key b, ie_offset b)"

instance
proof
  fix a b c :: index_entry
  show "(a < b) = (a \<le> b \<and> \<not> b \<le> a)" by (auto simp: less_index_entry_def less_eq_index_entry_def)
  show "a \<le> a" by (simp add: less_eq_index_entry_def)
  show "a \<le> b \<Longrightarrow> b \<le> c \<Longrightarrow> a \<le> c" unfolding less_eq_index_entry_def by (rule order_trans)
  show "a \<le> b \<Longrightarrow> b \<le> a \<Longrightarrow> a = b"
    unfolding less_eq_index_entry_def by (cases a; cases b) auto
  show "a \<le> b \<or> b \<le> a" unfolding less_eq_index_entry_def by (rule linear)
qed

end

datatype index_message =
    Entries shard_id "index_entry list"
  | ProducerDone shard_id

record run_result =
  rr_work_unit :: nat
  rr_entries :: "index_entry list"

subsection \<open>Records and partitions\<close>

definition splitmix64 :: "u64 \<Rightarrow> u64" where
  "splitmix64 value =
     (let value = value + 0x9E3779B97F4A7C15;
          value = (value XOR drop_bit 30 value) * 0xBF58476D1CE4E5B9;
          value = (value XOR drop_bit 27 value) * 0x94D049BB133111EB
      in value XOR drop_bit 31 value)"

definition record_key :: "nat \<Rightarrow> u64" where
  "record_key record_idx = splitmix64 (seed XOR (of_nat record_idx * 0x9E3779B97F4A7C15))"

definition partition_for :: "nat \<Rightarrow> nat \<Rightarrow> nat \<Rightarrow> nat \<times> nat" where
  "partition_for shard_idx shards records =
     (let base = records div shards;
          remainder = records mod shards;
          start = shard_idx * base + min shard_idx remainder;
          len = base + (if shard_idx < remainder then 1 else 0)
      in (start, start + len))"

definition work_unit_shard :: "nat \<Rightarrow> shard_id" where
  "work_unit_shard work_unit =
     (if work_unit = assembler_count - 1 then 0 else work_unit mod shard_count)"

subsection \<open>Scanners\<close>

definition key_assembler :: "u64 \<Rightarrow> nat" where
  "key_assembler key = projr (shard_for_hash (hash_u64 key) assembler_count)"

type_synonym sends = "(nat \<times> index_message) list"

fun scan_records ::
  "shard_id \<Rightarrow> nat list \<Rightarrow> index_entry list list \<Rightarrow> sends \<times> index_entry list list" where
  "scan_records from [] batches = ([], batches)"
| "scan_records from (record_idx # rest) batches =
     (let key = record_key record_idx;
          assembler = key_assembler key;
          batches = batches[assembler := batches ! assembler @ [IndexEntry key (of_nat record_idx)]]
      in if length (batches ! assembler) = send_batch_entries
         then (let (out, final) = scan_records from rest (batches[assembler := []])
               in ((assembler, Entries from (batches ! assembler)) # out, final))
         else scan_records from rest batches)"

definition flush_batches :: "shard_id \<Rightarrow> index_entry list list \<Rightarrow> sends" where
  "flush_batches from batches =
     map (\<lambda>a. (a, Entries from (batches ! a))) (filter (\<lambda>a. batches ! a \<noteq> []) [0..<length batches])"

definition run_scanner_shard :: "nat \<Rightarrow> sends" where
  "run_scanner_shard shard_idx =
     (let (start, end) = partition_for shard_idx shard_count record_count;
          (out, batches) = scan_records shard_idx [start..<end] (replicate assembler_count [])
      in out @ flush_batches shard_idx batches
         @ map (\<lambda>a. (a, ProducerDone shard_idx)) [0..<assembler_count])"

subsection \<open>Assemblers\<close>

text \<open>The receive loop: \<open>None\<close> is a channel that ends before all producers are done.\<close>

fun assembler_loop ::
  "index_entry list \<Rightarrow> nat \<Rightarrow> index_message list \<Rightarrow> index_entry list option" where
  "assembler_loop entries producers_done [] =
     (if producers_done < shard_count then None else Some (sort entries))"
| "assembler_loop entries producers_done (message # rest) =
     (if producers_done < shard_count
      then (case message of
              Entries _ batch \<Rightarrow> assembler_loop (entries @ batch) producers_done rest
            | ProducerDone _ \<Rightarrow> assembler_loop entries (producers_done + 1) rest)
      else Some (sort entries))"

definition assembler_task :: "nat \<Rightarrow> index_message list \<Rightarrow> run_result option" where
  "assembler_task work_unit messages =
     map_option (\<lambda>entries. \<lparr>rr_work_unit = work_unit, rr_entries = entries\<rparr>) (assembler_loop [] 0 messages)"

subsection \<open>The coordinator\<close>

fun windows_descend :: "index_entry list \<Rightarrow> bool" where
  "windows_descend (a # b # xs) \<longleftrightarrow> b < a \<or> windows_descend (b # xs)"
| "windows_descend _ \<longleftrightarrow> False"

definition merge_left :: "index_entry list list \<Rightarrow> nat list \<Rightarrow> nat" where
  "merge_left runs cursor = (\<Sum>i<length runs. length (runs ! i) - (if i < length cursor then cursor ! i else 0))"

lemma merge_left_step:
  assumes "j < length cursor" "j < length runs"
  shows "merge_left runs (cursor[j := Suc (cursor ! j)]) =
    (if cursor ! j < length (runs ! j) then merge_left runs cursor - 1 else merge_left runs cursor)"
    "cursor ! j < length (runs ! j) \<Longrightarrow> 0 < merge_left runs cursor"
proof -
  let ?t = "\<lambda>c i. length (runs ! i) - (if i < length c then c ! i else (0::nat))"
  have split: "merge_left runs c = ?t c j + (\<Sum>i\<in>{..<length runs} - {j}. ?t c i)" for c
    unfolding merge_left_def by (rule sum.remove) (use assms(2) in auto)
  have "(\<Sum>i\<in>{..<length runs} - {j}. ?t (cursor[j := Suc (cursor ! j)]) i) =
      (\<Sum>i\<in>{..<length runs} - {j}. ?t cursor i)"
    by (rule sum.cong) auto
  then show "merge_left runs (cursor[j := Suc (cursor ! j)]) =
    (if cursor ! j < length (runs ! j) then merge_left runs cursor - 1 else merge_left runs cursor)"
    using assms(1) by (simp add: split)
  show "cursor ! j < length (runs ! j) \<Longrightarrow> 0 < merge_left runs cursor"
    using assms(1) by (simp add: split)
qed

function merge_loop ::
  "index_entry list list \<Rightarrow> (index_entry \<times> nat) list \<Rightarrow> nat list \<Rightarrow> index_entry list \<Rightarrow>
   panic + index_entry list" where
  "merge_loop runs [] cursor merged = Inr merged"
| "merge_loop runs ((entry, run_idx) # heap) cursor merged =
     (if length cursor \<le> run_idx \<or> length runs \<le> run_idx then Inl IndexOutOfBounds
      else
        let cursor' = cursor[run_idx := Suc (cursor ! run_idx)];
            pos = cursor' ! run_idx;
            entries = runs ! run_idx
        in merge_loop runs
             (if pos < length entries then insort (entries ! pos, run_idx) heap else heap)
             cursor' (merged @ [entry]))"
  by pat_completeness auto

termination
proof (relation "measure (\<lambda>(runs, heap, cursor, merged). length heap + merge_left runs cursor)", goal_cases)
  case (2 runs entry run_idx heap cursor merged cursor' pos entries)
  have j: "run_idx < length cursor" "run_idx < length runs" using 2(1) by auto
  have c: "cursor' = cursor[run_idx := Suc (cursor ! run_idx)]" "pos = Suc (cursor ! run_idx)" "entries = runs ! run_idx"
    using 2 j by simp_all
  show ?case
    using merge_left_step [OF j] unfolding c by (auto simp: length_insort)
qed simp

definition first_heap :: "index_entry list list \<Rightarrow> (index_entry \<times> nat) list" where
  "first_heap runs =
     fold (\<lambda>i heap. case runs ! i of [] \<Rightarrow> heap | e # _ \<Rightarrow> insort (e, i) heap) [0..<length runs] []"

definition offset_xor :: "index_entry list \<Rightarrow> u64" where
  "offset_xor merged = fold (\<lambda>e x. x XOR ie_offset e) merged 0"

definition expected_xor :: u64 where
  "expected_xor = fold (\<lambda>i x. x XOR of_nat i) [0..<record_count] 0"

definition verify_runs :: "run_result list \<Rightarrow> panic + (unit + nat)" where
  "verify_runs runs =
     (let lists = map rr_entries runs
      in if \<exists>run\<in>set runs. windows_descend (rr_entries run) then Inr (Inl ())
         else case merge_loop lists (first_heap lists) (replicate (length runs) 0) [] of
           Inl p \<Rightarrow> Inl p
         | Inr merged \<Rightarrow>
             if length merged \<noteq> record_count then Inr (Inl ())
             else if windows_descend merged then Inr (Inl ())
             else if sort (map rr_work_unit runs) \<noteq> [0..<assembler_count] then Inr (Inl ())
             else if \<exists>e\<in>set merged. ie_key e \<noteq> record_key (unat (ie_offset e)) then Inr (Inl ())
             else if offset_xor merged \<noteq> expected_xor then Inr (Inl ())
             else Inr (Inr (length merged)))"

definition mailbox_index_test :: "panic + (unit + nat) \<Rightarrow> u32" where
  "mailbox_index_test result =
     (case result of Inr (Inr verified) \<Rightarrow> if verified = record_count then of_nat verified else failure_sentinel
      | _ \<Rightarrow> failure_sentinel)"

subsection \<open>The pipeline\<close>

definition sent_to_assembler :: "nat \<Rightarrow> sends \<Rightarrow> index_message list" where
  "sent_to_assembler a out = map snd (filter (\<lambda>s. fst s = a) out)"

text \<open>The runs the assemblers can deliver: each receives an interleaving of the two scanners.\<close>

definition deliverable :: "nat \<Rightarrow> run_result option \<Rightarrow> bool" where
  "deliverable a run \<longleftrightarrow>
     (\<exists>m\<in>shuffles (sent_to_assembler a (run_scanner_shard 0)) (sent_to_assembler a (run_scanner_shard 1)).
        run = assembler_task a m)"

fun message_entries :: "index_message \<Rightarrow> index_entry list" where
  "message_entries (Entries _ batch) = batch"
| "message_entries (ProducerDone _) = []"

fun is_done :: "index_message \<Rightarrow> bool" where
  "is_done (ProducerDone _) = True"
| "is_done (Entries _ _) = False"

abbreviation entries_of :: "index_message list \<Rightarrow> index_entry list" where
  "entries_of ms \<equiv> concat (map message_entries ms)"

definition entry_of :: "nat \<Rightarrow> index_entry" where
  "entry_of r = IndexEntry (record_key r) (of_nat r)"

subsection \<open>Scanning\<close>

lemma key_assembler_less: "key_assembler key < assembler_count"
  by (simp add: key_assembler_def shard_for_hash_def assembler_count_def)

lemma sent_append [simp]: "sent_to_assembler a (xs @ ys) = sent_to_assembler a xs @ sent_to_assembler a ys"
  by (simp add: sent_to_assembler_def)

lemma sent_Cons [simp]:
  "sent_to_assembler a ((d, m) # out) = (if d = a then m # sent_to_assembler a out else sent_to_assembler a out)"
  by (simp add: sent_to_assembler_def)

lemma sent_Nil [simp]: "sent_to_assembler a [] = []"
  by (simp add: sent_to_assembler_def)

lemma scan_records_entries:
  assumes "scan_records from rs batches = (out, final)" "length batches = assembler_count" "a < assembler_count"
  shows "entries_of (sent_to_assembler a out) @ final ! a =
      batches ! a @ map entry_of (filter (\<lambda>r. key_assembler (record_key r) = a) rs) \<and>
    length final = assembler_count \<and> list_all (\<lambda>m. \<not> is_done m) (sent_to_assembler a out)"
  using assms
proof (induction rs arbitrary: batches out)
  case (Cons r rs)
  let ?d = "key_assembler (record_key r)"
  let ?b = "batches[?d := batches ! ?d @ [entry_of r]]"
  have d: "?d < length batches" using key_assembler_less Cons.prems(2) by simp
  show ?case
  proof (cases "length (?b ! ?d) = send_batch_entries")
    case True
    obtain out' where o: "scan_records from rs (?b[?d := []]) = (out', final)"
        "out = (?d, Entries from (?b ! ?d)) # out'"
      using Cons.prems(1) True by (auto simp: Let_def entry_of_def split: prod.splits)
    show ?thesis
      using Cons.IH [OF o(1) _ Cons.prems(3)] Cons.prems(2) d by (cases "?d = a") (auto simp: o(2))
  next
    case False
    then have "scan_records from rs ?b = (out, final)"
      using Cons.prems(1) by (simp add: Let_def entry_of_def)
    from Cons.IH [OF this _ Cons.prems(3)] show ?thesis
      using Cons.prems(2) d by (cases "?d = a") auto
  qed
qed simp

lemma filter_single: "filter (\<lambda>i. i = a \<and> P i) [0..<n] = (if a < n \<and> P a then [a] else [])"
  by (induction n) auto

lemma flush_sent:
  "a < length batches \<Longrightarrow> sent_to_assembler a (flush_batches from batches) =
     (if batches ! a \<noteq> [] then [Entries from (batches ! a)] else [])"
  by (simp add: sent_to_assembler_def flush_batches_def filter_map o_def conj_commute filter_single)

lemma flush_entries:
  assumes "a < length batches"
  shows "entries_of (sent_to_assembler a (flush_batches from batches)) = batches ! a"
    and "list_all (\<lambda>m. \<not> is_done m) (sent_to_assembler a (flush_batches from batches))"
  by (auto simp: flush_sent [OF assms])

lemma done_messages:
  "a < assembler_count \<Longrightarrow>
   sent_to_assembler a (map (\<lambda>a. (a, ProducerDone i)) [0..<assembler_count]) = [ProducerDone i]"
  by (auto simp: sent_to_assembler_def assembler_count_def upt_rec less_Suc_eq numeral_3_eq_3)

abbreviation records_of :: "nat \<Rightarrow> nat list" where
  "records_of i \<equiv> [fst (partition_for i shard_count record_count)..<snd (partition_for i shard_count record_count)]"

lemma scanner_messages:
  assumes "a < assembler_count"
  shows "\<exists>ms. sent_to_assembler a (run_scanner_shard i) = ms @ [ProducerDone i] \<and>
    list_all (\<lambda>m. \<not> is_done m) ms \<and>
    entries_of ms = map entry_of (filter (\<lambda>r. key_assembler (record_key r) = a) (records_of i))"
proof -
  obtain out final where s: "scan_records i (records_of i) (replicate assembler_count []) = (out, final)"
    by fastforce
  note e = scan_records_entries [OF s _ assms, simplified]
  have "sent_to_assembler a (run_scanner_shard i) =
      (sent_to_assembler a out @ sent_to_assembler a (flush_batches i final)) @ [ProducerDone i]"
    using s assms by (simp add: run_scanner_shard_def Let_def case_prod_unfold done_messages)
  moreover have "entries_of (sent_to_assembler a out @ sent_to_assembler a (flush_batches i final)) =
      map entry_of (filter (\<lambda>r. key_assembler (record_key r) = a) (records_of i))"
    using e flush_entries(1) [of a final i] assms by simp
  ultimately show ?thesis
    using e flush_entries(2) [of a final i] assms
    by (intro exI [of _ "sent_to_assembler a out @ sent_to_assembler a (flush_batches i final)"]) simp
qed

subsection \<open>Assembling\<close>

lemma assembler_loop_all:
  "length (filter is_done ms) + d = shard_count \<Longrightarrow> ms = [] \<or> is_done (last ms) \<Longrightarrow>
   assembler_loop es d ms = Some (sort (es @ entries_of ms))"
proof (induction ms arbitrary: es d)
  case (Cons m ms)
  have "last (m # ms) \<in> set (m # ms)" "is_done (last (m # ms))"
    using Cons.prems(2) last_in_set [of "m # ms"] by blast+
  then have "last (m # ms) \<in> set (filter is_done (m # ms))" by (simp only: set_filter mem_Collect_eq)
  then have "0 < length (filter is_done (m # ms))" by (rule length_pos_if_in_set)
  then have "d < shard_count" using Cons.prems(1) by linarith
  then show ?case
    using Cons.IH [of "d + 1" es] Cons.IH [of d "es @ message_entries m"] Cons.prems
    by (cases m) (auto split: if_splits)
qed simp

lemma last_shuffles:
  "zs \<in> shuffles xs ys \<Longrightarrow> xs \<noteq> [] \<Longrightarrow> ys \<noteq> [] \<Longrightarrow> zs \<noteq> [] \<and> (last zs = last xs \<or> last zs = last ys)"
proof (induction xs ys arbitrary: zs rule: shuffles.induct)
  case (3 x xs y ys)
  from "3.prems"(1) consider (l) zs' where "zs = x # zs'" "zs' \<in> shuffles xs (y # ys)"
    | (r) zs' where "zs = y # zs'" "zs' \<in> shuffles (x # xs) ys"
    by auto
  then show ?case
  proof cases
    case l
    then show ?thesis using "3.IH"(1) [of zs'] by (cases "xs = []") auto
  next
    case r
    then show ?thesis using "3.IH"(2) [of zs'] by (cases "ys = []") auto
  qed
qed auto

lemma deliverable_run:
  assumes "a < assembler_count" "deliverable a run"
  shows "\<exists>es. run = Some \<lparr>rr_work_unit = a, rr_entries = es\<rparr> \<and> sorted es \<and>
    mset es = mset (map entry_of (filter (\<lambda>r. key_assembler (record_key r) = a) (records_of 0 @ records_of 1)))"
proof -
  obtain ms0 ms1 where ms: "sent_to_assembler a (run_scanner_shard 0) = ms0 @ [ProducerDone 0]"
      "sent_to_assembler a (run_scanner_shard 1) = ms1 @ [ProducerDone 1]"
      "list_all (\<lambda>m. \<not> is_done m) ms0" "list_all (\<lambda>m. \<not> is_done m) ms1"
      "entries_of ms0 = map entry_of (filter (\<lambda>r. key_assembler (record_key r) = a) (records_of 0))"
      "entries_of ms1 = map entry_of (filter (\<lambda>r. key_assembler (record_key r) = a) (records_of 1))"
    using scanner_messages [OF assms(1), of 0] scanner_messages [OF assms(1), of 1] by blast
  obtain m where m: "m \<in> shuffles (ms0 @ [ProducerDone 0]) (ms1 @ [ProducerDone 1])" "run = assembler_task a m"
    using assms(2) unfolding deliverable_def ms by blast
  have mm: "mset m = mset ms0 + mset ms1 + {#ProducerDone 0, ProducerDone 1#}"
    using m(1) mset_shuffles [of m] by simp
  have "length (filter is_done m) = 2"
  proof -
    have "filter is_done ms0 = []" "filter is_done ms1 = []"
      using ms(3,4) by (auto simp: filter_empty_conv list_all_iff)
    then have "size (filter_mset is_done (mset m)) = 2" by (simp add: mm flip: mset_filter)
    then show ?thesis by (metis mset_filter size_mset)
  qed
  moreover have "is_done (last m)" using last_shuffles [OF m(1)] by auto
  ultimately have "assembler_loop [] 0 m = Some (sort (entries_of m))"
    using assembler_loop_all [of m 0 "[]"] by (simp add: shard_count_def)
  moreover have "mset (entries_of m) = mset (entries_of ms0) + mset (entries_of ms1)"
  proof -
    have "mset (entries_of ms) = \<Sum>\<^sub># (image_mset (mset \<circ> message_entries) (mset ms))" for ms
      by (induction ms) auto
    then show ?thesis by (simp add: mm)
  qed
  ultimately show ?thesis
    using m(2) ms(5,6) by (intro exI [of _ "sort (entries_of m)"]) (simp add: assembler_task_def)
qed

subsection \<open>Merging\<close>

lemma windows_descend_iff: "windows_descend xs \<longleftrightarrow> \<not> sorted xs"
  by (induction xs rule: windows_descend.induct) (simp_all only: windows_descend.simps sorted2_simps not_le de_Morgan_conj, simp_all)

text \<open>The heap holds the entry under the cursor of every run that is not exhausted.\<close>

definition heap_ok :: "index_entry list list \<Rightarrow> nat list \<Rightarrow> (index_entry \<times> nat) list \<Rightarrow> bool" where
  "heap_ok runs cursor heap \<longleftrightarrow>
     sorted heap \<and> distinct (map snd heap) \<and> length cursor = length runs \<and>
     set heap = {(runs ! i ! (cursor ! i), i) |i. i < length runs \<and> cursor ! i < length (runs ! i)}"

definition remaining :: "index_entry list list \<Rightarrow> nat list \<Rightarrow> index_entry multiset" where
  "remaining runs cursor = (\<Sum>i<length runs. mset (drop (cursor ! i) (runs ! i)))"

lemma remaining_step:
  assumes "j < length runs" "length cursor = length runs" "cursor ! j < length (runs ! j)"
  shows "remaining runs cursor =
    add_mset (runs ! j ! (cursor ! j)) (remaining runs (cursor[j := Suc (cursor ! j)]))"
proof -
  have split: "remaining runs c = mset (drop (c ! j) (runs ! j)) +
      (\<Sum>i\<in>{..<length runs} - {j}. mset (drop (c ! i) (runs ! i)))" for c
    unfolding remaining_def by (rule sum.remove) (use assms(1) in auto)
  have "(\<Sum>i\<in>{..<length runs} - {j}. mset (drop (cursor[j := Suc (cursor ! j)] ! i) (runs ! i))) =
      (\<Sum>i\<in>{..<length runs} - {j}. mset (drop (cursor ! i) (runs ! i)))"
    by (rule sum.cong) auto
  moreover have "drop (cursor ! j) (runs ! j) = runs ! j ! (cursor ! j) # drop (Suc (cursor ! j)) (runs ! j)"
    using assms(3) by (rule Cons_nth_drop_Suc [symmetric])
  ultimately show ?thesis using assms(1,2) by (simp add: split)
qed

lemma heap_min:
  assumes "heap_ok runs cursor ((e, j) # heap)" "\<forall>r\<in>set runs. sorted r" "x \<in># remaining runs cursor"
  shows "e \<le> x"
proof -
  obtain i where i: "i < length runs" "x \<in> set (drop (cursor ! i) (runs ! i))"
    using assms(3) by (auto simp: remaining_def set_mset_sum)
  then obtain n where n: "cursor ! i + n < length (runs ! i)" "x = runs ! i ! (cursor ! i + n)"
    unfolding in_set_conv_nth length_drop nth_drop by (metis add.commute less_diff_conv nth_drop less_imp_le_nat less_diff_conv2 linorder_not_less diff_is_0_eq' not_less_zero)
  have "sorted (runs ! i)" using assms(2) i(1) by simp
  then have "runs ! i ! (cursor ! i) \<le> x" using n by (simp add: sorted_nth_mono)
  moreover have "(runs ! i ! (cursor ! i), i) \<in> set ((e, j) # heap)"
    using assms(1) i(1) n(1) unfolding heap_ok_def by auto
  then have "(e, j) \<le> (runs ! i ! (cursor ! i), i)"
    using assms(1) unfolding heap_ok_def by auto
  then have "e \<le> runs ! i ! (cursor ! i)" by (auto simp: less_eq_prod_def)
  ultimately show ?thesis by simp
qed

lemma distinct_map_insort:
  "distinct (map f (insort x xs)) \<longleftrightarrow> f x \<notin> f ` set xs \<and> distinct (map f xs)"
  by (induction xs) (auto simp: set_insort_key)

lemma heap_ok_step:
  assumes "heap_ok runs cursor ((e, j) # heap)"
  shows "j < length runs" "cursor ! j < length (runs ! j)" "e = runs ! j ! (cursor ! j)"
    and "heap_ok runs (cursor[j := Suc (cursor ! j)])
      (if Suc (cursor ! j) < length (runs ! j) then insort (runs ! j ! Suc (cursor ! j), j) heap else heap)"
proof -
  have set: "insert (e, j) (set heap) =
      {(runs ! i ! (cursor ! i), i) |i. i < length runs \<and> cursor ! i < length (runs ! i)}"
    and so: "sorted heap" "distinct (map snd heap)" "j \<notin> snd ` set heap" "length cursor = length runs"
    using assms unfolding heap_ok_def by auto
  from set show j: "j < length runs" "cursor ! j < length (runs ! j)" "e = runs ! j ! (cursor ! j)"
    by auto
  let ?c = "cursor[j := Suc (cursor ! j)]"
  have heap: "set heap = {(runs ! i ! (cursor ! i), i) |i. i < length runs \<and> i \<noteq> j \<and> cursor ! i < length (runs ! i)}"
  proof -
    have "(e, j) \<notin> set heap" using so(3) by (metis image_eqI snd_conv)
    then have "insert (e, j) (set heap) - {(e, j)} = set heap" by blast
    then have "set heap = {(runs ! i ! (cursor ! i), i) |i. i < length runs \<and> cursor ! i < length (runs ! i)} - {(e, j)}"
      by (simp only: set)
    also have "\<dots> = {(runs ! i ! (cursor ! i), i) |i. i < length runs \<and> i \<noteq> j \<and> cursor ! i < length (runs ! i)}"
      by (auto simp: j(3))
    finally show ?thesis .
  qed
  have "{(runs ! i ! (?c ! i), i) |i. i < length runs \<and> ?c ! i < length (runs ! i)} =
      (if Suc (cursor ! j) < length (runs ! j) then {(runs ! j ! Suc (cursor ! j), j)} else {}) \<union> set heap"
  proof -
    have j': "?c ! j = Suc (cursor ! j)" and i': "i \<noteq> j \<Longrightarrow> ?c ! i = cursor ! i" for i
      using j(1) so(4) by simp_all
    have "(\<exists>i. x = (runs ! i ! (?c ! i), i) \<and> i < length runs \<and> ?c ! i < length (runs ! i)) \<longleftrightarrow>
        x = (runs ! j ! Suc (cursor ! j), j) \<and> Suc (cursor ! j) < length (runs ! j) \<or>
        (\<exists>i. x = (runs ! i ! (cursor ! i), i) \<and> i < length runs \<and> i \<noteq> j \<and> cursor ! i < length (runs ! i))" for x
      by (metis i' j' j(1))
    then show ?thesis unfolding heap by auto
  qed
  then show "heap_ok runs ?c
      (if Suc (cursor ! j) < length (runs ! j) then insort (runs ! j ! Suc (cursor ! j), j) heap else heap)"
    using so unfolding heap_ok_def
    by (auto simp: set_insort_key sorted_insort distinct_map_insort)
qed

lemma merge_loop_merges:
  "heap_ok runs cursor heap \<Longrightarrow> \<forall>r\<in>set runs. sorted r \<Longrightarrow>
   \<exists>out. merge_loop runs heap cursor merged = Inr (merged @ out) \<and> sorted out \<and> mset out = remaining runs cursor"
proof (induction runs heap cursor merged rule: merge_loop.induct)
  case (1 runs cursor merged)
  then have "{(runs ! i ! (cursor ! i), i) |i. i < length runs \<and> cursor ! i < length (runs ! i)} = {}"
    unfolding heap_ok_def by simp
  then have "\<forall>i<length runs. drop (cursor ! i) (runs ! i) = []" by force
  then have "remaining runs cursor = {#}" by (simp add: remaining_def)
  then show ?case by simp
next
  case (2 runs e j heap cursor merged)
  note st = heap_ok_step [OF "2.prems"(1)]
  let ?c = "cursor[j := Suc (cursor ! j)]"
  let ?h = "if Suc (cursor ! j) < length (runs ! j) then insort (runs ! j ! Suc (cursor ! j), j) heap else heap"
  have len: "length cursor = length runs" using "2.prems"(1) by (simp add: heap_ok_def)
  have nth: "?c ! j = Suc (cursor ! j)" using st(1) len by simp
  have step: "merge_loop runs ((e, j) # heap) cursor merged = merge_loop runs ?h ?c (merged @ [e])"
    using st(1) len by (simp only: merge_loop.simps Let_def nth) simp
  obtain out where out: "merge_loop runs ?h ?c (merged @ [e]) = Inr ((merged @ [e]) @ out)" "sorted out"
      "mset out = remaining runs ?c"
    using "2.IH" [OF _ refl refl refl, unfolded nth, OF _ st(4) "2.prems"(2)] st(1) len by auto
  have rem: "remaining runs cursor = add_mset e (remaining runs ?c)"
    using remaining_step [OF st(1) len st(2)] st(3) by simp
  have "e \<le> x" if "x \<in> set out" for x
  proof -
    have "x \<in># remaining runs cursor" using that unfolding rem out(3) [symmetric] by simp
    then show ?thesis by (rule heap_min [OF "2.prems"(1,2)])
  qed
  then show ?case unfolding step using out rem by (intro exI [of _ "e # out"]) simp
qed

lemma first_heap_ok: "heap_ok runs (replicate (length runs) 0) (first_heap runs)"
proof -
  let ?f = "\<lambda>i heap. case runs ! i of [] \<Rightarrow> heap | e # _ \<Rightarrow> insort (e, i) heap"
  have "sorted (fold ?f [0..<n] []) \<and> distinct (map snd (fold ?f [0..<n] [])) \<and>
      set (fold ?f [0..<n] []) = {(runs ! i ! 0, i) |i. i < n \<and> 0 < length (runs ! i)}"
    (is "?P n") for n
  proof (induction n)
    case (Suc n)
    have "{(runs ! i ! 0, i) |i. i < Suc n \<and> 0 < length (runs ! i)} =
        (if runs ! n = [] then {} else {(runs ! n ! 0, n)}) \<union> {(runs ! i ! 0, i) |i. i < n \<and> 0 < length (runs ! i)}"
      by (auto simp: less_Suc_eq)
    then show ?case
      using Suc.IH by (cases "runs ! n") (auto simp: set_insort_key sorted_insort distinct_map_insort image_def)
  qed simp
  from this [of "length runs"] show ?thesis
    unfolding heap_ok_def first_heap_def by (auto simp: cong: conj_cong)
qed

lemma merge_runs:
  assumes "\<forall>r\<in>set runs. sorted r"
  shows "merge_loop runs (first_heap runs) (replicate (length runs) 0) [] = Inr (sort (concat runs))"
proof -
  obtain out where out: "merge_loop runs (first_heap runs) (replicate (length runs) 0) [] = Inr out" "sorted out"
      "mset out = remaining runs (replicate (length runs) 0)"
    using merge_loop_merges [OF first_heap_ok assms, of "[]"] by auto
  have "remaining runs (replicate (length runs) 0) = (\<Sum>i<length runs. mset (runs ! i))"
    unfolding remaining_def by (rule sum.cong) auto
  also have "\<dots> = sum_list (map mset runs)"
    by (simp add: sum_list_sum_nth atLeast0LessThan)
  also have "\<dots> = mset (concat runs)" by (simp add: mset_concat)
  finally have "mset out = mset (concat runs)" using out(3) by simp
  then show ?thesis using out(1,2) by (metis properties_for_sort)
qed

subsection \<open>Verifying\<close>

lemma verify_runs_sorted:
  assumes "\<forall>run\<in>set runs. sorted (rr_entries run)"
  shows "verify_runs runs =
    (let entries = concat (map rr_entries runs)
     in if length entries = record_count \<and> sort (map rr_work_unit runs) = [0..<assembler_count] \<and>
           (\<forall>e\<in>set entries. ie_key e = record_key (unat (ie_offset e))) \<and>
           offset_xor (sort entries) = expected_xor
        then Inr (Inr record_count) else Inr (Inl ()))"
proof -
  have "merge_loop (map rr_entries runs) (first_heap (map rr_entries runs)) (replicate (length runs) 0) [] =
      Inr (sort (concat (map rr_entries runs)))"
    using merge_runs [of "map rr_entries runs"] assms by simp
  moreover have "\<not> (\<exists>run\<in>set runs. windows_descend (rr_entries run))"
    using assms by (simp add: windows_descend_iff)
  ultimately show ?thesis by (simp add: verify_runs_def Let_def windows_descend_iff)
qed

lemma offset_xor_mset: "mset xs = mset ys \<Longrightarrow> offset_xor xs = offset_xor ys"
  unfolding offset_xor_def
  by (rule fun_cong [OF fold_multiset_equiv]) (auto simp: fun_eq_iff ac_simps)

lemma offset_xor_records: "offset_xor (map entry_of [0..<record_count]) = expected_xor"
  by (simp add: offset_xor_def expected_xor_def fold_map o_def entry_of_def)

lemma upt_append_upt: "i \<le> j \<Longrightarrow> j \<le> k \<Longrightarrow> [i..<j] @ [j..<k] = [i..<k]"
  using upt_add_eq_append [of i j "k - j"] by simp

lemma unat_record: "r < record_count \<Longrightarrow> unat (of_nat r :: u64) = r"
  by (simp add: record_count_def unat_of_nat take_bit_nat_eq_self)

lemma partition_covers:
  "0 < shards \<Longrightarrow> n \<le> shards \<Longrightarrow>
   concat (map (\<lambda>i. [fst (partition_for i shards records)..<snd (partition_for i shards records)]) [0..<n]) =
   [0..<n * (records div shards) + min n (records mod shards)]"
proof (induction n)
  case (Suc n)
  let ?b = "records div shards" and ?r = "records mod shards"
  have "fst (partition_for n shards records) = n * ?b + min n ?r"
    "snd (partition_for n shards records) = Suc n * ?b + min (Suc n) ?r"
    by (auto simp: partition_for_def Let_def min_def)
  moreover have "n * ?b + min n ?r \<le> Suc n * ?b + min (Suc n) ?r" by (simp add: min_def)
  ultimately show ?case using Suc
    by (simp add: upt_append_upt)
qed simp

lemma records_all: "records_of 0 @ records_of 1 = [0..<record_count]"
proof -
  have "[0..<2] = [0, 1::nat]" by (simp add: numeral_2_eq_2)
  then have "records_of 0 @ records_of 1 =
      [0..<2 * (record_count div shard_count) + min 2 (record_count mod shard_count)]"
    using partition_covers [of shard_count 2 record_count] by (simp add: shard_count_def)
  also have "2 * (record_count div shard_count) + min 2 (record_count mod shard_count) = record_count"
    by (simp add: shard_count_def record_count_def)
  finally show ?thesis .
qed

lemma split_by_assembler:
  "(\<Sum>a<assembler_count. mset (map entry_of (filter (\<lambda>r. key_assembler (record_key r) = a) rs))) =
   mset (map entry_of rs)"
proof (induction rs)
  case (Cons r rs)
  have "(\<Sum>a<assembler_count. mset (map entry_of (filter (\<lambda>r. key_assembler (record_key r) = a) (r # rs)))) =
      (\<Sum>a<assembler_count. (if a = key_assembler (record_key r) then {#entry_of r#} else {#}) +
        mset (map entry_of (filter (\<lambda>r. key_assembler (record_key r) = a) rs)))"
    by (rule sum.cong) auto
  also have "\<dots> = {#entry_of r#} + (\<Sum>a<assembler_count. mset (map entry_of (filter (\<lambda>r. key_assembler (record_key r) = a) rs)))"
    using key_assembler_less by (simp add: sum.distrib sum.delta)
  finally show ?case using Cons by simp
qed simp

lemma mset_concat_upt: "mset (concat (map f [0..<n])) = (\<Sum>a<n. mset (f a))"
  by (induction n) (simp_all add: lessThan_Suc)

lemma mset_concat_map_cong:
  assumes "mset xs = mset ys"
  shows "mset (concat (map f xs)) = mset (concat (map f ys))"
proof -
  have "mset (concat (map f xs)) = \<Sum>\<^sub># (image_mset (mset \<circ> f) (mset xs))" for xs :: "'a list"
    by (induction xs) auto
  then show ?thesis by (simp only: assms)
qed

lemma append_in_shuffles: "xs @ ys \<in> shuffles xs ys"
  by (induction xs) (auto simp: Cons_in_shuffles_leftI)

subsection \<open>Properties\<close>

text \<open>C30: the heap merge is a sort.  For runs that are sorted, the k-way merge with a heap
  and one cursor per run terminates without an index out of bounds and returns what sorting the
  concatenation of the runs returns.\<close>

theorem merge_equals_sort:
  assumes "\<forall>r\<in>set runs. sorted r"
  shows "merge_loop runs (first_heap runs) (replicate (length runs) 0) [] = Inr (sort (concat runs))"
  by (rule merge_runs [OF assms])

theorem merge_equals_sort_witness:
  "merge_loop [[IndexEntry 1 5, IndexEntry 4 0], [], [IndexEntry 1 2]]
     (first_heap [[IndexEntry 1 5, IndexEntry 4 0], [], [IndexEntry 1 2]]) [0, 0, 0] [] =
   Inr [IndexEntry 1 2, IndexEntry 1 5, IndexEntry 4 0]"
proof -
  let ?runs = "[[IndexEntry 1 5, IndexEntry 4 0], [], [IndexEntry 1 2]]"
  have "\<forall>r\<in>set ?runs. sorted r" by code_simp
  note merge_equals_sort [OF this]
  moreover have "replicate (length ?runs) 0 = [0, 0, 0::nat]" by simp
  moreover have "sort (concat ?runs) = [IndexEntry 1 2, IndexEntry 1 5, IndexEntry 4 0]"
    by code_simp
  ultimately show ?thesis by (simp only:)
qed

text \<open>C28: the index build succeeds however the messages are interleaved.  Whatever
  interleaving of the messages of the two scanners each assembler receives, it delivers a run, and in
  whatever order the coordinator receives the runs it verifies all records: every record is sent to
  exactly one assembler, none is lost, duplicated or altered on the way.\<close>

theorem index_build_verifies:
  assumes "\<forall>a<assembler_count. deliverable a (run a)"
    and "mset runs = mset (map (\<lambda>a. the (run a)) [0..<assembler_count])"
  shows "(\<forall>a<assembler_count. run a \<noteq> None) \<and>
    mset (concat (map rr_entries runs)) = mset (map entry_of [0..<record_count]) \<and>
    verify_runs runs = Inr (Inr record_count) \<and> mailbox_index_test (verify_runs runs) = success_sentinel"
proof -
  have "\<forall>a. \<exists>es. a < assembler_count \<longrightarrow> run a = Some \<lparr>rr_work_unit = a, rr_entries = es\<rparr> \<and> sorted es \<and>
      mset es = mset (map entry_of (filter (\<lambda>r. key_assembler (record_key r) = a) [0..<record_count]))"
    using deliverable_run [unfolded records_all] assms(1) by blast
  from choice [OF this] obtain es where
    es: "\<And>a. a < assembler_count \<Longrightarrow> run a = Some \<lparr>rr_work_unit = a, rr_entries = es a\<rparr> \<and> sorted (es a) \<and>
      mset (es a) = mset (map entry_of (filter (\<lambda>r. key_assembler (record_key r) = a) [0..<record_count]))"
    by blast
  have the: "map (\<lambda>a. the (run a)) [0..<assembler_count] =
      map (\<lambda>a. \<lparr>rr_work_unit = a, rr_entries = es a\<rparr>) [0..<assembler_count]"
    by (rule map_cong) (simp_all add: es)
  have runs: "mset runs = mset (map (\<lambda>a. \<lparr>rr_work_unit = a, rr_entries = es a\<rparr>) [0..<assembler_count])"
    using assms(2) by (simp only: the)
  have sorted: "\<forall>run\<in>set runs. sorted (rr_entries run)"
    using mset_eq_setD [OF runs] es by auto
  have "mset (map rr_work_unit runs) = mset (map rr_work_unit (map (\<lambda>a. \<lparr>rr_work_unit = a, rr_entries = es a\<rparr>) [0..<assembler_count]))"
    by (simp only: mset_map runs)
  also have "map rr_work_unit (map (\<lambda>a. \<lparr>rr_work_unit = a, rr_entries = es a\<rparr>) [0..<assembler_count]) = [0..<assembler_count]"
    by (simp add: o_def)
  finally have "mset (map rr_work_unit runs) = mset [0..<assembler_count]" .
  then have units: "sort (map rr_work_unit runs) = [0..<assembler_count]"
    by (metis properties_for_sort sorted_upt)
  have "mset (concat (map rr_entries runs)) =
      mset (concat (map rr_entries (map (\<lambda>a. \<lparr>rr_work_unit = a, rr_entries = es a\<rparr>) [0..<assembler_count])))"
    by (rule mset_concat_map_cong [OF runs])
  also have "\<dots> = mset (concat (map es [0..<assembler_count]))" by (simp add: o_def)
  also have "\<dots> = (\<Sum>a<assembler_count. mset (map entry_of (filter (\<lambda>r. key_assembler (record_key r) = a) [0..<record_count])))"
    unfolding mset_concat_upt by (rule sum.cong) (simp_all add: es)
  also have "\<dots> = mset (map entry_of [0..<record_count])" by (rule split_by_assembler)
  finally have entries: "mset (concat (map rr_entries runs)) = mset (map entry_of [0..<record_count])" .
  have "length (concat (map rr_entries runs)) = record_count"
    using mset_eq_length [OF entries] by simp
  moreover have "\<forall>e\<in>set (concat (map rr_entries runs)). ie_key e = record_key (unat (ie_offset e))"
  proof
    fix e assume "e \<in> set (concat (map rr_entries runs))"
    then have "e \<in> set (map entry_of [0..<record_count])" by (simp only: mset_eq_setD [OF entries])
    then obtain r where "r < record_count" "e = entry_of r" by auto
    then show "ie_key e = record_key (unat (ie_offset e))"
      by (simp add: entry_of_def unat_record)
  qed
  moreover have "offset_xor (sort (concat (map rr_entries runs))) = expected_xor"
    using offset_xor_mset [of "sort (concat (map rr_entries runs))" "map entry_of [0..<record_count]"] entries
    by (simp add: offset_xor_records)
  ultimately have "verify_runs runs = Inr (Inr record_count)"
    using units by (simp add: verify_runs_sorted [OF sorted] Let_def)
  then show ?thesis using entries es by (auto simp: mailbox_index_test_def success_sentinel_def)
qed

theorem index_build_verifies_witness:
  "verify_runs (map (\<lambda>a. the (assembler_task a (sent_to_assembler a (run_scanner_shard 0) @
     sent_to_assembler a (run_scanner_shard 1)))) [2, 0, 1]) = Inr (Inr record_count)"
proof -
  let ?run = "\<lambda>a. assembler_task a (sent_to_assembler a (run_scanner_shard 0) @ sent_to_assembler a (run_scanner_shard 1))"
  have "\<forall>a<assembler_count. deliverable a (?run a)"
    unfolding deliverable_def using append_in_shuffles by blast
  moreover have "mset (map (\<lambda>a. the (?run a)) [2, 0, 1]) = mset (map (\<lambda>a. the (?run a)) [0..<assembler_count])"
    by (simp add: assembler_count_def numeral_3_eq_3 numeral_2_eq_2 del: One_nat_def) simp
  ultimately show ?thesis by (rule index_build_verifies [THEN conjunct2, THEN conjunct2, THEN conjunct1])
qed


end
