(* ===== verification/Uring_Ring.thy ===== *)
theory Uring_Ring
  imports Sitas_Prelude "HOL-Library.AList"
begin

text \<open>
  The submission and completion rings of \<open>os/uring.rs\<close>: the memory shared with the kernel, the
  functions that fill submission entries, allocate operation identifiers, enter the kernel and
  harvest completions.  The kernel is a parameter: a list of answers to \<open>io_uring_enter\<close> and a list
  of batches of completions that arrive between two looks at the completion ring.  The field
  \<open>kn_ok\<close> says whether the answers so far kept the documented protocol of the rings.  A blocking
  call for which no answer is left has not returned, which is the result \<open>None\<close>.
\<close>

unbundle bit_operations_syntax

subsection \<open>Data\<close>

type_synonym i32 = "32 word"

definition IORING_OP_NOP :: u8 where "IORING_OP_NOP = 0"
definition IORING_OP_TIMEOUT :: u8 where "IORING_OP_TIMEOUT = 11"
definition IORING_OP_ASYNC_CANCEL :: u8 where "IORING_OP_ASYNC_CANCEL = 14"
definition IORING_OP_READ :: u8 where "IORING_OP_READ = 22"
definition IORING_OP_WRITE :: u8 where "IORING_OP_WRITE = 23"

definition OPERATION_USER_DATA_BASE :: u64 where "OPERATION_USER_DATA_BASE = push_bit 63 1"

definition EINTR :: int where "EINTR = 4"

datatype io_error =
    WouldBlock
  | InvalidInput
  | NotFound
  | TimedOut
  | Unsupported
  | UnexpectedEof
  | WriteZero
  | OtherError
  | OsError int

text \<open>A submission entry, by the fields the source writes at their byte offsets.\<close>

record sqe =
  sqe_opcode :: u8
  sqe_fd :: i32
  sqe_off :: u64
  sqe_addr :: u64
  sqe_len :: u32
  sqe_timeout_flags :: u32
  sqe_user_data :: u64

record cqe =
  cqe_user_data :: u64
  cqe_res :: i32
  cqe_flags :: u32

record uring_completion =
  uc_user_data :: u64
  uc_result :: i32
  uc_flags :: u32

record kernel_timespec =
  tv_sec :: int
  tv_nsec :: int

datatype operation_id = IoUringOperationId (op_raw: u64)

datatype operation_kind = Nop | Read | Write | Accept | Connect | Send | Recv | Timeout | Cancel operation_id

record operation_state =
  os_kind :: operation_kind
  os_timeout :: "kernel_timespec option"

record operation_completion =
  oc_operation :: operation_id
  oc_kind :: operation_kind
  oc_result :: i32
  oc_flags :: u32

text \<open>
  What the kernel does: entries it completes with their result and flags, and the answer to one
  \<open>io_uring_enter\<close>: the returned value, the number of entries consumed and the completions posted.
\<close>

type_synonym posted = "sqe \<times> i32 \<times> u32"

record enter_answer =
  ea_result :: "int + u32"
  ea_consumed :: nat
  ea_posted :: "posted list"

record io_uring =
  ur_sq_head :: u32
  ur_sq_tail :: u32
  ur_sq_ring_mask :: u32
  ur_sq_array :: "u32 list"
  ur_sqes :: "sqe list"
  ur_cq_head :: u32
  ur_cq_tail :: u32
  ur_cq_ring_mask :: u32
  ur_cqes :: "cqe list"
  ur_completions :: "uring_completion list"
  ur_operations :: "(operation_id \<times> operation_state) list"
  ur_next_operation :: u64
  ur_pending_submissions :: u32
  kn_answers :: "enter_answer list"
  kn_arrivals :: "posted list list"
  kn_inflight :: "sqe multiset"
  kn_ok :: bool

text \<open>The result of a call that may block: \<open>None\<close> while it has not returned.\<close>

type_synonym 'a call = "(io_error + 'a) option"

subsection \<open>The rings as seen by the kernel\<close>

definition ring_window :: "u32 \<Rightarrow> u32 \<Rightarrow> u32 \<Rightarrow> 'a list \<Rightarrow> 'a list" where
  "ring_window head tail rmask xs =
     map (\<lambda>i. xs ! unat ((head + of_nat i) AND rmask)) [0..<unat (tail - head)]"

definition sq_entries :: "io_uring \<Rightarrow> sqe list" where
  "sq_entries u = map (\<lambda>i. ur_sqes u ! unat i)
     (ring_window (ur_sq_head u) (ur_sq_tail u) (ur_sq_ring_mask u) (ur_sq_array u))"

definition cq_entries :: "io_uring \<Rightarrow> cqe list" where
  "cq_entries u = ring_window (ur_cq_head u) (ur_cq_tail u) (ur_cq_ring_mask u) (ur_cqes u)"

definition posted_cqe :: "posted \<Rightarrow> cqe" where
  "posted_cqe p = \<lparr>cqe_user_data = sqe_user_data (fst p), cqe_res = fst (snd p), cqe_flags = snd (snd p)\<rparr>"

definition write_cqe :: "posted \<Rightarrow> io_uring \<Rightarrow> io_uring" where
  "write_cqe p u = u\<lparr>ur_cqes := (ur_cqes u)[unat (ur_cq_tail u AND ur_cq_ring_mask u) := posted_cqe p],
     ur_cq_tail := ur_cq_tail u + 1\<rparr>"

text \<open>
  The kernel posts completions.  The protocol: an entry completes once and only after it was
  consumed, and a completion is not written over one that was not yet read.
\<close>

definition kernel_post :: "posted list \<Rightarrow> io_uring \<Rightarrow> io_uring" where
  "kernel_post ps u =
     fold write_cqe ps (u\<lparr>kn_inflight := kn_inflight u - mset (map fst ps),
       kn_ok := (kn_ok u \<and> mset (map fst ps) \<subseteq># kn_inflight u \<and>
         length ps + length (cq_entries u) \<le> unat (ur_cq_ring_mask u) + 1)\<rparr>)"

definition kernel_arrive :: "io_uring \<Rightarrow> io_uring" where
  "kernel_arrive u = (case kn_arrivals u of [] \<Rightarrow> u | ps # rest \<Rightarrow> kernel_post ps (u\<lparr>kn_arrivals := rest\<rparr>))"

text \<open>
  The kernel consumes entries.  The protocol: it consumes queued entries in order, at most as many
  as it is asked to submit, and returns their number; an error is returned only if none was consumed.
\<close>

definition kernel_consume :: "u32 \<Rightarrow> enter_answer \<Rightarrow> io_uring \<Rightarrow> io_uring" where
  "kernel_consume to_submit a u =
     u\<lparr>ur_sq_head := ur_sq_head u + of_nat (ea_consumed a),
       kn_inflight := kn_inflight u + mset (take (ea_consumed a) (sq_entries u)),
       kn_ok := (kn_ok u \<and> ea_consumed a \<le> length (sq_entries u) \<and> ea_consumed a \<le> unat to_submit \<and>
         (case ea_result a of Inr n \<Rightarrow> unat n = ea_consumed a | Inl _ \<Rightarrow> ea_consumed a = 0))\<rparr>"

definition uring_enter :: "u32 \<Rightarrow> u32 \<Rightarrow> io_uring \<Rightarrow> u32 call \<times> io_uring" where
  "uring_enter to_submit min_complete u =
     (case kn_answers u of
        [] \<Rightarrow> (None, u)
      | a # rest \<Rightarrow>
          (Some (case ea_result a of Inl errno \<Rightarrow> Inl (OsError errno) | Inr n \<Rightarrow> Inr n),
           kernel_post (ea_posted a) (kernel_consume to_submit a (u\<lparr>kn_answers := rest\<rparr>))))"

subsection \<open>Filling submission entries\<close>

definition clear_sqe :: sqe where
  "clear_sqe = \<lparr>sqe_opcode = 0, sqe_fd = 0, sqe_off = 0, sqe_addr = 0, sqe_len = 0,
     sqe_timeout_flags = 0, sqe_user_data = 0\<rparr>"

definition prepare_sqe :: "io_uring \<Rightarrow> (io_error + nat) \<times> io_uring" where
  "prepare_sqe u =
     (let tail = ur_sq_tail u; head = ur_sq_head u; rmask = ur_sq_ring_mask u
      in if rmask < tail - head then (Inl WouldBlock, u)
         else let index = tail AND rmask
              in (Inr (unat index),
                  u\<lparr>ur_sqes := (ur_sqes u)[unat index := clear_sqe],
                    ur_sq_array := (ur_sq_array u)[unat index := index],
                    ur_sq_tail := tail + 1\<rparr>))"

definition finish_sqe :: "io_uring \<Rightarrow> (io_error + unit) \<times> io_uring" where
  "finish_sqe u =
     (if ur_pending_submissions u = - 1 then (Inl OtherError, u)
      else (Inr (), u\<lparr>ur_pending_submissions := ur_pending_submissions u + 1\<rparr>))"

definition write_sqe :: "nat \<Rightarrow> (sqe \<Rightarrow> sqe) \<Rightarrow> io_uring \<Rightarrow> io_uring" where
  "write_sqe i f u = u\<lparr>ur_sqes := (ur_sqes u)[i := f (ur_sqes u ! i)]\<rparr>"

definition queue_sqe :: "(sqe \<Rightarrow> sqe) \<Rightarrow> io_uring \<Rightarrow> (io_error + unit) \<times> io_uring" where
  "queue_sqe f u =
     (case prepare_sqe u of
        (Inl e, u) \<Rightarrow> (Inl e, u)
      | (Inr i, u) \<Rightarrow> finish_sqe (write_sqe i f u))"

definition queue_nop :: "u64 \<Rightarrow> io_uring \<Rightarrow> (io_error + unit) \<times> io_uring" where
  "queue_nop user_data = queue_sqe (\<lambda>s. s\<lparr>sqe_opcode := IORING_OP_NOP, sqe_user_data := user_data\<rparr>)"

definition queue_buffer_operation ::
  "u8 \<Rightarrow> i32 \<Rightarrow> u64 \<Rightarrow> nat \<Rightarrow> u64 \<Rightarrow> u64 \<Rightarrow> io_uring \<Rightarrow> (io_error + unit) \<times> io_uring" where
  "queue_buffer_operation opcode fd buffer_addr buffer_len offset user_data u =
     (if 2 ^ 32 \<le> int buffer_len then (Inl InvalidInput, u)
      else queue_sqe (\<lambda>s. s\<lparr>sqe_opcode := opcode, sqe_fd := fd, sqe_off := offset,
        sqe_addr := buffer_addr, sqe_len := of_nat buffer_len, sqe_user_data := user_data\<rparr>) u)"

definition queue_timeout :: "u64 \<Rightarrow> u64 \<Rightarrow> io_uring \<Rightarrow> (io_error + unit) \<times> io_uring" where
  "queue_timeout timeout_addr user_data =
     queue_sqe (\<lambda>s. s\<lparr>sqe_opcode := IORING_OP_TIMEOUT, sqe_addr := timeout_addr, sqe_len := 1,
       sqe_timeout_flags := 0, sqe_user_data := user_data\<rparr>)"

definition queue_cancel :: "u64 \<Rightarrow> u64 \<Rightarrow> io_uring \<Rightarrow> (io_error + unit) \<times> io_uring" where
  "queue_cancel target_user_data user_data =
     queue_sqe (\<lambda>s. s\<lparr>sqe_opcode := IORING_OP_ASYNC_CANCEL, sqe_fd := - 1, sqe_addr := target_user_data,
       sqe_timeout_flags := 0, sqe_user_data := user_data\<rparr>)"

definition queue_read :: "i32 \<Rightarrow> u64 \<Rightarrow> nat \<Rightarrow> u64 \<Rightarrow> u64 \<Rightarrow> io_uring \<Rightarrow> (io_error + unit) \<times> io_uring" where
  "queue_read fd buffer_addr buffer_len offset user_data =
     queue_buffer_operation IORING_OP_READ fd buffer_addr buffer_len offset user_data"

definition queue_write :: "i32 \<Rightarrow> u64 \<Rightarrow> nat \<Rightarrow> u64 \<Rightarrow> u64 \<Rightarrow> io_uring \<Rightarrow> (io_error + unit) \<times> io_uring" where
  "queue_write fd buffer_addr buffer_len offset user_data =
     queue_buffer_operation IORING_OP_WRITE fd buffer_addr buffer_len offset user_data"

subsection \<open>Tracked operations\<close>

definition op_sequence :: "operation_id \<Rightarrow> u64" where
  "op_sequence operation = op_raw operation XOR OPERATION_USER_DATA_BASE"

definition from_duration :: "duration \<Rightarrow> io_error + kernel_timespec" where
  "from_duration d =
     (let secs = int d div 10 ^ 9
      in if 2 ^ 63 \<le> secs then Inl InvalidInput
         else Inr \<lparr>tv_sec = secs, tv_nsec = int d mod 10 ^ 9\<rparr>)"

definition allocate_operation ::
  "operation_kind \<Rightarrow> kernel_timespec option \<Rightarrow> io_uring \<Rightarrow> (io_error + operation_id) \<times> io_uring" where
  "allocate_operation kind timeout u =
     (if ur_next_operation u = OPERATION_USER_DATA_BASE then (Inl OtherError, u)
      else
        let operation = IoUringOperationId (OPERATION_USER_DATA_BASE OR ur_next_operation u);
            state = \<lparr>os_kind = kind, os_timeout = timeout\<rparr>;
            collision = map_of (ur_operations u) operation \<noteq> None;
            u = u\<lparr>ur_next_operation := ur_next_operation u + 1,
                  ur_operations := AList.update operation state (ur_operations u)\<rparr>
        in if collision then (Inl OtherError, u) else (Inr operation, u))"

definition remove_operation :: "operation_id \<Rightarrow> io_uring \<Rightarrow> io_uring" where
  "remove_operation operation u = u\<lparr>ur_operations := AList.delete operation (ur_operations u)\<rparr>"

text \<open>Allocate, queue, and forget the operation again when queueing fails.\<close>

definition queue_tracked ::
  "operation_kind \<Rightarrow> kernel_timespec option \<Rightarrow> (u64 \<Rightarrow> io_uring \<Rightarrow> (io_error + unit) \<times> io_uring) \<Rightarrow>
   io_uring \<Rightarrow> (io_error + operation_id) \<times> io_uring" where
  "queue_tracked kind timeout queue u =
     (case allocate_operation kind timeout u of
        (Inl e, u) \<Rightarrow> (Inl e, u)
      | (Inr operation, u) \<Rightarrow>
          (case queue (op_raw operation) u of
             (Inl e, u) \<Rightarrow> (Inl e, remove_operation operation u)
           | (Inr (), u) \<Rightarrow> (Inr operation, u)))"

definition queue_nop_operation :: "io_uring \<Rightarrow> (io_error + operation_id) \<times> io_uring" where
  "queue_nop_operation = queue_tracked Nop None queue_nop"

definition queue_timeout_operation ::
  "duration \<Rightarrow> u64 \<Rightarrow> io_uring \<Rightarrow> (io_error + operation_id) \<times> io_uring" where
  "queue_timeout_operation d timeout_addr u =
     (case from_duration d of
        Inl e \<Rightarrow> (Inl e, u)
      | Inr timeout \<Rightarrow> queue_tracked Timeout (Some timeout) (queue_timeout timeout_addr) u)"

definition queue_cancel_operation :: "operation_id \<Rightarrow> io_uring \<Rightarrow> (io_error + operation_id) \<times> io_uring" where
  "queue_cancel_operation target = queue_tracked (Cancel target) None (queue_cancel (op_raw target))"

definition queue_read_operation ::
  "i32 \<Rightarrow> u64 \<Rightarrow> nat \<Rightarrow> u64 \<Rightarrow> io_uring \<Rightarrow> (io_error + operation_id) \<times> io_uring" where
  "queue_read_operation fd buffer_addr buffer_len offset =
     queue_tracked Read None (queue_read fd buffer_addr buffer_len offset)"

definition queue_write_operation ::
  "i32 \<Rightarrow> u64 \<Rightarrow> nat \<Rightarrow> u64 \<Rightarrow> io_uring \<Rightarrow> (io_error + operation_id) \<times> io_uring" where
  "queue_write_operation fd buffer_addr buffer_len offset =
     queue_tracked Write None (queue_write fd buffer_addr buffer_len offset)"

definition is_operation_tracked :: "operation_id \<Rightarrow> io_uring \<Rightarrow> bool" where
  "is_operation_tracked operation u \<longleftrightarrow> map_of (ur_operations u) operation \<noteq> None"

definition operation_kind_of :: "operation_id \<Rightarrow> io_uring \<Rightarrow> operation_kind option" where
  "operation_kind_of operation u = map_option os_kind (map_of (ur_operations u) operation)"

definition complete_operation ::
  "operation_id \<Rightarrow> uring_completion \<Rightarrow> io_uring \<Rightarrow> (io_error + operation_completion) \<times> io_uring" where
  "complete_operation operation completion u =
     (case map_of (ur_operations u) operation of
        None \<Rightarrow> (Inl NotFound, u)
      | Some state \<Rightarrow>
          (Inr \<lparr>oc_operation = operation, oc_kind = os_kind state,
              oc_result = uc_result completion, oc_flags = uc_flags completion\<rparr>,
           remove_operation operation u))"

subsection \<open>Harvesting completions\<close>

definition pop_ring_completion :: "io_uring \<Rightarrow> uring_completion option \<times> io_uring" where
  "pop_ring_completion u =
     (let u = kernel_arrive u; head = ur_cq_head u; tail = ur_cq_tail u
      in if head = tail then (None, u)
         else let entry = ur_cqes u ! unat (head AND ur_cq_ring_mask u)
              in (Some \<lparr>uc_user_data = cqe_user_data entry, uc_result = cqe_res entry, uc_flags = cqe_flags entry\<rparr>,
                  u\<lparr>ur_cq_head := head + 1\<rparr>))"

definition harvest_left :: "io_uring \<Rightarrow> nat \<times> nat" where
  "harvest_left u = (length (kn_arrivals u), unat (ur_cq_tail u - ur_cq_head u))"

lemma write_cqe_fields [simp]:
  "kn_arrivals (fold write_cqe ps u) = kn_arrivals u"
  "kn_answers (fold write_cqe ps u) = kn_answers u"
  "ur_cq_head (fold write_cqe ps u) = ur_cq_head u"
  "ur_cq_ring_mask (fold write_cqe ps u) = ur_cq_ring_mask u"
  "length (ur_cqes (fold write_cqe ps u)) = length (ur_cqes u)"
  "ur_sq_head (fold write_cqe ps u) = ur_sq_head u"
  "ur_sq_tail (fold write_cqe ps u) = ur_sq_tail u"
  "ur_sq_ring_mask (fold write_cqe ps u) = ur_sq_ring_mask u"
  "ur_sq_array (fold write_cqe ps u) = ur_sq_array u"
  "ur_sqes (fold write_cqe ps u) = ur_sqes u"
  "ur_completions (fold write_cqe ps u) = ur_completions u"
  "ur_operations (fold write_cqe ps u) = ur_operations u"
  "ur_next_operation (fold write_cqe ps u) = ur_next_operation u"
  "ur_pending_submissions (fold write_cqe ps u) = ur_pending_submissions u"
  "kn_inflight (fold write_cqe ps u) = kn_inflight u"
  "kn_ok (fold write_cqe ps u) = kn_ok u"
  by (induction ps arbitrary: u) (simp_all add: write_cqe_def)

lemma pop_left:
  assumes "pop_ring_completion u = (Some c, u')"
  shows "(harvest_left u', harvest_left u) \<in> less_than <*lex*> less_than"
proof -
  have step: "unat (t - (h + 1)) < unat (t - h)" if "h \<noteq> t" for h t :: u32
  proof -
    have "t - h \<noteq> 0" using that by simp
    then have "unat (t - h - 1) < unat (t - h)"
      by (simp add: unat_minus_one word_gt_0 unat_gt_0)
    then show ?thesis by (simp add: diff_diff_eq)
  qed
  show "(harvest_left u', harvest_left u) \<in> less_than <*lex*> less_than"
  proof (cases "kn_arrivals u")
    case Nil
    then show ?thesis
      using assms step by (auto simp: pop_ring_completion_def kernel_arrive_def harvest_left_def Let_def split: if_splits)
  next
    case (Cons ps rest)
    then show ?thesis
      using assms
      by (auto simp: pop_ring_completion_def kernel_arrive_def kernel_post_def harvest_left_def Let_def split: if_splits)
  qed
qed

lemma harvest_left_completions [simp]: "harvest_left (u\<lparr>ur_completions := x\<rparr>) = harvest_left u"
  by (simp add: harvest_left_def)

function drain_completions :: "io_uring \<Rightarrow> nat \<times> io_uring" where
  "drain_completions u =
     (case pop_ring_completion u of
        (None, u) \<Rightarrow> (0, u)
      | (Some c, u) \<Rightarrow>
          (let (drained, u') = drain_completions (u\<lparr>ur_completions := ur_completions u @ [c]\<rparr>)
           in (Suc drained, u')))"
  by pat_completeness auto

termination
  by (relation "inv_image (less_than <*lex*> less_than) harvest_left")
    (auto dest: pop_left [OF sym])

declare drain_completions.simps [simp del]

definition try_completion :: "io_uring \<Rightarrow> uring_completion option \<times> io_uring" where
  "try_completion u =
     (case ur_completions u of
        c # rest \<Rightarrow> (Some c, u\<lparr>ur_completions := rest\<rparr>)
      | [] \<Rightarrow> pop_ring_completion u)"

definition try_operation_completion :: "io_uring \<Rightarrow> operation_completion option \<times> io_uring" where
  "try_operation_completion u =
     (let (_, u) = drain_completions u
      in case list_position (\<lambda>c. is_operation_tracked (IoUringOperationId (uc_user_data c)) u) (ur_completions u) of
           None \<Rightarrow> (None, u)
         | Some index \<Rightarrow>
             (let completion = ur_completions u ! index;
                  u = u\<lparr>ur_completions := remove_at index (ur_completions u)\<rparr>
              in case complete_operation (IoUringOperationId (uc_user_data completion)) completion u of
                   (Inl _, u) \<Rightarrow> (None, u)
                 | (Inr oc, u) \<Rightarrow> (Some oc, u)))"

definition pending_saturating_sub :: "u32 \<Rightarrow> io_uring \<Rightarrow> io_uring" where
  "pending_saturating_sub submitted u =
     u\<lparr>ur_pending_submissions :=
       (if submitted \<le> ur_pending_submissions u then ur_pending_submissions u - submitted else 0)\<rparr>"

lemma enter_answers:
  "uring_enter n m u = (Some r, u') \<Longrightarrow> length (kn_answers u') < length (kn_answers u)"
  by (auto simp: uring_enter_def kernel_post_def kernel_consume_def split: list.splits)

lemma pop_answers: "pop_ring_completion u = (r, u') \<Longrightarrow> kn_answers u' = kn_answers u"
  by (cases "kn_arrivals u")
    (auto simp: pop_ring_completion_def kernel_arrive_def kernel_post_def Let_def split: if_splits)

lemma drain_answers: "kn_answers (snd (drain_completions u)) = kn_answers u"
proof (induction u rule: drain_completions.induct)
  case (1 u)
  show ?case
  proof (cases "pop_ring_completion u")
    case (Pair r u')
    show ?thesis
    proof (cases r)
      case None
      have "kn_answers u' = kn_answers u" by (rule pop_answers [OF Pair])
      then show ?thesis using Pair None by (subst drain_completions.simps) simp
    next
      case (Some c)
      then show ?thesis using "1.IH" [OF Pair [symmetric] Some] pop_answers [OF Pair] Pair
        by (subst drain_completions.simps) (simp add: case_prod_unfold Let_def)
    qed
  qed
qed

lemma drain_pending_answers:
  "(n, u') = drain_completions (pending_saturating_sub submitted u) \<Longrightarrow> kn_answers u' = kn_answers u"
  using drain_answers [of "pending_saturating_sub submitted u"]
  by (metis io_uring.select_convs(14) io_uring.surjective io_uring.update_convs(13) pending_saturating_sub_def snd_conv)

subsection \<open>Entering the kernel\<close>

function submit_loop :: "u32 \<Rightarrow> io_uring \<Rightarrow> u32 call \<times> io_uring" where
  "submit_loop submitted u =
     (if ur_pending_submissions u = 0 then (Some (Inr submitted), u)
      else
        let requested = ur_pending_submissions u
        in case uring_enter requested 0 u of
             (None, u) \<Rightarrow> (None, u)
           | (Some (Inl e), u) \<Rightarrow> (Some (Inl e), u)
           | (Some (Inr result), u) \<Rightarrow>
               if result = 0 then (Some (Inl WouldBlock), u)
               else let accepted = min result requested
                    in submit_loop (submitted + accepted)
                         (u\<lparr>ur_pending_submissions := ur_pending_submissions u - accepted\<rparr>))"
  by pat_completeness auto

termination
  by (relation "measure (\<lambda>(_, u). length (kn_answers u))") (auto dest: enter_answers [OF sym])

declare submit_loop.simps [simp del]

definition submit_pending :: "io_uring \<Rightarrow> u32 call \<times> io_uring" where
  "submit_pending = submit_loop 0"

definition cancel_operation :: "operation_id \<Rightarrow> io_uring \<Rightarrow> operation_id call \<times> io_uring" where
  "cancel_operation target u =
     (case queue_cancel_operation target u of
        (Inl e, u) \<Rightarrow> (Some (Inl e), u)
      | (Inr operation, u) \<Rightarrow>
          (case submit_pending u of
             (None, u) \<Rightarrow> (None, u)
           | (Some (Inl e), u) \<Rightarrow> (Some (Inl e), remove_operation operation u)
           | (Some (Inr _), u) \<Rightarrow> (Some (Inr operation), u)))"

function wait_loop :: "nat \<Rightarrow> io_uring \<Rightarrow> nat call \<times> io_uring" where
  "wait_loop target u =
     (case uring_enter (ur_pending_submissions u) (of_nat (target - length (ur_completions u))) u of
        (None, u) \<Rightarrow> (None, u)
      | (Some (Inr submitted), u) \<Rightarrow>
          (let (_, u) = drain_completions (pending_saturating_sub submitted u)
           in if target \<le> length (ur_completions u) then (Some (Inr (length (ur_completions u))), u)
              else wait_loop target u)
      | (Some (Inl e), u) \<Rightarrow> if e = OsError EINTR then wait_loop target u else (Some (Inl e), u))"
  by pat_completeness auto

termination
  by (relation "measure (\<lambda>(_, u). length (kn_answers u))")
    (auto dest!: enter_answers [OF sym] drain_pending_answers)

declare wait_loop.simps [simp del]

definition wait_completions :: "nat \<Rightarrow> io_uring \<Rightarrow> nat call \<times> io_uring" where
  "wait_completions target u =
     (if 2 ^ 32 \<le> int target then (Some (Inl InvalidInput), u)
      else
        let (_, u) = drain_completions u
        in if target \<le> length (ur_completions u) then (Some (Inr (length (ur_completions u))), u)
           else wait_loop target u)"

subsection \<open>Waiting for one completion\<close>

function wait_ring_completion :: "io_uring \<Rightarrow> uring_completion call \<times> io_uring" where
  "wait_ring_completion u =
     (case pop_ring_completion u of
        (Some c, u) \<Rightarrow> (Some (Inr c), u)
      | (None, u) \<Rightarrow>
          (case uring_enter (ur_pending_submissions u) 1 u of
             (None, u) \<Rightarrow> (None, u)
           | (Some (Inr submitted), u) \<Rightarrow> wait_ring_completion (pending_saturating_sub submitted u)
           | (Some (Inl e), u) \<Rightarrow> if e = OsError EINTR then wait_ring_completion u else (Some (Inl e), u)))"
  by pat_completeness auto

termination
  by (relation "measure (\<lambda>u. length (kn_answers u))")
    (auto simp: pending_saturating_sub_def dest!: enter_answers [OF sym] pop_answers [OF sym])

declare wait_ring_completion.simps [simp del]

definition wait_left :: "io_uring \<Rightarrow> nat \<times> nat \<times> nat" where
  "wait_left u = (length (kn_answers u), harvest_left u)"

lemma wait_ring_left:
  "wait_ring_completion u = (Some (Inr c), u') \<Longrightarrow>
   (wait_left u', wait_left u) \<in> less_than <*lex*> less_than <*lex*> less_than"
proof (induction u rule: wait_ring_completion.induct)
  case (1 u)
  obtain r u1 where p: "pop_ring_completion u = (r, u1)" by fastforce
  show ?case
  proof (cases r)
    case (Some c')
    then show ?thesis
      using "1.prems" p pop_left [of u c' u1] pop_answers [OF p] by (subst (asm) wait_ring_completion.simps) (simp add: wait_left_def)
  next
    case None
    obtain e u2 where e: "uring_enter (ur_pending_submissions u1) 1 u1 = (e, u2)" by fastforce
    have a: "kn_answers u1 = kn_answers u" by (rule pop_answers [OF p])
    show ?thesis
    proof (cases e)
      case None
      with "1.prems" p \<open>r = None\<close> e show ?thesis by (subst (asm) wait_ring_completion.simps) simp
    next
      case (Some er)
      have lt: "length (kn_answers u2) < length (kn_answers u)"
        using enter_answers e Some a by fastforce
      note w = "1.prems" [unfolded wait_ring_completion.simps [of u]]
      have trans: "(wait_left u', wait_left v) \<in> less_than <*lex*> less_than <*lex*> less_than \<Longrightarrow>
          kn_answers v = kn_answers u2 \<Longrightarrow>
          (wait_left u', wait_left u) \<in> less_than <*lex*> less_than <*lex*> less_than" for v
        using lt by (auto simp: wait_left_def)
      show ?thesis
      proof (cases er)
        case (Inl err)
        then have "wait_ring_completion u2 = (Some (Inr c), u')"
          using w p \<open>r = None\<close> e Some by (simp split: if_splits)
        moreover have "err = OsError EINTR"
          using w p \<open>r = None\<close> e Some Inl by (simp split: if_splits)
        ultimately show ?thesis
          using trans [of u2] "1.IH"(1) [OF p [symmetric] \<open>r = None\<close> e [symmetric] Some Inl] by simp
      next
        case (Inr sub)
        then have "wait_ring_completion (pending_saturating_sub sub u2) = (Some (Inr c), u')"
          using w p \<open>r = None\<close> e Some by simp
        then show ?thesis
          using trans [of "pending_saturating_sub sub u2"] "1.IH"(2) [OF p [symmetric] \<open>r = None\<close> e [symmetric] Some Inr]
          by (simp add: pending_saturating_sub_def)
      qed
    qed
  qed
qed

definition wait_completion :: "io_uring \<Rightarrow> uring_completion call \<times> io_uring" where
  "wait_completion u =
     (case try_completion u of
        (Some c, u) \<Rightarrow> (Some (Inr c), u)
      | (None, u) \<Rightarrow> wait_ring_completion u)"

function wait_for_loop :: "u64 \<Rightarrow> io_uring \<Rightarrow> uring_completion call \<times> io_uring" where
  "wait_for_loop user_data u =
     (case wait_ring_completion u of
        (Some (Inr c), u) \<Rightarrow>
          if uc_user_data c = user_data then (Some (Inr c), u)
          else wait_for_loop user_data (u\<lparr>ur_completions := ur_completions u @ [c]\<rparr>)
      | (r, u) \<Rightarrow> (r, u))"
  by pat_completeness auto

termination
  by (relation "inv_image (less_than <*lex*> less_than <*lex*> less_than) (\<lambda>(_, u). wait_left u)")
    (auto simp: wait_left_def dest!: wait_ring_left [OF sym])

declare wait_for_loop.simps [simp del]

definition wait_for_completion :: "u64 \<Rightarrow> io_uring \<Rightarrow> uring_completion call \<times> io_uring" where
  "wait_for_completion user_data u =
     (case list_position (\<lambda>c. uc_user_data c = user_data) (ur_completions u) of
        Some index \<Rightarrow>
          (Some (Inr (ur_completions u ! index)), u\<lparr>ur_completions := remove_at index (ur_completions u)\<rparr>)
      | None \<Rightarrow> wait_for_loop user_data u)"

definition wait_operation_completion :: "operation_id \<Rightarrow> io_uring \<Rightarrow> operation_completion call \<times> io_uring" where
  "wait_operation_completion operation u =
     (case wait_for_completion (op_raw operation) u of
        (None, u) \<Rightarrow> (None, u)
      | (Some (Inl e), u) \<Rightarrow> (Some (Inl e), u)
      | (Some (Inr c), u) \<Rightarrow> map_prod Some id (complete_operation operation c u))"

text \<open>Queue and submit, and queue, submit and wait.\<close>

definition submit_queued :: "(io_error + unit) \<times> io_uring \<Rightarrow> unit call \<times> io_uring" where
  "submit_queued q =
     (case q of
        (Inl e, u) \<Rightarrow> (Some (Inl e), u)
      | (Inr (), u) \<Rightarrow> map_prod (map_option (map_sum id (\<lambda>_. ()))) id (submit_pending u))"

definition submit_nop :: "u64 \<Rightarrow> io_uring \<Rightarrow> unit call \<times> io_uring" where
  "submit_nop user_data u = submit_queued (queue_nop user_data u)"

definition submit_read :: "i32 \<Rightarrow> u64 \<Rightarrow> nat \<Rightarrow> u64 \<Rightarrow> u64 \<Rightarrow> io_uring \<Rightarrow> unit call \<times> io_uring" where
  "submit_read fd addr len offset user_data u = submit_queued (queue_read fd addr len offset user_data u)"

definition submit_write :: "i32 \<Rightarrow> u64 \<Rightarrow> nat \<Rightarrow> u64 \<Rightarrow> u64 \<Rightarrow> io_uring \<Rightarrow> unit call \<times> io_uring" where
  "submit_write fd addr len offset user_data u = submit_queued (queue_write fd addr len offset user_data u)"

definition wait_submitted :: "u64 \<Rightarrow> unit call \<times> io_uring \<Rightarrow> uring_completion call \<times> io_uring" where
  "wait_submitted user_data r =
     (case r of
        (None, u) \<Rightarrow> (None, u)
      | (Some (Inl e), u) \<Rightarrow> (Some (Inl e), u)
      | (Some (Inr ()), u) \<Rightarrow> wait_for_completion user_data u)"

definition read_once :: "i32 \<Rightarrow> u64 \<Rightarrow> nat \<Rightarrow> u64 \<Rightarrow> io_uring \<Rightarrow> uring_completion call \<times> io_uring" where
  "read_once fd addr len user_data u = wait_submitted user_data (submit_read fd addr len (- 1) user_data u)"

definition write_once :: "i32 \<Rightarrow> u64 \<Rightarrow> nat \<Rightarrow> u64 \<Rightarrow> io_uring \<Rightarrow> uring_completion call \<times> io_uring" where
  "write_once fd addr len user_data u = wait_submitted user_data (submit_write fd addr len (- 1) user_data u)"

definition timeout_once :: "duration \<Rightarrow> u64 \<Rightarrow> io_uring \<Rightarrow> operation_completion call \<times> io_uring" where
  "timeout_once d timeout_addr u =
     (case queue_timeout_operation d timeout_addr u of
        (Inl e, u) \<Rightarrow> (Some (Inl e), u)
      | (Inr operation, u) \<Rightarrow> wait_operation_completion operation u)"

subsection \<open>Snapshots\<close>

record kind_counts =
  kc_nops :: nat
  kc_reads :: nat
  kc_writes :: nat
  kc_accepts :: nat
  kc_connects :: nat
  kc_sends :: nat
  kc_recvs :: nat
  kc_timeouts :: nat
  kc_cancellations :: nat

definition no_kinds :: kind_counts where
  "no_kinds = \<lparr>kc_nops = 0, kc_reads = 0, kc_writes = 0, kc_accepts = 0, kc_connects = 0, kc_sends = 0,
     kc_recvs = 0, kc_timeouts = 0, kc_cancellations = 0\<rparr>"

definition kinds_total :: "kind_counts \<Rightarrow> nat" where
  "kinds_total k = kc_nops k + kc_reads k + kc_writes k + kc_accepts k + kc_connects k + kc_sends k +
     kc_recvs k + kc_timeouts k + kc_cancellations k"

definition kinds_is_empty :: "kind_counts \<Rightarrow> bool" where
  "kinds_is_empty k \<longleftrightarrow> kinds_total k = 0"

fun kinds_add :: "operation_kind \<Rightarrow> kind_counts \<Rightarrow> kind_counts" where
  "kinds_add Nop k = k\<lparr>kc_nops := kc_nops k + 1\<rparr>"
| "kinds_add Read k = k\<lparr>kc_reads := kc_reads k + 1\<rparr>"
| "kinds_add Write k = k\<lparr>kc_writes := kc_writes k + 1\<rparr>"
| "kinds_add Accept k = k\<lparr>kc_accepts := kc_accepts k + 1\<rparr>"
| "kinds_add Connect k = k\<lparr>kc_connects := kc_connects k + 1\<rparr>"
| "kinds_add Send k = k\<lparr>kc_sends := kc_sends k + 1\<rparr>"
| "kinds_add Recv k = k\<lparr>kc_recvs := kc_recvs k + 1\<rparr>"
| "kinds_add Timeout k = k\<lparr>kc_timeouts := kc_timeouts k + 1\<rparr>"
| "kinds_add (Cancel _) k = k\<lparr>kc_cancellations := kc_cancellations k + 1\<rparr>"

record uring_snapshot =
  us_pending_submissions :: u32
  us_pending_completions :: nat
  us_tracked_operations :: nat
  us_operation_kinds :: kind_counts

definition ring_snapshot :: "io_uring \<Rightarrow> uring_snapshot" where
  "ring_snapshot u =
     \<lparr>us_pending_submissions = ur_pending_submissions u,
      us_pending_completions = length (ur_completions u),
      us_tracked_operations = length (ur_operations u),
      us_operation_kinds = fold (\<lambda>(_, s). kinds_add (os_kind s)) (ur_operations u) no_kinds\<rparr>"

definition ring_snapshot_idle :: "uring_snapshot \<Rightarrow> bool" where
  "ring_snapshot_idle s \<longleftrightarrow>
     us_pending_submissions s = 0 \<and> us_pending_completions s = 0 \<and> us_tracked_operations s = 0"

subsection \<open>A new ring\<close>

text \<open>The state after a successful setup with rings of the given sizes.\<close>

definition uring_new :: "u32 \<Rightarrow> u32 \<Rightarrow> enter_answer list \<Rightarrow> posted list list \<Rightarrow> io_uring" where
  "uring_new sq_size cq_size answers arrivals =
     \<lparr>ur_sq_head = 0, ur_sq_tail = 0, ur_sq_ring_mask = sq_size - 1,
      ur_sq_array = replicate (unat sq_size) 0, ur_sqes = replicate (unat sq_size) clear_sqe,
      ur_cq_head = 0, ur_cq_tail = 0, ur_cq_ring_mask = cq_size - 1,
      ur_cqes = replicate (unat cq_size) \<lparr>cqe_user_data = 0, cqe_res = 0, cqe_flags = 0\<rparr>,
      ur_completions = [], ur_operations = [], ur_next_operation = 0, ur_pending_submissions = 0,
      kn_answers = answers, kn_arrivals = arrivals, kn_inflight = {#}, kn_ok = True\<rparr>"

end
