(* ===== verification/Uring_Protocol.thy ===== *)
theory Uring_Protocol
  imports Uring_Ring
begin

text \<open>
  The ring protocol of \<open>os/uring.rs\<close>: the rings with their wrapping 32-bit indices are queues, and
  every function moves entries between the submission ring, the kernel, the completion ring and the
  local queue without losing or duplicating one.
\<close>

unbundle bit_operations_syntax

subsection \<open>Ring indices\<close>

lemma unat_ring_index:
  fixes h :: u32
  assumes "k \<le> 32"
  shows "unat ((h + of_nat i) AND mask k) = (unat h + i) mod 2 ^ k"
proof -
  have "unat ((h + of_nat i) AND mask k) = unat (take_bit k (h + of_nat i))" by (simp only: take_bit_eq_mask)
  also have "\<dots> = unat (h + of_nat i) mod 2 ^ k" by (simp only: unsigned_take_bit_eq) (simp only: take_bit_eq_mod)
  finally have "unat ((h + of_nat i) AND mask k) = unat (h + of_nat i) mod 2 ^ k" .
  also have "unat (h + of_nat i) = (unat h + i) mod 2 ^ 32"
    by (simp add: unat_word_ariths unat_of_nat mod_simps take_bit_eq_mod)
  also have "\<dots> mod 2 ^ k = (unat h + i) mod 2 ^ k"
    by (rule mod_mod_cancel [OF le_imp_power_dvd [OF assms]])
  finally show ?thesis .
qed

lemma unat_add_diff:
  fixes h t :: u32
  assumes "i \<le> unat (t - h)"
  shows "unat (t - (h + of_nat i)) = unat (t - h) - i"
proof -
  have i: "i < 2 ^ 32" using assms unsigned_less [of "t - h", where 'a = nat] by simp
  have "of_nat i \<le> t - h" using assms i by (simp add: word_le_nat_alt unat_of_nat take_bit_eq_mod)
  then have "unat (t - h - of_nat i) = unat (t - h) - i"
    using i by (simp add: unat_sub unat_of_nat take_bit_eq_mod)
  then show ?thesis by (simp add: diff_diff_eq)
qed

lemma unat_succ_diff:
  fixes h t :: u32
  assumes "Suc (unat (t - h)) < 2 ^ 32"
  shows "unat (t + 1 - h) = Suc (unat (t - h))"
proof -
  have "t + 1 - h = (t - h) + 1" by simp
  then have "unat (t + 1 - h) = (unat (t - h) + 1) mod 2 ^ 32"
    by (simp only: unat_word_ariths) simp
  then show ?thesis using assms by simp
qed

definition window :: "nat \<Rightarrow> nat \<Rightarrow> nat \<Rightarrow> 'a list \<Rightarrow> 'a list" where
  "window k h n xs = map (\<lambda>i. xs ! ((h + i) mod 2 ^ k)) [0..<n]"

lemma ring_window_eq:
  "k \<le> 32 \<Longrightarrow> ring_window h t (mask k) xs = window k (unat h) (unat (t - h)) xs"
  by (simp add: ring_window_def window_def unat_ring_index)

lemma window_length [simp]: "length (window k h n xs) = n"
  by (simp add: window_def)

lemma window_push:
  assumes "n < 2 ^ k" "length xs = 2 ^ k"
  shows "window k h (Suc n) (xs[(h + n) mod 2 ^ k := v]) = window k h n xs @ [v]"
proof -
  have "(h + i) mod 2 ^ k \<noteq> (h + n) mod 2 ^ k" if "i < n" for i
    using mod_window_inj [of "h + i" "2 ^ k" "h + n" h] that assms(1) by auto
  then have "\<forall>i\<in>set [0..<n]. xs[(h + n) mod 2 ^ k := v] ! ((h + i) mod 2 ^ k) = xs ! ((h + i) mod 2 ^ k)"
    by (simp add: nth_list_update_neq eq_commute [of "(h + n) mod _"])
  then show ?thesis using assms(2) by (simp add: window_def)
qed

lemma window_drop:
  assumes "h' mod 2 ^ k = (h + i) mod 2 ^ k" "i \<le> n"
  shows "window k h' (n - i) xs = drop i (window k h n xs)"
proof -
  have "(h' + j) mod 2 ^ k = (h + (i + j)) mod 2 ^ k" for j
    using assms(1) by (metis add.assoc mod_add_left_eq)
  then show ?thesis
    using assms(2) by (intro nth_equalityI) (simp_all add: window_def less_diff_conv add.commute)
qed

subsection \<open>The submission ring is a queue\<close>

definition ring_geo :: "io_uring \<Rightarrow> bool" where
  "ring_geo u \<longleftrightarrow> (\<exists>k\<le>31. ur_sq_ring_mask u = mask k \<and> length (ur_sq_array u) = 2 ^ k \<and> length (ur_sqes u) = 2 ^ k) \<and>
     (\<exists>k\<le>31. ur_cq_ring_mask u = mask k \<and> length (ur_cqes u) = 2 ^ k)"

definition sq_size :: "io_uring \<Rightarrow> nat" where "sq_size u = unat (ur_sq_ring_mask u) + 1"
definition cq_size :: "io_uring \<Rightarrow> nat" where "cq_size u = unat (ur_cq_ring_mask u) + 1"

text \<open>The submission ring holds no more entries than it has slots, and the indirection array maps
  the index of each queued entry to itself.\<close>

definition sq_ok :: "io_uring \<Rightarrow> bool" where
  "sq_ok u \<longleftrightarrow> length (sq_entries u) \<le> sq_size u \<and>
     (\<forall>i<length (sq_entries u).
        ur_sq_array u ! unat ((ur_sq_head u + of_nat i) AND ur_sq_ring_mask u) =
        (ur_sq_head u + of_nat i) AND ur_sq_ring_mask u)"

lemma length_sq_entries: "length (sq_entries u) = unat (ur_sq_tail u - ur_sq_head u)"
  by (simp add: sq_entries_def ring_window_def)

lemma length_cq_entries: "length (cq_entries u) = unat (ur_cq_tail u - ur_cq_head u)"
  by (simp add: cq_entries_def ring_window_def)

lemma unat_mask_u32: "k \<le> 32 \<Longrightarrow> unat (mask k :: u32) = 2 ^ k - 1"
  using unat_ring_index [of k 0 "mask k"] by (simp add: of_nat_mask_eq) (simp add: mask_eq_exp_minus_1)

lemma sq_sizeI: "ur_sq_ring_mask u = mask k \<Longrightarrow> k \<le> 31 \<Longrightarrow> sq_size u = 2 ^ k"
  by (simp add: sq_size_def unat_mask_u32)

lemma cq_sizeI: "ur_cq_ring_mask u = mask k \<Longrightarrow> k \<le> 31 \<Longrightarrow> cq_size u = 2 ^ k"
  by (simp add: cq_size_def unat_mask_u32)

lemma sq_entries_window:
  assumes "ur_sq_ring_mask u = mask k" "k \<le> 31" "sq_ok u"
  shows "sq_entries u = window k (unat (ur_sq_head u)) (length (sq_entries u)) (ur_sqes u)"
proof (rule nth_equalityI)
  fix i assume i: "i < length (sq_entries u)"
  then have "ur_sq_array u ! unat ((ur_sq_head u + of_nat i) AND mask k) = (ur_sq_head u + of_nat i) AND mask k"
    using assms(1,3) by (simp add: sq_ok_def)
  then show "sq_entries u ! i = window k (unat (ur_sq_head u)) (length (sq_entries u)) (ur_sqes u) ! i"
    using i assms(1,2) unat_ring_index [of k "ur_sq_head u" i]
    by (simp add: sq_entries_def ring_window_def window_def)
qed simp

lemma queue_sqe_full:
  assumes "ring_geo u" "sq_ok u" "length (sq_entries u) = sq_size u"
  shows "queue_sqe f u = (Inl WouldBlock, u)"
  using assms by (auto simp: queue_sqe_def prepare_sqe_def Let_def word_less_nat_alt sq_size_def length_sq_entries)

definition sqe_queued :: "sqe \<Rightarrow> io_uring \<Rightarrow> io_uring" where
  "sqe_queued e u =
     (let index = ur_sq_tail u AND ur_sq_ring_mask u
      in u\<lparr>ur_sqes := (ur_sqes u)[unat index := e], ur_sq_array := (ur_sq_array u)[unat index := index],
           ur_sq_tail := ur_sq_tail u + 1, ur_pending_submissions := ur_pending_submissions u + 1\<rparr>)"

lemma queue_sqe_room:
  assumes geo: "ring_geo u" and sq: "sq_ok u" and room: "length (sq_entries u) < sq_size u"
    and pending: "ur_pending_submissions u \<noteq> - 1"
  shows "queue_sqe f u = (Inr (), sqe_queued (f clear_sqe) u)"
    "sq_entries (sqe_queued e u) = sq_entries u @ [e]" "sq_ok (sqe_queued e u)" "ring_geo (sqe_queued e u)"
proof -
  obtain k where k: "k \<le> 31" "ur_sq_ring_mask u = mask k" "length (ur_sq_array u) = 2 ^ k" "length (ur_sqes u) = 2 ^ k"
    using geo by (auto simp: ring_geo_def)
  let ?n = "length (sq_entries u)" and ?h = "ur_sq_head u" and ?t = "ur_sq_tail u"
  have n: "?n < 2 ^ k" using room k sq_sizeI by simp
  have tn: "?t = ?h + of_nat ?n" by (simp add: length_sq_entries)
  have idx: "unat (?t AND mask k) = (unat ?h + ?n) mod 2 ^ k"
    using unat_ring_index [of k ?h ?n] k(1) by (simp add: tn)
  have "unat (?t AND mask k) < 2 ^ k" by (simp add: idx)
  then show "queue_sqe f u = (Inr (), sqe_queued (f clear_sqe) u)"
    using room pending k
    by (simp add: queue_sqe_def prepare_sqe_def Let_def word_less_nat_alt sq_size_def length_sq_entries
        write_sqe_def finish_sqe_def sqe_queued_def)
  let ?u = "sqe_queued e u"
  have "(2::nat) ^ k \<le> 2 ^ 31" using k(1) by (intro power_increasing) auto
  then have "Suc (unat (?t - ?h)) < 2 ^ 32" using n by (simp add: length_sq_entries)
  then have len: "length (sq_entries ?u) = Suc ?n"
    using unat_succ_diff [of ?t ?h] by (simp add: length_sq_entries sqe_queued_def Let_def)
  have arr: "ur_sq_array ?u ! unat ((?h + of_nat i) AND mask k) = (?h + of_nat i) AND mask k" if "i < Suc ?n" for i
  proof (cases "i = ?n")
    case True
    have "unat (?t AND mask k) < length (ur_sq_array u)" by (simp add: idx k)
    then show ?thesis using True by (simp add: sqe_queued_def Let_def k flip: tn)
  next
    case False
    then have "(unat ?h + i) mod 2 ^ k \<noteq> (unat ?h + ?n) mod 2 ^ k"
      using mod_window_inj [of "unat ?h + i" "2 ^ k" "unat ?h + ?n" "unat ?h"] that n by auto
    then have "unat ((?h + of_nat i) AND mask k) \<noteq> unat (?t AND mask k)"
      using unat_ring_index [of k ?h i] k(1) by (simp add: idx)
    then show ?thesis
      using sq that False k by (simp add: sq_ok_def sqe_queued_def Let_def)
  qed
  then show ok: "sq_ok ?u"
    using k(1,2) n unat_mask_u32 [of k]
    by (simp add: sq_ok_def len sq_size_def) (simp add: sqe_queued_def Let_def k(2))
  show "sq_entries ?u = sq_entries u @ [e]"
    using sq_entries_window [OF _ k(1) ok] sq_entries_window [OF k(2,1) sq] window_push [OF n k(4), of "unat ?h" e]
    by (simp add: len) (simp add: sqe_queued_def Let_def k idx)
  show "ring_geo ?u" using geo by (simp add: ring_geo_def sqe_queued_def Let_def)
qed

lemma consume_entries:
  assumes "ring_geo u" "sq_ok u" "ea_consumed a \<le> length (sq_entries u)"
  shows "sq_entries (kernel_consume n a u) = drop (ea_consumed a) (sq_entries u)"
    "sq_ok (kernel_consume n a u)" "ring_geo (kernel_consume n a u)"
proof -
  obtain k where k: "k \<le> 31" "ur_sq_ring_mask u = mask k" using assms(1) by (auto simp: ring_geo_def)
  let ?u = "kernel_consume n a u" and ?c = "ea_consumed a" and ?h = "ur_sq_head u"
  have len: "length (sq_entries ?u) = length (sq_entries u) - ?c"
    using unat_add_diff [of ?c "ur_sq_tail u" ?h] assms(3) by (simp add: length_sq_entries kernel_consume_def)
  show ok: "sq_ok ?u"
  proof -
    have "ur_sq_array u ! unat ((?h + of_nat (?c + i)) AND ur_sq_ring_mask u) = (?h + of_nat (?c + i)) AND ur_sq_ring_mask u"
      if "i < length (sq_entries u) - ?c" for i
    proof -
      have "?c + i < length (sq_entries u)" using that by simp
      then show ?thesis using assms(2) unfolding sq_ok_def by blast
    qed
    then show ?thesis
      using assms(2) unfolding sq_ok_def len by (auto simp: kernel_consume_def sq_size_def add.assoc)
  qed
  have "unat (?h + of_nat ?c) mod 2 ^ k = (unat ?h + ?c) mod 2 ^ k"
    using unat_ring_index [of k ?h ?c] k(1) unat_ring_index [of k "?h + of_nat ?c" 0] by simp
  then show "sq_entries ?u = drop ?c (sq_entries u)"
    using sq_entries_window [OF _ k(1) ok] sq_entries_window [OF k(2,1) assms(2)] assms(3)
      window_drop [of "unat (?h + of_nat ?c)" k "unat ?h" ?c "length (sq_entries u)" "ur_sqes u"]
    by (simp add: len) (simp add: kernel_consume_def k)
  show "ring_geo ?u" using assms(1) by (simp add: ring_geo_def kernel_consume_def)
qed

subsection \<open>The completion ring is a queue\<close>

lemma cq_entries_window:
  "ur_cq_ring_mask u = mask k \<Longrightarrow> k \<le> 31 \<Longrightarrow>
   cq_entries u = window k (unat (ur_cq_head u)) (length (cq_entries u)) (ur_cqes u)"
  by (simp add: cq_entries_def ring_window_eq)

lemma write_cqe_entries:
  assumes "ring_geo u" "length (cq_entries u) < cq_size u"
  shows "cq_entries (write_cqe p u) = cq_entries u @ [posted_cqe p]" "ring_geo (write_cqe p u)"
    "cq_size (write_cqe p u) = cq_size u"
proof -
  obtain k where k: "k \<le> 31" "ur_cq_ring_mask u = mask k" "length (ur_cqes u) = 2 ^ k"
    using assms(1) by (auto simp: ring_geo_def)
  let ?n = "length (cq_entries u)" and ?h = "ur_cq_head u" and ?t = "ur_cq_tail u"
  have n: "?n < 2 ^ k" using assms(2) k cq_sizeI by simp
  have "?t = ?h + of_nat ?n" by (simp add: length_cq_entries)
  then have idx: "unat (?t AND mask k) = (unat ?h + ?n) mod 2 ^ k"
    using unat_ring_index [of k ?h ?n] k(1) by simp
  have "(2::nat) ^ k \<le> 2 ^ 31" using k(1) by (intro power_increasing) auto
  then have "Suc (unat (?t - ?h)) < 2 ^ 32" using n by (simp add: length_cq_entries)
  then have len: "length (cq_entries (write_cqe p u)) = Suc ?n"
    using unat_succ_diff [of ?t ?h] by (simp add: length_cq_entries write_cqe_def)
  show "cq_entries (write_cqe p u) = cq_entries u @ [posted_cqe p]"
    using cq_entries_window [of "write_cqe p u" k] cq_entries_window [OF k(2,1)] k
      window_push [OF n k(3), of "unat ?h" "posted_cqe p"]
    by (simp add: len) (simp add: write_cqe_def idx)
  show "ring_geo (write_cqe p u)" using assms(1) by (simp add: ring_geo_def write_cqe_def)
  show "cq_size (write_cqe p u) = cq_size u" by (simp add: cq_size_def write_cqe_def)
qed

lemma write_cqes_entries:
  "ring_geo u \<Longrightarrow> length ps + length (cq_entries u) \<le> cq_size u \<Longrightarrow>
   cq_entries (fold write_cqe ps u) = cq_entries u @ map posted_cqe ps \<and> ring_geo (fold write_cqe ps u)"
proof (induction ps arbitrary: u)
  case (Cons p ps)
  then show ?case using write_cqe_entries [of u p] by simp
qed simp

lemma ring_geo_write: "ring_geo (fold write_cqe ps u) = ring_geo u"
  by (simp add: ring_geo_def)

lemma pop_cqe_entries:
  assumes "ring_geo u" "ur_cq_head u \<noteq> ur_cq_tail u"
  shows "cq_entries u = ur_cqes u ! unat (ur_cq_head u AND ur_cq_ring_mask u) #
      cq_entries (u\<lparr>ur_cq_head := ur_cq_head u + 1\<rparr>)"
proof -
  obtain k where k: "k \<le> 31" "ur_cq_ring_mask u = mask k" using assms(1) by (auto simp: ring_geo_def)
  let ?n = "length (cq_entries u)" and ?h = "ur_cq_head u" and ?u = "u\<lparr>ur_cq_head := ur_cq_head u + 1\<rparr>"
  have n: "0 < ?n" using assms(2) by (simp add: length_cq_entries unat_gt_0)
  have len: "length (cq_entries ?u) = ?n - 1"
    using unat_add_diff [of 1 "ur_cq_tail u" ?h] n by (simp add: length_cq_entries)
  have "unat (?h + 1) mod 2 ^ k = (unat ?h + 1) mod 2 ^ k"
    using unat_ring_index [of k ?h 1] k(1) unat_ring_index [of k "?h + 1" 0] by simp
  moreover have "1 \<le> ?n" using n by (simp add: Suc_le_eq)
  ultimately have "window k (unat (?h + 1)) (?n - 1) (ur_cqes u) = drop 1 (window k (unat ?h) ?n (ur_cqes u))"
    by (rule window_drop)
  then have "cq_entries ?u = drop 1 (cq_entries u)"
    using cq_entries_window [of ?u k] cq_entries_window [OF k(2,1)] k by (simp add: len)
  moreover have "cq_entries u ! 0 = ur_cqes u ! unat (?h AND ur_cq_ring_mask u)"
    using n by (simp add: cq_entries_def ring_window_def)
  ultimately show ?thesis using n by (metis Cons_nth_drop_Suc One_nat_def drop0)
qed

subsection \<open>The flow of entries\<close>

text \<open>The entries that the kernel may still act on, and the tags of all entries and completions that
  were not yet handed out.\<close>

definition active :: "io_uring \<Rightarrow> sqe multiset" where
  "active u = mset (sq_entries u) + kn_inflight u"

definition tags :: "io_uring \<Rightarrow> u64 multiset" where
  "tags u = image_mset sqe_user_data (active u) + image_mset cqe_user_data (mset (cq_entries u)) +
     image_mset uc_user_data (mset (ur_completions u))"

definition ring_inv :: "io_uring \<Rightarrow> bool" where
  "ring_inv u \<longleftrightarrow> ring_geo u \<and>
     (kn_ok u \<longrightarrow> sq_ok u \<and> length (cq_entries u) \<le> cq_size u \<and> unat (ur_pending_submissions u) = length (sq_entries u))"

text \<open>\<open>ring_flow out u u'\<close>: from \<open>u\<close> to \<open>u'\<close> the completions tagged \<open>out\<close> were handed out and nothing else
  was lost or added.\<close>

definition ring_flow :: "u64 multiset \<Rightarrow> io_uring \<Rightarrow> io_uring \<Rightarrow> bool" where
  "ring_flow out u u' \<longleftrightarrow>
     (ring_inv u \<longrightarrow> ring_inv u' \<and>
       (kn_ok u' \<longrightarrow> kn_ok u \<and> tags u = tags u' + out \<and> active u' \<subseteq># active u)) \<and>
     ur_operations u' = ur_operations u \<and> ur_next_operation u' = ur_next_operation u"

lemma ring_flow_refl [simp, intro]: "ring_flow {#} u u"
  by (simp add: ring_flow_def)

lemma ring_flow_trans: "ring_flow a u v \<Longrightarrow> ring_flow b v w \<Longrightarrow> ring_flow (a + b) u w"
  by (auto simp: ring_flow_def ac_simps intro: subset_mset.trans)

lemmas ring_flow_step = ring_flow_trans [where b = "{#}", simplified] ring_flow_trans [where a = "{#}", simplified]

lemma ring_flowI:
  assumes "ur_operations u' = ur_operations u" "ur_next_operation u' = ur_next_operation u"
    and "ring_geo u \<Longrightarrow> ring_geo u'"
    and "ring_geo u \<Longrightarrow> kn_ok u' \<Longrightarrow> kn_ok u"
    and "ring_inv u \<Longrightarrow> kn_ok u' \<Longrightarrow> kn_ok u \<Longrightarrow> sq_ok u'"
    and "ring_inv u \<Longrightarrow> kn_ok u' \<Longrightarrow> kn_ok u \<Longrightarrow> length (cq_entries u') \<le> cq_size u'"
    and "ring_inv u \<Longrightarrow> kn_ok u' \<Longrightarrow> kn_ok u \<Longrightarrow> unat (ur_pending_submissions u') = length (sq_entries u')"
    and "ring_inv u \<Longrightarrow> kn_ok u' \<Longrightarrow> kn_ok u \<Longrightarrow> tags u = tags u' + out"
    and "ring_inv u \<Longrightarrow> kn_ok u' \<Longrightarrow> kn_ok u \<Longrightarrow> active u' \<subseteq># active u"
  shows "ring_flow out u u'"
proof -
  have "ring_inv u' \<and> (kn_ok u' \<longrightarrow> kn_ok u \<and> tags u = tags u' + out \<and> active u' \<subseteq># active u)" if i: "ring_inv u"
  proof -
    have g: "ring_geo u" using i by (simp add: ring_inv_def)
    show ?thesis
    proof (cases "kn_ok u'")
      case True
      note a = assms(5-9) [OF i True assms(4) [OF g True]]
      show ?thesis
        unfolding ring_inv_def by (intro conjI impI a assms(3) [OF g] assms(4) [OF g True])
    next
      case False
      then show ?thesis using assms(3) [OF g] by (simp add: ring_inv_def)
    qed
  qed
  then show ?thesis unfolding ring_flow_def using assms(1,2) by blast
qed

lemma ring_flowD:
  assumes "ring_flow out u u'" "ring_inv u"
  shows "ring_inv u'" "kn_ok u' \<Longrightarrow> kn_ok u" "kn_ok u' \<Longrightarrow> tags u = tags u' + out"
    "kn_ok u' \<Longrightarrow> active u' \<subseteq># active u" "ur_operations u' = ur_operations u"
    "ur_next_operation u' = ur_next_operation u"
  using assms by (auto simp: ring_flow_def)

lemma post_effect:
  assumes "ring_geo u" "kn_ok (kernel_post ps u)"
  shows "cq_entries (kernel_post ps u) = cq_entries u @ map posted_cqe ps"
    "length (cq_entries (kernel_post ps u)) \<le> cq_size u" "kn_ok u"
    "kn_inflight u = kn_inflight (kernel_post ps u) + mset (map fst ps)"
proof -
  let ?u = "u\<lparr>kn_inflight := kn_inflight u - mset (map fst ps), kn_ok := (kn_ok u \<and>
      mset (map fst ps) \<subseteq># kn_inflight u \<and> length ps + length (cq_entries u) \<le> unat (ur_cq_ring_mask u) + 1)\<rparr>"
  have p: "kernel_post ps u = fold write_cqe ps ?u" by (simp add: kernel_post_def)
  have ok: "kn_ok u" "mset (map fst ps) \<subseteq># kn_inflight u" "length ps + length (cq_entries u) \<le> cq_size u"
    using assms(2) by (simp_all add: p cq_size_def)
  have c: "cq_entries ?u = cq_entries u" "cq_size ?u = cq_size u" "ring_geo ?u = ring_geo u"
    by (simp_all add: cq_entries_def cq_size_def ring_geo_def)
  show "cq_entries (kernel_post ps u) = cq_entries u @ map posted_cqe ps"
    using write_cqes_entries [of ?u ps] assms(1) ok(3) by (simp only: p c)
  then show "length (cq_entries (kernel_post ps u)) \<le> cq_size u" using ok(3) by simp
  show "kn_ok u" by (rule ok(1))
  show "kn_inflight u = kn_inflight (kernel_post ps u) + mset (map fst ps)"
    using ok(2) by (simp add: p)
qed

lemma post_fields [simp]:
  "ur_sq_head (kernel_post ps u) = ur_sq_head u" "ur_sq_tail (kernel_post ps u) = ur_sq_tail u"
  "ur_sq_ring_mask (kernel_post ps u) = ur_sq_ring_mask u" "ur_sq_array (kernel_post ps u) = ur_sq_array u"
  "ur_sqes (kernel_post ps u) = ur_sqes u" "ur_cq_head (kernel_post ps u) = ur_cq_head u"
  "ur_cq_ring_mask (kernel_post ps u) = ur_cq_ring_mask u" "length (ur_cqes (kernel_post ps u)) = length (ur_cqes u)"
  "ur_completions (kernel_post ps u) = ur_completions u" "ur_operations (kernel_post ps u) = ur_operations u"
  "ur_next_operation (kernel_post ps u) = ur_next_operation u"
  "ur_pending_submissions (kernel_post ps u) = ur_pending_submissions u"
  "kn_answers (kernel_post ps u) = kn_answers u" "kn_arrivals (kernel_post ps u) = kn_arrivals u"
  by (simp_all add: kernel_post_def)

lemma post_sq [simp]:
  "sq_entries (kernel_post ps u) = sq_entries u" "sq_ok (kernel_post ps u) = sq_ok u"
  "ring_geo (kernel_post ps u) = ring_geo u" "cq_size (kernel_post ps u) = cq_size u"
  by (simp_all add: sq_entries_def sq_ok_def sq_size_def cq_size_def ring_geo_def)

lemma flow_post: "ring_flow {#} u (kernel_post ps u)"
proof -
  have "tags u = tags (kernel_post ps u)" "active (kernel_post ps u) \<subseteq># active u"
    if "ring_geo u" "kn_ok (kernel_post ps u)"
    using post_effect [OF that] by (simp_all add: tags_def active_def posted_cqe_def o_def multiset.map_comp)
  then show ?thesis using post_effect(2,3) by (auto simp: ring_flow_def ring_inv_def)
qed

lemma flow_arrive: "ring_flow {#} u (kernel_arrive u)"
proof (cases "kn_arrivals u")
  case (Cons ps rest)
  have "ring_flow {#} u (u\<lparr>kn_arrivals := rest\<rparr>)"
    by (simp add: ring_flow_def ring_inv_def tags_def active_def ring_geo_def sq_ok_def sq_entries_def cq_entries_def
        sq_size_def cq_size_def)
  then show ?thesis
    using ring_flow_step(1) flow_post Cons by (fastforce simp: kernel_arrive_def)
qed (simp add: kernel_arrive_def)

lemma pop_ring_cases:
  assumes "pop_ring_completion u = (r, u')"
  obtains (none) "r = None" "u' = kernel_arrive u" "ur_cq_head u' = ur_cq_tail u'"
  | (some) c v where "v = kernel_arrive u" "ur_cq_head v \<noteq> ur_cq_tail v"
      "c = ur_cqes v ! unat (ur_cq_head v AND ur_cq_ring_mask v)"
      "r = Some \<lparr>uc_user_data = cqe_user_data c, uc_result = cqe_res c, uc_flags = cqe_flags c\<rparr>"
      "u' = v\<lparr>ur_cq_head := ur_cq_head v + 1\<rparr>"
  using assms by (auto simp: pop_ring_completion_def Let_def split: if_splits)

lemma flow_pop:
  assumes "pop_ring_completion u = (r, u')"
  shows "ring_flow (case r of None \<Rightarrow> {#} | Some c \<Rightarrow> {#uc_user_data c#}) u u'"
  using assms
proof (cases rule: pop_ring_cases)
  case none
  then show ?thesis by (simp add: flow_arrive)
next
  case (some c v)
  have "ring_flow {#cqe_user_data c#} v u'"
  proof -
    have sq: "sq_entries u' = sq_entries v" "sq_ok u' = sq_ok v" "ring_geo u' = ring_geo v" "cq_size u' = cq_size v"
      by (simp_all add: some(5) sq_entries_def sq_ok_def ring_geo_def sq_size_def cq_size_def)
    have f: "ur_operations u' = ur_operations v" "ur_next_operation u' = ur_next_operation v" "kn_ok u' = kn_ok v"
        "ur_pending_submissions u' = ur_pending_submissions v" "kn_inflight u' = kn_inflight v"
        "ur_completions u' = ur_completions v"
      by (simp_all add: some(5))
    have cq: "cq_entries v = c # cq_entries u'" if "ring_inv v"
      using pop_cqe_entries [OF _ some(2)] that by (simp only: some(3,5) ring_inv_def)
    show ?thesis
      by (rule ring_flowI)
        (use cq in \<open>auto simp: f sq tags_def active_def ring_inv_def\<close>)
  qed
  from ring_flow_step(2) [OF flow_arrive [of u, folded some(1)] this] show ?thesis by (simp add: some(4))
qed

lemma flow_push_local:
  "ring_flow {#} v (u\<lparr>ur_completions := ur_completions u @ [c]\<rparr>)" if "ring_flow {#uc_user_data c#} v u"
proof -
  let ?u = "u\<lparr>ur_completions := ur_completions u @ [c]\<rparr>"
  have "sq_entries ?u = sq_entries u" "sq_ok ?u = sq_ok u" "ring_geo ?u = ring_geo u" "cq_size ?u = cq_size u"
      "cq_entries ?u = cq_entries u"
    by (simp_all add: sq_entries_def cq_entries_def sq_ok_def ring_geo_def sq_size_def cq_size_def)
  then have "tags ?u = tags u + {#uc_user_data c#}" "active ?u = active u" "ring_inv ?u = ring_inv u"
    by (simp_all add: tags_def active_def ring_inv_def)
  then show ?thesis using that by (simp add: ring_flow_def)
qed

lemma flow_drain: "ring_flow {#} u (snd (drain_completions u))"
proof (induction u rule: drain_completions.induct)
  case (1 u)
  obtain r u' where p: "pop_ring_completion u = (r, u')" by fastforce
  show ?case
  proof (cases r)
    case None
    then show ?thesis using p flow_pop [OF p] by (subst drain_completions.simps) simp
  next
    case (Some c)
    have "ring_flow {#} u (u'\<lparr>ur_completions := ur_completions u' @ [c]\<rparr>)"
      using flow_push_local flow_pop [OF p] Some by simp
    then show ?thesis
      using ring_flow_step(1) "1.IH" [OF p [symmetric] Some] p Some
      by (subst drain_completions.simps) (simp add: case_prod_unfold Let_def)
  qed
qed

subsection \<open>Entering the kernel\<close>

lemma consume_fields [simp]:
  "ur_cq_head (kernel_consume n a u) = ur_cq_head u" "ur_cq_tail (kernel_consume n a u) = ur_cq_tail u"
  "ur_cq_ring_mask (kernel_consume n a u) = ur_cq_ring_mask u" "ur_cqes (kernel_consume n a u) = ur_cqes u"
  "ur_completions (kernel_consume n a u) = ur_completions u" "ur_operations (kernel_consume n a u) = ur_operations u"
  "ur_next_operation (kernel_consume n a u) = ur_next_operation u"
  "ur_pending_submissions (kernel_consume n a u) = ur_pending_submissions u"
  "ur_sq_ring_mask (kernel_consume n a u) = ur_sq_ring_mask u" "ur_sq_array (kernel_consume n a u) = ur_sq_array u"
  "ur_sqes (kernel_consume n a u) = ur_sqes u" "ur_sq_tail (kernel_consume n a u) = ur_sq_tail u"
  "cq_entries (kernel_consume n a u) = cq_entries u" "cq_size (kernel_consume n a u) = cq_size u"
  "ring_geo (kernel_consume n a u) = ring_geo u"
  by (simp_all add: kernel_consume_def cq_entries_def cq_size_def ring_geo_def)

lemma enter_Some:
  assumes "uring_enter n m u = (Some r, u')"
  obtains a rest where "kn_answers u = a # rest"
    "u' = kernel_post (ea_posted a) (kernel_consume n a (u\<lparr>kn_answers := rest\<rparr>))"
    "r = (case ea_result a of Inl errno \<Rightarrow> Inl (OsError errno) | Inr n \<Rightarrow> Inr n)"
  using assms by (auto simp: uring_enter_def split: list.splits)

text \<open>The program subtracts what the kernel reports, and the protocol makes that what was consumed.\<close>

lemma enter_flow:
  assumes enter: "uring_enter (ur_pending_submissions u) m u = (Some r, u')"
    and p: "ring_inv u \<Longrightarrow> kn_ok u' \<Longrightarrow> kn_ok u \<Longrightarrow>
      p' = (case r of Inl _ \<Rightarrow> ur_pending_submissions u | Inr n \<Rightarrow> ur_pending_submissions u - n)"
  shows "ring_flow {#} u (u'\<lparr>ur_pending_submissions := p'\<rparr>)"
    and "ring_inv u \<Longrightarrow> kn_ok u' \<Longrightarrow> r = Inr n \<Longrightarrow> n \<le> ur_pending_submissions u"
    and "ur_pending_submissions u' = ur_pending_submissions u"
proof -
  from enter obtain a rest where a: "kn_answers u = a # rest"
    "u' = kernel_post (ea_posted a) (kernel_consume (ur_pending_submissions u) a (u\<lparr>kn_answers := rest\<rparr>))"
    "r = (case ea_result a of Inl errno \<Rightarrow> Inl (OsError errno) | Inr n \<Rightarrow> Inr n)"
    by (rule enter_Some)
  let ?v = "u\<lparr>kn_answers := rest\<rparr>" and ?p = "ur_pending_submissions u" and ?c = "ea_consumed a"
  let ?w = "kernel_consume ?p a ?v" and ?u = "u'\<lparr>ur_pending_submissions := p'\<rparr>"
  have v: "sq_entries ?v = sq_entries u" "sq_ok ?v = sq_ok u" "ring_geo ?v = ring_geo u"
      "cq_entries ?v = cq_entries u" "cq_size ?v = cq_size u"
    by (simp_all add: sq_entries_def cq_entries_def sq_ok_def ring_geo_def sq_size_def cq_size_def)
  have u: "sq_entries ?u = sq_entries ?w" "sq_ok ?u = sq_ok ?w" "cq_entries ?u = cq_entries u'"
      "cq_size ?u = cq_size u'" "ring_geo ?u = ring_geo u'"
    by (simp_all add: a(2) sq_entries_def cq_entries_def sq_ok_def ring_geo_def sq_size_def cq_size_def)
  have cqs: "cq_size u' = cq_size u" by (simp add: a(2) v)
  have okw: "kn_ok ?w" if "ring_geo u" "kn_ok u'"
    using post_effect(3) [of ?w "ea_posted a"] that by (simp add: a(2) v)
  have ok: "kn_ok u" "?c \<le> length (sq_entries u)" "?c \<le> unat ?p"
      "unat ?p - ?c = unat (case r of Inl _ \<Rightarrow> ?p | Inr n \<Rightarrow> ?p - n)" "\<And>n. r = Inr n \<Longrightarrow> n \<le> ?p"
    if "ring_geo u" "kn_ok u'"
    using okw [OF that]
    by (auto simp: kernel_consume_def v a(3) unat_sub word_le_nat_alt split: sum.splits)
  have sq: "sq_entries ?w = drop ?c (sq_entries u)" "sq_ok ?w" if "ring_inv u" "kn_ok u'"
    using consume_entries [of ?v a ?p] that ok by (simp_all add: v ring_inv_def)
  have act: "active ?u \<subseteq># active u \<and> tags u = tags ?u" if "ring_inv u" "kn_ok u'"
  proof -
    have g: "ring_geo u" using that by (simp add: ring_inv_def)
    have "mset (take ?c (sq_entries u)) + mset (drop ?c (sq_entries u)) = mset (sq_entries u)"
      by (metis append_take_drop_id mset_append)
    then have aw: "active ?w = active u"
      using sq(1) [OF that] by (simp add: active_def) (simp add: kernel_consume_def v ac_simps)
    have tw: "tags ?w = tags u" using aw by (simp add: tags_def v)
    have au: "active ?u = active u'" "tags ?u = tags u'"
      by (simp_all add: active_def tags_def u) (simp_all add: a(2))
    note post = post_effect [of ?w "ea_posted a", folded a(2)]
    have "active u' \<subseteq># active ?w" "tags ?w = tags u'"
      using post(1,4) g that(2) by (simp_all add: v active_def tags_def posted_cqe_def o_def multiset.map_comp) (simp_all add: a(2))
    then show ?thesis by (simp add: au aw tw)
  qed
  show "ring_flow {#} u ?u"
  proof (rule ring_flowI)
    assume i: "ring_inv u" and "kn_ok ?u" "kn_ok u"
    then have k: "kn_ok u'" and g: "ring_geo u" by (simp_all add: ring_inv_def)
    show "sq_ok ?u" using sq(2) [OF i k] by (simp add: u)
    show "length (cq_entries ?u) \<le> cq_size ?u"
      using post_effect(2) [of ?w "ea_posted a", folded a(2)] g k unfolding u by (simp add: v cqs)
    show "unat (ur_pending_submissions ?u) = length (sq_entries ?u)"
      using p [OF i k \<open>kn_ok u\<close>] ok(4) [OF g k] sq(1) [OF i k] i \<open>kn_ok u\<close>
      unfolding u by (simp add: ring_inv_def)
    show "tags u = tags ?u + {#}" "active ?u \<subseteq># active u" using act [OF i k] by simp_all
  qed (simp_all add: a(2) v ok(1) [unfolded a(2)], simp_all add: ring_geo_def)
  show "ring_inv u \<Longrightarrow> kn_ok u' \<Longrightarrow> r = Inr n \<Longrightarrow> n \<le> ?p" using ok(5) by (simp add: ring_inv_def)
  show "ur_pending_submissions u' = ?p" by (simp add: a(2))
qed

lemma pending_self: "ur_pending_submissions u = p \<Longrightarrow> u\<lparr>ur_pending_submissions := p\<rparr> = u"
  by (cases u) simp

lemma enter_flow_same:
  assumes "uring_enter (ur_pending_submissions u) m u = (Some r, u')" "\<forall>n. r = Inr n \<longrightarrow> n = 0"
  shows "ring_flow {#} u u'"
proof -
  have p: "ur_pending_submissions u = (case r of Inl _ \<Rightarrow> ur_pending_submissions u | Inr n \<Rightarrow> ur_pending_submissions u - n)"
    using assms(2) by (cases r) auto
  show ?thesis
    using enter_flow(1) [OF assms(1) p] pending_self [OF enter_flow(3) [OF assms(1) p]] by simp
qed

lemmas enter_flow_err = enter_flow_same [where r = "Inl e" for e, simplified]
lemmas enter_zero = enter_flow_same [where r = "Inr 0", simplified]

lemma enter_flow_sub:
  assumes "uring_enter (ur_pending_submissions u) m u = (Some (Inr n), u')"
  shows "ring_flow {#} u (pending_saturating_sub n u')"
    "ring_flow {#} u (u'\<lparr>ur_pending_submissions := ur_pending_submissions u' - min n (ur_pending_submissions u)\<rparr>)"
proof -
  have p: "ur_pending_submissions u' = ur_pending_submissions u"
    using enter_flow(3) [OF assms, of "ur_pending_submissions u - n"] by simp
  have le: "n \<le> ur_pending_submissions u" if "ring_inv u" "kn_ok u'"
    using enter_flow(2) [OF assms, of "ur_pending_submissions u - n"] that by simp
  show "ring_flow {#} u (pending_saturating_sub n u')"
    unfolding pending_saturating_sub_def by (rule enter_flow(1) [OF assms]) (use le p in auto)
  show "ring_flow {#} u (u'\<lparr>ur_pending_submissions := ur_pending_submissions u' - min n (ur_pending_submissions u)\<rparr>)"
    by (rule enter_flow(1) [OF assms]) (use le p in \<open>auto simp: min_def\<close>)
qed

lemma enter_None: "uring_enter n m u = (None, u') \<Longrightarrow> u' = u"
  by (auto simp: uring_enter_def split: list.splits)

lemma flow_submit: "ring_flow {#} u (snd (submit_loop submitted u))"
proof (induction submitted u rule: submit_loop.induct)
  case (1 submitted u)
  obtain r u' where e: "uring_enter (ur_pending_submissions u) 0 u = (r, u')" by fastforce
  show ?case
  proof (cases "ur_pending_submissions u = 0")
    case True
    then show ?thesis by (subst submit_loop.simps) simp
  next
    case False
    show ?thesis
    proof (cases r)
      case None
      then show ?thesis using False e enter_None [OF e [unfolded None]] by (subst submit_loop.simps) simp
    next
      case (Some er)
      show ?thesis
      proof (cases er)
        case (Inl err)
        then show ?thesis using False e Some enter_flow_err [of u 0 err u'] by (subst submit_loop.simps) simp
      next
        case (Inr n)
        show ?thesis
        proof (cases "n = 0")
          case True
          then show ?thesis using False e Some Inr enter_zero [of u 0 u'] by (subst submit_loop.simps) simp
        next
          case n: False
          from ring_flow_step(1) [OF enter_flow_sub(2) [OF e [unfolded Some Inr]]
              "1.IH" [OF False refl e [symmetric] Some Inr n refl]]
          show ?thesis using False e Some Inr n by (subst submit_loop.simps) (simp add: Let_def)
        qed
      qed
    qed
  qed
qed

lemma flow_wait: "ring_flow {#} u (snd (wait_loop target u))"
proof (induction target u rule: wait_loop.induct)
  case (1 target u)
  let ?m = "of_nat (target - length (ur_completions u))"
  obtain r u' where e: "uring_enter (ur_pending_submissions u) ?m u = (r, u')" by fastforce
  show ?case
  proof (cases r)
    case None
    then show ?thesis using e enter_None [OF e [unfolded None]] by (subst wait_loop.simps) simp
  next
    case (Some er)
    show ?thesis
    proof (cases er)
      case (Inl err)
      from "1.IH"(1) [OF e [symmetric] Some Inl] show ?thesis
        using e Some Inl ring_flow_step(1) [OF enter_flow_err [of u ?m err u']]
          enter_flow_err [of u ?m err u'] by (subst wait_loop.simps) simp
    next
      case (Inr n)
      obtain d v where d: "drain_completions (pending_saturating_sub n u') = (d, v)" by fastforce
      have v: "ring_flow {#} u v"
        using ring_flow_step(1) [OF enter_flow_sub(1) [OF e [unfolded Some Inr]] flow_drain] d by simp
      then show ?thesis
        using e Some Inr d ring_flow_step(1) [OF v] "1.IH"(2) [OF e [symmetric] Some Inr d [symmetric] refl]
        by (subst wait_loop.simps) simp
    qed
  qed
qed

lemma flow_wait_ring:
  "ring_flow (case fst (wait_ring_completion u) of Some (Inr c) \<Rightarrow> {#uc_user_data c#} | _ \<Rightarrow> {#})
     u (snd (wait_ring_completion u))"
proof (induction u rule: wait_ring_completion.induct)
  case (1 u)
  obtain r u1 where p: "pop_ring_completion u = (r, u1)" by fastforce
  show ?case
  proof (cases r)
    case (Some c)
    then show ?thesis using p flow_pop [OF p] by (subst (1 2) wait_ring_completion.simps) simp
  next
    case None
    have u1: "ring_flow {#} u u1" using flow_pop [OF p] None by simp
    obtain e u2 where e: "uring_enter (ur_pending_submissions u1) 1 u1 = (e, u2)" by fastforce
    show ?thesis
    proof (cases e)
      case e0: None
      then show ?thesis
        using p None u1 e enter_None [OF e [unfolded e0]] by (subst (1 2) wait_ring_completion.simps) simp
    next
      case (Some er)
      show ?thesis
      proof (cases er)
        case (Inl err)
        have "ring_flow {#} u u2" by (rule ring_flow_step(1) [OF u1 enter_flow_err [OF e [unfolded Some Inl]]])
        then show ?thesis
          using p None e Some Inl ring_flow_step(2) "1.IH"(1) [OF p [symmetric] None e [symmetric] Some Inl]
          by (subst (1 2) wait_ring_completion.simps) simp
      next
        case (Inr n)
        have "ring_flow {#} u (pending_saturating_sub n u2)"
          by (rule ring_flow_step(1) [OF u1 enter_flow_sub(1) [OF e [unfolded Some Inr]]])
        then show ?thesis
          using p None e Some Inr ring_flow_step(2) "1.IH"(2) [OF p [symmetric] None e [symmetric] Some Inr]
          by (subst (1 2) wait_ring_completion.simps) simp
      qed
    qed
  qed
qed

lemma flow_wait_for_loop:
  "ring_flow (case fst (wait_for_loop user_data u) of Some (Inr c) \<Rightarrow> {#user_data#} | _ \<Rightarrow> {#})
     u (snd (wait_for_loop user_data u))"
proof (induction user_data u rule: wait_for_loop.induct)
  case (1 user_data u)
  obtain r u1 where w: "wait_ring_completion u = (r, u1)" by fastforce
  show ?case
  proof (cases "\<exists>c. r = Some (Inr c)")
    case True
    then obtain c where c: "r = Some (Inr c)" by blast
    have u1: "ring_flow {#uc_user_data c#} u u1" using flow_wait_ring [of u] w c by simp
    show ?thesis
    proof (cases "uc_user_data c = user_data")
      case True
      then show ?thesis using w c u1 by (subst (1 2) wait_for_loop.simps) simp
    next
      case False
      from ring_flow_step(2) [OF flow_push_local [OF u1] "1.IH" [OF w [symmetric] c refl False]]
      show ?thesis using w c False by (subst (1 2) wait_for_loop.simps) simp
    qed
  next
    case False
    then have "wait_for_loop user_data u = (r, u1)"
      using w by (subst wait_for_loop.simps) (simp split: option.splits sum.splits)
    then show ?thesis using flow_wait_ring [of u] w False by (auto split: option.splits sum.splits)
  qed
qed

lemma flow_remove_local:
  assumes "i < length (ur_completions u)"
  shows "ring_flow {#uc_user_data (ur_completions u ! i)#} u (u\<lparr>ur_completions := remove_at i (ur_completions u)\<rparr>)"
proof -
  let ?u = "u\<lparr>ur_completions := remove_at i (ur_completions u)\<rparr>"
  have "sq_entries ?u = sq_entries u" "sq_ok ?u = sq_ok u" "ring_geo ?u = ring_geo u" "cq_size ?u = cq_size u"
      "cq_entries ?u = cq_entries u"
    by (simp_all add: sq_entries_def cq_entries_def sq_ok_def ring_geo_def sq_size_def cq_size_def)
  moreover have "mset (ur_completions u) = add_mset (ur_completions u ! i) (mset (remove_at i (ur_completions u)))"
    using mset_remove_at [OF assms] by simp
  ultimately have "tags u = tags ?u + {#uc_user_data (ur_completions u ! i)#}" "active ?u = active u" "ring_inv ?u = ring_inv u"
    by (simp_all add: tags_def active_def ring_inv_def)
  then show ?thesis by (simp add: ring_flow_def)
qed

lemma flow_wait_for:
  assumes "wait_for_completion user_data u = (r, u')"
  shows "ring_flow (case r of Some (Inr c) \<Rightarrow> {#user_data#} | _ \<Rightarrow> {#}) u u'"
proof (cases "list_position (\<lambda>c. uc_user_data c = user_data) (ur_completions u)")
  case None
  then show ?thesis using flow_wait_for_loop [of user_data u] assms by (simp add: wait_for_completion_def)
next
  case (Some i)
  note i = list_position_Some [OF Some]
  then show ?thesis
    using flow_remove_local [of i u] assms Some by (auto simp: wait_for_completion_def)
qed

lemma flow_wait_completions:
  assumes "wait_completions target u = (r, u')"
  shows "ring_flow {#} u u'"
proof -
  obtain d v where d: "drain_completions u = (d, v)" by fastforce
  have "ring_flow {#} u v" using flow_drain [of u] d by simp
  then show ?thesis
    using assms d ring_flow_step(1) [OF _ flow_wait [of v target]]
    by (auto simp: wait_completions_def split: if_splits)
qed

lemma flow_try_completion:
  assumes "try_completion u = (r, u')"
  shows "ring_flow (case r of None \<Rightarrow> {#} | Some c \<Rightarrow> {#uc_user_data c#}) u u'"
proof (cases "ur_completions u")
  case Nil
  then show ?thesis using assms flow_pop by (simp add: try_completion_def)
next
  case (Cons c cs)
  then show ?thesis using assms flow_remove_local [of 0 u] by (auto simp: try_completion_def remove_at_def)
qed

end
