(* ===== verification/Uring_Tracking.thy ===== *)
theory Uring_Tracking
  imports Uring_Protocol
begin

text \<open>
  Tracked operations of \<open>os/uring.rs\<close>: identifiers are fresh and carry the high bit, every entry that
  the kernel may still act on belongs to a tracked operation, and a tag is outstanding at most once.
  Raw operations are told apart from tracked ones by the high bit of their tag.
\<close>

unbundle bit_operations_syntax

subsection \<open>Identifiers\<close>

abbreviation op_id :: "nat \<Rightarrow> operation_id" where
  "op_id n \<equiv> IoUringOperationId (OPERATION_USER_DATA_BASE OR of_nat n)"

definition is_op_tag :: "u64 \<Rightarrow> bool" where
  "is_op_tag t \<longleftrightarrow> bit t 63"

lemma base_bit: "bit OPERATION_USER_DATA_BASE n \<longleftrightarrow> n = 63"
  unfolding OPERATION_USER_DATA_BASE_def bit_push_bit_iff bit_1_iff by (auto simp: possible_bit_def)

lemma small_bit: "n < 2 ^ 63 \<Longrightarrow> \<not> bit (of_nat n :: u64) 63"
  by (simp add: bit_of_nat_iff) (simp add: bit_iff_odd)

lemma sequence_op_id: "n < 2 ^ 63 \<Longrightarrow> op_sequence (op_id n) = of_nat n"
  unfolding op_sequence_def operation_id.sel
  by (rule bit_eqI) (use small_bit in \<open>auto simp: bit_xor_iff bit_or_iff base_bit\<close>)

lemma op_id_inj:
  assumes "n < 2 ^ 63" "m < 2 ^ 63" "OPERATION_USER_DATA_BASE OR of_nat n = OPERATION_USER_DATA_BASE OR of_nat m"
  shows "n = m"
proof -
  have "(of_nat n :: u64) = of_nat m" using assms sequence_op_id by metis
  then show ?thesis using assms(1,2) by (simp add: word_of_nat_eq_iff take_bit_nat_eq_self)
qed

lemma op_id_tag: "is_op_tag (OPERATION_USER_DATA_BASE OR t)"
  by (simp add: is_op_tag_def bit_or_iff base_bit)

subsection \<open>Queueing a tracked operation\<close>

definition track_inv :: "io_uring \<Rightarrow> bool" where
  "track_inv u \<longleftrightarrow> ring_inv u \<and>
     (kn_ok u \<longrightarrow>
       unat (ur_next_operation u) \<le> 2 ^ 63 \<and>
       (\<forall>t\<in>#tags u. is_op_tag t \<longrightarrow>
          count (tags u) t = 1 \<and> (\<exists>n<unat (ur_next_operation u). t = OPERATION_USER_DATA_BASE OR of_nat n)) \<and>
       distinct (map fst (ur_operations u)) \<and>
       (\<forall>op\<in>fst ` set (ur_operations u). \<exists>n<unat (ur_next_operation u). op = op_id n) \<and>
       (\<forall>e\<in>#active u. is_op_tag (sqe_user_data e) \<longrightarrow> sqe_opcode e \<noteq> IORING_OP_ASYNC_CANCEL \<longrightarrow>
          IoUringOperationId (sqe_user_data e) \<in> fst ` set (ur_operations u)))"

lemma track_invD:
  assumes "track_inv u"
  shows "ring_inv u" "kn_ok u \<Longrightarrow> unat (ur_next_operation u) \<le> 2 ^ 63"
    "kn_ok u \<Longrightarrow> t \<in># tags u \<Longrightarrow> is_op_tag t \<Longrightarrow> count (tags u) t = 1"
    "kn_ok u \<Longrightarrow> t \<in># tags u \<Longrightarrow> is_op_tag t \<Longrightarrow>
      \<exists>n<unat (ur_next_operation u). t = OPERATION_USER_DATA_BASE OR of_nat n"
    "kn_ok u \<Longrightarrow> distinct (map fst (ur_operations u))"
    "kn_ok u \<Longrightarrow> op \<in> fst ` set (ur_operations u) \<Longrightarrow> \<exists>n<unat (ur_next_operation u). op = op_id n"
    "kn_ok u \<Longrightarrow> e \<in># active u \<Longrightarrow> is_op_tag (sqe_user_data e) \<Longrightarrow> sqe_opcode e \<noteq> IORING_OP_ASYNC_CANCEL \<Longrightarrow>
      IoUringOperationId (sqe_user_data e) \<in> fst ` set (ur_operations u)"
  using assms unfolding track_inv_def by blast+

lemma active_tags: "e \<in># active u \<Longrightarrow> sqe_user_data e \<in># tags u"
  by (simp add: tags_def)

text \<open>A tag that was handed out is neither with the kernel nor anywhere else in the ring.\<close>

lemma tag_handed_out:
  assumes "track_inv u" "ring_flow {#t#} u u'" "kn_ok u'" "is_op_tag t"
  shows "t \<notin># tags u'" "e \<in># active u' \<Longrightarrow> sqe_user_data e \<noteq> t"
proof -
  note f = ring_flowD [OF assms(2) track_invD(1) [OF assms(1)]]
  have k: "kn_ok u" "tags u = add_mset t (tags u')" using f(2,3) assms(3) by simp_all
  then have "count (tags u) t = 1" using track_invD(3) [OF assms(1), of t] assms(4) by simp
  then show t: "t \<notin># tags u'" using k(2) by (simp add: not_in_iff)
  show "e \<in># active u' \<Longrightarrow> sqe_user_data e \<noteq> t" using active_tags t by blast
qed

lemma track_flow:
  assumes "track_inv u" "ring_flow out u u'"
  shows "track_inv u'"
proof -
  note f = ring_flowD [OF assms(2) track_invD(1) [OF assms(1)]]
  note i = track_invD(2-) [OF assms(1)]
  have tg: "t \<in># tags u" "count (tags u') t \<le> count (tags u) t" if "kn_ok u'" "t \<in># tags u'" for t
    using f(3) that by simp_all
  have "count (tags u') t = 1" if "kn_ok u'" "t \<in># tags u'" "is_op_tag t" for t
  proof -
    have "0 < count (tags u') t" using that(2) by simp
    then show ?thesis using tg(2) [OF that(1,2)] i(2) [OF f(2) [OF that(1)] tg(1) [OF that(1,2)] that(3)] by linarith
  qed
  moreover have "e \<in># active u" if "kn_ok u'" "e \<in># active u'" for e
    using f(4) that by (meson mset_subset_eqD)
  ultimately show ?thesis
    unfolding track_inv_def using f(1,2,5,6) i(1,3-6) tg(1) by simp
qed

lemma delete_fst: "fst ` set (AList.delete k xs) = fst ` set xs - {k}"
  by (metis delete_keys list.set_map set_removeAll)

lemma track_remove:
  assumes "track_inv u"
    and "\<And>e. kn_ok u \<Longrightarrow> e \<in># active u \<Longrightarrow> is_op_tag (sqe_user_data e) \<Longrightarrow>
      sqe_opcode e \<noteq> IORING_OP_ASYNC_CANCEL \<Longrightarrow> sqe_user_data e \<noteq> op_raw op"
  shows "track_inv (remove_operation op u)"
proof -
  let ?u = "remove_operation op u"
  have r: "sq_entries ?u = sq_entries u" "sq_ok ?u = sq_ok u" "ring_geo ?u = ring_geo u" "cq_size ?u = cq_size u"
      "cq_entries ?u = cq_entries u"
    by (simp_all add: remove_operation_def sq_entries_def cq_entries_def sq_ok_def ring_geo_def sq_size_def cq_size_def)
  have "active ?u = active u" "tags ?u = tags u" "ring_inv ?u = ring_inv u"
    unfolding active_def tags_def ring_inv_def r by (simp_all add: remove_operation_def active_def)
  moreover have "kn_ok ?u = kn_ok u" "ur_next_operation ?u = ur_next_operation u"
      "ur_operations ?u = AList.delete op (ur_operations u)" by (simp_all add: remove_operation_def)
  moreover have "IoUringOperationId t \<noteq> op \<longleftrightarrow> t \<noteq> op_raw op" for t by (cases op) simp
  ultimately show ?thesis
    using assms unfolding track_inv_def by (auto simp: distinct_delete delete_fst)
qed

lemma queued_fields [simp]:
  "kn_ok (sqe_queued e u) = kn_ok u" "ur_operations (sqe_queued e u) = ur_operations u"
  "ur_next_operation (sqe_queued e u) = ur_next_operation u" "kn_inflight (sqe_queued e u) = kn_inflight u"
  "ur_completions (sqe_queued e u) = ur_completions u" "cq_entries (sqe_queued e u) = cq_entries u"
  "cq_size (sqe_queued e u) = cq_size u" "kn_answers (sqe_queued e u) = kn_answers u"
  "kn_arrivals (sqe_queued e u) = kn_arrivals u"
  "ur_pending_submissions (sqe_queued e u) = ur_pending_submissions u + 1"
  by (simp_all add: sqe_queued_def Let_def cq_entries_def cq_size_def)

lemma sq_size_bound:
  assumes "ring_geo u"
  shows "sq_size u \<le> 2 ^ 31"
proof -
  obtain k where k: "k \<le> 31" "ur_sq_ring_mask u = mask k" using assms by (auto simp: ring_geo_def)
  then have "sq_size u = 2 ^ k" by (simp add: sq_sizeI)
  also have "\<dots> \<le> 2 ^ 31" using k(1) by (intro power_increasing) auto
  finally show ?thesis .
qed

lemma pending_not_max:
  assumes "ring_inv u" "kn_ok u"
  shows "ur_pending_submissions u \<noteq> - 1"
proof
  assume m: "ur_pending_submissions u = - 1"
  have "unat (ur_pending_submissions u) \<le> 2 ^ 31"
    using assms sq_size_bound [of u] by (simp add: ring_inv_def sq_ok_def)
  then show False by (simp add: m unsigned_minus_1_eq_mask) (simp add: mask_eq_exp_minus_1)
qed

lemma queue_sqe_cases:
  assumes "ring_inv u" "kn_ok u"
  obtains (full) "queue_sqe f u = (Inl WouldBlock, u)" "length (sq_entries u) = sq_size u"
  | (room) "queue_sqe f u = (Inr (), sqe_queued (f clear_sqe) u)" "length (sq_entries u) < sq_size u"
proof -
  have i: "ring_geo u" "sq_ok u" "length (sq_entries u) \<le> sq_size u"
    using assms by (simp_all add: ring_inv_def sq_ok_def)
  show thesis
  proof (cases "length (sq_entries u) = sq_size u")
    case True
    then show thesis using queue_sqe_full [OF i(1,2)] full by simp
  next
    case False
    then show thesis using queue_sqe_room(1) [OF i(1,2) _ pending_not_max [OF assms]] i(3) room by simp
  qed
qed

lemma ring_inv_queued:
  assumes "ring_inv u" "kn_ok u" "length (sq_entries u) < sq_size u"
  shows "ring_inv (sqe_queued e u)" "active (sqe_queued e u) = add_mset e (active u)"
    "tags (sqe_queued e u) = add_mset (sqe_user_data e) (tags u)"
proof -
  have i: "ring_geo u" "sq_ok u" using assms(1,2) by (simp_all add: ring_inv_def)
  note q = queue_sqe_room [OF i assms(3) pending_not_max [OF assms(1,2)]]
  have "unat (ur_pending_submissions u) < 2 ^ 32 - 1"
    using assms sq_size_bound [OF i(1)] by (simp add: ring_inv_def)
  then have "unat (ur_pending_submissions u + 1) = Suc (unat (ur_pending_submissions u))"
    by (simp add: unat_word_ariths)
  then show "ring_inv (sqe_queued e u)"
    using assms(1,2) q(2-4) by (simp add: ring_inv_def)
  show a: "active (sqe_queued e u) = add_mset e (active u)" by (simp add: active_def q(2))
  show "tags (sqe_queued e u) = add_mset (sqe_user_data e) (tags u)" by (simp add: tags_def a)
qed

lemma queue_sqe_geo:
  assumes "queue_sqe f u = (r, u')"
  shows "ring_geo u' = ring_geo u" "kn_ok u' = kn_ok u" "ur_operations u' = ur_operations u"
    "ur_next_operation u' = ur_next_operation u"
  using assms by (auto simp: queue_sqe_def prepare_sqe_def finish_sqe_def write_sqe_def Let_def ring_geo_def split: if_splits)

lemma track_queued:
  assumes "track_inv u" "kn_ok u" "length (sq_entries u) < sq_size u"
    and "is_op_tag (sqe_user_data e) \<Longrightarrow> sqe_user_data e \<notin># tags u \<and>
      (\<exists>n<unat (ur_next_operation u). sqe_user_data e = OPERATION_USER_DATA_BASE OR of_nat n) \<and>
      (sqe_opcode e \<noteq> IORING_OP_ASYNC_CANCEL \<longrightarrow> IoUringOperationId (sqe_user_data e) \<in> fst ` set (ur_operations u))"
  shows "track_inv (sqe_queued e u)"
proof -
  note q = ring_inv_queued [OF track_invD(1) [OF assms(1)] assms(2,3), of e]
  have "count (tags u) t = 1" if "t \<in># tags u" "is_op_tag t" for t using track_invD(3) [OF assms(1,2) that] .
  then have "count (add_mset (sqe_user_data e) (tags u)) t = 1"
    if "t \<in># add_mset (sqe_user_data e) (tags u)" "is_op_tag t" for t
    using that assms(4) by (cases "t = sqe_user_data e") (auto simp: not_in_iff)
  then show ?thesis
    using q(1) assms(4) track_invD(2,4-7) [OF assms(1,2)] unfolding track_inv_def q(2,3) by auto
qed

text \<open>The functions that queue one entry for a given tag.\<close>

definition queues :: "(u64 \<Rightarrow> io_uring \<Rightarrow> (io_error + unit) \<times> io_uring) \<Rightarrow> (u64 \<Rightarrow> sqe) \<Rightarrow> bool" where
  "queues queue g \<longleftrightarrow>
     (\<forall>t v. queue t v = queue_sqe (\<lambda>_. g t) v \<or> (\<exists>e. queue t v = (Inl e, v))) \<and> (\<forall>t. sqe_user_data (g t) = t)"

lemma queue_cases:
  assumes "queues queue g" "ring_inv u" "kn_ok u"
  shows "(\<exists>e. queue t u = (Inl e, u)) \<or> queue t u = (Inr (), sqe_queued (g t) u) \<and> length (sq_entries u) < sq_size u"
proof (cases "queue t u = queue_sqe (\<lambda>_. g t) u")
  case True
  show ?thesis by (rule queue_sqe_cases [OF assms(2,3), of "\<lambda>_. g t"]) (simp_all add: True)
next
  case False
  then show ?thesis using assms(1) unfolding queues_def by blast
qed

lemma update_fresh: "k \<notin> fst ` set xs \<Longrightarrow> AList.update k v xs = xs @ [(k, v)]"
  by (induction xs) auto

lemma delete_fresh: "k \<notin> fst ` set xs \<Longrightarrow> AList.delete k (xs @ [(k, v)]) = xs"
  by (induction xs) auto

lemma allocate_spec:
  assumes "track_inv u" "kn_ok u" "allocate_operation kind t u = (r, u')"
  shows "(\<exists>e. r = Inl e) \<and> u' = u \<and> unat (ur_next_operation u) = 2 ^ 63 \<or>
    (let n = unat (ur_next_operation u)
     in n < 2 ^ 63 \<and> r = Inr (op_id n) \<and> op_id n \<notin> fst ` set (ur_operations u) \<and>
        u' = u\<lparr>ur_next_operation := of_nat (Suc n), ur_operations := ur_operations u @ [(op_id n, \<lparr>os_kind = kind, os_timeout = t\<rparr>)]\<rparr>)"
proof (cases "ur_next_operation u = OPERATION_USER_DATA_BASE")
  case True
  have "unat OPERATION_USER_DATA_BASE = 2 ^ 63" by (simp add: OPERATION_USER_DATA_BASE_def)
  then show ?thesis using True assms(3) by (auto simp: allocate_operation_def)
next
  case False
  define n where "n = unat (ur_next_operation u)"
  have nx: "ur_next_operation u = of_nat n" by (simp add: n_def)
  then have un: "unat (of_nat n :: u64) = n" by (simp add: n_def)
  have "unat OPERATION_USER_DATA_BASE = 2 ^ 63" by (simp add: OPERATION_USER_DATA_BASE_def)
  then have "n \<noteq> 2 ^ 63" using False by (metis n_def word_unat_eq_iff)
  then have n: "n < 2 ^ 63" using track_invD(2) [OF assms(1,2)] by (simp add: n_def)
  have "op_id n \<noteq> op_id m" if "m < n" for m using op_id_inj [of n m] n that by auto
  then have fresh: "op_id n \<notin> fst ` set (ur_operations u)"
    using track_invD(6) [OF assms(1,2)] unfolding n_def [symmetric] by blast
  then have "map_of (ur_operations u) (op_id n) = None" by (simp add: map_of_eq_None_iff)
  then show ?thesis
    using False assms(3) n fresh update_fresh [OF fresh]
    by (auto simp: allocate_operation_def Let_def nx un add.commute)
qed

lemma alloc_fields:
  "sq_entries (u\<lparr>ur_next_operation := x, ur_operations := y\<rparr>) = sq_entries u"
  "cq_entries (u\<lparr>ur_next_operation := x, ur_operations := y\<rparr>) = cq_entries u"
  "ring_inv (u\<lparr>ur_next_operation := x, ur_operations := y\<rparr>) = ring_inv u"
  "active (u\<lparr>ur_next_operation := x, ur_operations := y\<rparr>) = active u"
  "tags (u\<lparr>ur_next_operation := x, ur_operations := y\<rparr>) = tags u"
  "sq_size (u\<lparr>ur_next_operation := x, ur_operations := y\<rparr>) = sq_size u"
  by (simp_all add: sq_entries_def cq_entries_def ring_inv_def active_def tags_def sq_ok_def ring_geo_def
      sq_size_def cq_size_def)

lemma next_fields:
  "active (u\<lparr>ur_next_operation := x\<rparr>) = active u" "tags (u\<lparr>ur_next_operation := x\<rparr>) = tags u"
  by (simp_all add: sq_entries_def cq_entries_def active_def tags_def)

lemma queue_tracked_eqs:
  "allocate_operation kind t u = (Inl e, ua) \<Longrightarrow> queue_tracked kind t queue u = (Inl e, ua)"
  "allocate_operation kind t u = (Inr op, ua) \<Longrightarrow> queue (op_raw op) ua = (Inl e, uq) \<Longrightarrow>
   queue_tracked kind t queue u = (Inl e, remove_operation op uq)"
  "allocate_operation kind t u = (Inr op, ua) \<Longrightarrow> queue (op_raw op) ua = (Inr (), uq) \<Longrightarrow>
   queue_tracked kind t queue u = (Inr op, uq)"
  by (simp_all add: queue_tracked_def split: unit.splits)

lemma queue_tracked_geo:
  assumes "queues queue g" "queue_tracked kind t queue u = (r, u')"
  shows "ring_geo u' = ring_geo u" "kn_ok u' = kn_ok u"
proof -
  obtain ra ua where a: "allocate_operation kind t u = (ra, ua)" by fastforce
  have ua: "ring_geo ua = ring_geo u" "kn_ok ua = kn_ok u"
    using a by (auto simp: allocate_operation_def Let_def ring_geo_def split: if_splits)
  have "ring_geo u' = ring_geo ua \<and> kn_ok u' = kn_ok ua"
  proof (cases ra)
    case (Inl e)
    then show ?thesis using assms(2) a by (simp add: queue_tracked_def)
  next
    case (Inr op)
    obtain rq uq where q: "queue (op_raw op) ua = (rq, uq)" by fastforce
    have "ring_geo uq = ring_geo ua \<and> kn_ok uq = kn_ok ua"
    proof (cases "uq = ua")
      case False
      then have "queue_sqe (\<lambda>_. g (op_raw op)) ua = (rq, uq)"
        using assms(1) [unfolded queues_def, THEN conjunct1, rule_format, of "op_raw op" ua] q by auto
      then show ?thesis using queue_sqe_geo by blast
    qed simp
    moreover have "u' = uq \<or> u' = remove_operation op uq"
      using assms(2) a Inr q queue_tracked_eqs(2,3) [of kind t u op ua queue] by (cases rq) auto
    ultimately show ?thesis by (auto simp: remove_operation_def ring_geo_def)
  qed
  then show "ring_geo u' = ring_geo u" "kn_ok u' = kn_ok u" using ua by simp_all
qed

lemma track_extend:
  assumes i: "track_inv u" "kn_ok u" and x: "unat (ur_next_operation u) \<le> unat x" "unat x \<le> 2 ^ 63"
    and y: "distinct (map fst y)" "fst ` set (ur_operations u) \<subseteq> fst ` set y"
      "\<And>op. op \<in> fst ` set y \<Longrightarrow> op \<in> fst ` set (ur_operations u) \<or> (\<exists>n<unat x. op = op_id n)"
  shows "track_inv (u\<lparr>ur_next_operation := x, ur_operations := y\<rparr>)"
proof -
  note d = track_invD [OF i(1)]
  have "count (tags u) t = 1 \<and> (\<exists>n<unat x. t = OPERATION_USER_DATA_BASE OR of_nat n)" if t: "t \<in># tags u" "is_op_tag t" for t
  proof -
    obtain n where "n < unat (ur_next_operation u)" "t = OPERATION_USER_DATA_BASE OR of_nat n" using d(4) [OF i(2) t] by blast
    then show ?thesis using d(3) [OF i(2) t] less_le_trans [OF _ x(1)] by blast
  qed
  moreover have "\<exists>n<unat x. op = op_id n" if "op \<in> fst ` set y" for op
    using y(3) [OF that] d(6) [OF i(2), of op] less_le_trans [OF _ x(1)] by blast
  moreover have "IoUringOperationId (sqe_user_data e) \<in> fst ` set y"
    if "e \<in># active u" "is_op_tag (sqe_user_data e)" "sqe_opcode e \<noteq> IORING_OP_ASYNC_CANCEL" for e
    using d(7) [OF i(2) that] y(2) by blast
  ultimately show ?thesis
    unfolding track_inv_def alloc_fields using d(1) x(2) y(1) by simp
qed

lemma track_alloc:
  assumes "track_inv u" "kn_ok u" "n = unat (ur_next_operation u)" "n < 2 ^ 63"
  shows "track_inv (u\<lparr>ur_next_operation := of_nat (Suc n), ur_operations := ur_operations u\<rparr>)"
    and "op_id n \<notin> fst ` set (ur_operations u) \<Longrightarrow>
      track_inv (u\<lparr>ur_next_operation := of_nat (Suc n), ur_operations := ur_operations u @ [(op_id n, st)]\<rparr>)"
    and "OPERATION_USER_DATA_BASE OR of_nat n \<notin># tags u" "unat (of_nat (Suc n) :: u64) = Suc n"
proof -
  have s: "unat (of_nat (Suc n) :: u64) = Suc n"
    using assms(4) by (simp add: unat_of_nat take_bit_nat_eq_self del: of_nat_Suc)
  show "unat (of_nat (Suc n) :: u64) = Suc n" by (rule s)
  note i = track_invD [OF assms(1)]
  show "OPERATION_USER_DATA_BASE OR of_nat n \<notin># tags u"
  proof
    assume "OPERATION_USER_DATA_BASE OR of_nat n \<in># tags u"
    then obtain m where "m < n" "OPERATION_USER_DATA_BASE OR of_nat n = (OPERATION_USER_DATA_BASE OR of_nat m :: u64)"
      using i(4) [OF assms(2) _ op_id_tag] assms(3) by blast
    then show False using op_id_inj [of n m] assms(4) by simp
  qed
  note e = track_extend [OF assms(1,2), where x = "of_nat (Suc n)", unfolded s, folded assms(3)]
  show "track_inv (u\<lparr>ur_next_operation := of_nat (Suc n), ur_operations := ur_operations u\<rparr>)"
    by (rule e) (use assms(4) i(5) [OF assms(2)] in auto)
  show "track_inv (u\<lparr>ur_next_operation := of_nat (Suc n), ur_operations := ur_operations u @ [(op_id n, st)]\<rparr>)"
    if "op_id n \<notin> fst ` set (ur_operations u)"
    by (rule e) (use assms(4) i(5) [OF assms(2)] that in auto)
qed

lemma queue_tracked_spec:
  assumes inv: "track_inv u" and q: "queues queue g" and r: "queue_tracked kind t queue u = (r, u')"
  defines "n \<equiv> unat (ur_next_operation u)"
  shows "track_inv u'" "kn_ok u' = kn_ok u"
    and "kn_ok u \<Longrightarrow> r = Inl e \<Longrightarrow>
      active u' = active u \<and> tags u' = tags u \<and> ur_operations u' = ur_operations u \<and> n \<le> unat (ur_next_operation u')"
    and "kn_ok u \<Longrightarrow> r = Inr op \<Longrightarrow>
      op = op_id n \<and> n < 2 ^ 63 \<and> unat (ur_next_operation u') = Suc n \<and> op \<notin> fst ` set (ur_operations u) \<and>
      active u' = add_mset (g (op_raw op)) (active u) \<and> tags u' = add_mset (op_raw op) (tags u) \<and>
      op_raw op \<notin># tags u \<and>
      ur_operations u' = ur_operations u @ [(op, \<lparr>os_kind = kind, os_timeout = t\<rparr>)]"
proof -
  show k: "kn_ok u' = kn_ok u" by (rule queue_tracked_geo(2) [OF q r])
  let ?st = "\<lparr>os_kind = kind, os_timeout = t\<rparr>"
  let ?a = "u\<lparr>ur_next_operation := of_nat (Suc n), ur_operations := ur_operations u @ [(op_id n, ?st)]\<rparr>"
  let ?b = "u\<lparr>ur_next_operation := of_nat (Suc n), ur_operations := ur_operations u\<rparr>"
  let ?e = "g (OPERATION_USER_DATA_BASE OR of_nat n)"
  have main: "(\<exists>e. r = Inl e) \<and> u' = u \<or> n < 2 ^ 63 \<and> (\<exists>e. r = Inl e) \<and> u' = ?b \<or>
      n < 2 ^ 63 \<and> op_id n \<notin> fst ` set (ur_operations u) \<and> r = Inr (op_id n) \<and> u' = sqe_queued ?e ?a \<and>
        length (sq_entries u) < sq_size u" if "kn_ok u"
  proof -
    obtain ra ua where a: "allocate_operation kind t u = (ra, ua)" by fastforce
    from allocate_spec [OF inv that a] consider (err) e where "ra = Inl e" "ua = u"
      | (ok) "n < 2 ^ 63" "ra = Inr (op_id n)" "op_id n \<notin> fst ` set (ur_operations u)" "ua = ?a"
      by (auto simp: Let_def n_def)
    then show ?thesis
    proof cases
      case err
      then have "r = Inl e \<and> u' = u" using r a by (auto simp: queue_tracked_def)
      then show ?thesis by blast
    next
      case ok
      have rem: "remove_operation (op_id n) ?a = ?b"
        using delete_fresh [OF ok(3)] by (simp add: remove_operation_def)
      have i: "ring_inv ?a" "kn_ok ?a" using track_invD(1) [OF inv] that by (simp_all only: alloc_fields) simp
      from queue_cases [OF q i, of "OPERATION_USER_DATA_BASE OR of_nat n"]
      consider (fail) e where "queue (OPERATION_USER_DATA_BASE OR of_nat n) ?a = (Inl e, ?a)"
        | (queued) "queue (OPERATION_USER_DATA_BASE OR of_nat n) ?a = (Inr (), sqe_queued ?e ?a)" "length (sq_entries u) < sq_size u"
        unfolding alloc_fields by blast
      then show ?thesis
      proof cases
        case fail
        have "queue_tracked kind t queue u = (Inl e, ?b)"
          unfolding rem [symmetric]
          by (rule queue_tracked_eqs(2) [OF a [unfolded ok(2,4)]]) (simp only: operation_id.sel fail)
        then have "r = Inl e \<and> u' = ?b" unfolding r by (rule Pair_inject) blast
        then show ?thesis using ok(1) by blast
      next
        case queued
        have "queue_tracked kind t queue u = (Inr (op_id n), sqe_queued ?e ?a)"
          by (rule queue_tracked_eqs(3) [OF a [unfolded ok(2,4)]]) (simp only: operation_id.sel queued)
        then have "r = Inr (op_id n) \<and> u' = sqe_queued ?e ?a" unfolding r by (rule Pair_inject) blast
        then show ?thesis using ok(1,3) queued(2) by blast
      qed
    qed
  qed
  have nle: "n \<le> unat (of_nat (Suc n) :: u64)" if "n < 2 ^ 63" "kn_ok u"
    using track_alloc(4) [OF inv that(2) n_def [THEN meta_eq_to_obj_eq] that(1)] by simp
  show "track_inv u'"
  proof (cases "kn_ok u")
    case True
    from main [OF True] consider "u' = u" | "n < 2 ^ 63" "u' = ?b"
      | "n < 2 ^ 63" "op_id n \<notin> fst ` set (ur_operations u)" "u' = sqe_queued ?e ?a" "length (sq_entries u) < sq_size u"
      by blast
    then show ?thesis
    proof cases
      case 3
      note ta = track_alloc [OF inv True n_def [THEN meta_eq_to_obj_eq] 3(1)]
      show ?thesis
        unfolding 3(3)
        by (rule track_queued [OF ta(2) [OF 3(2)]])
          (use True 3 ta(3,4) q in \<open>auto simp: alloc_fields queues_def simp del: of_nat_Suc intro!: exI [of _ n]\<close>)
    qed (use inv track_alloc(1) [OF inv True n_def [THEN meta_eq_to_obj_eq]] in auto)
  next
    case False
    then show ?thesis
      using queue_tracked_geo [OF q r] inv by (simp add: track_inv_def ring_inv_def)
  qed
  show "active u' = active u \<and> tags u' = tags u \<and> ur_operations u' = ur_operations u \<and> n \<le> unat (ur_next_operation u')"
    if "kn_ok u" "r = Inl e"
    using main [OF that(1)] that(2) nle [OF _ that(1)] by (auto simp: next_fields alloc_fields n_def simp del: of_nat_Suc)
  show "op = op_id n \<and> n < 2 ^ 63 \<and> unat (ur_next_operation u') = Suc n \<and> op \<notin> fst ` set (ur_operations u) \<and>
      active u' = add_mset (g (op_raw op)) (active u) \<and> tags u' = add_mset (op_raw op) (tags u) \<and>
      op_raw op \<notin># tags u \<and>
      ur_operations u' = ur_operations u @ [(op, \<lparr>os_kind = kind, os_timeout = t\<rparr>)]"
    if "kn_ok u" "r = Inr op"
  proof -
    have m: "n < 2 ^ 63" "op_id n \<notin> fst ` set (ur_operations u)" "op = op_id n" "u' = sqe_queued ?e ?a"
        "length (sq_entries u) < sq_size u"
      using main [OF that(1)] that(2) by auto
    have i: "ring_inv ?a" "kn_ok ?a" "length (sq_entries ?a) < sq_size ?a"
      using track_invD(1) [OF inv] that m(5) by (simp_all only: alloc_fields) simp
    show ?thesis
      using m track_alloc(3,4) [OF inv that(1) n_def [THEN meta_eq_to_obj_eq] m(1)] ring_inv_queued(2,3) [OF i] q
      by (auto simp: alloc_fields queues_def simp del: of_nat_Suc)
  qed
qed

subsection \<open>The queueing functions\<close>

lemma queue_sqe_clear: "queue_sqe f u = queue_sqe (\<lambda>_. f clear_sqe) u"
proof -
  have "(xs[i := clear_sqe])[i := f (xs[i := clear_sqe] ! i)] = (xs[i := clear_sqe])[i := f clear_sqe]" for xs i
    by (cases "i < length xs") (auto simp: list_update_beyond)
  then show ?thesis by (simp add: queue_sqe_def prepare_sqe_def write_sqe_def Let_def)
qed

lemma queues_nop: "queues queue_nop (\<lambda>t. clear_sqe\<lparr>sqe_opcode := IORING_OP_NOP, sqe_user_data := t\<rparr>)"
  unfolding queues_def queue_nop_def by (subst queue_sqe_clear) simp

lemma queues_timeout:
  "queues (queue_timeout a) (\<lambda>t. clear_sqe\<lparr>sqe_opcode := IORING_OP_TIMEOUT, sqe_addr := a, sqe_len := 1,
     sqe_timeout_flags := 0, sqe_user_data := t\<rparr>)"
  unfolding queues_def queue_timeout_def by (subst queue_sqe_clear) simp

lemma queues_cancel:
  "queues (queue_cancel a) (\<lambda>t. clear_sqe\<lparr>sqe_opcode := IORING_OP_ASYNC_CANCEL, sqe_fd := - 1, sqe_addr := a,
     sqe_timeout_flags := 0, sqe_user_data := t\<rparr>)"
  unfolding queues_def queue_cancel_def by (subst queue_sqe_clear) simp

lemma queues_buffer:
  "queues (queue_buffer_operation opcode fd a n off)
     (\<lambda>t. clear_sqe\<lparr>sqe_opcode := opcode, sqe_fd := fd, sqe_off := off, sqe_addr := a, sqe_len := of_nat n, sqe_user_data := t\<rparr>)"
  unfolding queues_def queue_buffer_operation_def by (subst queue_sqe_clear) simp

subsection \<open>Consuming completions\<close>

lemma try_operation_spec:
  assumes "try_operation_completion u = (r, u')"
  shows "r = None \<Longrightarrow> ring_flow {#} u u'"
    and "r = Some oc \<Longrightarrow> \<exists>v. ring_flow {#op_raw (oc_operation oc)#} u v \<and>
      u' = remove_operation (oc_operation oc) v \<and> oc_operation oc \<in> fst ` set (ur_operations u)"
proof -
  obtain n w where w: "drain_completions u = (n, w)" by fastforce
  have fw: "ring_flow {#} u w" using flow_drain [of u] w by simp
  let ?P = "\<lambda>c. is_operation_tracked (IoUringOperationId (uc_user_data c)) w"
  have *: "(r = None \<longrightarrow> ring_flow {#} u u') \<and> (\<forall>oc. r = Some oc \<longrightarrow> (\<exists>v. ring_flow {#op_raw (oc_operation oc)#} u v \<and>
      u' = remove_operation (oc_operation oc) v \<and> oc_operation oc \<in> fst ` set (ur_operations u)))"
  proof (cases "list_position ?P (ur_completions w)")
    case None
    then show ?thesis using assms w fw by (auto simp: try_operation_completion_def)
  next
    case (Some i)
    note i = list_position_Some [OF Some]
    let ?c = "ur_completions w ! i" and ?v = "w\<lparr>ur_completions := remove_at i (ur_completions w)\<rparr>"
    obtain st where st: "map_of (ur_operations w) (IoUringOperationId (uc_user_data ?c)) = Some st"
      using i by (auto simp: is_operation_tracked_def)
    have "ring_flow {#uc_user_data ?c#} u ?v"
      using ring_flow_step(2) [OF fw] flow_remove_local [of i w] i by blast
    moreover have "IoUringOperationId (uc_user_data ?c) \<in> fst ` set (ur_operations u)"
      using map_of_SomeD [OF st] fw by (force simp: ring_flow_def)
    moreover have "r = Some \<lparr>oc_operation = IoUringOperationId (uc_user_data ?c), oc_kind = os_kind st,
          oc_result = uc_result ?c, oc_flags = uc_flags ?c\<rparr>"
        "u' = remove_operation (IoUringOperationId (uc_user_data ?c)) ?v"
      using assms w Some st by (auto simp: try_operation_completion_def Let_def complete_operation_def)
    ultimately show ?thesis by (auto intro!: exI [of _ ?v])
  qed
  then show "r = None \<Longrightarrow> ring_flow {#} u u'"
    "r = Some oc \<Longrightarrow> \<exists>v. ring_flow {#op_raw (oc_operation oc)#} u v \<and>
      u' = remove_operation (oc_operation oc) v \<and> oc_operation oc \<in> fst ` set (ur_operations u)"
    by blast+
qed

lemma remove_fields [simp]:
  "active (remove_operation op u) = active u" "tags (remove_operation op u) = tags u"
  "kn_ok (remove_operation op u) = kn_ok u" "ur_next_operation (remove_operation op u) = ur_next_operation u"
  "ring_inv (remove_operation op u) = ring_inv u"
  by (simp_all add: remove_operation_def active_def tags_def sq_entries_def cq_entries_def ring_inv_def ring_geo_def
      sq_ok_def sq_size_def cq_size_def)

lemma track_complete:
  assumes "track_inv u" "ring_flow {#op_raw op#} u v" "kn_ok v \<Longrightarrow> is_op_tag (op_raw op)"
  shows "track_inv (remove_operation op v)"
  by (rule track_remove [OF track_flow [OF assms(1,2)]]) (use tag_handed_out(2) [OF assms(1,2) _ assms(3)] in blast)

subsection \<open>A new ring\<close>

lemma unat_exp_u32: "k \<le> 31 \<Longrightarrow> unat (2 ^ k :: u32) = 2 ^ k"
proof -
  assume k: "k \<le> 31"
  have "(2::nat) ^ k < 2 ^ 32" by (rule power_strict_increasing) (use k in auto)
  moreover have "(2 ^ k :: u32) = of_nat (2 ^ k)" by simp
  ultimately show "unat (2 ^ k :: u32) = 2 ^ k" by (simp only: unat_of_nat) (simp add: take_bit_nat_eq_self)
qed

lemma uring_new_ring:
  assumes "k \<le> 31" "j \<le> 31"
  shows "track_inv (uring_new (2 ^ k) (2 ^ j) answers arrivals)"
proof -
  let ?u = "uring_new (2 ^ k) (2 ^ j) answers arrivals"
  have "ring_geo ?u"
    using assms by (auto simp: ring_geo_def uring_new_def unat_exp_u32 mask_eq_exp_minus_1)
  moreover have "sq_entries ?u = []" "cq_entries ?u = []"
    by (simp_all add: sq_entries_def cq_entries_def ring_window_def uring_new_def)
  ultimately show ?thesis
    by (simp add: track_inv_def ring_inv_def sq_ok_def tags_def active_def) (simp add: uring_new_def)
qed

end
