(* ===== verification/Uring_Fifo.thy ===== *)
theory Uring_Fifo
  imports Uring_Tracking
begin

text \<open>
  The rings of \<open>os/uring.rs\<close> as queues.  A history of queued entries, kernel entries and consumed
  completions is run beside four logs: the entries queued, the entries the kernel consumed, the
  completions it posted and the completions the program read.  The 32-bit positions wrap around; the
  logs do not.
\<close>

subsection \<open>Histories of one ring\<close>

datatype ring_event = QueueEntry "sqe \<Rightarrow> sqe" | EnterKernel u32 | PopCompletion

record ring_log =
  rl_ring :: io_uring
  rl_queued :: "sqe list"
  rl_consumed :: "sqe list"
  rl_posted :: "cqe list"
  rl_read :: "uring_completion list"

definition ring_log_new :: "nat \<Rightarrow> nat \<Rightarrow> enter_answer list \<Rightarrow> posted list list \<Rightarrow> ring_log" where
  "ring_log_new k j answers arrivals =
     \<lparr>rl_ring = uring_new (2 ^ k) (2 ^ j) answers arrivals, rl_queued = [], rl_consumed = [], rl_posted = [], rl_read = []\<rparr>"

definition after_enter :: "io_error + u32 \<Rightarrow> io_uring \<Rightarrow> io_uring" where
  "after_enter r u = (case r of Inl _ \<Rightarrow> u | Inr n \<Rightarrow> pending_saturating_sub n u)"

fun ring_step :: "ring_event \<Rightarrow> ring_log \<Rightarrow> ring_log" where
  "ring_step (QueueEntry f) l =
     (case queue_sqe f (rl_ring l) of
        (Inl _, u) \<Rightarrow> l\<lparr>rl_ring := u\<rparr>
      | (Inr _, u) \<Rightarrow> l\<lparr>rl_ring := u, rl_queued := rl_queued l @ [f clear_sqe]\<rparr>)"
| "ring_step (EnterKernel min_complete) l =
     (case uring_enter (ur_pending_submissions (rl_ring l)) min_complete (rl_ring l) of
        (None, u) \<Rightarrow> l\<lparr>rl_ring := u\<rparr>
      | (Some r, u) \<Rightarrow>
          (let a = hd (kn_answers (rl_ring l))
           in l\<lparr>rl_ring := after_enter r u,
                rl_consumed := rl_consumed l @ take (ea_consumed a) (sq_entries (rl_ring l)),
                rl_posted := rl_posted l @ map posted_cqe (ea_posted a)\<rparr>))"
| "ring_step PopCompletion l =
     (let posted = (case kn_arrivals (rl_ring l) of [] \<Rightarrow> [] | ps # _ \<Rightarrow> map posted_cqe ps);
          (c, u) = pop_ring_completion (rl_ring l)
      in l\<lparr>rl_ring := u, rl_posted := rl_posted l @ posted, rl_read := rl_read l @ opt_list c\<rparr>)"

definition read_cqe :: "uring_completion \<Rightarrow> cqe" where
  "read_cqe c = \<lparr>cqe_user_data = uc_user_data c, cqe_res = uc_result c, cqe_flags = uc_flags c\<rparr>"

subsection \<open>The invariant\<close>

definition log_inv :: "ring_log \<Rightarrow> bool" where
  "log_inv l \<longleftrightarrow> ring_inv (rl_ring l) \<and>
     (kn_ok (rl_ring l) \<longrightarrow> rl_queued l = rl_consumed l @ sq_entries (rl_ring l) \<and>
        rl_posted l = map read_cqe (rl_read l) @ cq_entries (rl_ring l))"

lemma log_invI:
  assumes "ring_inv (rl_ring l)" "kn_ok (rl_ring l) \<Longrightarrow> rl_queued l = rl_consumed l @ sq_entries (rl_ring l)"
    "kn_ok (rl_ring l) \<Longrightarrow> rl_posted l = map read_cqe (rl_read l) @ cq_entries (rl_ring l)"
  shows "log_inv l"
  using assms by (simp add: log_inv_def)

lemma log_invD:
  assumes "log_inv l"
  shows "ring_inv (rl_ring l)" "kn_ok (rl_ring l) \<Longrightarrow> rl_queued l = rl_consumed l @ sq_entries (rl_ring l)"
    "kn_ok (rl_ring l) \<Longrightarrow> rl_posted l = map read_cqe (rl_read l) @ cq_entries (rl_ring l)"
  using assms by (simp_all add: log_inv_def)

lemma log_queue:
  assumes "log_inv l"
  shows "log_inv (ring_step (QueueEntry f) l)"
proof (cases "kn_ok (rl_ring l)")
  case True
  note i = log_invD(1) [OF assms]
  show ?thesis
  proof (rule queue_sqe_cases [OF i True, of f])
    assume q: "queue_sqe f (rl_ring l) = (Inr (), sqe_queued (f clear_sqe) (rl_ring l))"
      "length (sq_entries (rl_ring l)) < sq_size (rl_ring l)"
    have "sq_entries (sqe_queued (f clear_sqe) (rl_ring l)) = sq_entries (rl_ring l) @ [f clear_sqe]"
      using queue_sqe_room(2) [OF _ _ q(2) pending_not_max [OF i True]] i True by (simp add: ring_inv_def)
    then show ?thesis
      using q log_invD [OF assms] ring_inv_queued(1) [OF i True q(2)] True by (simp add: log_inv_def)
  qed (use assms in \<open>simp add: log_inv_def\<close>)
next
  case False
  obtain r u where q: "queue_sqe f (rl_ring l) = (r, u)" by fastforce
  then have "ring_inv u \<and> \<not> kn_ok u"
    using queue_sqe_geo [OF q] False log_invD(1) [OF assms] by (simp add: ring_inv_def)
  then show ?thesis using q by (cases r) (simp_all add: log_inv_def)
qed

lemma pending_sub_fields [simp]:
  "sq_entries (pending_saturating_sub n u) = sq_entries u" "cq_entries (pending_saturating_sub n u) = cq_entries u"
  "kn_ok (pending_saturating_sub n u) = kn_ok u"
  by (simp_all add: pending_saturating_sub_def sq_entries_def cq_entries_def)

lemma after_enter_fields [simp]:
  "sq_entries (after_enter r u) = sq_entries u" "cq_entries (after_enter r u) = cq_entries u"
  "kn_ok (after_enter r u) = kn_ok u"
  by (simp_all add: after_enter_def split: sum.splits)

lemma enter_effect:
  assumes "uring_enter n m u = (Some r, u')" "ring_inv u" "kn_ok u'"
  defines "a \<equiv> hd (kn_answers u)"
  shows "sq_entries u' = drop (ea_consumed a) (sq_entries u)" "cq_entries u' = cq_entries u @ map posted_cqe (ea_posted a)"
    "kn_ok u"
proof -
  obtain rest where a: "kn_answers u = a # rest"
    "u' = kernel_post (ea_posted a) (kernel_consume n a (u\<lparr>kn_answers := rest\<rparr>))"
    using assms(1) by (rule enter_Some) (simp add: a_def)
  let ?v = "u\<lparr>kn_answers := rest\<rparr>"
  let ?w = "kernel_consume n a ?v"
  have e: "sq_entries ?v = sq_entries u" "cq_entries ?v = cq_entries u" "sq_ok ?v = sq_ok u" "ring_geo ?v = ring_geo u"
    by (simp_all add: sq_entries_def cq_entries_def sq_ok_def ring_geo_def sq_size_def)
  have geo: "ring_geo u" using assms(2) by (simp add: ring_inv_def)
  then have "ring_geo ?w" by (simp add: e)
  note p = post_effect [OF this, of "ea_posted a"]
  have w: "kn_ok ?w" "cq_entries u' = cq_entries ?w @ map posted_cqe (ea_posted a)"
    using p(1,3) assms(3) a(2) by simp_all
  then have k: "kn_ok u" "ea_consumed a \<le> length (sq_entries u)" by (simp_all add: kernel_consume_def e)
  then have "sq_ok u" using assms(2) by (simp add: ring_inv_def)
  then show "sq_entries u' = drop (ea_consumed a) (sq_entries u)"
    using consume_entries(1) [of ?v a n] geo k(2) a(2) by (simp add: e)
  show "cq_entries u' = cq_entries u @ map posted_cqe (ea_posted a)" using w(2) by (simp add: e)
  show "kn_ok u" by (rule k)
qed

lemma log_enter:
  assumes "log_inv l"
  shows "log_inv (ring_step (EnterKernel m) l)"
proof -
  let ?u = "rl_ring l"
  obtain r u where e: "uring_enter (ur_pending_submissions ?u) m ?u = (r, u)" by fastforce
  show ?thesis
  proof (cases r)
    case None
    then have "u = ?u" using e enter_None by blast
    then show ?thesis using e None assms by simp
  next
    case (Some res)
    have flow: "ring_flow {#} ?u (after_enter res u)"
      using e Some enter_flow_err enter_flow_sub(1) by (auto simp: after_enter_def split: sum.splits)
    show ?thesis
    proof (rule log_invI)
      show "ring_inv (rl_ring (ring_step (EnterKernel m) l))"
        using e Some ring_flowD(1) [OF flow log_invD(1) [OF assms]] by (simp add: Let_def)
    qed (use e Some enter_effect [OF _ log_invD(1) [OF assms]] log_invD(2,3) [OF assms] in \<open>auto simp: Let_def\<close>)
  qed
qed

lemma arrive_effect:
  assumes "ring_inv u" "kn_ok (kernel_arrive u)"
  shows "cq_entries (kernel_arrive u) = cq_entries u @ (case kn_arrivals u of [] \<Rightarrow> [] | ps # _ \<Rightarrow> map posted_cqe ps)"
    "sq_entries (kernel_arrive u) = sq_entries u" "kn_ok u" "ring_geo (kernel_arrive u)"
proof -
  have e: "sq_entries (u\<lparr>kn_arrivals := x\<rparr>) = sq_entries u" "cq_entries (u\<lparr>kn_arrivals := x\<rparr>) = cq_entries u"
    "ring_geo (u\<lparr>kn_arrivals := x\<rparr>) = ring_geo u" for x
    by (simp_all add: sq_entries_def cq_entries_def ring_geo_def)
  have geo: "ring_geo u" using assms(1) by (simp add: ring_inv_def)
  show "cq_entries (kernel_arrive u) = cq_entries u @ (case kn_arrivals u of [] \<Rightarrow> [] | ps # _ \<Rightarrow> map posted_cqe ps)"
    "sq_entries (kernel_arrive u) = sq_entries u" "kn_ok u" "ring_geo (kernel_arrive u)"
    using assms(2) geo post_effect(1,3) [of "u\<lparr>kn_arrivals := x\<rparr>" for x]
    by (auto simp: kernel_arrive_def e split: list.splits)
qed

lemma pop_effect:
  assumes "pop_ring_completion u = (r, u')" "ring_inv u" "kn_ok u'"
  shows "cq_entries u @ (case kn_arrivals u of [] \<Rightarrow> [] | ps # _ \<Rightarrow> map posted_cqe ps) =
      map read_cqe (opt_list r) @ cq_entries u'"
    "sq_entries u' = sq_entries u" "kn_ok u"
proof -
  let ?v = "kernel_arrive u"
  have k: "kn_ok ?v" using assms(1,3) by (rule_tac pop_ring_cases [OF assms(1)]) auto
  note a = arrive_effect [OF assms(2) k]
  have "cq_entries ?v = map read_cqe (opt_list r) @ cq_entries u' \<and> sq_entries u' = sq_entries ?v"
    using assms(1)
  proof (cases rule: pop_ring_cases)
    case (some c v)
    then show ?thesis
      using pop_cqe_entries [OF a(4)] by (simp add: read_cqe_def sq_entries_def)
  qed simp
  then show "cq_entries u @ (case kn_arrivals u of [] \<Rightarrow> [] | ps # _ \<Rightarrow> map posted_cqe ps) =
      map read_cqe (opt_list r) @ cq_entries u'" "sq_entries u' = sq_entries u" "kn_ok u"
    using a by auto
qed

lemma log_pop:
  assumes "log_inv l"
  shows "log_inv (ring_step PopCompletion l)"
proof -
  obtain r u where p: "pop_ring_completion (rl_ring l) = (r, u)" by fastforce
  note i = log_invD [OF assms]
  note e = pop_effect [OF p i(1)]
  show ?thesis
  proof (rule log_invI)
    assume k: "kn_ok (rl_ring (ring_step PopCompletion l))"
    then have k: "kn_ok u" using p by simp
    show "rl_posted (ring_step PopCompletion l) =
        map read_cqe (rl_read (ring_step PopCompletion l)) @ cq_entries (rl_ring (ring_step PopCompletion l))"
      using p e(1) [OF k] i(3) [OF e(3) [OF k]] by simp
    show "rl_queued (ring_step PopCompletion l) =
        rl_consumed (ring_step PopCompletion l) @ sq_entries (rl_ring (ring_step PopCompletion l))"
      using p e(2) [OF k] i(2) [OF e(3) [OF k]] by simp
  qed (use p ring_flowD(1) [OF flow_pop [OF p] i(1)] in simp)
qed

lemma log_run: "log_inv l \<Longrightarrow> log_inv (fold ring_step evs l)"
proof (induction evs arbitrary: l)
  case (Cons ev evs)
  then show ?case using log_queue log_enter log_pop by (cases ev) simp_all
qed simp

lemma ring_step_mask: "ur_sq_ring_mask (rl_ring (ring_step ev l)) = ur_sq_ring_mask (rl_ring l)"
proof (cases ev)
  case (QueueEntry f)
  then show ?thesis
    by (auto simp: queue_sqe_def prepare_sqe_def finish_sqe_def write_sqe_def Let_def split: prod.splits sum.splits if_splits)
next
  case (EnterKernel m)
  then show ?thesis
    by (auto simp: uring_enter_def after_enter_def pending_saturating_sub_def Let_def split: prod.splits option.splits
        list.splits sum.splits)
next
  case PopCompletion
  then show ?thesis
    by (auto simp: pop_ring_completion_def kernel_arrive_def Let_def split: prod.splits list.splits if_splits)
qed

lemma ring_run_mask: "ur_sq_ring_mask (rl_ring (fold ring_step evs l)) = ur_sq_ring_mask (rl_ring l)"
  by (induction evs arbitrary: l) (simp_all add: ring_step_mask)

subsection \<open>The rings are queues\<close>

text \<open>C7: in every history in which the kernel keeps the ring protocol, with positions that wrap around
  at 32 bits, the entries queued are those the kernel consumed followed by those still in the
  submission ring, the completions posted are those the program read followed by those still in the
  completion ring, in order and without loss or duplication, the pending count is the number of
  entries not consumed, and queueing is refused exactly when all slots are taken.\<close>

theorem uring_rings_fifo:
  assumes "k \<le> 31" "j \<le> 31" "l = fold ring_step evs (ring_log_new k j answers arrivals)" "kn_ok (rl_ring l)"
  shows "rl_queued l = rl_consumed l @ sq_entries (rl_ring l) \<and>
    rl_posted l = map read_cqe (rl_read l) @ cq_entries (rl_ring l) \<and>
    unat (ur_pending_submissions (rl_ring l)) = length (rl_queued l) - length (rl_consumed l) \<and>
    fst (queue_sqe f (rl_ring l)) =
      (if length (rl_queued l) = length (rl_consumed l) + 2 ^ k then Inl WouldBlock else Inr ())"
proof -
  have new: "log_inv (ring_log_new k j answers arrivals)"
    using track_invD(1) [OF uring_new_ring [OF assms(1,2)]]
    by (simp add: log_inv_def ring_log_new_def sq_entries_def cq_entries_def ring_window_def) (simp add: uring_new_def)
  note i = log_invD [OF log_run [OF new, of evs, folded assms(3)]]
  have "ur_sq_ring_mask (rl_ring l) = mask k"
    by (simp add: assms(3) ring_run_mask) (simp add: ring_log_new_def uring_new_def mask_eq_exp_minus_1)
  then have size: "sq_size (rl_ring l) = 2 ^ k" by (rule sq_sizeI [OF _ assms(1)])
  have "fst (queue_sqe f (rl_ring l)) = (if length (sq_entries (rl_ring l)) = 2 ^ k then Inl WouldBlock else Inr ())"
    by (rule queue_sqe_cases [OF i(1) assms(4), of f]) (simp_all add: size)
  then show ?thesis using i assms(4) by (simp add: ring_inv_def)
qed

definition nop_entry :: "u64 \<Rightarrow> sqe \<Rightarrow> sqe" where
  "nop_entry t s = s\<lparr>sqe_opcode := IORING_OP_NOP, sqe_user_data := t\<rparr>"

definition three_nops :: ring_log where
  "three_nops = fold ring_step
     [QueueEntry (nop_entry 1), QueueEntry (nop_entry 2), QueueEntry (nop_entry 3), EnterKernel 1, PopCompletion,
      QueueEntry (nop_entry 3)]
     (ring_log_new 1 1 [\<lparr>ea_result = Inr 1, ea_consumed = 1, ea_posted = [(nop_entry 1 clear_sqe, 0, 0)]\<rparr>] [])"

theorem uring_rings_fifo_witness:
  "map sqe_user_data (rl_queued three_nops) = [1, 2, 3] \<and> map uc_user_data (rl_read three_nops) = [1] \<and>
   fst (queue_sqe id (rl_ring three_nops)) = Inl WouldBlock"
proof -
  have k: "kn_ok (rl_ring three_nops)" by code_simp
  have q: "map sqe_user_data (rl_queued three_nops) = [1, 2, 3]" "map sqe_user_data (rl_consumed three_nops) = [1]"
    by code_simp+
  have r: "map uc_user_data (rl_read three_nops) = [1]" by code_simp
  have "length (rl_queued three_nops) = 3" "length (rl_consumed three_nops) = 1"
    using arg_cong [OF q(1), of length] arg_cong [OF q(2), of length] by simp_all
  then show ?thesis
    using uring_rings_fifo [OF _ _ three_nops_def k, of id] q r by simp
qed

end
