(* ===== verification/Uring_Dispatch.thy ===== *)
theory Uring_Dispatch
  imports Uring_Ring
begin

text \<open>
  The dispatcher of \<open>os/uring.rs\<close> and the futures over it and over \<open>executor/uring.rs\<close>: waking tasks,
  abandoning operations, keeping the buffers of abandoned operations alive, draining and shutting
  down.  Three history fields record the wakers called, the buffers released (dropped or handed back
  to the program) and the buffers leaked, each buffer with the operation it was lent to.
\<close>

subsection \<open>Data\<close>

datatype buffer = Buffer (buf_addr: u64) (buf_len: nat)

datatype drain_status = Completed | SkippedLiveWakers | TimedOut

record drain_snapshot =
  ds_status :: drain_status
  ds_max_waits :: nat
  ds_dispatched :: u64
  ds_leaked_buffers :: nat

record dispatcher =
  dp_ring :: io_uring
  dp_waiters :: "(operation_id \<times> waker) list"
  dp_completions :: "(operation_id \<times> operation_completion) list"
  dp_abandoned :: "(operation_id \<times> operation_kind) list"
  dp_deferred :: "(operation_id \<times> buffer) list"
  dp_last_drain :: "drain_snapshot option"
  dp_total_dispatched :: nat
  dp_total_buffered :: nat
  dp_total_woken :: nat
  dp_total_discarded :: nat
  dp_dispatched_kinds :: kind_counts
  dp_buffered_kinds :: kind_counts
  dp_woken_kinds :: kind_counts
  dp_discarded_kinds :: kind_counts
  dp_woken_log :: "waker list"
  dp_released :: "(operation_id \<times> buffer) list"
  dp_leaked :: "(operation_id \<times> buffer) list"

definition dispatcher_new :: "io_uring \<Rightarrow> dispatcher" where
  "dispatcher_new ring =
     \<lparr>dp_ring = ring, dp_waiters = [], dp_completions = [], dp_abandoned = [], dp_deferred = [],
      dp_last_drain = None, dp_total_dispatched = 0, dp_total_buffered = 0, dp_total_woken = 0,
      dp_total_discarded = 0, dp_dispatched_kinds = no_kinds, dp_buffered_kinds = no_kinds,
      dp_woken_kinds = no_kinds, dp_discarded_kinds = no_kinds,
      dp_woken_log = [], dp_released = [], dp_leaked = []\<rparr>"

text \<open>Running an operation of the owned ring.\<close>

definition on_ring :: "(io_uring \<Rightarrow> 'r \<times> io_uring) \<Rightarrow> dispatcher \<Rightarrow> 'r \<times> dispatcher" where
  "on_ring f d = (let (r, u) = f (dp_ring d) in (r, d\<lparr>dp_ring := u\<rparr>))"

definition dispatcher_submit_pending :: "dispatcher \<Rightarrow> u32 call \<times> dispatcher" where
  "dispatcher_submit_pending = on_ring submit_pending"

subsection \<open>Wakers and completions\<close>

definition register_waker :: "operation_id \<Rightarrow> waker \<Rightarrow> dispatcher \<Rightarrow> bool \<times> dispatcher" where
  "register_waker operation w d =
     (if map_of (dp_completions d) operation \<noteq> None then (True, d)
      else (False, d\<lparr>dp_waiters := AList.update operation w (dp_waiters d)\<rparr>))"

definition clear_waker :: "operation_id \<Rightarrow> dispatcher \<Rightarrow> waker option \<times> dispatcher" where
  "clear_waker operation d =
     (map_of (dp_waiters d) operation, d\<lparr>dp_waiters := AList.delete operation (dp_waiters d)\<rparr>)"

definition take_completion :: "operation_id \<Rightarrow> dispatcher \<Rightarrow> operation_completion option \<times> dispatcher" where
  "take_completion operation d =
     (map_of (dp_completions d) operation, d\<lparr>dp_completions := AList.delete operation (dp_completions d)\<rparr>)"

subsection \<open>Abandoning operations\<close>

definition abandon_operation :: "operation_id \<Rightarrow> dispatcher \<Rightarrow> dispatcher" where
  "abandon_operation operation d =
     (let (_, d) = clear_waker operation d; (completed, d) = take_completion operation d
      in if completed \<noteq> None then d
         else case operation_kind_of operation (dp_ring d) of
           None \<Rightarrow> d
         | Some kind \<Rightarrow>
             (let already = map_of (dp_abandoned d) operation \<noteq> None;
                  d = d\<lparr>dp_abandoned := AList.update operation kind (dp_abandoned d)\<rparr>
              in if already then d
                 else case on_ring (queue_cancel_operation operation) d of
                   (Inr cancel, d) \<Rightarrow> d\<lparr>dp_abandoned := AList.update cancel (Cancel operation) (dp_abandoned d)\<rparr>
                 | (Inl _, d) \<Rightarrow> d))"

definition release_buffers :: "(operation_id \<times> buffer) list \<Rightarrow> dispatcher \<Rightarrow> dispatcher" where
  "release_buffers bs d = d\<lparr>dp_released := dp_released d @ bs\<rparr>"

definition deferred_of :: "operation_id \<Rightarrow> dispatcher \<Rightarrow> (operation_id \<times> buffer) list" where
  "deferred_of operation d = filter (\<lambda>p. fst p = operation) (dp_deferred d)"

text \<open>Inserting into the map drops the buffer it held for the operation; a buffer that is not
  inserted is dropped.\<close>

definition defer_buffer_drop :: "operation_id \<Rightarrow> buffer \<Rightarrow> dispatcher \<Rightarrow> dispatcher" where
  "defer_buffer_drop operation buffer d =
     (let d = abandon_operation operation d
      in if is_operation_tracked operation (dp_ring d)
         then release_buffers (deferred_of operation d)
                (d\<lparr>dp_deferred := AList.update operation buffer (dp_deferred d)\<rparr>)
         else release_buffers [(operation, buffer)] d)"

subsection \<open>Dispatching\<close>

definition dispatch_one :: "operation_completion \<Rightarrow> dispatcher \<Rightarrow> dispatcher" where
  "dispatch_one completion d =
     (let operation = oc_operation completion; kind = oc_kind completion;
          d = d\<lparr>dp_total_dispatched := dp_total_dispatched d + 1,
                dp_dispatched_kinds := kinds_add kind (dp_dispatched_kinds d)\<rparr>
      in if map_of (dp_abandoned d) operation \<noteq> None
         then release_buffers (deferred_of operation d)
                (d\<lparr>dp_abandoned := AList.delete operation (dp_abandoned d),
                   dp_deferred := AList.delete operation (dp_deferred d),
                   dp_total_discarded := dp_total_discarded d + 1,
                   dp_discarded_kinds := kinds_add kind (dp_discarded_kinds d)\<rparr>)
         else
           let d = d\<lparr>dp_completions := AList.update operation completion (dp_completions d),
                     dp_total_buffered := dp_total_buffered d + 1,
                     dp_buffered_kinds := kinds_add kind (dp_buffered_kinds d)\<rparr>
           in case map_of (dp_waiters d) operation of
                None \<Rightarrow> d
              | Some w \<Rightarrow>
                  d\<lparr>dp_waiters := AList.delete operation (dp_waiters d),
                    dp_total_woken := dp_total_woken d + 1,
                    dp_woken_kinds := kinds_add kind (dp_woken_kinds d),
                    dp_woken_log := dp_woken_log d @ [w]\<rparr>)"

definition dispatch_left :: "dispatcher \<Rightarrow> nat" where
  "dispatch_left d = length (ur_operations (dp_ring d))"

lemma drain_operations: "ur_operations (snd (drain_completions u)) = ur_operations u"
proof (induction u rule: drain_completions.induct)
  case (1 u)
  obtain r u' where p: "pop_ring_completion u = (r, u')" by fastforce
  have o: "ur_operations u' = ur_operations u"
    using p by (cases "kn_arrivals u")
      (auto simp: pop_ring_completion_def kernel_arrive_def kernel_post_def Let_def split: if_splits)
  show ?case
  proof (cases r)
    case None
    then show ?thesis using p o by (subst drain_completions.simps) simp
  next
    case (Some c)
    then show ?thesis using "1.IH" [OF p [symmetric] Some] o p
      by (subst drain_completions.simps) (simp add: case_prod_unfold Let_def)
  qed
qed

lemma length_delete: "k \<in> fst ` set xs \<Longrightarrow> length (AList.delete k xs) < length xs"
proof (induction xs)
  case (Cons x xs)
  have "length (AList.delete k xs) \<le> length xs" by (simp add: AList.delete_eq)
  then show ?case using Cons by (cases "fst x = k") auto
qed simp

lemma try_operation_left:
  assumes "Some oc = fst (try_operation_completion u)"
  shows "length (ur_operations (snd (try_operation_completion u))) < length (ur_operations u)"
proof -
  obtain u' where "try_operation_completion u = (Some oc, u')" using assms by (metis prod.collapse)
  note assms = this
  obtain n v where v: "drain_completions u = (n, v)" by fastforce
  have "ur_operations v = ur_operations u" using drain_operations [of u] v by simp
  moreover obtain i st where "map_of (ur_operations v) i = Some st" "ur_operations u' = AList.delete i (ur_operations v)"
    using assms v
    by (auto simp: try_operation_completion_def Let_def complete_operation_def remove_operation_def split: option.splits)
  ultimately show ?thesis
    using length_delete [of i "ur_operations v"] assms by (metis domI dom_map_of_conv_image_fst snd_conv)
qed

lemma dispatch_one_ring [simp]: "dp_ring (dispatch_one completion d) = dp_ring d"
  by (simp add: dispatch_one_def Let_def release_buffers_def split: option.splits)

function dispatch_loop :: "u64 \<Rightarrow> u64 \<Rightarrow> dispatcher \<Rightarrow> u64 \<times> dispatcher" where
  "dispatch_loop limit dispatched d =
     (if dispatched < limit
      then (case on_ring try_operation_completion d of
              (None, d) \<Rightarrow> (dispatched, d)
            | (Some completion, d) \<Rightarrow> dispatch_loop limit (dispatched + 1) (dispatch_one completion d))
      else (dispatched, d))"
  by pat_completeness auto

termination
  by (relation "measure (\<lambda>(_, _, d). dispatch_left d)")
    (auto simp: dispatch_left_def on_ring_def case_prod_unfold Let_def dest: try_operation_left)

declare dispatch_loop.simps [simp del]

definition dispatch_available_limit :: "u64 \<Rightarrow> dispatcher \<Rightarrow> u64 \<times> dispatcher" where
  "dispatch_available_limit limit = dispatch_loop limit 0"

definition usize_max :: u64 where "usize_max = - 1"

definition dispatch_available :: "dispatcher \<Rightarrow> u64 \<times> dispatcher" where
  "dispatch_available = dispatch_available_limit usize_max"

definition wait_and_dispatch :: "nat \<Rightarrow> dispatcher \<Rightarrow> u64 call \<times> dispatcher" where
  "wait_and_dispatch min_complete d =
     (case on_ring (wait_completions min_complete) d of
        (None, d) \<Rightarrow> (None, d)
      | (Some (Inl e), d) \<Rightarrow> (Some (Inl e), d)
      | (Some (Inr _), d) \<Rightarrow> (let (n, d) = dispatch_available d in (Some (Inr n), d)))"

subsection \<open>Snapshots\<close>

record dispatcher_snapshot =
  dps_ring :: uring_snapshot
  dps_registered_wakers :: nat
  dps_completed_operations :: nat
  dps_completed_kinds :: kind_counts
  dps_abandoned_operations :: nat
  dps_abandoned_kinds :: kind_counts
  dps_deferred_buffers :: nat
  dps_total_dispatched :: nat
  dps_total_buffered :: nat
  dps_total_woken :: nat
  dps_total_discarded :: nat
  dps_dispatched_kinds :: kind_counts
  dps_buffered_kinds :: kind_counts
  dps_woken_kinds :: kind_counts
  dps_discarded_kinds :: kind_counts
  dps_shutdown_drain :: "drain_snapshot option"

definition dispatcher_snapshot_of :: "dispatcher \<Rightarrow> dispatcher_snapshot" where
  "dispatcher_snapshot_of d =
     \<lparr>dps_ring = ring_snapshot (dp_ring d), dps_registered_wakers = length (dp_waiters d),
      dps_completed_operations = length (dp_completions d),
      dps_completed_kinds = fold (\<lambda>(_, c). kinds_add (oc_kind c)) (dp_completions d) no_kinds,
      dps_abandoned_operations = length (dp_abandoned d),
      dps_abandoned_kinds = fold (\<lambda>(_, k). kinds_add k) (dp_abandoned d) no_kinds,
      dps_deferred_buffers = length (dp_deferred d),
      dps_total_dispatched = dp_total_dispatched d, dps_total_buffered = dp_total_buffered d,
      dps_total_woken = dp_total_woken d, dps_total_discarded = dp_total_discarded d,
      dps_dispatched_kinds = dp_dispatched_kinds d, dps_buffered_kinds = dp_buffered_kinds d,
      dps_woken_kinds = dp_woken_kinds d, dps_discarded_kinds = dp_discarded_kinds d,
      dps_shutdown_drain = dp_last_drain d\<rparr>"

definition dispatcher_snapshot_idle :: "dispatcher_snapshot \<Rightarrow> bool" where
  "dispatcher_snapshot_idle s \<longleftrightarrow>
     ring_snapshot_idle (dps_ring s) \<and> dps_registered_wakers s = 0 \<and> dps_completed_operations s = 0 \<and>
     dps_abandoned_operations s = 0 \<and> dps_deferred_buffers s = 0"

definition dispatcher_is_idle :: "dispatcher \<Rightarrow> bool" where
  "dispatcher_is_idle d = dispatcher_snapshot_idle (dispatcher_snapshot_of d)"

subsection \<open>Draining and shutting down\<close>

text \<open>Both loops stop when the ring itself has nothing left to wait for.\<close>

fun drain_loop :: "nat \<Rightarrow> u64 \<Rightarrow> dispatcher \<Rightarrow> u64 call \<times> dispatcher" where
  "drain_loop 0 dispatched d = (Some (Inl io_error.TimedOut), d)"
| "drain_loop (Suc waits) dispatched d =
     (if ring_snapshot_idle (ring_snapshot (dp_ring d)) then (Some (Inl io_error.TimedOut), d)
      else case wait_and_dispatch 1 d of
             (None, d) \<Rightarrow> (None, d)
           | (Some (Inl e), d) \<Rightarrow> (Some (Inl e), d)
           | (Some (Inr n), d) \<Rightarrow>
               if dispatcher_is_idle d then (Some (Inr (dispatched + n)), d)
               else drain_loop waits (dispatched + n) d)"

definition drain_until_idle :: "nat \<Rightarrow> dispatcher \<Rightarrow> u64 call \<times> dispatcher" where
  "drain_until_idle max_waits d =
     (let (dispatched, d) = dispatch_available d
      in if dispatcher_is_idle d then (Some (Inr dispatched), d) else drain_loop max_waits dispatched d)"

definition leak_deferred_buffers :: "dispatcher \<Rightarrow> nat \<times> dispatcher" where
  "leak_deferred_buffers d =
     (length (dp_deferred d), d\<lparr>dp_deferred := [], dp_leaked := dp_leaked d @ dp_deferred d\<rparr>)"

text \<open>The loop of \<open>shutdown_drain\<close>; it returns \<open>None\<close> when a wait does not return.\<close>

fun shutdown_loop :: "nat \<Rightarrow> u64 \<Rightarrow> dispatcher \<Rightarrow> u64 option \<times> dispatcher" where
  "shutdown_loop 0 dispatched d = (Some dispatched, d)"
| "shutdown_loop (Suc waits) dispatched d =
     (if dispatcher_is_idle d \<or> ring_snapshot_idle (ring_snapshot (dp_ring d)) then (Some dispatched, d)
      else case wait_and_dispatch 1 d of
             (None, d) \<Rightarrow> (None, d)
           | (Some (Inl _), d) \<Rightarrow> (Some dispatched, d)
           | (Some (Inr n), d) \<Rightarrow> shutdown_loop waits (dispatched + n) d)"

definition record_drain ::
  "drain_status \<Rightarrow> nat \<Rightarrow> u64 \<Rightarrow> nat \<Rightarrow> dispatcher \<Rightarrow> drain_snapshot option \<times> dispatcher" where
  "record_drain status max_waits dispatched leaked d =
     (let outcome = \<lparr>ds_status = status, ds_max_waits = max_waits, ds_dispatched = dispatched, ds_leaked_buffers = leaked\<rparr>
      in (Some outcome, d\<lparr>dp_last_drain := Some outcome\<rparr>))"

definition shutdown_drain :: "nat \<Rightarrow> dispatcher \<Rightarrow> drain_snapshot option \<times> dispatcher" where
  "shutdown_drain max_waits d =
     (if dp_waiters d \<noteq> [] then record_drain SkippedLiveWakers max_waits 0 0 d
      else
        let (dispatched, d) = dispatch_available d
        in case shutdown_loop max_waits dispatched d of
             (None, d) \<Rightarrow> (None, d)
           | (Some dispatched, d) \<Rightarrow>
               if dispatcher_is_idle d then record_drain Completed max_waits dispatched 0 d
               else if 0 < length (ur_operations (dp_ring d))
               then (let (leaked, d) = leak_deferred_buffers d
                     in record_drain drain_status.TimedOut max_waits dispatched leaked d)
               else record_drain drain_status.TimedOut max_waits dispatched 0 d)"

definition DROP_DRAIN_MAX_WAITS :: nat where "DROP_DRAIN_MAX_WAITS = 1024"

text \<open>Dropping the dispatcher: after the drain its fields are dropped, the deferred buffers among
  them.  \<open>False\<close> is a drop that does not return.\<close>

definition dispatcher_drop :: "dispatcher \<Rightarrow> bool \<times> dispatcher" where
  "dispatcher_drop d =
     (case shutdown_drain DROP_DRAIN_MAX_WAITS (d\<lparr>dp_waiters := []\<rparr>) of
        (None, d) \<Rightarrow> (False, d)
      | (Some _, d) \<Rightarrow> (True, release_buffers (dp_deferred d) (d\<lparr>dp_deferred := []\<rparr>)))"

subsection \<open>Futures\<close>

definition operation_poll :: "waker \<Rightarrow> operation_id \<Rightarrow> dispatcher \<Rightarrow> operation_completion poll \<times> dispatcher" where
  "operation_poll w operation d =
     (let (_, d) = dispatch_available d; (c, d) = take_completion operation d
      in case c of
           Some completion \<Rightarrow> (Ready completion, d)
         | None \<Rightarrow>
             (let (completed, d) = register_waker operation w d
              in if completed
                 then (let (c, d) = take_completion operation d
                       in (case c of Some completion \<Rightarrow> Ready completion | None \<Rightarrow> Pending, d))
                 else (Pending, d)))"

definition operation_future_drop :: "operation_id \<Rightarrow> dispatcher \<Rightarrow> dispatcher" where
  "operation_future_drop operation d = abandon_operation operation d"

text \<open>A read or write future: the operation it waits for and the buffer lent to the kernel.\<close>

record buffer_future =
  bf_operation :: operation_id
  bf_buffer :: "buffer option"

definition read_future_queue ::
  "i32 \<Rightarrow> buffer \<Rightarrow> u64 \<Rightarrow> dispatcher \<Rightarrow> (io_error + buffer_future) \<times> dispatcher" where
  "read_future_queue fd b offset d =
     (case on_ring (queue_read_operation fd (buf_addr b) (buf_len b) offset) d of
        (Inl e, d) \<Rightarrow> (Inl e, d)
      | (Inr operation, d) \<Rightarrow> (Inr \<lparr>bf_operation = operation, bf_buffer = Some b\<rparr>, d))"

definition write_future_queue ::
  "i32 \<Rightarrow> buffer \<Rightarrow> u64 \<Rightarrow> dispatcher \<Rightarrow> (io_error + buffer_future) \<times> dispatcher" where
  "write_future_queue fd b offset d =
     (case on_ring (queue_write_operation fd (buf_addr b) (buf_len b) offset) d of
        (Inl e, d) \<Rightarrow> (Inl e, d)
      | (Inr operation, d) \<Rightarrow> (Inr \<lparr>bf_operation = operation, bf_buffer = Some b\<rparr>, d))"

text \<open>A completed poll hands the buffer back to the program.  \<open>UnwrapNone\<close> is the panic of a future
  that completes without its buffer.\<close>

definition buffer_future_poll ::
  "waker \<Rightarrow> buffer_future \<Rightarrow> dispatcher \<Rightarrow>
   (panic + (operation_completion \<times> buffer) poll) \<times> buffer_future \<times> dispatcher" where
  "buffer_future_poll w f d =
     (case operation_poll w (bf_operation f) d of
        (Pending, d) \<Rightarrow> (Inr Pending, f, d)
      | (Ready completion, d) \<Rightarrow>
          (case bf_buffer f of
             None \<Rightarrow> (Inl UnwrapNone, f, d)
           | Some b \<Rightarrow>
               (Inr (Ready (completion, b)), f\<lparr>bf_buffer := None\<rparr>, release_buffers [(bf_operation f, b)] d)))"

text \<open>Dropping the future runs its own drop and then the drop of its operation.\<close>

definition buffer_future_drop :: "buffer_future \<Rightarrow> dispatcher \<Rightarrow> dispatcher" where
  "buffer_future_drop f d =
     operation_future_drop (bf_operation f)
       (case bf_buffer f of None \<Rightarrow> d | Some b \<Rightarrow> defer_buffer_drop (bf_operation f) b d)"

end
