(* ===== verification/Uring_Safety.thy ===== *)
theory Uring_Safety
  imports Uring_Dispatch Uring_Tracking
begin

text \<open>
  Memory safety of the io_uring dispatcher: over every history of futures, direct calls and kernel
  behaviour that keeps the ring protocol, the buffer of an operation that the kernel may still act on
  is owned by its future, by the dispatcher, or leaked; it is never released.
\<close>

subsection \<open>The invariant\<close>

definition rw_opcode :: "u8 \<Rightarrow> bool" where
  "rw_opcode c \<longleftrightarrow> c = IORING_OP_READ \<or> c = IORING_OP_WRITE"

lemma rw_not_cancel: "rw_opcode c \<Longrightarrow> c \<noteq> IORING_OP_ASYNC_CANCEL"
  by (auto simp: rw_opcode_def IORING_OP_READ_def IORING_OP_WRITE_def IORING_OP_ASYNC_CANCEL_def)

definition issued :: "io_uring \<Rightarrow> operation_id \<Rightarrow> bool" where
  "issued u op \<longleftrightarrow> (\<exists>n<unat (ur_next_operation u). op = op_id n)"

text \<open>
  With the buffers \<open>H\<close> held, the operations \<open>R\<close> whose buffer was released and the operations \<open>C\<close> with a
  completion to consume: completed operations have left the ring; no released buffer belongs to an
  active entry; the buffer of every active read or write is held; identifiers were issued.
\<close>

definition safe_inv ::
  "io_uring \<Rightarrow> (operation_id \<times> buffer) set \<Rightarrow> operation_id set \<Rightarrow> operation_id set \<Rightarrow> bool" where
  "safe_inv u H R C \<longleftrightarrow>
     (\<forall>op\<in>C. op_raw op \<notin># tags u) \<and>
     (\<forall>e\<in>#active u. \<forall>op\<in>R. sqe_user_data e \<noteq> op_raw op) \<and>
     (\<forall>e\<in>#active u. is_op_tag (sqe_user_data e) \<longrightarrow> rw_opcode (sqe_opcode e) \<longrightarrow>
        (\<exists>b. (IoUringOperationId (sqe_user_data e), b) \<in> H \<and> sqe_addr e = buf_addr b \<and> unat (sqe_len e) = buf_len b)) \<and>
     (\<forall>e\<in>#active u. \<forall>op\<in>fst ` H. sqe_user_data e = op_raw op \<longrightarrow> sqe_opcode e \<noteq> IORING_OP_ASYNC_CANCEL) \<and>
     (\<forall>op\<in>fst ` H \<union> R \<union> C. issued u op)"

lemma safe_invD:
  assumes "safe_inv u H R C"
  shows "op \<in> C \<Longrightarrow> op_raw op \<notin># tags u"
    "e \<in># active u \<Longrightarrow> op \<in> R \<Longrightarrow> sqe_user_data e \<noteq> op_raw op"
    "e \<in># active u \<Longrightarrow> is_op_tag (sqe_user_data e) \<Longrightarrow> rw_opcode (sqe_opcode e) \<Longrightarrow>
      \<exists>b. (IoUringOperationId (sqe_user_data e), b) \<in> H \<and> sqe_addr e = buf_addr b \<and> unat (sqe_len e) = buf_len b"
    "e \<in># active u \<Longrightarrow> op \<in> fst ` H \<Longrightarrow> sqe_user_data e = op_raw op \<Longrightarrow> sqe_opcode e \<noteq> IORING_OP_ASYNC_CANCEL"
    "op \<in> fst ` H \<union> R \<union> C \<Longrightarrow> issued u op"
  using assms unfolding safe_inv_def by blast+

lemma safe_shrink:
  assumes "safe_inv u H R C" "active u' \<subseteq># active u" "tags u' \<subseteq># tags u" "unat (ur_next_operation u) \<le> unat (ur_next_operation u')"
  shows "safe_inv u' H R C"
proof -
  note d = safe_invD [OF assms(1)]
  have a: "e \<in># active u" if "e \<in># active u'" for e using mset_subset_eqD [OF assms(2) that] .
  have t: "x \<in># tags u" if "x \<in># tags u'" for x using mset_subset_eqD [OF assms(3) that] .
  have i: "issued u' op" if "issued u op" for op
    using that less_le_trans [OF _ assms(4)] unfolding issued_def by blast
  show ?thesis
    unfolding safe_inv_def
  proof (intro conjI ballI impI)
    fix op assume "op \<in> C"
    then show "op_raw op \<notin># tags u'" using d(1) t by blast
  next
    fix e op assume "e \<in># active u'" "op \<in> R"
    then show "sqe_user_data e \<noteq> op_raw op" using d(2) a by blast
  next
    fix e assume "e \<in># active u'" "is_op_tag (sqe_user_data e)" "rw_opcode (sqe_opcode e)"
    then show "\<exists>b. (IoUringOperationId (sqe_user_data e), b) \<in> H \<and> sqe_addr e = buf_addr b \<and> unat (sqe_len e) = buf_len b"
      by (intro d(3) a)
  next
    fix e op assume "e \<in># active u'" "op \<in> fst ` H" "sqe_user_data e = op_raw op"
    then show "sqe_opcode e \<noteq> IORING_OP_ASYNC_CANCEL" using d(4) a by blast
  next
    fix op assume "op \<in> fst ` H \<union> R \<union> C"
    then show "issued u' op" by (intro i d(5))
  qed
qed

lemma safe_flow:
  assumes "safe_inv u H R C" "track_inv u" "ring_flow out u u'" "kn_ok u'"
  shows "safe_inv u' H R C"
  using safe_shrink [OF assms(1)] ring_flowD [OF assms(3) track_invD(1) [OF assms(2)]] assms(4) by simp

lemma safe_same:
  assumes "safe_inv u H R C" "active u' = active u" "tags u' = tags u" "ur_next_operation u' = ur_next_operation u"
  shows "safe_inv u' H R C"
  using safe_shrink [OF assms(1), of u'] assms(2-4) by simp

lemma safe_completed:
  assumes "safe_inv u H R C" "op_raw op \<notin># tags u" "issued u op"
  shows "safe_inv u H R (insert op C)"
  using assms unfolding safe_inv_def by (simp add: ball_Un)

lemma safe_consumed: "safe_inv u H R C \<Longrightarrow> C' \<subseteq> C \<Longrightarrow> safe_inv u H R C'"
  unfolding safe_inv_def ball_Un using subsetD [of C' C] by simp

lemma safe_fewer: "safe_inv u H R C \<Longrightarrow> R' \<subseteq> R \<Longrightarrow> safe_inv u H R' C"
  unfolding safe_inv_def ball_Un using subsetD [of R' R] by simp

lemma safe_release:
  assumes "safe_inv u H R C" "\<And>e op. e \<in># active u \<Longrightarrow> op \<in> X \<Longrightarrow> sqe_user_data e \<noteq> op_raw op"
    and "\<And>op. op \<in> X \<Longrightarrow> issued u op" "H' \<subseteq> H" "H \<subseteq> H' \<union> {p. fst p \<in> X}"
  shows "safe_inv u H' (R \<union> X) C"
proof -
  note d = safe_invD [OF assms(1)]
  show ?thesis
    unfolding safe_inv_def
  proof (intro conjI ballI impI)
    fix x assume "x \<in> C"
    then show "op_raw x \<notin># tags u" by (rule d(1))
  next
    fix e x assume "e \<in># active u" "x \<in> R \<union> X"
    then show "sqe_user_data e \<noteq> op_raw x" using d(2) assms(2) by blast
  next
    fix e assume e: "e \<in># active u" "is_op_tag (sqe_user_data e)" "rw_opcode (sqe_opcode e)"
    obtain b where b: "(IoUringOperationId (sqe_user_data e), b) \<in> H" "sqe_addr e = buf_addr b" "unat (sqe_len e) = buf_len b"
      using d(3) [OF e] by blast
    have "IoUringOperationId (sqe_user_data e) \<notin> X" using assms(2) [OF e(1)] by fastforce
    then show "\<exists>b. (IoUringOperationId (sqe_user_data e), b) \<in> H' \<and> sqe_addr e = buf_addr b \<and> unat (sqe_len e) = buf_len b"
      using b assms(5) by auto
  next
    fix e x assume "e \<in># active u" "x \<in> fst ` H'" "sqe_user_data e = op_raw x"
    then show "sqe_opcode e \<noteq> IORING_OP_ASYNC_CANCEL" using d(4) [of e x] assms(4) by blast
  next
    fix x assume "x \<in> fst ` H' \<union> (R \<union> X) \<union> C"
    then show "issued u x" using d(5) [of x] assms(3,4) by blast
  qed
qed

lemma not_issued:
  assumes "n = unat (ur_next_operation u)" "n < 2 ^ 63"
  shows "\<not> issued u (op_id n)"
proof
  assume "issued u (op_id n)"
  then obtain m where "m < n" "op_id n = op_id m" unfolding issued_def assms(1) [symmetric] by blast
  then show False using op_id_inj [of n m] assms(2) by simp
qed

lemma safe_queue:
  assumes "safe_inv u H R C"
    and "active u' = add_mset e (active u)" "tags u' = add_mset (sqe_user_data e) (tags u)"
    and "op = op_id (unat (ur_next_operation u))" "unat (ur_next_operation u) < 2 ^ 63"
    and "unat (ur_next_operation u') = Suc (unat (ur_next_operation u))" "sqe_user_data e = op_raw op"
    and "op_raw op \<notin># tags u"
    and "H' = H \<or> (\<exists>b. H' = insert (op, b) H \<and> sqe_addr e = buf_addr b \<and> unat (sqe_len e) = buf_len b)"
    and "H' = H \<Longrightarrow> \<not> rw_opcode (sqe_opcode e)" "H' \<noteq> H \<Longrightarrow> rw_opcode (sqe_opcode e)"
  shows "safe_inv u' H' R C"
proof -
  note d = safe_invD [OF assms(1)]
  have fresh: "x \<noteq> op" if "issued u x" for x using not_issued [OF refl assms(5)] that assms(4) by blast
  have raw: "op_raw x \<noteq> op_raw op" if "issued u x" for x using fresh [OF that] by (cases x, cases op) auto
  have i: "issued u' op" "issued u x \<Longrightarrow> issued u' x" for x using assms(4,6) by (auto simp: issued_def intro: less_SucI)
  have sub: "H \<subseteq> H'" using assms(9) by auto
  have H': "x \<in> fst ` H \<or> x = op \<and> H' \<noteq> H" if "x \<in> fst ` H'" for x using that assms(9) by auto
  show ?thesis
    unfolding safe_inv_def
  proof (intro conjI ballI impI)
    fix x assume "x \<in> C"
    then show "op_raw x \<notin># tags u'" using d(1) [of x] raw [OF d(5) [of x]] assms(3,7) by auto
  next
    fix f x assume "f \<in># active u'" "x \<in> R"
    then show "sqe_user_data f \<noteq> op_raw x" using d(2) [of f x] raw [OF d(5) [of x]] assms(2,7) by auto
  next
    fix f assume f: "f \<in># active u'" "is_op_tag (sqe_user_data f)" "rw_opcode (sqe_opcode f)"
    show "\<exists>b. (IoUringOperationId (sqe_user_data f), b) \<in> H' \<and> sqe_addr f = buf_addr b \<and> unat (sqe_len f) = buf_len b"
    proof (cases "f = e")
      case True
      then have "H' \<noteq> H" using f(3) assms(10) by auto
      then show ?thesis using assms(7,9) True by auto
    next
      case False
      then show ?thesis using d(3) [of f] f assms(2) sub by auto
    qed
  next
    fix f x assume f: "f \<in># active u'" "x \<in> fst ` H'" "sqe_user_data f = op_raw x"
    show "sqe_opcode f \<noteq> IORING_OP_ASYNC_CANCEL"
    proof (cases "f = e")
      case True
      then have "x = op" using f(3) assms(7) by (cases x, cases op) auto
      moreover have "op \<notin> fst ` H" using fresh d(5) by blast
      ultimately have "H' \<noteq> H" using f(2) by auto
      then show ?thesis using assms(11) rw_not_cancel True by blast
    next
      case False
      then have fa: "f \<in># active u" using f(1) assms(2) by auto
      have "sqe_user_data f \<noteq> op_raw op" using active_tags [OF fa] assms(8) by auto
      then have "x \<in> fst ` H" using H' [OF f(2)] f(3) by auto
      then show ?thesis using d(4) [OF fa] f(3) by blast
    qed
  next
    fix x assume "x \<in> fst ` H' \<union> R \<union> C"
    then show "issued u' x" using H' [of x] d(5) [of x] i by auto
  qed
qed

subsection \<open>Ring operations under the dispatcher\<close>

text \<open>The buffers lent to operations that live futures own are \<open>lent\<close>.\<close>

definition held :: "(operation_id \<times> buffer) list \<Rightarrow> dispatcher \<Rightarrow> (operation_id \<times> buffer) set" where
  "held lent d = set lent \<union> set (dp_deferred d) \<union> set (dp_leaked d)"

abbreviation released_ops :: "dispatcher \<Rightarrow> operation_id set" where
  "released_ops d \<equiv> fst ` set (dp_released d)"

abbreviation completed_ops :: "dispatcher \<Rightarrow> operation_id set" where
  "completed_ops d \<equiv> fst ` set (dp_completions d)"

definition disp_inv :: "(operation_id \<times> buffer) list \<Rightarrow> dispatcher \<Rightarrow> bool" where
  "disp_inv lent d \<longleftrightarrow> track_inv (dp_ring d) \<and>
     (kn_ok (dp_ring d) \<longrightarrow>
       safe_inv (dp_ring d) (held lent d) (released_ops d) (completed_ops d) \<and>
       distinct (map fst lent @ map fst (dp_deferred d)))"

lemma disp_invD:
  assumes "disp_inv lent d"
  shows "track_inv (dp_ring d)"
    "kn_ok (dp_ring d) \<Longrightarrow> safe_inv (dp_ring d) (held lent d) (released_ops d) (completed_ops d)"
    "kn_ok (dp_ring d) \<Longrightarrow> distinct (map fst lent @ map fst (dp_deferred d))"
  using assms by (simp_all add: disp_inv_def)

lemma disp_flow:
  assumes "disp_inv lent d" "ring_flow out (dp_ring d) u"
  shows "disp_inv lent (d\<lparr>dp_ring := u\<rparr>)"
proof -
  note d = disp_invD [OF assms(1)]
  have "kn_ok (dp_ring d)" if "kn_ok u"
    using ring_flowD(2) [OF assms(2) track_invD(1) [OF d(1)]] that .
  then show ?thesis
    using track_flow [OF d(1) assms(2)] safe_flow [OF d(2) d(1) assms(2)] d(3)
    by (simp add: disp_inv_def held_def)
qed

lemma disp_queue:
  assumes "disp_inv lent d" "queues q g" "queue_tracked kind t q (dp_ring d) = (r, u)"
    and "\<And>t. \<not> rw_opcode (sqe_opcode (g t))"
  shows "disp_inv lent (d\<lparr>dp_ring := u\<rparr>)"
proof -
  note d = disp_invD [OF assms(1)]
  note qs = queue_tracked_spec [OF d(1) assms(2,3)]
  have g: "sqe_user_data (g x) = x" for x using assms(2) by (simp add: queues_def)
  have "safe_inv u (held lent d) (released_ops d) (completed_ops d)" if k: "kn_ok (dp_ring d)"
  proof (cases r)
    case (Inl e)
    show ?thesis using safe_shrink [OF d(2) [OF k], of u] qs(3) [OF k Inl] by simp
  next
    case (Inr op)
    note o = qs(4) [OF k Inr]
    show ?thesis
      by (rule safe_queue [OF d(2) [OF k], of u "g (op_raw op)" op])
        (use o assms(4) g in auto)
  qed
  then show ?thesis using qs(1,2) d(3) by (simp add: disp_inv_def held_def)
qed

lemma disp_queue_rw:
  assumes "disp_inv lent d" "queues q g" "queue_tracked kind t q (dp_ring d) = (r, u)"
    and "\<And>t. rw_opcode (sqe_opcode (g t)) \<and> sqe_addr (g t) = buf_addr b \<and> unat (sqe_len (g t)) = buf_len b"
  shows "disp_inv (case r of Inl _ \<Rightarrow> lent | Inr op \<Rightarrow> (op, b) # lent) (d\<lparr>dp_ring := u\<rparr>)"
proof -
  note d = disp_invD [OF assms(1)]
  note qs = queue_tracked_spec [OF d(1) assms(2,3)]
  have g: "sqe_user_data (g x) = x" for x using assms(2) by (simp add: queues_def)
  show ?thesis
  proof (cases r)
    case (Inl e)
    then show ?thesis
      using safe_shrink [OF d(2), of u] qs(1,2) qs(3) [OF _ Inl] d(3) by (simp add: disp_inv_def held_def)
  next
    case (Inr op)
    have "safe_inv u (insert (op, b) (held lent d)) (released_ops d) (completed_ops d) \<and>
        op \<notin> fst ` held lent d" if k: "kn_ok (dp_ring d)"
    proof
      note o = qs(4) [OF k Inr]
      have "\<not> issued (dp_ring d) op" using not_issued [OF refl, of "dp_ring d"] o by blast
      then show new: "op \<notin> fst ` held lent d" using safe_invD(5) [OF d(2) [OF k]] by blast
      have "(op, b) \<notin> held lent d" using new by force
      then have ne: "insert (op, b) (held lent d) \<noteq> held lent d" by blast
      show "safe_inv u (insert (op, b) (held lent d)) (released_ops d) (completed_ops d)"
        by (rule safe_queue [OF d(2) [OF k], of u "g (op_raw op)" op])
          (use o assms(4) g ne in auto)
    qed
    then show ?thesis
      using qs(1,2) d(3) Inr by (auto simp: disp_inv_def held_def image_Un)
  qed
qed

subsection \<open>Dispatcher operations\<close>

lemma disp_queue_cancel:
  assumes "disp_inv lent d" "queue_cancel_operation target (dp_ring d) = (r, u)"
  shows "disp_inv lent (d\<lparr>dp_ring := u\<rparr>)"
  by (rule disp_queue [OF assms(1) queues_cancel assms(2) [unfolded queue_cancel_operation_def]])
    (simp add: rw_opcode_def IORING_OP_ASYNC_CANCEL_def IORING_OP_READ_def IORING_OP_WRITE_def)

lemma disp_cong:
  assumes "disp_inv lent d" "dp_ring d' = dp_ring d" "held lent d' = held lent d" "dp_released d' = dp_released d"
    "completed_ops d' \<subseteq> completed_ops d" "dp_deferred d' = dp_deferred d"
  shows "disp_inv lent d'"
  using assms safe_consumed [of "dp_ring d" "held lent d" "released_ops d" "completed_ops d" "completed_ops d'"]
  by (auto simp: disp_inv_def)

lemma disp_waiters: "disp_inv lent d \<Longrightarrow> disp_inv lent (d\<lparr>dp_waiters := ws\<rparr>)"
  by (rule disp_cong) (simp_all add: held_def)

lemma disp_clear_waker: "disp_inv lent d \<Longrightarrow> disp_inv lent (snd (clear_waker op d))"
  by (simp add: clear_waker_def disp_waiters)

lemma disp_register: "disp_inv lent d \<Longrightarrow> disp_inv lent (snd (register_waker op w d))"
  by (simp add: register_waker_def disp_waiters)

lemma disp_take: "disp_inv lent d \<Longrightarrow> disp_inv lent (snd (take_completion op d))"
  by (rule disp_cong) (auto simp: take_completion_def held_def delete_fst)

lemma disp_abandoned: "disp_inv lent d \<Longrightarrow> disp_inv lent (d\<lparr>dp_abandoned := a\<rparr>)"
  by (rule disp_cong) (simp_all add: held_def)

lemma disp_abandon:
  assumes "disp_inv lent d"
  shows "disp_inv lent (abandon_operation op d)"
proof -
  let ?d1 = "snd (take_completion op (snd (clear_waker op d)))"
  have d1: "disp_inv lent ?d1" by (rule disp_take [OF disp_clear_waker [OF assms]])
  have "disp_inv lent (case on_ring (queue_cancel_operation op) (?d1\<lparr>dp_abandoned := a\<rparr>) of
      (Inr cancel, d) \<Rightarrow> d\<lparr>dp_abandoned := AList.update cancel (Cancel op) (dp_abandoned d)\<rparr> | (Inl _, d) \<Rightarrow> d)" for a
  proof -
    obtain r u where q: "queue_cancel_operation op (dp_ring ?d1) = (r, u)" by fastforce
    have "disp_inv lent (?d1\<lparr>dp_abandoned := a, dp_ring := u\<rparr>)"
      by (rule disp_queue_cancel [OF disp_abandoned [OF d1], where target = op and r = r]) (simp add: q)
    then show ?thesis
      using disp_abandoned [OF disp_queue_cancel [OF d1 q]] q by (cases r) (simp_all add: on_ring_def)
  qed
  then show ?thesis
    using d1 disp_abandoned [OF d1]
    by (simp add: abandon_operation_def case_prod_unfold Let_def split: option.splits)
qed

text \<open>A buffer leaves the dispatcher or a future only for an operation that is not active.\<close>

lemma disp_release:
  assumes "disp_inv lent d"
    and "\<And>e op. kn_ok (dp_ring d) \<Longrightarrow> e \<in># active (dp_ring d) \<Longrightarrow> op \<in> X \<Longrightarrow> sqe_user_data e \<noteq> op_raw op"
    and "\<And>op. kn_ok (dp_ring d) \<Longrightarrow> op \<in> X \<Longrightarrow> issued (dp_ring d) op"
    and "dp_ring d' = dp_ring d" "held lent' d' \<subseteq> held lent d" "held lent d \<subseteq> held lent' d' \<union> {p. fst p \<in> X}"
    and "released_ops d' \<subseteq> released_ops d \<union> X" "completed_ops d' \<subseteq> completed_ops d"
    and "kn_ok (dp_ring d) \<Longrightarrow> distinct (map fst lent' @ map fst (dp_deferred d'))"
  shows "disp_inv lent' d'"
proof -
  note d = disp_invD [OF assms(1)]
  have "safe_inv (dp_ring d) (held lent' d') (released_ops d') (completed_ops d')" if k: "kn_ok (dp_ring d)"
  proof -
    have "safe_inv (dp_ring d) (held lent' d') (released_ops d \<union> X) (completed_ops d)"
      by (rule safe_release [OF d(2) [OF k] assms(2) [OF k] assms(3) [OF k] assms(5,6)])
    then show ?thesis by (rule safe_consumed [OF safe_fewer [OF _ assms(7)] assms(8)])
  qed
  then show ?thesis using d(1) assms(4,9) by (simp add: disp_inv_def)
qed

text \<open>An operation that holds a buffer but is not tracked is not active.\<close>

lemma held_untracked_inactive:
  assumes "disp_inv lent d" "kn_ok (dp_ring d)" "op \<in> fst ` held lent d"
    "op \<notin> fst ` set (ur_operations (dp_ring d))" "e \<in># active (dp_ring d)"
  shows "sqe_user_data e \<noteq> op_raw op"
proof
  note d = disp_invD [OF assms(1)]
  assume eq: "sqe_user_data e = op_raw op"
  have "sqe_opcode e \<noteq> IORING_OP_ASYNC_CANCEL" by (rule safe_invD(4) [OF d(2) [OF assms(2)] assms(5,3) eq])
  moreover have "is_op_tag (sqe_user_data e)"
    using safe_invD(5) [OF d(2) [OF assms(2)], of op] assms(3) eq by (auto simp: issued_def op_id_tag)
  ultimately have "op \<in> fst ` set (ur_operations (dp_ring d))"
    using track_invD(7) [OF d(1) assms(2,5)] eq by (cases op) auto
  then show False using assms(4) by simp
qed

lemma abandon_fields:
  "dp_deferred (abandon_operation op d) = dp_deferred d" "dp_leaked (abandon_operation op d) = dp_leaked d"
  "dp_released (abandon_operation op d) = dp_released d"
  by (auto simp: abandon_operation_def clear_waker_def take_completion_def on_ring_def case_prod_unfold Let_def
      split: option.splits sum.splits)

lemma disp_defer:
  assumes "disp_inv ((op, b) # lent) d"
  shows "disp_inv lent (defer_buffer_drop op b d)"
proof -
  let ?d = "abandon_operation op d"
  have i: "disp_inv ((op, b) # lent) ?d" by (rule disp_abandon [OF assms])
  note d = disp_invD [OF i]
  have fr: "op \<notin> fst ` set lent \<and> op \<notin> fst ` set (dp_deferred ?d) \<and> distinct (map fst lent @ map fst (dp_deferred ?d))"
    if "kn_ok (dp_ring ?d)"
    using d(3) [OF that] by auto
  show ?thesis
  proof (cases "is_operation_tracked op (dp_ring ?d)")
    case True
    let ?e = "release_buffers (deferred_of op ?d) (?d\<lparr>dp_deferred := AList.update op b (dp_deferred ?d)\<rparr>)"
    have "disp_inv lent ?e" 
    proof (cases "kn_ok (dp_ring ?d)")
      case k: True
      have u: "AList.update op b (dp_deferred ?d) = dp_deferred ?d @ [(op, b)]" "deferred_of op ?d = []"
        using fr [OF k] update_fresh by (auto simp: deferred_of_def filter_empty_conv)
      have "held lent ?e = held ((op, b) # lent) ?d" by (auto simp: held_def release_buffers_def u)
      then show ?thesis
        using d fr [OF k] by (auto simp: disp_inv_def release_buffers_def u)
    next
      case False
      then show ?thesis using d(1) by (simp add: disp_inv_def release_buffers_def)
    qed
    then show ?thesis using True by (simp add: defer_buffer_drop_def Let_def)
  next
    case False
    have "disp_inv lent (release_buffers [(op, b)] ?d)"
    proof (rule disp_release [OF i, where X = "{op}"])
      fix e x assume k: "kn_ok (dp_ring ?d)" and e: "e \<in># active (dp_ring ?d)" and "x \<in> {op}"
      then show "sqe_user_data e \<noteq> op_raw x"
        using held_untracked_inactive [OF i k _ _ e, of op] False
        by (force simp: held_def is_operation_tracked_def map_of_eq_None_iff)
    next
      fix x assume k: "kn_ok (dp_ring ?d)" and "x \<in> {op}"
      then show "issued (dp_ring ?d) x" using safe_invD(5) [OF d(2) [OF k], of op] by (force simp: held_def)
    next
      assume k: "kn_ok (dp_ring ?d)"
      show "distinct (map fst lent @ map fst (dp_deferred (release_buffers [(op, b)] ?d)))"
        using fr [OF k] by (simp add: release_buffers_def)
    qed (auto simp: release_buffers_def held_def)
    then show ?thesis using False by (simp add: defer_buffer_drop_def Let_def)
  qed
qed

lemma disp_complete:
  assumes "disp_inv lent d" "ring_flow {#op_raw op#} (dp_ring d) v" "op \<in> fst ` set (ur_operations (dp_ring d))"
  defines "d' \<equiv> d\<lparr>dp_ring := remove_operation op v\<rparr>"
  shows "disp_inv lent d'" "kn_ok (dp_ring d') \<Longrightarrow> op_raw op \<notin># tags (dp_ring d')"
    "kn_ok (dp_ring d') \<Longrightarrow> issued (dp_ring d') op"
proof -
  note d = disp_invD [OF assms(1)]
  note f = ring_flowD [OF assms(2) track_invD(1) [OF d(1)]]
  have iss: "issued (dp_ring d) op" if "kn_ok v"
    using track_invD(6) [OF d(1) f(2) [OF that] assms(3)] by (simp add: issued_def)
  then have tag: "is_op_tag (op_raw op)" if "kn_ok v" using that by (auto simp: issued_def op_id_tag)
  have "safe_inv (remove_operation op v) (held lent d) (released_ops d) (completed_ops d)" if k: "kn_ok v"
    by (rule safe_same [OF safe_flow [OF d(2) [OF f(2) [OF k]] d(1) assms(2) k]]) simp_all
  then show "disp_inv lent d'"
    using track_complete [OF d(1) assms(2) tag] d(3) f(2) by (simp add: disp_inv_def d'_def held_def)
  show "kn_ok (dp_ring d') \<Longrightarrow> op_raw op \<notin># tags (dp_ring d')"
    using tag_handed_out(1) [OF d(1) assms(2) _ tag] by (simp add: d'_def)
  show "kn_ok (dp_ring d') \<Longrightarrow> issued (dp_ring d') op"
    using iss f(6) by (simp add: d'_def issued_def)
qed

lemma disp_dispatch_one:
  assumes "disp_inv lent d" "kn_ok (dp_ring d) \<Longrightarrow> op_raw (oc_operation oc) \<notin># tags (dp_ring d)"
    "kn_ok (dp_ring d) \<Longrightarrow> issued (dp_ring d) (oc_operation oc)"
  shows "disp_inv lent (dispatch_one oc d)"
proof (cases "map_of (dp_abandoned d) (oc_operation oc)")
  case None
  note i = disp_invD [OF assms(1)]
  let ?d = "dispatch_one oc d"
  have f: "dp_released ?d = dp_released d" "dp_deferred ?d = dp_deferred d" "dp_leaked ?d = dp_leaked d"
      "dp_completions ?d = AList.update (oc_operation oc) oc (dp_completions d)"
    using None by (simp_all add: dispatch_one_def Let_def split: option.splits)
  have "completed_ops ?d = insert (oc_operation oc) (completed_ops d)"
    using dom_update [of "oc_operation oc" oc "dp_completions d"] by (simp add: f)
  then show ?thesis
    using i safe_completed [OF i(2) assms(2,3)] by (simp add: disp_inv_def held_def f)
next
  case (Some k)
  let ?op = "oc_operation oc" and ?d = "dispatch_one oc d"
  have f: "dp_released ?d = dp_released d @ deferred_of ?op d" "dp_deferred ?d = AList.delete ?op (dp_deferred d)"
      "dp_leaked ?d = dp_leaked d" "dp_completions ?d = dp_completions d"
    using Some by (simp_all add: dispatch_one_def Let_def release_buffers_def deferred_of_def)
  have del: "set (AList.delete ?op (dp_deferred d)) = {p \<in> set (dp_deferred d). fst p \<noteq> ?op}"
    by (auto simp: AList.delete_eq)
  show ?thesis
  proof (rule disp_release [OF assms(1), where X = "{?op}"])
    show "kn_ok (dp_ring d) \<Longrightarrow> e \<in># active (dp_ring d) \<Longrightarrow> x \<in> {?op} \<Longrightarrow> sqe_user_data e \<noteq> op_raw x" for e x
      using assms(2) active_tags [of e "dp_ring d"] by auto
    show "kn_ok (dp_ring d) \<Longrightarrow> distinct (map fst lent @ map fst (dp_deferred ?d))"
      using disp_invD(3) [OF assms(1)] distinct_delete [of "dp_deferred d" ?op] by (auto simp: f delete_fst)
  qed (auto simp: f held_def del deferred_of_def assms(3))
qed

lemma disp_dispatch_loop: "disp_inv lent d \<Longrightarrow> disp_inv lent (snd (dispatch_loop limit n d))"
proof (induction limit n d rule: dispatch_loop.induct)
  case (1 limit n d)
  obtain r u where t: "try_operation_completion (dp_ring d) = (r, u)" by fastforce
  have o: "on_ring try_operation_completion d = (r, d\<lparr>dp_ring := u\<rparr>)" by (simp add: on_ring_def t)
  note sp = try_operation_spec [OF t]
  show ?case
  proof (cases "n < limit")
    case False
    then show ?thesis using "1.prems" by (subst dispatch_loop.simps) simp
  next
    case l: True
    show ?thesis
    proof (cases r)
      case None
      then show ?thesis using l o disp_flow [OF "1.prems" sp(1) [OF None]] by (subst dispatch_loop.simps) simp
    next
      case (Some oc)
      obtain v where v: "ring_flow {#op_raw (oc_operation oc)#} (dp_ring d) v"
          "u = remove_operation (oc_operation oc) v" "oc_operation oc \<in> fst ` set (ur_operations (dp_ring d))"
        using sp(2) [OF Some] by blast
      note c = disp_complete [OF "1.prems" v(1,3), folded v(2)]
      from "1.IH" [OF l o [symmetric] Some disp_dispatch_one [OF c]]
      show ?thesis using l o Some by (subst dispatch_loop.simps) simp
    qed
  qed
qed

lemma disp_dispatch: "disp_inv lent d \<Longrightarrow> disp_inv lent (snd (dispatch_available_limit limit d))"
  unfolding dispatch_available_limit_def by (rule disp_dispatch_loop)

lemma disp_dispatch_all: "disp_inv lent d \<Longrightarrow> disp_inv lent (snd (dispatch_available d))"
  unfolding dispatch_available_def by (rule disp_dispatch)

lemma disp_on_ring:
  assumes "disp_inv lent d" "\<And>r u. f (dp_ring d) = (r, u) \<Longrightarrow> ring_flow (out r) (dp_ring d) u"
  shows "disp_inv lent (snd (on_ring f d))"
proof -
  obtain r u where "f (dp_ring d) = (r, u)" by fastforce
  then show ?thesis using disp_flow [OF assms(1) assms(2)] by (simp add: on_ring_def)
qed

lemma disp_wait:
  assumes "disp_inv lent d"
  shows "disp_inv lent (snd (wait_and_dispatch n d))"
proof -
  obtain r e where w: "on_ring (wait_completions n) d = (r, e)" by fastforce
  have "disp_inv lent (snd (on_ring (wait_completions n) d))"
    by (rule disp_on_ring [OF assms flow_wait_completions])
  then have e: "disp_inv lent e" by (simp add: w)
  show ?thesis
    using e disp_dispatch_all [OF e] w
    by (auto simp: wait_and_dispatch_def case_prod_unfold Let_def split: option.splits sum.splits)
qed

lemma disp_drain_loop: "disp_inv lent d \<Longrightarrow> disp_inv lent (snd (drain_loop waits n d))"
proof (induction waits n d rule: drain_loop.induct)
  case (2 waits n d)
  obtain r e where w: "wait_and_dispatch 1 d = (r, e)" by fastforce
  have e: "disp_inv lent e" using disp_wait [OF "2.prems", of 1] w by simp
  show ?case
    using "2.prems" "2.IH" [OF _ w [symmetric] _ _ _ e] e w by (auto split: option.splits sum.splits)
qed simp

lemma disp_shutdown_loop: "disp_inv lent d \<Longrightarrow> disp_inv lent (snd (shutdown_loop waits n d))"
proof (induction waits n d rule: shutdown_loop.induct)
  case (2 waits n d)
  obtain r e where w: "wait_and_dispatch 1 d = (r, e)" by fastforce
  have e: "disp_inv lent e" using disp_wait [OF "2.prems", of 1] w by simp
  show ?case
    using "2.prems" "2.IH" [OF _ w [symmetric] _ _ e] e w by (auto split: option.splits sum.splits)
qed simp

lemma disp_drain: "disp_inv lent d \<Longrightarrow> disp_inv lent (snd (drain_until_idle waits d))"
  using disp_drain_loop disp_dispatch_all
  by (simp add: drain_until_idle_def case_prod_unfold Let_def)

lemma disp_leak: "disp_inv lent d \<Longrightarrow> disp_inv lent (snd (leak_deferred_buffers d))"
proof -
  have "held lent (snd (leak_deferred_buffers d)) = held lent d" by (auto simp: leak_deferred_buffers_def held_def)
  then show "disp_inv lent d \<Longrightarrow> disp_inv lent (snd (leak_deferred_buffers d))"
    by (simp add: disp_inv_def) (auto simp: leak_deferred_buffers_def)
qed

lemma disp_record: "disp_inv lent d \<Longrightarrow> disp_inv lent (snd (record_drain st w n l d))"
  by (rule disp_cong) (simp_all add: record_drain_def Let_def held_def)

lemma disp_shutdown:
  assumes "disp_inv lent d"
  shows "disp_inv lent (snd (shutdown_drain waits d))"
proof (cases "dp_waiters d = []")
  case True
  obtain n e where a: "dispatch_available d = (n, e)" by fastforce
  have e: "disp_inv lent e" using disp_dispatch_all [OF assms] a by simp
  obtain r g where l: "shutdown_loop waits n e = (r, g)" by fastforce
  have g: "disp_inv lent g" using disp_shutdown_loop [OF e, of waits n] l by simp
  show ?thesis
    using True a l g disp_record [OF g] disp_record [OF disp_leak [OF g]]
    by (auto simp: shutdown_drain_def case_prod_unfold Let_def split: option.splits)
next
  case False
  then show ?thesis using disp_record [OF assms] by (simp add: shutdown_drain_def)
qed

text \<open>When the drain gives up with tracked operations it has leaked every deferred buffer; without
  tracked operations no read or write is active.\<close>

lemma shutdown_outcome:
  assumes "shutdown_drain waits d = (Some outcome, d')" "dp_waiters d = []"
  shows "dp_deferred d' = [] \<or> ur_operations (dp_ring d') = []"
  using assms
  by (auto simp: shutdown_drain_def record_drain_def leak_deferred_buffers_def case_prod_unfold Let_def
      dispatcher_is_idle_def dispatcher_snapshot_idle_def dispatcher_snapshot_of_def split: option.splits if_splits)

lemma disp_drop:
  assumes "disp_inv lent d"
  shows "disp_inv lent (snd (dispatcher_drop d))"
proof -
  let ?d = "d\<lparr>dp_waiters := []\<rparr>"
  obtain r e where s: "shutdown_drain DROP_DRAIN_MAX_WAITS ?d = (r, e)" by fastforce
  have e: "disp_inv lent e"
    using disp_shutdown [OF disp_waiters [OF assms]] s by (metis snd_conv)
  show ?thesis
  proof (cases r)
    case None
    then show ?thesis using s e by (simp add: dispatcher_drop_def)
  next
    case (Some outcome)
    have o: "dp_deferred e = [] \<or> ur_operations (dp_ring e) = []"
      using shutdown_outcome [of _ ?d outcome e] s Some by simp
    have "disp_inv lent (release_buffers (dp_deferred e) (e\<lparr>dp_deferred := []\<rparr>))"
    proof (rule disp_release [OF e, where X = "fst ` set (dp_deferred e)"])
      fix x op assume k: "kn_ok (dp_ring e)" and x: "x \<in># active (dp_ring e)" and op: "op \<in> fst ` set (dp_deferred e)"
      have "op \<in> fst ` held lent e" using op by (auto simp: held_def image_Un)
      moreover have "op \<notin> fst ` set (ur_operations (dp_ring e))" using o op by auto
      ultimately show "sqe_user_data x \<noteq> op_raw op" by (rule held_untracked_inactive [OF e k _ _ x])
    next
      fix op assume k: "kn_ok (dp_ring e)" and op: "op \<in> fst ` set (dp_deferred e)"
      show "issued (dp_ring e) op"
        by (rule safe_invD(5) [OF disp_invD(2) [OF e k]]) (use op in \<open>auto simp: held_def image_Un\<close>)
    next
      assume "kn_ok (dp_ring e)"
      then show "distinct (map fst lent @ map fst (dp_deferred (release_buffers (dp_deferred e) (e\<lparr>dp_deferred := []\<rparr>))))"
        using disp_invD(3) [OF e] by (simp add: release_buffers_def)
    qed (auto simp: release_buffers_def held_def)
    then show ?thesis using s Some by (simp add: dispatcher_drop_def)
  qed
qed

end
