(* ===== verification/Uring_System.thy ===== *)
theory Uring_System
  imports Uring_Safety
begin

text \<open>
  Histories of one dispatcher: the futures that hold a reference to it, the calls a program can make
  on it and on its ring, and finally its drop, which happens when no future is left.  Between and
  inside the calls the kernel consumes entries and posts completions.
\<close>

subsection \<open>Histories\<close>

record uring_system =
  sy_disp :: dispatcher
  sy_ops :: "operation_id list"
  sy_futures :: "buffer_future list"
  sy_dropped :: bool

datatype (plugins only: code size) uring_event =
    OpNop
  | OpTimeout duration u64
  | OpCancel operation_id
  | QueueReadFuture i32 buffer u64
  | QueueWriteFuture i32 buffer u64
  | RawNop u64
  | RawRead i32 u64 nat u64 u64
  | RawWrite i32 u64 nat u64 u64
  | PollOp waker nat
  | DropOp nat
  | PollFuture waker nat
  | DropFuture nat
  | RegisterWaker operation_id waker
  | ClearWaker operation_id
  | TakeCompletion operation_id
  | AbandonOperation operation_id
  | SubmitPending
  | DispatchLimit u64
  | WaitDispatch nat
  | DrainUntilIdle nat
  | ShutdownDrain nat
  | TryCompletion
  | WaitFor u64
  | TryOperation
  | WaitOperation operation_id
  | WaitCompletions nat
  | CancelOperation operation_id
  | DropDispatcher

definition sys_new :: "nat \<Rightarrow> nat \<Rightarrow> enter_answer list \<Rightarrow> posted list list \<Rightarrow> uring_system" where
  "sys_new k j answers arrivals =
     \<lparr>sy_disp = dispatcher_new (uring_new (2 ^ k) (2 ^ j) answers arrivals), sy_ops = [], sy_futures = [], sy_dropped = False\<rparr>"

definition new_op :: "(io_error + operation_id) \<times> dispatcher \<Rightarrow> uring_system \<Rightarrow> uring_system" where
  "new_op r s = s\<lparr>sy_disp := snd r, sy_ops := sy_ops s @ (case fst r of Inl _ \<Rightarrow> [] | Inr op \<Rightarrow> [op])\<rparr>"

definition new_future :: "(io_error + buffer_future) \<times> dispatcher \<Rightarrow> uring_system \<Rightarrow> uring_system" where
  "new_future r s = s\<lparr>sy_disp := snd r, sy_futures := sy_futures s @ (case fst r of Inl _ \<Rightarrow> [] | Inr f \<Rightarrow> [f])\<rparr>"

fun live_step :: "uring_event \<Rightarrow> uring_system \<Rightarrow> uring_system" where
  "live_step OpNop s = new_op (on_ring queue_nop_operation (sy_disp s)) s"
| "live_step (OpTimeout d a) s = new_op (on_ring (queue_timeout_operation d a) (sy_disp s)) s"
| "live_step (OpCancel target) s = new_op (on_ring (queue_cancel_operation target) (sy_disp s)) s"
| "live_step (QueueReadFuture fd b off) s = new_future (read_future_queue fd b off (sy_disp s)) s"
| "live_step (QueueWriteFuture fd b off) s = new_future (write_future_queue fd b off (sy_disp s)) s"
| "live_step (RawNop t) s = s\<lparr>sy_disp := snd (on_ring (queue_nop t) (sy_disp s))\<rparr>"
| "live_step (RawRead fd a n off t) s = s\<lparr>sy_disp := snd (on_ring (queue_read fd a n off t) (sy_disp s))\<rparr>"
| "live_step (RawWrite fd a n off t) s = s\<lparr>sy_disp := snd (on_ring (queue_write fd a n off t) (sy_disp s))\<rparr>"
| "live_step (PollOp w i) s =
     (if i < length (sy_ops s) then s\<lparr>sy_disp := snd (operation_poll w (sy_ops s ! i) (sy_disp s))\<rparr> else s)"
| "live_step (DropOp i) s =
     (if i < length (sy_ops s)
      then s\<lparr>sy_disp := operation_future_drop (sy_ops s ! i) (sy_disp s), sy_ops := remove_at i (sy_ops s)\<rparr> else s)"
| "live_step (PollFuture w i) s =
     (if i < length (sy_futures s)
      then (let (_, f, d) = buffer_future_poll w (sy_futures s ! i) (sy_disp s)
            in s\<lparr>sy_disp := d, sy_futures := (sy_futures s)[i := f]\<rparr>) else s)"
| "live_step (DropFuture i) s =
     (if i < length (sy_futures s)
      then s\<lparr>sy_disp := buffer_future_drop (sy_futures s ! i) (sy_disp s), sy_futures := remove_at i (sy_futures s)\<rparr> else s)"
| "live_step (RegisterWaker op w) s = s\<lparr>sy_disp := snd (register_waker op w (sy_disp s))\<rparr>"
| "live_step (ClearWaker op) s = s\<lparr>sy_disp := snd (clear_waker op (sy_disp s))\<rparr>"
| "live_step (TakeCompletion op) s = s\<lparr>sy_disp := snd (take_completion op (sy_disp s))\<rparr>"
| "live_step (AbandonOperation op) s = s\<lparr>sy_disp := abandon_operation op (sy_disp s)\<rparr>"
| "live_step SubmitPending s = s\<lparr>sy_disp := snd (dispatcher_submit_pending (sy_disp s))\<rparr>"
| "live_step (DispatchLimit n) s = s\<lparr>sy_disp := snd (dispatch_available_limit n (sy_disp s))\<rparr>"
| "live_step (WaitDispatch n) s = s\<lparr>sy_disp := snd (wait_and_dispatch n (sy_disp s))\<rparr>"
| "live_step (DrainUntilIdle n) s = s\<lparr>sy_disp := snd (drain_until_idle n (sy_disp s))\<rparr>"
| "live_step (ShutdownDrain n) s = s\<lparr>sy_disp := snd (shutdown_drain n (sy_disp s))\<rparr>"
| "live_step TryCompletion s = s\<lparr>sy_disp := snd (on_ring try_completion (sy_disp s))\<rparr>"
| "live_step (WaitFor t) s = s\<lparr>sy_disp := snd (on_ring (wait_for_completion t) (sy_disp s))\<rparr>"
| "live_step TryOperation s = s\<lparr>sy_disp := snd (on_ring try_operation_completion (sy_disp s))\<rparr>"
| "live_step (WaitOperation op) s = s\<lparr>sy_disp := snd (on_ring (wait_operation_completion op) (sy_disp s))\<rparr>"
| "live_step (WaitCompletions n) s = s\<lparr>sy_disp := snd (on_ring (wait_completions n) (sy_disp s))\<rparr>"
| "live_step (CancelOperation op) s = s\<lparr>sy_disp := snd (on_ring (cancel_operation op) (sy_disp s))\<rparr>"
| "live_step DropDispatcher s =
     (if sy_ops s = [] \<and> sy_futures s = []
      then s\<lparr>sy_disp := snd (dispatcher_drop (sy_disp s)), sy_dropped := True\<rparr> else s)"

definition sys_step :: "uring_event \<Rightarrow> uring_system \<Rightarrow> uring_system" where
  "sys_step ev s = (if sy_dropped s then s else live_step ev s)"

text \<open>Raw operations keep to the lower half of the tags.\<close>

fun raw_ok :: "uring_event \<Rightarrow> bool" where
  "raw_ok (RawNop t) \<longleftrightarrow> \<not> is_op_tag t"
| "raw_ok (RawRead _ _ _ _ t) \<longleftrightarrow> \<not> is_op_tag t"
| "raw_ok (RawWrite _ _ _ _ t) \<longleftrightarrow> \<not> is_op_tag t"
| "raw_ok _ \<longleftrightarrow> True"

definition future_buffers :: "buffer_future list \<Rightarrow> (operation_id \<times> buffer) list" where
  "future_buffers fs =
     concat (map (\<lambda>f. map (Pair (bf_operation f)) (opt_list (bf_buffer f))) fs)"

subsection \<open>The invariant of histories\<close>

lemma disp_mset:
  assumes "disp_inv lent d" "mset lent' = mset lent"
  shows "disp_inv lent' d"
proof -
  have "set lent' = set lent" by (rule mset_eq_setD [OF assms(2)])
  moreover have "distinct (map fst lent') = distinct (map fst lent)"
    using assms(2) by (metis mset_eq_imp_distinct_iff mset_map)
  ultimately show ?thesis using assms(1) by (auto simp: disp_inv_def held_def)
qed

lemma disp_raw:
  assumes "disp_inv lent d" "queues q g" "\<not> is_op_tag t"
  shows "disp_inv lent (snd (on_ring (q t) d))"
proof -
  note d = disp_invD [OF assms(1)]
  obtain r u where q: "q t (dp_ring d) = (r, u)" by fastforce
  have "disp_inv lent (d\<lparr>dp_ring := u\<rparr>)"
  proof (cases "u = dp_ring d")
    case True
    then show ?thesis using assms(1) by simp
  next
    case False
    then have qs: "queue_sqe (\<lambda>_. g t) (dp_ring d) = (r, u)"
      using assms(2) [unfolded queues_def, THEN conjunct1, rule_format, of t "dp_ring d"] q by auto
    show ?thesis
    proof (cases "kn_ok (dp_ring d)")
      case k: False
      then show ?thesis
        using queue_sqe_geo [OF qs] d(1) by (simp add: disp_inv_def track_inv_def ring_inv_def)
    next
      case k: True
      note i = track_invD(1) [OF d(1)]
      have u: "u = sqe_queued (g t) (dp_ring d)" "length (sq_entries (dp_ring d)) < sq_size (dp_ring d)"
        using qs False by (rule_tac queue_sqe_cases [OF i k, of "\<lambda>_. g t"]; auto)+
      have g: "sqe_user_data (g t) = t" using assms(2) by (simp add: queues_def)
      note n = ring_inv_queued [OF i k u(2), of "g t", folded u(1)]
      have tr: "track_inv u" unfolding u(1) by (rule track_queued [OF d(1) k u(2)]) (use assms(3) g in auto)
      have raw: "op_raw op \<noteq> t" if "issued (dp_ring d) op" for op
        using that assms(3) op_id_tag by (auto simp: issued_def)
      note s = d(2) [OF k]
      have "safe_inv u (held lent d) (released_ops d) (completed_ops d)"
        using s raw [OF safe_invD(5) [OF s]] assms(3) g unfolding safe_inv_def n(2,3)
        by (auto simp: u(1) issued_def)
      then show ?thesis using tr d(3) [OF k] by (simp add: disp_inv_def held_def)
    qed
  qed
  then show ?thesis by (simp add: on_ring_def q)
qed

lemma disp_poll:
  assumes "disp_inv lent d" "operation_poll w op d = (r, d')"
  shows "disp_inv lent d'" "r = Ready c \<Longrightarrow> kn_ok (dp_ring d') \<Longrightarrow> op_raw op \<notin># tags (dp_ring d') \<and> issued (dp_ring d') op"
proof -
  obtain n e where a: "dispatch_available d = (n, e)" by fastforce
  have e: "disp_inv lent e" using disp_dispatch_all [OF assms(1)] a by simp
  let ?t = "snd (take_completion op e)"
  have t: "disp_inv lent ?t" by (rule disp_take [OF e])
  have reg: "fst (register_waker op w ?t) \<Longrightarrow> False"
    by (simp add: register_waker_def take_completion_def delete_conv')
  show "disp_inv lent d'"
    using assms(2) a t disp_register [OF t, of op w] reg
    by (auto simp: operation_poll_def case_prod_unfold Let_def split: option.splits if_splits)
  show "op_raw op \<notin># tags (dp_ring d') \<and> issued (dp_ring d') op" if "r = Ready c" "kn_ok (dp_ring d')"
  proof -
    have c: "map_of (dp_completions e) op = Some c" "d' = ?t"
      using assms(2) a reg that(1)
      by (auto simp: operation_poll_def take_completion_def case_prod_unfold Let_def split: option.splits if_splits)
    then have "op \<in> completed_ops e" by (metis domI dom_map_of_conv_image_fst)
    then show ?thesis
      using safe_invD(1,5) [OF disp_invD(2) [OF e]] that(2) c(2) by (simp add: take_completion_def)
  qed
qed

lemma future_buffers_update:
  assumes "i < length fs" "bf_operation (fs ! i) = op" "bf_buffer (fs ! i) = Some b"
  shows "mset (future_buffers fs) = mset ((op, b) # future_buffers (fs[i := (fs ! i)\<lparr>bf_buffer := None\<rparr>]))"
    "mset (future_buffers fs) = mset ((op, b) # future_buffers (remove_at i fs))"
proof -
  show "mset (future_buffers fs) = mset ((op, b) # future_buffers (fs[i := (fs ! i)\<lparr>bf_buffer := None\<rparr>]))"
    using mset_concat_map_update [OF assms(1), of "\<lambda>f. map (Pair (bf_operation f)) (opt_list (bf_buffer f))"
        "(fs ! i)\<lparr>bf_buffer := None\<rparr>"] assms(2,3)
    by (simp add: future_buffers_def)
  have "fs = take i fs @ fs ! i # drop (Suc i) fs" by (rule id_take_nth_drop [OF assms(1)])
  then have "mset (future_buffers fs) = mset (future_buffers (take i fs @ fs ! i # drop (Suc i) fs))" by simp
  then show "mset (future_buffers fs) = mset ((op, b) # future_buffers (remove_at i fs))"
    using assms(2,3) by (simp add: future_buffers_def remove_at_def)
qed

lemma future_buffers_remove:
  assumes "i < length fs" "bf_buffer (fs ! i) = None"
  shows "future_buffers (remove_at i fs) = future_buffers fs"
proof -
  have "fs = take i fs @ fs ! i # drop (Suc i) fs" by (rule id_take_nth_drop [OF assms(1)])
  then have "future_buffers fs = future_buffers (take i fs @ fs ! i # drop (Suc i) fs)" by simp
  then show ?thesis using assms(2) by (auto simp: future_buffers_def remove_at_def split: option.splits)
qed

lemma disp_future_poll:
  assumes "disp_inv (future_buffers fs) d" "i < length fs" "buffer_future_poll w (fs ! i) d = (r, f, d')"
  shows "disp_inv (future_buffers (fs[i := f])) d'"
proof -
  let ?op = "bf_operation (fs ! i)"
  obtain p e where p: "operation_poll w ?op d = (p, e)" by fastforce
  note e = disp_poll [OF assms(1) p]
  show ?thesis
  proof (cases "(\<exists>c. p = Ready c) \<and> bf_buffer (fs ! i) \<noteq> None")
    case False
    then have "f = fs ! i" "d' = e"
      using assms(3) p by (auto simp: buffer_future_poll_def split: poll.splits option.splits)
    then show ?thesis using e(1) by simp
  next
    case True
    then obtain c b where c: "p = Ready c" "bf_buffer (fs ! i) = Some b" by auto
    let ?fs = "fs[i := (fs ! i)\<lparr>bf_buffer := None\<rparr>]"
    have f: "f = (fs ! i)\<lparr>bf_buffer := None\<rparr>" "d' = release_buffers [(?op, b)] e"
      using assms(3) p c by (auto simp: buffer_future_poll_def)
    have i: "disp_inv ((?op, b) # future_buffers ?fs) e"
      by (rule disp_mset [OF e(1)]) (simp only: future_buffers_update(1) [OF assms(2) refl c(2)])
    have "disp_inv (future_buffers ?fs) (release_buffers [(?op, b)] e)"
    proof (rule disp_release [OF i, where X = "{?op}"])
      fix x y assume "kn_ok (dp_ring e)" "x \<in># active (dp_ring e)" "y \<in> {?op}"
      then show "sqe_user_data x \<noteq> op_raw y" using e(2) [OF c(1)] active_tags [of x "dp_ring e"] by auto
    qed (use e(2) [OF c(1)] disp_invD(3) [OF i] in \<open>auto simp: release_buffers_def held_def\<close>)
    then show ?thesis by (simp add: f)
  qed
qed

lemma disp_future_drop:
  assumes "disp_inv (future_buffers fs) d" "i < length fs"
  shows "disp_inv (future_buffers (remove_at i fs)) (buffer_future_drop (fs ! i) d)"
proof (cases "bf_buffer (fs ! i)")
  case None
  then show ?thesis
    using assms future_buffers_remove [OF assms(2)] disp_abandon
    by (simp add: buffer_future_drop_def operation_future_drop_def)
next
  case (Some b)
  have "disp_inv ((bf_operation (fs ! i), b) # future_buffers (remove_at i fs)) d"
    by (rule disp_mset [OF assms(1)]) (simp only: future_buffers_update(2) [OF assms(2) refl Some])
  then show ?thesis
    using disp_abandon [OF disp_defer] Some by (simp add: buffer_future_drop_def operation_future_drop_def)
qed

lemma disp_ring_complete:
  assumes "disp_inv lent d"
  shows "disp_inv lent (snd (on_ring try_operation_completion d))"
    "disp_inv lent (snd (on_ring (wait_operation_completion op) d))"
proof -
  obtain r u where t: "try_operation_completion (dp_ring d) = (r, u)" by fastforce
  note sp = try_operation_spec [OF t]
  have "disp_inv lent (d\<lparr>dp_ring := u\<rparr>)"
  proof (cases r)
    case None
    then show ?thesis using disp_flow [OF assms sp(1)] by simp
  next
    case (Some oc)
    obtain v where "ring_flow {#op_raw (oc_operation oc)#} (dp_ring d) v" "u = remove_operation (oc_operation oc) v"
        "oc_operation oc \<in> fst ` set (ur_operations (dp_ring d))"
      using sp(2) [OF Some] by blast
    then show ?thesis using disp_complete(1) [OF assms] by simp
  qed
  then show "disp_inv lent (snd (on_ring try_operation_completion d))" by (simp add: on_ring_def t)
  obtain q v where w: "wait_for_completion (op_raw op) (dp_ring d) = (q, v)" by fastforce
  note f = flow_wait_for [OF w]
  have v: "disp_inv lent (d\<lparr>dp_ring := v\<rparr>)" by (rule disp_flow [OF assms f])
  have ops: "ur_operations v = ur_operations (dp_ring d)" using f by (simp add: ring_flow_def)
  show "disp_inv lent (snd (on_ring (wait_operation_completion op) d))"
  proof (cases "\<exists>c st. q = Some (Inr c) \<and> map_of (ur_operations v) op = Some st")
    case True
    then obtain c st where c: "q = Some (Inr c)" "map_of (ur_operations v) op = Some st" by blast
    have "op \<in> fst ` set (ur_operations (dp_ring d))" using c(2) ops by (metis domI dom_map_of_conv_image_fst)
    then have "disp_inv lent (d\<lparr>dp_ring := remove_operation op v\<rparr>)"
      using disp_complete(1) [OF assms] f c(1) by simp
    then show ?thesis using w c by (simp add: on_ring_def wait_operation_completion_def complete_operation_def)
  next
    case False
    then have "snd (wait_operation_completion op (dp_ring d)) = v"
      using w by (auto simp: wait_operation_completion_def complete_operation_def split: option.splits sum.splits)
    then show ?thesis using v by (simp add: on_ring_def case_prod_unfold)
  qed
qed

text \<open>A failed \<open>cancel_operation\<close> forgets a cancellation whose entry stays queued.\<close>

lemma disp_cancel:
  assumes "disp_inv lent d"
  shows "disp_inv lent (snd (on_ring (cancel_operation target) d))"
proof -
  note d = disp_invD [OF assms]
  obtain r u where q: "queue_cancel_operation target (dp_ring d) = (r, u)" by fastforce
  have u: "disp_inv lent (d\<lparr>dp_ring := u\<rparr>)" by (rule disp_queue_cancel [OF assms q])
  show ?thesis
  proof (cases r)
    case (Inl e)
    then show ?thesis using u q by (simp add: on_ring_def cancel_operation_def)
  next
    case (Inr op)
    obtain s v where s: "submit_pending u = (s, v)" by fastforce
    have fv: "ring_flow {#} u v" using flow_submit [of u 0] s by (simp add: submit_pending_def)
    then have v: "disp_inv lent (d\<lparr>dp_ring := v\<rparr>)" using disp_flow [OF u] by simp
    have "disp_inv lent (d\<lparr>dp_ring := remove_operation op v\<rparr>)"
    proof -
      have "track_inv (remove_operation op v)"
      proof (rule track_remove)
        show "track_inv v" using disp_invD(1) [OF v] by simp
        fix e assume e: "kn_ok v" "e \<in># active v" "sqe_opcode e \<noteq> IORING_OP_ASYNC_CANCEL"
        note sp = queue_tracked_spec [OF d(1) queues_cancel q [unfolded queue_cancel_operation_def]]
        note fd = ring_flowD [OF fv track_invD(1) [OF sp(1)]]
        have k: "kn_ok (dp_ring d)" using fd(2) [OF e(1)] sp(2) by simp
        note o = sp(4) [OF k Inr]
        have "e \<in># active u" using mset_subset_eqD [OF fd(4) [OF e(1)] e(2)] .
        then have "e \<in># active (dp_ring d)" using o e(3) by auto
        then show "sqe_user_data e \<noteq> op_raw op" using active_tags [of e "dp_ring d"] o by auto
      qed
      then show ?thesis
        using v safe_same [of v _ _ _ "remove_operation op v"] by (simp add: disp_inv_def held_def)
    qed
    then show ?thesis
      using q Inr s v by (auto simp: on_ring_def cancel_operation_def split: option.splits sum.splits)
  qed
qed

definition sys_inv :: "uring_system \<Rightarrow> bool" where
  "sys_inv s \<longleftrightarrow> disp_inv (future_buffers (sy_futures s)) (sy_disp s)"

lemma sys_inv_new: "k \<le> 31 \<Longrightarrow> j \<le> 31 \<Longrightarrow> sys_inv (sys_new k j answers arrivals)"
  using uring_new_ring [of k j answers arrivals]
  by (simp add: sys_inv_def sys_new_def disp_inv_def dispatcher_new_def held_def safe_inv_def future_buffers_def
      active_def sq_entries_def ring_window_def) (simp add: uring_new_def)

lemma sys_new_op:
  assumes "sys_inv s" "disp_inv (future_buffers (sy_futures s)) (snd r)"
  shows "sys_inv (new_op r s)"
  using assms by (simp add: sys_inv_def new_op_def)

lemma disp_rw_future:
  assumes "disp_inv lent d" "queue_tracked kind t (queue_buffer_operation opcode fd (buf_addr b) (buf_len b) off) (dp_ring d) = (r, u)"
    "rw_opcode opcode"
  shows "disp_inv (case r of Inl _ \<Rightarrow> lent | Inr op \<Rightarrow> (op, b) # lent) (d\<lparr>dp_ring := u\<rparr>)"
proof (cases "buf_len b < 2 ^ 32")
  case True
  show ?thesis
    by (rule disp_queue_rw [OF assms(1) queues_buffer assms(2)])
      (use True assms(3) in \<open>auto simp: unat_of_nat take_bit_nat_eq_self\<close>)
next
  case False
  let ?g = "\<lambda>t. clear_sqe\<lparr>sqe_opcode := IORING_OP_NOP, sqe_user_data := t\<rparr>"
  have q: "queues (queue_buffer_operation opcode fd (buf_addr b) (buf_len b) off) ?g"
    using False by (simp add: queues_def queue_buffer_operation_def)
  have "disp_inv lent (d\<lparr>dp_ring := u\<rparr>)"
    by (rule disp_queue [OF assms(1) q assms(2)])
      (simp add: rw_opcode_def IORING_OP_NOP_def IORING_OP_READ_def IORING_OP_WRITE_def)
  moreover have "\<exists>e. r = Inl e"
    using assms(2) False by (auto simp: queue_tracked_def queue_buffer_operation_def split: prod.splits sum.splits)
  ultimately show ?thesis by auto
qed

lemma sys_new_future:
  assumes "sys_inv s" "disp_inv (case r of Inl _ \<Rightarrow> future_buffers (sy_futures s)
      | Inr op \<Rightarrow> (op, b) # future_buffers (sy_futures s)) d"
  shows "sys_inv (new_future (case r of Inl e \<Rightarrow> (Inl e, d) | Inr op \<Rightarrow> (Inr \<lparr>bf_operation = op, bf_buffer = Some b\<rparr>, d)) s)"
proof (cases r)
  case (Inl e)
  then show ?thesis using assms(2) by (simp add: sys_inv_def new_future_def)
next
  case (Inr op)
  then show ?thesis using disp_mset [OF assms(2)] by (simp add: sys_inv_def new_future_def future_buffers_def)
qed

lemma sys_inv_live:
  assumes "sys_inv s" "raw_ok ev"
  shows "sys_inv (live_step ev s)"
proof -
  note i = assms(1) [unfolded sys_inv_def]
  have nrw: "\<not> rw_opcode IORING_OP_NOP" "\<not> rw_opcode IORING_OP_TIMEOUT" "\<not> rw_opcode IORING_OP_ASYNC_CANCEL"
      "rw_opcode IORING_OP_READ" "rw_opcode IORING_OP_WRITE"
    by (simp_all add: rw_opcode_def IORING_OP_NOP_def IORING_OP_TIMEOUT_def IORING_OP_ASYNC_CANCEL_def
        IORING_OP_READ_def IORING_OP_WRITE_def)
  show ?thesis
  proof (cases ev)
    case OpNop
    show ?thesis
      unfolding OpNop live_step.simps
      by (rule sys_new_op [OF assms(1)])
        (use disp_queue [OF i queues_nop] nrw in \<open>simp add: on_ring_def queue_nop_operation_def split: prod.splits\<close>)
  next
    case (OpTimeout x a)
    show ?thesis
      unfolding OpTimeout live_step.simps
      by (rule sys_new_op [OF assms(1)])
        (use i disp_queue [OF i queues_timeout] nrw in \<open>auto simp: on_ring_def queue_timeout_operation_def split: prod.splits sum.splits\<close>)
  next
    case (OpCancel x)
    show ?thesis
      unfolding OpCancel live_step.simps
      by (rule sys_new_op [OF assms(1)]) (use disp_queue_cancel [OF i] in \<open>simp add: on_ring_def split: prod.splits\<close>)
  next
    case (QueueReadFuture fd b off)
    obtain r u where q: "queue_read_operation fd (buf_addr b) (buf_len b) off (dp_ring (sy_disp s)) = (r, u)" by fastforce
    have "disp_inv (case r of Inl _ \<Rightarrow> future_buffers (sy_futures s) | Inr op \<Rightarrow> (op, b) # future_buffers (sy_futures s)) ((sy_disp s)\<lparr>dp_ring := u\<rparr>)"
      by (rule disp_rw_future [OF i _ nrw(4)])
        (use q in \<open>simp add: queue_read_operation_def queue_read_def [abs_def]\<close>)
    from sys_new_future [OF assms(1) this] show ?thesis
      unfolding QueueReadFuture live_step.simps by (simp add: read_future_queue_def on_ring_def q)
  next
    case (QueueWriteFuture fd b off)
    obtain r u where q: "queue_write_operation fd (buf_addr b) (buf_len b) off (dp_ring (sy_disp s)) = (r, u)" by fastforce
    have "disp_inv (case r of Inl _ \<Rightarrow> future_buffers (sy_futures s) | Inr op \<Rightarrow> (op, b) # future_buffers (sy_futures s)) ((sy_disp s)\<lparr>dp_ring := u\<rparr>)"
      by (rule disp_rw_future [OF i _ nrw(5)])
        (use q in \<open>simp add: queue_write_operation_def queue_write_def [abs_def]\<close>)
    from sys_new_future [OF assms(1) this] show ?thesis
      unfolding QueueWriteFuture live_step.simps by (simp add: write_future_queue_def on_ring_def q)
  next
    case (RawNop t)
    then show ?thesis using disp_raw [OF i queues_nop] assms(2) by (simp add: sys_inv_def)
  next
    case (RawRead fd a n off t)
    then show ?thesis using disp_raw [OF i queues_buffer] assms(2) by (simp add: sys_inv_def queue_read_def [abs_def])
  next
    case (RawWrite fd a n off t)
    then show ?thesis using disp_raw [OF i queues_buffer] assms(2) by (simp add: sys_inv_def queue_write_def [abs_def])
  next
    case (PollOp w n)
    then show ?thesis using assms(1) disp_poll(1) [OF i] by (simp add: sys_inv_def) (metis prod.collapse)
  next
    case (DropOp n)
    then show ?thesis using assms(1) disp_abandon [OF i] by (simp add: sys_inv_def operation_future_drop_def)
  next
    case (PollFuture w n)
    then show ?thesis
      using assms(1) disp_future_poll [OF i] by (auto simp: sys_inv_def Let_def split: prod.splits)
  next
    case (DropFuture n)
    then show ?thesis using assms(1) disp_future_drop [OF i] by (simp add: sys_inv_def)
  next
    case SubmitPending
    then show ?thesis
      using disp_on_ring [OF i, of submit_pending "\<lambda>_. {#}"] flow_submit [of "dp_ring (sy_disp s)" 0]
      by (simp add: sys_inv_def dispatcher_submit_pending_def submit_pending_def [abs_def]) (metis snd_conv)
  next
    case TryCompletion
    then show ?thesis using disp_on_ring [OF i flow_try_completion] by (simp add: sys_inv_def)
  next
    case (WaitFor t)
    then show ?thesis using disp_on_ring [OF i flow_wait_for] by (simp add: sys_inv_def)
  next
    case (WaitCompletions n)
    then show ?thesis using disp_on_ring [OF i flow_wait_completions] by (simp add: sys_inv_def)
  next
    case DropDispatcher
    then show ?thesis using assms(1) disp_drop [OF i] by (auto simp: sys_inv_def)
  qed (use i in \<open>simp_all add: sys_inv_def disp_register disp_clear_waker disp_take disp_abandon disp_dispatch disp_wait
      disp_drain disp_shutdown disp_ring_complete disp_cancel disp_drop\<close>)
qed

lemma sys_inv_run: "sys_inv s \<Longrightarrow> \<forall>ev\<in>set evs. raw_ok ev \<Longrightarrow> sys_inv (fold sys_step evs s)"
  by (induction evs arbitrary: s) (simp_all add: sys_step_def sys_inv_live)

subsection \<open>Memory safety\<close>


definition one_read :: uring_system where
  "one_read = fold sys_step [QueueReadFuture 3 (Buffer 64 16) 0, SubmitPending, DropFuture 0]
     (sys_new 1 1 [\<lparr>ea_result = Inr 1, ea_consumed = 1, ea_posted = []\<rparr>] [])"


subsection \<open>Operation identifiers\<close>

lemma sequence_less:
  assumes "n < unat m" "m \<le> OPERATION_USER_DATA_BASE"
  shows "op_sequence (op_id n) < m"
proof -
  have "unat OPERATION_USER_DATA_BASE = 2 ^ 63" by (simp add: OPERATION_USER_DATA_BASE_def)
  then have n: "n < 2 ^ 63" using assms by (simp add: word_le_nat_alt)
  then have "unat (of_nat n :: u64) = n" by (simp add: unat_of_nat take_bit_nat_eq_self)
  then show ?thesis using assms(1) by (simp add: sequence_op_id [OF n] word_less_nat_alt)
qed

text \<open>C20: the identifiers of tracked operations are well typed in every such history: they carry the
  high bit that raw operations do not have, their sequence numbers were issued and are distinct; a tag
  with the high bit occurs once among the entries and completions in the rings, in the kernel and in
  the local queue; the next number never passes the exhausted value, at which allocation reports an
  error, and otherwise allocation returns an identifier that is not in use.\<close>

theorem uring_ids_typed:
  assumes "k \<le> 31" "j \<le> 31" "\<forall>ev\<in>set evs. raw_ok ev" "s = fold sys_step evs (sys_new k j answers arrivals)"
    and "u = dp_ring (sy_disp s)" "kn_ok u"
  shows "(\<forall>op\<in>fst ` set (ur_operations u). is_op_tag (op_raw op) \<and> op_sequence op < ur_next_operation u) \<and>
    distinct (map fst (ur_operations u)) \<and>
    (\<forall>t\<in>#tags u. is_op_tag t \<longrightarrow> count (tags u) t = 1 \<and> op_sequence (IoUringOperationId t) < ur_next_operation u) \<and>
    ur_next_operation u \<le> OPERATION_USER_DATA_BASE \<and>
    (case fst (allocate_operation kind timeout u) of
       Inl e \<Rightarrow> e = OtherError \<and> ur_next_operation u = OPERATION_USER_DATA_BASE
     | Inr op \<Rightarrow> is_op_tag (op_raw op) \<and> op_raw op \<notin># tags u \<and> op \<notin> fst ` set (ur_operations u) \<and>
         op_sequence op = ur_next_operation u)"
proof -
  have "sys_inv s" unfolding assms(4) by (rule sys_inv_run [OF sys_inv_new [OF assms(1,2)] assms(3)])
  then have i: "track_inv u" unfolding assms(5) sys_inv_def by (rule disp_invD(1))
  note d = track_invD(2-) [OF i assms(6)]
  have base: "unat OPERATION_USER_DATA_BASE = 2 ^ 63" by (simp add: OPERATION_USER_DATA_BASE_def)
  have le: "ur_next_operation u \<le> OPERATION_USER_DATA_BASE" using d(1) by (simp add: word_le_nat_alt base)
  have seq: "is_op_tag (op_raw (op_id n)) \<and> op_sequence (op_id n) < ur_next_operation u" if "n < unat (ur_next_operation u)" for n
    using sequence_less [OF that le] by (simp add: op_id_tag)
  have alloc: "case fst (allocate_operation kind timeout u) of
       Inl e \<Rightarrow> e = OtherError \<and> ur_next_operation u = OPERATION_USER_DATA_BASE
     | Inr op \<Rightarrow> is_op_tag (op_raw op) \<and> op_raw op \<notin># tags u \<and> op \<notin> fst ` set (ur_operations u) \<and>
         op_sequence op = ur_next_operation u"
  proof (cases "ur_next_operation u = OPERATION_USER_DATA_BASE")
    case True
    then show ?thesis by (simp add: allocate_operation_def)
  next
    case False
    let ?n = "unat (ur_next_operation u)"
    have n: "?n < 2 ^ 63" using False le base word_less_nat_alt [of "ur_next_operation u" OPERATION_USER_DATA_BASE] by (simp add: order.not_eq_order_implies_strict)
    note f = track_alloc(3) [OF i assms(6) refl n]
    obtain r u' where a: "allocate_operation kind timeout u = (r, u')" by fastforce
    have "r = Inr (op_id ?n)" "op_id ?n \<notin> fst ` set (ur_operations u)"
      using allocate_spec [OF i assms(6) a] n by (auto simp: Let_def)
    then show ?thesis using a f op_id_tag sequence_op_id [OF n] by simp
  qed
  have ops: "is_op_tag (op_raw op) \<and> op_sequence op < ur_next_operation u" if op: "op \<in> fst ` set (ur_operations u)" for op
  proof -
    obtain n where "n < unat (ur_next_operation u)" "op = op_id n" using d(5) [OF op] by (elim exE conjE)
    then show ?thesis using seq by simp
  qed
  have tag: "count (tags u) t = 1 \<and> op_sequence (IoUringOperationId t) < ur_next_operation u"
    if t: "t \<in># tags u" "is_op_tag t" for t
  proof -
    obtain n where "n < unat (ur_next_operation u)" "t = OPERATION_USER_DATA_BASE OR of_nat n"
      using d(3) [OF t] by (elim exE conjE)
    then show ?thesis using seq d(2) [OF t] by simp
  qed
  show ?thesis by (intro conjI ballI impI ops tag d(4) le alloc)
qed

theorem uring_ids_typed_witness:
  "fst ` set (ur_operations (dp_ring (sy_disp one_read))) = {op_id 0, op_id 1} \<and>
   fst (allocate_operation Nop None (dp_ring (sy_disp one_read))) = Inr (op_id 2) \<and>
   op_raw (op_id 2) \<notin># tags (dp_ring (sy_disp one_read))"
proof -
  have k: "kn_ok (dp_ring (sy_disp one_read))" by code_simp
  have a: "fst (allocate_operation Nop None (dp_ring (sy_disp one_read))) = Inr (op_id 2)" by code_simp
  have f: "fst ` set (ur_operations (dp_ring (sy_disp one_read))) = {op_id 0, op_id 1}" by code_simp
  show ?thesis using uring_ids_typed [OF _ _ _ one_read_def refl k, of Nop None] a f by simp
qed

end
