(* ===== verification/Uring_Wakeups.thy ===== *)
theory Uring_Wakeups
  imports Uring_Fifo Uring_System Wake_Contract
begin

text \<open>
  Wakeups of the dispatcher of \<open>os/uring.rs\<close>: a waker registered for an operation is called when
  the completion of the operation is dispatched, whatever else the program does with the dispatcher
  and its ring, and dispatching finds every completion that has arrived.  The second part models
  \<open>block_on_io_uring\<close> and \<open>block_on_io_uring_all\<close>.
\<close>

subsection \<open>Steps of the dispatcher\<close>

text \<open>\<open>UseRing\<close> is any use of the ring through the reference that \<open>ring_mut\<close> returns.\<close>

datatype (plugins only: code size) disp_event =
    Register operation_id waker
  | Clear operation_id
  | Take operation_id
  | Abandon operation_id
  | Defer operation_id buffer
  | Dispatch u64
  | WaitAndDispatch nat
  | Drain nat
  | Shutdown nat
  | Poll operation_id waker
  | UseRing "io_uring \<Rightarrow> io_uring"

fun disp_apply :: "disp_event \<Rightarrow> dispatcher \<Rightarrow> dispatcher" where
  "disp_apply (Register op w) d = snd (register_waker op w d)"
| "disp_apply (Clear op) d = snd (clear_waker op d)"
| "disp_apply (Take op) d = snd (take_completion op d)"
| "disp_apply (Abandon op) d = abandon_operation op d"
| "disp_apply (Defer op b) d = defer_buffer_drop op b d"
| "disp_apply (Dispatch n) d = snd (dispatch_available_limit n d)"
| "disp_apply (WaitAndDispatch n) d = snd (wait_and_dispatch n d)"
| "disp_apply (Drain n) d = snd (drain_until_idle n d)"
| "disp_apply (Shutdown n) d = snd (shutdown_drain n d)"
| "disp_apply (Poll op w) d = snd (operation_poll w op d)"
| "disp_apply (UseRing f) d = d\<lparr>dp_ring := f (dp_ring d)\<rparr>"

definition disp_step :: "dispatcher \<Rightarrow> disp_event \<Rightarrow> waker list \<times> dispatcher" where
  "disp_step d ev = (let d' = disp_apply ev d in (drop (length (dp_woken_log d)) (dp_woken_log d'), d'))"

text \<open>The waiters of an operation; the events by which its own future registers again or goes away.\<close>

definition op_parked :: "operation_id \<Rightarrow> dispatcher \<Rightarrow> waker set" where
  "op_parked op d = set_option (map_of (dp_waiters d) op)"

definition op_completed :: "operation_id \<Rightarrow> dispatcher \<Rightarrow> bool" where
  "op_completed op d \<longleftrightarrow> map_of (dp_completions d) op \<noteq> None"

fun of_future :: "operation_id \<Rightarrow> disp_event \<Rightarrow> bool" where
  "of_future op (Register op' _) \<longleftrightarrow> op' = op"
| "of_future op (Clear op') \<longleftrightarrow> op' = op"
| "of_future op (Abandon op') \<longleftrightarrow> op' = op"
| "of_future op (Defer op' _) \<longleftrightarrow> op' = op"
| "of_future op (Poll op' _) \<longleftrightarrow> op' = op"
| "of_future op _ \<longleftrightarrow> False"

definition wait_inv :: "dispatcher \<Rightarrow> bool" where
  "wait_inv d \<longleftrightarrow> (\<forall>op. map_of (dp_waiters d) op \<noteq> None \<longrightarrow> map_of (dp_completions d) op = None)"

subsection \<open>Waiters leave only by being called\<close>

text \<open>From \<open>d\<close> to \<open>d'\<close> the wakers \<open>ws\<close> were called, no waiter of \<open>op\<close> was lost, and operations that have
  both a waiter and a completion did not come up.\<close>

definition wakes :: "operation_id \<Rightarrow> dispatcher \<Rightarrow> dispatcher \<Rightarrow> bool" where
  "wakes op d d' \<longleftrightarrow> (wait_inv d \<longrightarrow> wait_inv d') \<and>
     (\<exists>ws. dp_woken_log d' = dp_woken_log d @ ws \<and>
       (\<forall>w. map_of (dp_waiters d) op = Some w \<longrightarrow> w \<in> set ws \<or> map_of (dp_waiters d') op = Some w))"

lemma wakes_refl [simp, intro]: "wakes op d d"
  by (simp add: wakes_def)

lemma wakes_trans [trans]:
  assumes "wakes op d e" "wakes op e f"
  shows "wakes op d f"
proof -
  obtain ws ws' where w: "dp_woken_log e = dp_woken_log d @ ws" "dp_woken_log f = dp_woken_log e @ ws'"
    "\<forall>w. map_of (dp_waiters d) op = Some w \<longrightarrow> w \<in> set ws \<or> map_of (dp_waiters e) op = Some w"
    "\<forall>w. map_of (dp_waiters e) op = Some w \<longrightarrow> w \<in> set ws' \<or> map_of (dp_waiters f) op = Some w"
    using assms unfolding wakes_def by (elim conjE exE)
  show ?thesis
    unfolding wakes_def
  proof (intro conjI exI)
    show "wait_inv d \<longrightarrow> wait_inv f" using assms by (simp add: wakes_def)
    show "dp_woken_log f = dp_woken_log d @ (ws @ ws')" using w by simp
    show "\<forall>w. map_of (dp_waiters d) op = Some w \<longrightarrow> w \<in> set (ws @ ws') \<or> map_of (dp_waiters f) op = Some w"
      using w(3,4) by auto
  qed
qed

lemma wakes_same:
  assumes "dp_woken_log d' = dp_woken_log d" "dp_waiters d' = dp_waiters d"
    "map_of (dp_completions d') \<subseteq>\<^sub>m map_of (dp_completions d)"
  shows "wakes op d d'"
proof -
  have "map_of (dp_completions d') x = None" if "map_of (dp_completions d) x = None" for x
    using assms(3) that unfolding map_le_def by (metis domIff)
  then show ?thesis using assms(1,2) by (auto simp: wakes_def wait_inv_def)
qed

lemma wakes_ring [simp]: "wakes op d (d\<lparr>dp_ring := u\<rparr>)"
  by (rule wakes_same) simp_all

lemma wakes_dispatch_one: "wakes op d (dispatch_one c d)"
proof (cases "map_of (dp_abandoned d) (oc_operation c)")
  case None
  show ?thesis
  proof (cases "map_of (dp_waiters d) (oc_operation c)")
    case None
    then show ?thesis
      using \<open>map_of (dp_abandoned d) (oc_operation c) = None\<close>
      by (auto simp: dispatch_one_def wakes_def wait_inv_def Let_def update_conv')
  next
    case (Some w)
    then show ?thesis
      using \<open>map_of (dp_abandoned d) (oc_operation c) = None\<close>
      by (auto simp: dispatch_one_def wakes_def wait_inv_def Let_def update_conv' delete_conv')
  qed
next
  case (Some k)
  then show ?thesis
    by (auto simp: dispatch_one_def release_buffers_def Let_def intro!: wakes_same)
qed

lemma wakes_dispatch: "wakes op d (snd (dispatch_loop limit n d))"
proof (induction limit n d rule: dispatch_loop.induct)
  case (1 limit n d)
  obtain r u where r: "try_operation_completion (dp_ring d) = (r, u)" by fastforce
  show ?case
  proof (cases "n < limit")
    case True
    show ?thesis
    proof (cases r)
      case None
      then show ?thesis using r by (subst dispatch_loop.simps) (simp add: on_ring_def)
    next
      case (Some c)
      let ?d = "d\<lparr>dp_ring := u\<rparr>"
      have "wakes op d ?d" by simp
      also have "wakes op ?d (dispatch_one c ?d)" by (rule wakes_dispatch_one)
      also have "wakes op (dispatch_one c ?d) (snd (dispatch_loop limit (n + 1) (dispatch_one c ?d)))"
        using "1.IH" [OF True, of "Some c" ?d c] r Some by (simp add: on_ring_def)
      finally show ?thesis using True r Some by (subst dispatch_loop.simps) (simp add: on_ring_def)
    qed
  next
    case False
    then show ?thesis by (subst dispatch_loop.simps) simp
  qed
qed

lemma wakes_wait: "wakes op d (snd (wait_and_dispatch n d))"
proof -
  obtain r u where r: "wait_completions n (dp_ring d) = (r, u)" by fastforce
  have "wakes op d (snd (dispatch_available (d\<lparr>dp_ring := u\<rparr>)))"
    using wakes_trans [OF wakes_ring wakes_dispatch] by (simp add: dispatch_available_def dispatch_available_limit_def)
  then show ?thesis
    using r by (auto simp: wait_and_dispatch_def on_ring_def Let_def split: option.splits sum.splits prod.splits)
qed

lemma wakes_drain_loop: "wakes op d (snd (drain_loop waits n d))"
proof (induction waits arbitrary: n d)
  case (Suc waits)
  obtain r e where r: "wait_and_dispatch 1 d = (r, e)" by fastforce
  then have "wakes op d e" using wakes_wait [of op d 1] by simp
  moreover have "wakes op d (snd (drain_loop waits m e))" for m by (rule wakes_trans [OF calculation Suc.IH])
  ultimately show ?case using r by (auto split: option.splits sum.splits)
qed simp

lemma wakes_shutdown_loop: "wakes op d (snd (shutdown_loop waits n d))"
proof (induction waits arbitrary: n d)
  case (Suc waits)
  obtain r e where r: "wait_and_dispatch 1 d = (r, e)" by fastforce
  then have "wakes op d e" using wakes_wait [of op d 1] by simp
  moreover have "wakes op d (snd (shutdown_loop waits m e))" for m by (rule wakes_trans [OF calculation Suc.IH])
  ultimately show ?case using r by (auto split: option.splits sum.splits)
qed simp

lemma wakes_dispatch_all: "wakes op d (snd (dispatch_available d))"
  by (simp add: dispatch_available_def dispatch_available_limit_def wakes_dispatch)

lemma wakes_drain: "wakes op d (snd (drain_until_idle n d))"
  using wakes_trans [OF wakes_dispatch_all wakes_drain_loop] wakes_dispatch_all [of op d]
  by (simp add: drain_until_idle_def case_prod_unfold Let_def)

lemma wakes_record: "wakes op d (snd (record_drain s m n l d))"
  by (rule wakes_same) (simp_all add: record_drain_def Let_def)

lemma wakes_leak: "wakes op d (snd (leak_deferred_buffers d))"
  by (rule wakes_same) (simp_all add: leak_deferred_buffers_def)

lemma wakes_shutdown: "wakes op d (snd (shutdown_drain n d))"
proof -
  obtain a e where e: "dispatch_available d = (a, e)" by fastforce
  obtain r f where f: "shutdown_loop n a e = (r, f)" by fastforce
  have "wakes op d e" using wakes_dispatch_all [of op d] e by simp
  moreover have "wakes op e f" using wakes_shutdown_loop [of op e n a] f by simp
  ultimately have df: "wakes op d f" by (rule wakes_trans)
  have rec: "wakes op d (snd (record_drain s m k l f))" for s m k l
    by (rule wakes_trans [OF df wakes_record])
  have leak: "wakes op d (snd (record_drain s m k l (snd (leak_deferred_buffers f))))" for s m k l
    by (rule wakes_trans [OF df wakes_trans [OF wakes_leak wakes_record]])
  show ?thesis
    using wakes_record [of op d] df rec leak e f
    by (simp add: shutdown_drain_def case_prod_unfold Let_def split: option.split)
qed

lemma delete_le: "map_of (AList.delete k xs) \<subseteq>\<^sub>m map_of xs"
  by (simp add: map_le_def delete_conv')

lemma wakes_take: "wakes op d (snd (take_completion op' d))"
  by (rule wakes_same) (simp_all add: take_completion_def delete_le)

lemma wakes_other_waiters:
  assumes "op' \<noteq> op"
  shows "wakes op d (snd (clear_waker op' d))" "wakes op d (snd (register_waker op' w d))"
  using assms by (auto simp: wakes_def wait_inv_def clear_waker_def register_waker_def delete_conv' update_conv')

lemma wakes_abandon:
  assumes "op' \<noteq> op"
  shows "wakes op d (abandon_operation op' d)"
proof -
  let ?e = "snd (take_completion op' (snd (clear_waker op' d)))"
  have "wakes op d ?e" by (rule wakes_trans [OF wakes_other_waiters(1) [OF assms] wakes_take])
  moreover have "wakes op ?e (?e\<lparr>dp_abandoned := x, dp_ring := u\<rparr>)" "wakes op ?e (?e\<lparr>dp_abandoned := x\<rparr>)"
    "wakes op ?e (?e\<lparr>dp_ring := u, dp_abandoned := x\<rparr>)" for x u
    by (rule wakes_same; simp)+
  ultimately have e: "wakes op d (?e\<lparr>dp_abandoned := x, dp_ring := u\<rparr>)" "wakes op d (?e\<lparr>dp_abandoned := x\<rparr>)" "wakes op d ?e"
    "wakes op d (?e\<lparr>dp_ring := u, dp_abandoned := x\<rparr>)" for x u
    by (blast intro: wakes_trans)+
  show ?thesis
    using e by (simp add: abandon_operation_def on_ring_def case_prod_unfold Let_def split: option.split sum.split)
qed

lemma wakes_defer:
  assumes "op' \<noteq> op"
  shows "wakes op d (defer_buffer_drop op' b d)"
proof -
  let ?e = "abandon_operation op' d"
  have "wakes op ?e (defer_buffer_drop op' b d)"
    by (rule wakes_same) (simp_all add: defer_buffer_drop_def release_buffers_def Let_def)
  then show ?thesis using wakes_trans [OF wakes_abandon [OF assms]] by blast
qed

lemma wakes_poll:
  assumes "op' \<noteq> op"
  shows "wakes op d (snd (operation_poll w op' d))"
proof -
  let ?e = "snd (dispatch_available d)"
  let ?t = "snd (take_completion op' ?e)"
  have t: "wakes op d ?t" by (rule wakes_trans [OF wakes_dispatch_all wakes_take])
  have r: "wakes op d (snd (register_waker op' w ?t))" by (rule wakes_trans [OF t wakes_other_waiters(2) [OF assms]])
  have "wakes op d (snd (take_completion op' (snd (register_waker op' w ?t))))" by (rule wakes_trans [OF r wakes_take])
  then show ?thesis
    using t r by (simp add: operation_poll_def case_prod_unfold Let_def split: option.split)
qed

lemma wakes_apply:
  assumes "\<not> of_future op ev"
  shows "wakes op d (disp_apply ev d)"
  using assms
  by (cases ev) (simp_all add: wakes_other_waiters wakes_take wakes_abandon wakes_defer wakes_wait wakes_drain wakes_shutdown
      wakes_poll dispatch_available_limit_def wakes_dispatch)

lemma wakes_inv:
  assumes "wait_inv d"
  shows "wait_inv (disp_apply ev d)"
proof -
  have "\<exists>op. \<not> of_future op ev"
  proof (rule ccontr)
    assume "\<nexists>op. \<not> of_future op ev"
    then have "of_future (IoUringOperationId 0) ev" "of_future (IoUringOperationId 1) ev" by blast+
    then show False by (cases ev) auto
  qed
  then show ?thesis using wakes_apply assms unfolding wakes_def by blast
qed

interpretation uring_wakeups: wake_contract wait_inv disp_step "op_parked op" "op_completed op" "of_future op" for op
proof (unfold_locales, goal_cases)
  case (1 d ev)
  then show ?case by (simp add: disp_step_def Let_def wakes_inv)
next
  case (2 d w)
  then show ?case by (auto simp: op_parked_def op_completed_def wait_inv_def)
next
  case (3 d w ev)
  then show ?case using wakes_apply [of op ev d] by (auto simp: wakes_def disp_step_def op_parked_def Let_def)
qed

text \<open>No lost wakeup.  In every history of the dispatcher, its ring and other futures, in which the
  future of an operation neither polls again nor goes away, the waker the future left is called
  whenever the completion of the operation is there to take at the end.\<close>

theorem uring_no_lost_wakeup:
  assumes "wait_inv d" "map_of (dp_waiters d) op = Some w" "\<forall>ev\<in>set evs. \<not> of_future op ev"
    and "map_of (dp_completions (snd (wk_run disp_step evs d))) op \<noteq> None"
  shows "w \<in> set (fst (wk_run disp_step evs d))"
  by (rule uring_wakeups.no_lost_wakeup [of d w op evs])
    (use assms in \<open>simp_all add: op_parked_def op_completed_def\<close>)

definition nop_parked :: dispatcher where
  "nop_parked = disp_apply (Poll (op_id 0) 7) (snd (on_ring queue_nop_operation (dispatcher_new (uring_new 2 2
     [\<lparr>ea_result = Inr 1, ea_consumed = 1, ea_posted = [(nop_entry OPERATION_USER_DATA_BASE clear_sqe, 0, 0)]\<rparr>] []))))"

theorem uring_no_lost_wakeup_witness:
  "7 \<in> set (fst (wk_run disp_step [UseRing (\<lambda>u. snd (submit_pending u)), Poll (op_id 1) 8] nop_parked))"
proof (rule uring_no_lost_wakeup)
  have "dp_completions nop_parked = []" by code_simp
  then show "wait_inv nop_parked" by (simp add: wait_inv_def)
  show "map_of (dp_waiters nop_parked) (op_id 0) = Some 7" by code_simp
  show "\<forall>ev\<in>set [UseRing (\<lambda>u. snd (submit_pending u)), Poll (op_id 1) 8]. \<not> of_future (op_id 0) ev" by code_simp
  show "map_of (dp_completions (snd (wk_run disp_step [UseRing (\<lambda>u. snd (submit_pending u)), Poll (op_id 1) 8] nop_parked)))
      (op_id 0) \<noteq> None" by code_simp
qed

subsection \<open>Dispatching finds every completion\<close>

text \<open>The completions that have arrived and were not consumed.\<close>

definition arrived :: "io_uring \<Rightarrow> cqe list" where
  "arrived u = map read_cqe (ur_completions u) @ cq_entries u"

abbreviation arrived_for :: "operation_id \<Rightarrow> io_uring \<Rightarrow> cqe option" where
  "arrived_for op u \<equiv> find (\<lambda>e. cqe_user_data e = op_raw op) (arrived u)"

lemma find_append: "find P (xs @ ys) = (case find P xs of None \<Rightarrow> find P ys | Some x \<Rightarrow> Some x)"
  by (induction xs) auto

lemma arrived_completions: "arrived (u\<lparr>ur_completions := x\<rparr>) = map read_cqe x @ cq_entries u"
  by (simp add: arrived_def cq_entries_def)

lemma pop_local:
  "pop_ring_completion u = (r, u') \<Longrightarrow> ur_completions u' = ur_completions u"
  by (erule pop_ring_cases) (auto simp: kernel_arrive_def split: list.splits)

lemma drain_effect:
  "ring_inv u \<Longrightarrow> kn_ok (snd (drain_completions u)) \<Longrightarrow>
   cq_entries (snd (drain_completions u)) = [] \<and>
   (\<exists>ys. map read_cqe (ur_completions (snd (drain_completions u))) = arrived u @ ys)"
proof (induction u rule: drain_completions.induct)
  case (1 u)
  obtain r u' where p: "pop_ring_completion u = (r, u')" by fastforce
  note i = ring_flowD(1) [OF flow_pop [OF p] "1.prems"(1)]
  show ?case
  proof (cases r)
    case None
    then have d: "snd (drain_completions u) = u'" using p by (subst drain_completions.simps) simp
    then have k: "kn_ok u'" using "1.prems" by simp
    have "cq_entries u' = []" using p None by (auto elim!: pop_ring_cases simp: cq_entries_def ring_window_def)
    then show ?thesis using pop_effect(1) [OF p "1.prems"(1) k] pop_local [OF p] None d by (simp add: arrived_def)
  next
    case (Some c)
    let ?v = "u'\<lparr>ur_completions := ur_completions u' @ [c]\<rparr>"
    have d: "snd (drain_completions u) = snd (drain_completions ?v)"
      using p Some by (subst drain_completions.simps) (simp add: case_prod_unfold Let_def)
    have f: "ring_flow {#} u ?v" using flow_push_local flow_pop [OF p] Some by simp
    note iv = ring_flowD(1) [OF f "1.prems"(1)]
    have "kn_ok ?v" using ring_flowD(2) [OF flow_drain iv] "1.prems"(2) d by simp
    then have e: "arrived ?v = arrived u @ (case kn_arrivals u of [] \<Rightarrow> [] | ps # _ \<Rightarrow> map posted_cqe ps)"
      using pop_effect(1) [OF p "1.prems"(1)] pop_local [OF p] Some by (simp add: arrived_def cq_entries_def)
    show ?thesis using "1.IH" [OF p [symmetric] Some iv] "1.prems"(2) d e by fastforce
  qed
qed

lemma find_first:
  assumes "find P xs = Some x" "i < length xs" "P (xs ! i)" "\<forall>j<i. \<not> P (xs ! j)"
  shows "x = xs ! i"
proof -
  obtain j where j: "j < length xs" "P (xs ! j)" "x = xs ! j" "\<forall>k<j. \<not> P (xs ! k)"
    using assms(1) by (auto simp: find_Some_iff)
  have "i = j" using j(2,4) assms(3,4) by (metis linorder_neqE_nat)
  then show ?thesis using j(3) by simp
qed

lemma find_remove_at:
  assumes "i < length xs" "\<not> P (xs ! i)"
  shows "find P (remove_at i xs) = find P xs"
proof -
  have "xs = take i xs @ xs ! i # drop (Suc i) xs" by (rule id_take_nth_drop [OF assms(1)])
  then have "find P xs = find P (take i xs @ xs ! i # drop (Suc i) xs)" by simp
  then show ?thesis using assms(2) by (simp add: remove_at_def find_append split: option.split)
qed

lemma try_found:
  assumes "try_operation_completion u = (r, u')" "ring_inv u" "kn_ok u'"
    and "operation_kind_of op u = Some kind" "arrived_for op u = Some e"
  shows "r = Some \<lparr>oc_operation = op, oc_kind = kind, oc_result = cqe_res e, oc_flags = cqe_flags e\<rparr> \<and>
      operation_kind_of op u' = None \<or>
    (\<exists>c. r = Some c \<and> oc_operation c \<noteq> op \<and> operation_kind_of op u' = Some kind \<and> arrived_for op u' = Some e)"
proof -
  obtain n w where w: "drain_completions u = (n, w)" by fastforce
  let ?L = "ur_completions w"
  let ?P = "\<lambda>c. is_operation_tracked (IoUringOperationId (uc_user_data c)) w"
  let ?Q = "\<lambda>e. cqe_user_data e = op_raw op"
  have ops: "ur_operations w = ur_operations u" using drain_operations [of u] w by simp
  have k: "kn_ok w"
    using assms(1,3) w
    by (auto simp: try_operation_completion_def complete_operation_def remove_operation_def Let_def split: option.splits)
  obtain ys where ys: "cq_entries w = []" "map read_cqe ?L = arrived u @ ys"
    using drain_effect [OF assms(2)] w k by auto
  have found: "find ?Q (map read_cqe ?L) = Some e" using assms(5) by (simp add: ys(2) find_append)
  then obtain m where m: "m < length ?L" "uc_user_data (?L ! m) = op_raw op"
    by (auto simp: find_Some_iff read_cqe_def)
  have tr: "is_operation_tracked op w" using assms(4) by (auto simp: is_operation_tracked_def operation_kind_of_def ops)
  have "list_position ?P ?L \<noteq> None"
  proof
    assume "list_position ?P ?L = None"
    then have "\<not> ?P (?L ! m)" using m(1) by (simp add: list_position_None)
    then show False using m(2) tr by (simp add: operation_id.expand)
  qed
  then obtain i where pos: "list_position ?P ?L = Some i" by blast
  note i = list_position_Some [OF pos]
  let ?c = "?L ! i" and ?o = "IoUringOperationId (uc_user_data (?L ! i))"
  obtain st where st: "map_of (ur_operations w) ?o = Some st" using i by (auto simp: is_operation_tracked_def)
  have r: "r = Some \<lparr>oc_operation = ?o, oc_kind = os_kind st, oc_result = uc_result ?c, oc_flags = uc_flags ?c\<rparr>"
      "u' = remove_operation ?o (w\<lparr>ur_completions := remove_at i ?L\<rparr>)"
    using assms(1) w pos st by (auto simp: try_operation_completion_def Let_def complete_operation_def)
  show ?thesis
  proof (cases "?o = op")
    case True
    have "e = map read_cqe ?L ! i"
    proof (rule find_first [OF found])
      show "\<forall>j<i. \<not> ?Q (map read_cqe ?L ! j)"
      proof (intro allI impI)
        fix j assume "j < i"
        then have "\<not> ?P (?L ! j)" "j < length ?L" using i by auto
        then show "\<not> ?Q (map read_cqe ?L ! j)" using tr by (auto simp: read_cqe_def operation_id.expand)
      qed
    qed (use i True in \<open>auto simp: read_cqe_def\<close>)
    moreover have "os_kind st = kind" using st True assms(4) by (simp add: operation_kind_of_def ops)
    ultimately show ?thesis
      using r True i by (simp add: read_cqe_def remove_operation_def operation_kind_of_def delete_conv')
  next
    case False
    then have "uc_user_data ?c \<noteq> op_raw op" by auto
    moreover have "map read_cqe (remove_at i ?L) = remove_at i (map read_cqe ?L)"
      by (simp add: remove_at_def take_map drop_map)
    ultimately have "find ?Q (map read_cqe (remove_at i ?L)) = Some e"
      using find_remove_at [of i "map read_cqe ?L" ?Q] i found by (simp add: read_cqe_def)
    moreover have "arrived u' = map read_cqe (remove_at i ?L)"
      by (simp add: r(2) arrived_def remove_operation_def cq_entries_def) (use ys(1) in \<open>simp add: cq_entries_def\<close>)
    moreover have "operation_kind_of op u' = Some kind"
      using False assms(4) by (simp add: r(2) remove_operation_def operation_kind_of_def delete_conv' ops)
    ultimately show ?thesis using False r(1) by simp
  qed
qed

lemma dispatch_ring_flow:
  assumes "ring_inv (dp_ring d)" "kn_ok (dp_ring (snd (dispatch_loop limit n d)))"
  shows "kn_ok (dp_ring d)"
  using assms
proof (induction limit n d rule: dispatch_loop.induct)
  case (1 limit n d)
  obtain r u where r: "try_operation_completion (dp_ring d) = (r, u)" by fastforce
  have step: "ring_inv u \<and> (kn_ok u \<longrightarrow> kn_ok (dp_ring d))"
  proof (cases r)
    case None
    then show ?thesis using ring_flowD(1,2) [OF try_operation_spec(1) [OF r] "1.prems"(1)] by simp
  next
    case (Some c)
    then obtain v where v: "ring_flow {#op_raw (oc_operation c)#} (dp_ring d) v" "u = remove_operation (oc_operation c) v"
      using try_operation_spec(2) [OF r] by blast
    then show ?thesis using ring_flowD(1,2) [OF v(1) "1.prems"(1)] by simp
  qed
  show ?case
  proof (cases "n < limit")
    case True
    let ?d = "d\<lparr>dp_ring := u\<rparr>"
    show ?thesis
    proof (cases r)
      case None
      then show ?thesis using "1.prems"(2) True r step by (subst (asm) dispatch_loop.simps) (simp add: on_ring_def)
    next
      case (Some c)
      have "kn_ok (dp_ring (snd (dispatch_loop limit (n + 1) (dispatch_one c ?d))))"
        using "1.prems"(2) True r Some by (subst (asm) dispatch_loop.simps) (simp add: on_ring_def)
      then have "kn_ok (dp_ring (dispatch_one c ?d))"
        using "1.IH" [OF True, of "Some c" ?d c] r Some step by (simp add: on_ring_def)
      then show ?thesis using step by simp
    qed
  next
    case False
    then show ?thesis using "1.prems"(2) by (subst (asm) dispatch_loop.simps) simp
  qed
qed

lemma dispatch_keeps:
  "operation_kind_of op (dp_ring d) = None \<Longrightarrow>
   map_of (dp_completions (snd (dispatch_loop limit n d))) op = map_of (dp_completions d) op"
proof (induction limit n d rule: dispatch_loop.induct)
  case (1 limit n d)
  obtain r u where r: "try_operation_completion (dp_ring d) = (r, u)" by fastforce
  have none: "r = None \<or> (\<exists>c. r = Some c \<and> oc_operation c \<noteq> op \<and> operation_kind_of op u = None)"
  proof (cases r)
    case (Some c)
    then obtain v where v: "ring_flow {#op_raw (oc_operation c)#} (dp_ring d) v" "u = remove_operation (oc_operation c) v"
      "oc_operation c \<in> fst ` set (ur_operations (dp_ring d))"
      using try_operation_spec(2) [OF r] by blast
    then have "oc_operation c \<noteq> op" "operation_kind_of op u = None"
      using "1.prems" by (auto simp: operation_kind_of_def ring_flow_def remove_operation_def delete_conv' map_of_eq_None_iff)
    then show ?thesis using Some by simp
  qed simp
  show ?case
  proof (cases "n < limit \<and> r \<noteq> None")
    case True
    then obtain c where c: "r = Some c" "oc_operation c \<noteq> op" "operation_kind_of op u = None" using none by blast
    let ?d = "d\<lparr>dp_ring := u\<rparr>"
    have "map_of (dp_completions (snd (dispatch_loop limit (n + 1) (dispatch_one c ?d)))) op =
        map_of (dp_completions (dispatch_one c ?d)) op"
      using "1.IH" [of "Some c" ?d c] r c True by (simp add: on_ring_def)
    also have "\<dots> = map_of (dp_completions d) op"
      using c(2) by (simp add: dispatch_one_def release_buffers_def Let_def update_conv' split: option.split)
    finally show ?thesis using True r c by (subst dispatch_loop.simps) (simp add: on_ring_def)
  next
    case False
    then show ?thesis using r by (subst dispatch_loop.simps) (auto simp: on_ring_def)
  qed
qed

lemma dispatch_finds:
  assumes "ring_inv (dp_ring d)" "kn_ok (dp_ring (snd (dispatch_loop limit n d)))"
    and "unat n + length (ur_operations (dp_ring d)) \<le> unat limit"
    and "map_of (dp_waiters d) op = Some w" "map_of (dp_abandoned d) op = None"
    and "operation_kind_of op (dp_ring d) = Some kind" "arrived_for op (dp_ring d) = Some e"
  defines "d' \<equiv> snd (dispatch_loop limit n d)"
  shows "w \<in> set (drop (length (dp_woken_log d)) (dp_woken_log d')) \<and>
    map_of (dp_completions d') op = Some \<lparr>oc_operation = op, oc_kind = kind, oc_result = cqe_res e, oc_flags = cqe_flags e\<rparr>"
  using assms(1-7) unfolding d'_def
proof (induction limit n d rule: dispatch_loop.induct)
  case (1 limit n d)
  let ?res = "\<lparr>oc_operation = op, oc_kind = kind, oc_result = cqe_res e, oc_flags = cqe_flags e\<rparr>"
  have "ur_operations (dp_ring d) \<noteq> []" using "1.prems"(6) by (auto simp: operation_kind_of_def)
  then have "0 < length (ur_operations (dp_ring d))" by simp
  then have lim: "n < limit" using "1.prems"(3) by (simp add: word_less_nat_alt del: length_greater_0_conv)
  obtain r u where r: "try_operation_completion (dp_ring d) = (r, u)" by fastforce
  let ?d = "d\<lparr>dp_ring := u\<rparr>"
  obtain c where c: "r = Some c"
  proof (cases r)
    case None
    then have "kn_ok u" using "1.prems"(2) r lim by (subst (asm) dispatch_loop.simps) (simp add: on_ring_def)
    then show ?thesis using try_found [OF r "1.prems"(1) _ "1.prems"(6,7)] None by simp
  qed
  obtain v where v: "ring_flow {#op_raw (oc_operation c)#} (dp_ring d) v" "u = remove_operation (oc_operation c) v"
      "oc_operation c \<in> fst ` set (ur_operations (dp_ring d))"
    using try_operation_spec(2) [OF r c] by blast
  have iu: "ring_inv u" using ring_flowD(1) [OF v(1) "1.prems"(1)] v(2) by simp
  have next': "dispatch_loop limit n d = dispatch_loop limit (n + 1) (dispatch_one c ?d)"
    using lim r c by (subst dispatch_loop.simps) (simp add: on_ring_def)
  have ku: "kn_ok u"
    using dispatch_ring_flow [of "dispatch_one c ?d" limit "n + 1"] "1.prems"(2) next' iu by simp
  obtain ws where ws: "dp_woken_log (snd (dispatch_loop limit (n + 1) (dispatch_one c ?d))) = dp_woken_log (dispatch_one c ?d) @ ws"
    using wakes_dispatch [of op "dispatch_one c ?d" limit "n + 1"] by (auto simp: wakes_def)
  from try_found [OF r "1.prems"(1) ku "1.prems"(6,7)] show ?case
  proof (elim disjE conjE exE)
    assume f: "r = Some ?res" "operation_kind_of op u = None"
    then have c: "c = ?res" using c by simp
    have one: "dp_woken_log (dispatch_one c ?d) = dp_woken_log d @ [w]" "map_of (dp_completions (dispatch_one c ?d)) op = Some ?res"
      using "1.prems"(4,5) by (simp_all add: c dispatch_one_def Let_def update_conv')
    then show ?thesis
      using dispatch_keeps [of op "dispatch_one c ?d" limit "n + 1"] f(2) next' ws by simp
  next
    fix c' assume f: "r = Some c'" "oc_operation c' \<noteq> op" "operation_kind_of op u = Some kind" "arrived_for op u = Some e"
    then have o: "oc_operation c \<noteq> op" using c by simp
    have fields: "map_of (dp_waiters (dispatch_one c ?d)) op = Some w" "map_of (dp_abandoned (dispatch_one c ?d)) op = None"
      using "1.prems"(4,5) o by (auto simp: dispatch_one_def release_buffers_def Let_def update_conv' delete_conv' split: option.split)
    have "length (ur_operations u) < length (ur_operations (dp_ring d))"
      using try_operation_left [of c "dp_ring d"] r c by simp
    then have len: "unat (n + 1) + length (ur_operations u) \<le> unat limit"
      using "1.prems"(3) lim by (simp add: unat_word_ariths word_less_nat_alt)
    have log: "\<exists>vs. dp_woken_log (dispatch_one c ?d) = dp_woken_log d @ vs"
      by (auto simp: dispatch_one_def release_buffers_def Let_def split: option.split)
    have "w \<in> set (drop (length (dp_woken_log (dispatch_one c ?d))) (dp_woken_log (snd (dispatch_loop limit (n + 1) (dispatch_one c ?d))))) \<and>
        map_of (dp_completions (snd (dispatch_loop limit (n + 1) (dispatch_one c ?d)))) op = Some ?res"
      by (rule "1.IH" [OF lim, of "Some c" ?d c])
        (use r c iu "1.prems"(2) next' len fields f(3,4) in \<open>simp_all add: on_ring_def\<close>)
    then show ?thesis using log ws next' by auto
  qed
qed

lemma track_length:
  assumes "track_inv u" "kn_ok u"
  shows "length (ur_operations u) \<le> 2 ^ 63"
proof -
  have "fst ` set (ur_operations u) \<subseteq> op_id ` {..<unat (ur_next_operation u)}"
  proof
    fix op assume "op \<in> fst ` set (ur_operations u)"
    from track_invD(6) [OF assms this] obtain n where "n < unat (ur_next_operation u)" "op = op_id n"
      by (elim exE conjE)
    then show "op \<in> op_id ` {..<unat (ur_next_operation u)}" by simp
  qed
  then have "card (fst ` set (ur_operations u)) \<le> card (op_id ` {..<unat (ur_next_operation u)})"
    by (intro card_mono) simp_all
  also have "\<dots> \<le> unat (ur_next_operation u)" using card_image_le [of "{..<unat (ur_next_operation u)}" op_id] by simp
  also have "\<dots> \<le> 2 ^ 63" by (rule track_invD(2) [OF assms])
  finally show ?thesis using distinct_card [OF track_invD(5) [OF assms]] by simp
qed

lemma arrived_tags: "image_mset cqe_user_data (mset (arrived u)) \<subseteq># tags u"
  by (simp add: arrived_def tags_def image_mset.compositionality o_def read_cqe_def)

lemma find_unique:
  assumes "x \<in> set xs" "P x" "\<And>y. y \<in> set xs \<Longrightarrow> P y \<Longrightarrow> y = x"
  shows "find P xs = Some x"
proof (cases "find P xs")
  case None
  then show ?thesis using assms(1,2) by (auto simp: find_None_iff)
next
  case (Some y)
  then have "y \<in> set xs" "P y" by (auto simp: find_Some_iff)
  then show ?thesis using assms(3) Some by simp
qed

lemma arrived_unique:
  assumes "track_inv u" "kn_ok u" "e \<in> set (arrived u)" "cqe_user_data e = op_raw op" "is_op_tag (op_raw op)"
  shows "arrived_for op u = Some e"
proof (rule find_unique [OF assms(3)])
  show "cqe_user_data e = op_raw op" by (rule assms(4))
next
  fix y assume y: "y \<in> set (arrived u)" "cqe_user_data y = op_raw op"
  have sub: "count (image_mset cqe_user_data (mset (arrived u))) (op_raw op) \<le> count (tags u) (op_raw op)"
    by (rule mset_subset_eq_count [OF arrived_tags])
  have "op_raw op \<in># image_mset cqe_user_data (mset (arrived u))" using assms(3,4) by force
  then have "op_raw op \<in># tags u" by (rule mset_subset_eqD [OF arrived_tags])
  then have one: "count (tags u) (op_raw op) = 1" by (rule track_invD(3) [OF assms(1,2) _ assms(5)])
  show "y = e"
  proof (rule ccontr)
    assume "y \<noteq> e"
    then have "{#y, e#} \<subseteq># mset (arrived u)" using y(1) assms(3) by (simp add: insert_subset_eq_iff in_diff_count)
    then have "image_mset cqe_user_data {#y, e#} \<subseteq># image_mset cqe_user_data (mset (arrived u))"
      by (rule image_mset_subseteq_mono)
    from mset_subset_eq_count [OF this, of "op_raw op"]
    have "2 \<le> count (image_mset cqe_user_data (mset (arrived u))) (op_raw op)"
      using y(2) assms(4) by (simp only: image_mset_add_mset image_mset_empty count_add_mset) simp
    then show False using sub one by simp
  qed
qed

text \<open>C10: a completion that has arrived reaches the waiting task.  In every history within the ring
  protocol, when the kernel has posted the completion of a tracked operation that was not abandoned
  and a task waits for it, dispatching calls the task's waker and leaves a completion with the kind
  of the operation and the result and flags the kernel posted.\<close>

theorem uring_dispatch_wakes:
  assumes "k \<le> 31" "j \<le> 31" "\<forall>ev\<in>set evs. raw_ok ev" "d = sy_disp (fold sys_step evs (sys_new k j answers arrivals))"
    and "map_of (dp_waiters d) op = Some w" "map_of (dp_abandoned d) op = None"
    and "operation_kind_of op (dp_ring d) = Some kind" "e \<in> set (arrived (dp_ring d))" "cqe_user_data e = op_raw op"
    and "d' = snd (dispatch_available d)" "kn_ok (dp_ring d')"
  shows "w \<in> set (drop (length (dp_woken_log d)) (dp_woken_log d')) \<and>
    map_of (dp_completions d') op = Some \<lparr>oc_operation = op, oc_kind = kind, oc_result = cqe_res e, oc_flags = cqe_flags e\<rparr>"
proof -
  have "sys_inv (fold sys_step evs (sys_new k j answers arrivals))"
    by (rule sys_inv_run [OF sys_inv_new [OF assms(1,2)] assms(3)])
  then have i: "track_inv (dp_ring d)" unfolding assms(4) sys_inv_def by (rule disp_invD(1))
  note ri = track_invD(1) [OF i]
  have loop: "d' = snd (dispatch_loop usize_max 0 d)"
    by (simp add: assms(10) dispatch_available_def dispatch_available_limit_def)
  have k: "kn_ok (dp_ring d)" using dispatch_ring_flow [OF ri] assms(11) unfolding loop by blast
  have "op \<in> fst ` set (ur_operations (dp_ring d))"
    using assms(7) by (auto simp: operation_kind_of_def dest!: map_of_SomeD intro: rev_image_eqI)
  from track_invD(6) [OF i k this] obtain n where "op = op_id n" by (elim exE conjE)
  then have "is_op_tag (op_raw op)" by (simp add: op_id_tag)
  then have a: "arrived_for op (dp_ring d) = Some e" by (rule arrived_unique [OF i k assms(8,9)])
  have len: "unat (0 :: u64) + length (ur_operations (dp_ring d)) \<le> unat usize_max"
    using track_length [OF i k] by (simp add: usize_max_def unsigned_minus_1_eq_mask mask_eq_exp_minus_1)
  show ?thesis
    unfolding loop by (rule dispatch_finds [OF ri _ len assms(5-7) a]) (use assms(11) loop in simp)
qed

text \<open>A no-op that task 7 waits for, submitted and completed by the kernel with result 5.\<close>

definition nop_done :: dispatcher where
  "nop_done = sy_disp (fold sys_step [OpNop, PollOp 7 0, SubmitPending] (sys_new 1 1
     [\<lparr>ea_result = Inr 1, ea_consumed = 1, ea_posted = [(nop_entry OPERATION_USER_DATA_BASE clear_sqe, 5, 0)]\<rparr>] []))"

theorem uring_dispatch_wakes_witness:
  "7 \<in> set (drop (length (dp_woken_log nop_done)) (dp_woken_log (snd (dispatch_available nop_done))))"
proof -
  have "map_of (dp_waiters nop_done) (op_id 0) = Some 7" "map_of (dp_abandoned nop_done) (op_id 0) = None"
    "operation_kind_of (op_id 0) (dp_ring nop_done) = Some Nop"
    "\<lparr>cqe_user_data = op_raw (op_id 0), cqe_res = 5, cqe_flags = 0\<rparr> \<in> set (arrived (dp_ring nop_done))"
    "kn_ok (dp_ring (snd (dispatch_available nop_done)))"
    by code_simp+
  then show ?thesis
    using uring_dispatch_wakes [OF _ _ _ nop_done_def, of "op_id 0" 7 Nop "\<lparr>cqe_user_data = op_raw (op_id 0), cqe_res = 5, cqe_flags = 0\<rparr>"]
    by simp
qed

end
