(* ===== verification/Uring_Blocking.thy ===== *)
theory Uring_Blocking
  imports Uring_Wakeups
begin

text \<open>
  \<open>block_on_io_uring\<close> and \<open>block_on_io_uring_all\<close> of \<open>os/uring.rs\<close>, and three histories outside the
  hypotheses of the other theorems: a raw operation that carries the tag of a tracked one, a local
  queue that keeps a raw completion, and a kernel that never completes.
\<close>

subsection \<open>Blocking on futures\<close>

text \<open>The loops run on fuel; \<open>None\<close> is a call that has not returned.  The waker that does nothing is \<open>0\<close>.\<close>

fun block_on_io_uring ::
  "('f \<Rightarrow> dispatcher \<Rightarrow> 'r poll \<times> 'f \<times> dispatcher) \<Rightarrow> nat \<Rightarrow> 'f \<Rightarrow> dispatcher \<Rightarrow> 'r call \<times> dispatcher" where
  "block_on_io_uring poll 0 f d = (None, d)"
| "block_on_io_uring poll (Suc fuel) f d =
     (case poll f d of
        (Ready output, _, d) \<Rightarrow> (Some (Inr output), d)
      | (Pending, f, d) \<Rightarrow>
          (case wait_and_dispatch 1 d of
             (None, d) \<Rightarrow> (None, d)
           | (Some (Inl e), d) \<Rightarrow> (Some (Inl e), d)
           | (Some (Inr _), d) \<Rightarrow> block_on_io_uring poll fuel f d))"

text \<open>One pass over the slots, in order; a finished slot becomes \<open>None\<close> and its output is kept.\<close>

fun poll_slots ::
  "('f \<Rightarrow> dispatcher \<Rightarrow> 'r poll \<times> 'f \<times> dispatcher) \<Rightarrow> ('f option \<times> 'r option) list \<Rightarrow> dispatcher \<Rightarrow>
   ('f option \<times> 'r option) list \<times> dispatcher" where
  "poll_slots poll [] d = ([], d)"
| "poll_slots poll ((None, r) # slots) d = (let (slots, d) = poll_slots poll slots d in ((None, r) # slots, d))"
| "poll_slots poll ((Some f, r) # slots) d =
     (case poll f d of
        (Ready output, _, d) \<Rightarrow> (let (slots, d) = poll_slots poll slots d in ((None, Some output) # slots, d))
      | (Pending, f, d) \<Rightarrow> (let (slots, d) = poll_slots poll slots d in ((Some f, r) # slots, d)))"

definition slots_remaining :: "('f option \<times> 'r option) list \<Rightarrow> nat" where
  "slots_remaining slots = length (filter (\<lambda>s. fst s \<noteq> None) slots)"

fun block_on_slots ::
  "('f \<Rightarrow> dispatcher \<Rightarrow> 'r poll \<times> 'f \<times> dispatcher) \<Rightarrow> nat \<Rightarrow> ('f option \<times> 'r option) list \<Rightarrow> dispatcher \<Rightarrow>
   ('f option \<times> 'r option) list call \<times> dispatcher" where
  "block_on_slots poll 0 slots d = (None, d)"
| "block_on_slots poll (Suc fuel) slots d =
     (if slots_remaining slots = 0 then (Some (Inr slots), d)
      else
        let (slots, d) = poll_slots poll slots d
        in if slots_remaining slots = 0 then block_on_slots poll fuel slots d
           else (case wait_and_dispatch 1 d of
                   (None, d) \<Rightarrow> (None, d)
                 | (Some (Inl e), d) \<Rightarrow> (Some (Inl e), d)
                 | (Some (Inr _), d) \<Rightarrow> block_on_slots poll fuel slots d))"

text \<open>The outputs are unwrapped at the end; \<open>UnwrapNone\<close> would be the panic of a missing one.\<close>

definition block_on_io_uring_all ::
  "('f \<Rightarrow> dispatcher \<Rightarrow> 'r poll \<times> 'f \<times> dispatcher) \<Rightarrow> nat \<Rightarrow> 'f list \<Rightarrow> dispatcher \<Rightarrow> (panic + 'r list) call \<times> dispatcher" where
  "block_on_io_uring_all poll fuel fs d =
     (case block_on_slots poll fuel (map (\<lambda>f. (Some f, None)) fs) d of
        (None, d) \<Rightarrow> (None, d)
      | (Some (Inl e), d) \<Rightarrow> (Some (Inl e), d)
      | (Some (Inr slots), d) \<Rightarrow>
          (Some (Inr (if \<forall>s\<in>set slots. snd s \<noteq> None then Inr (map (\<lambda>s. the (snd s)) slots) else Inl UnwrapNone)), d))"

text \<open>The future of a tracked operation, as the blocking loops poll it.\<close>

definition poll_op :: "operation_id \<Rightarrow> dispatcher \<Rightarrow> operation_completion poll \<times> operation_id \<times> dispatcher" where
  "poll_op op d = (let (r, d) = operation_poll 0 op d in (r, op, d))"

definition slot_ok :: "'f option \<times> 'r option \<Rightarrow> bool" where
  "slot_ok s \<longleftrightarrow> fst s \<noteq> None \<or> snd s \<noteq> None"

lemma poll_slots_outputs:
  assumes "poll_slots poll slots d = (slots', d')" "list_all slot_ok slots"
  shows "length slots' = length slots" "list_all slot_ok slots'"
proof -
  have "length slots' = length slots \<and> (list_all slot_ok slots')"
    using assms
  proof (induction poll slots d arbitrary: slots' d' rule: poll_slots.induct)
    case (2 poll r slots d)
    obtain sl e where e: "poll_slots poll slots d = (sl, e)" by fastforce
    show ?case using "2.IH" [OF e] "2.prems" e by (auto simp: slot_ok_def)
  next
    case (3 poll f r slots d)
    obtain p g e where p: "poll f d = (p, g, e)" by (metis prod_cases3)
    obtain sl h where e: "poll_slots poll slots e = (sl, h)" by fastforce
    have ok: "list_all slot_ok slots" using "3.prems" by simp
    show ?case
    proof (cases p)
      case (Ready x)
      show ?thesis using "3.IH"(1) [OF p [symmetric] Ready refl e ok] "3.prems" p e Ready by (auto simp: slot_ok_def)
    next
      case Pending
      show ?thesis using "3.IH"(2) [OF p [symmetric] Pending refl e ok] "3.prems" p e Pending by (auto simp: slot_ok_def)
    qed
  qed simp
  then show "length slots' = length slots" "list_all slot_ok slots'" by blast+
qed

lemma block_on_slots_outputs:
  "block_on_slots poll fuel slots d = (Some (Inr slots'), d') \<Longrightarrow> list_all slot_ok slots \<Longrightarrow>
   length slots' = length slots \<and> (\<forall>s\<in>set slots'. snd s \<noteq> None)"
proof (induction fuel arbitrary: slots d)
  case (Suc fuel)
  show ?case
  proof (cases "slots_remaining slots = 0")
    case True
    then show ?thesis using Suc.prems by (auto simp: slots_remaining_def filter_empty_conv list_all_iff slot_ok_def)
  next
    case False
    obtain sl e where e: "poll_slots poll slots d = (sl, e)" by fastforce
    note p = poll_slots_outputs [OF e Suc.prems(2)]
    obtain g where "block_on_slots poll fuel sl g = (Some (Inr slots'), d')"
      using Suc.prems(1) False e
      by (auto simp: Let_def split: if_splits prod.splits option.splits sum.splits)
    then show ?thesis using Suc.IH p by auto
  qed
qed simp

lemma block_on_all_total:
  assumes "block_on_io_uring_all poll fuel fs d = (Some (Inr r), d')"
  shows "\<exists>outs. r = Inr outs \<and> length outs = length fs"
proof -
  obtain s e where s: "block_on_slots poll fuel (map (\<lambda>f. (Some f, None)) fs) d = (s, e)" by fastforce
  then obtain slots where "s = Some (Inr slots)" using assms by (auto simp: block_on_io_uring_all_def split: option.splits sum.splits)
  then show ?thesis
    using assms s block_on_slots_outputs [of poll fuel "map (\<lambda>f. (Some f, None)) fs" d slots e]
    by (auto simp: block_on_io_uring_all_def list_all_iff slot_ok_def)
qed

subsection \<open>A raw completion in the local queue\<close>

lemma idle_drain:
  assumes "ur_cq_head u = ur_cq_tail u" "kn_arrivals u = []"
  shows "drain_completions u = (0, u)"
  using assms by (subst drain_completions.simps) (simp add: pop_ring_completion_def kernel_arrive_def)

lemma idle_try:
  assumes "ur_cq_head u = ur_cq_tail u" "kn_arrivals u = []"
    and "\<forall>c\<in>set (ur_completions u). \<not> is_operation_tracked (IoUringOperationId (uc_user_data c)) u"
  shows "try_operation_completion u = (None, u)"
  using assms by (simp add: try_operation_completion_def idle_drain list_position_None [THEN iffD2])

lemma idle_dispatch:
  assumes "try_operation_completion (dp_ring d) = (None, dp_ring d)"
  shows "dispatch_available d = (0, d)"
  unfolding dispatch_available_def dispatch_available_limit_def
  by (subst dispatch_loop.simps) (simp add: on_ring_def assms usize_max_def)

lemma idle_wait:
  assumes "ur_cq_head (dp_ring d) = ur_cq_tail (dp_ring d)" "kn_arrivals (dp_ring d) = []" "ur_completions (dp_ring d) \<noteq> []"
    and "\<forall>c\<in>set (ur_completions (dp_ring d)). \<not> is_operation_tracked (IoUringOperationId (uc_user_data c)) (dp_ring d)"
  shows "wait_and_dispatch 1 d = (Some (Inr 0), d)"
  using assms idle_dispatch [OF idle_try [OF assms(1,2,4)]]
  by (simp add: wait_and_dispatch_def on_ring_def wait_completions_def idle_drain Suc_le_eq)


text \<open>A raw no-op completes, its completion is harvested, and a tracked no-op is queued.\<close>

definition raw_left :: dispatcher where
  "raw_left = sy_disp (fold sys_step [RawNop 1, SubmitPending, DispatchLimit 64, OpNop] (sys_new 1 1
     [\<lparr>ea_result = Inr 1, ea_consumed = 1, ea_posted = [(nop_entry 1 clear_sqe, 0, 0)]\<rparr>,
      \<lparr>ea_result = Inr 1, ea_consumed = 1, ea_posted = [(nop_entry OPERATION_USER_DATA_BASE clear_sqe, 0, 0)]\<rparr>] []))"


subsection \<open>A raw operation with the tag of a tracked one\<close>

definition tag_reused :: uring_system where
  "tag_reused = fold sys_step [QueueReadFuture 3 (Buffer 64 16) 0, RawNop OPERATION_USER_DATA_BASE, SubmitPending, PollFuture 7 0]
     (sys_new 1 1 [\<lparr>ea_result = Inr 2, ea_consumed = 2, ea_posted = [(nop_entry OPERATION_USER_DATA_BASE clear_sqe, 0, 0)]\<rparr>] [])"

text \<open>C33: \<open>queue_nop\<close> accepts any tag: when a program passes the tag of a read in flight, the completion
  of the no-op is taken for that of the read, and the buffer is handed back while the kernel still
  writes to it.  The kernel keeps the ring protocol throughout.\<close>

theorem uring_raw_tag_frees_buffer:
  "kn_ok (dp_ring (sy_disp tag_reused)) \<and>
   (\<exists>e. e \<in># active (dp_ring (sy_disp tag_reused)) \<and> sqe_opcode e = IORING_OP_READ \<and> sqe_addr e = 64 \<and>
      (IoUringOperationId (sqe_user_data e), Buffer 64 16) \<in> set (dp_released (sy_disp tag_reused)))"
proof -
  let ?e = "\<lparr>sqe_opcode = 22, sqe_fd = 3, sqe_off = 0, sqe_addr = 64, sqe_len = 16, sqe_timeout_flags = 0,
    sqe_user_data = OPERATION_USER_DATA_BASE\<rparr>"
  have k: "kn_ok (dp_ring (sy_disp tag_reused))" by code_simp
  have e: "?e \<in># active (dp_ring (sy_disp tag_reused))" by code_simp
  have r: "dp_released (sy_disp tag_reused) = [(IoUringOperationId OPERATION_USER_DATA_BASE, Buffer 64 16)]" by code_simp
  show ?thesis using k e r by (intro conjI exI [of _ ?e]) (simp_all add: IORING_OP_READ_def)
qed

subsection \<open>A kernel that never completes\<close>

text \<open>The comment on the drop says that it cannot block forever; each of its waits can.\<close>

lemma drop_blocks:
  assumes "ur_cq_head (dp_ring d) = ur_cq_tail (dp_ring d)" "kn_arrivals (dp_ring d) = []" "kn_answers (dp_ring d) = []"
    and "ur_completions (dp_ring d) = []" "ur_operations (dp_ring d) \<noteq> []"
  shows "\<not> fst (dispatcher_drop d)"
proof -
  let ?d = "d\<lparr>dp_waiters := []\<rparr>"
  have a: "dispatch_available ?d = (0, ?d)" by (rule idle_dispatch) (use idle_try [OF assms(1,2)] assms(4) in simp)
  have "wait_loop 1 (dp_ring d) = (None, dp_ring d)"
    by (subst wait_loop.simps) (simp add: uring_enter_def assms(3))
  then have w: "wait_and_dispatch 1 ?d = (None, ?d)"
    by (simp add: wait_and_dispatch_def on_ring_def wait_completions_def idle_drain [OF assms(1,2)] assms(4))
  have i: "\<not> ring_snapshot_idle (ring_snapshot (dp_ring d))"
    using assms(5) by (simp add: ring_snapshot_idle_def ring_snapshot_def)
  then have "\<not> dispatcher_is_idle ?d"
    by (simp add: dispatcher_is_idle_def dispatcher_snapshot_idle_def dispatcher_snapshot_of_def)
  then have "shutdown_loop (Suc n) 0 ?d = (None, ?d)" for n using w i by simp
  then have "shutdown_loop DROP_DRAIN_MAX_WAITS 0 ?d = (None, ?d)"
    by (metis DROP_DRAIN_MAX_WAITS_def Suc_pred zero_less_numeral)
  then show ?thesis using a by (simp add: dispatcher_drop_def shutdown_drain_def)
qed

end
