(* ===== verification/Uring_Executor.thy ===== *)
theory Uring_Executor
  imports Uring_Blocking
begin

text \<open>
  The integration of \<open>io_uring\<close> into the executor, \<open>executor/uring.rs\<close>: the dispatcher installed on a
  thread, the futures that read and write at an offset through it, and the loops over them that read
  exactly and write all of a buffer.  What the kernel does with a file is a parameter of the loops.
  The fields \<open>th_gone\<close> and \<open>th_freed\<close> are history: the dispatchers that were dropped, and the buffers that
  futures dropped on a thread without a dispatcher.
\<close>

subsection \<open>The dispatcher of a thread\<close>

definition EXECUTOR_IO_URING_COMPLETION_BUDGET :: u64 where "EXECUTOR_IO_URING_COMPLETION_BUDGET = 64"
definition EXECUTOR_IO_URING_SHUTDOWN_DRAIN_WAITS :: nat where "EXECUTOR_IO_URING_SHUTDOWN_DRAIN_WAITS = 8"

datatype executor_status = Unavailable | Installed | Shutdown

record uring_thread =
  th_current :: "(nat \<times> dispatcher) option"
  th_gone :: "dispatcher list"
  th_freed :: "(operation_id \<times> buffer) list"

definition thread_new :: uring_thread where
  "thread_new = \<lparr>th_current = None, th_gone = [], th_freed = []\<rparr>"

text \<open>\<open>available_io_uring\<close>: the result of creating a ring, with the errors of hosts that refuse rings.\<close>

definition available_io_uring :: "bool \<Rightarrow> io_error + io_uring \<Rightarrow> io_error + io_uring option" where
  "available_io_uring required setup =
     (case setup of
        Inr ring \<Rightarrow> Inr (Some ring)
      | Inl e \<Rightarrow>
          if e \<in> {OsError 1, OsError 22, OsError 38, OsError 95}
          then (if required then Inl e else Inr None)
          else Inl e)"

text \<open>The last reference to a dispatcher is dropped; \<open>False\<close> is a drop that does not return.\<close>

definition thread_drop :: "dispatcher \<Rightarrow> uring_thread \<Rightarrow> bool \<times> uring_thread" where
  "thread_drop d t = (let (ok, d) = dispatcher_drop d in (ok, t\<lparr>th_gone := th_gone t @ [d]\<rparr>))"

definition set_current :: "(nat \<times> dispatcher) option \<Rightarrow> uring_thread \<Rightarrow> bool \<times> uring_thread" where
  "set_current c t =
     (case th_current t of
        None \<Rightarrow> (True, t\<lparr>th_current := c\<rparr>)
      | Some (_, old) \<Rightarrow> thread_drop old (t\<lparr>th_current := c\<rparr>))"

definition install_current_io_uring ::
  "nat \<Rightarrow> bool \<Rightarrow> io_error + io_uring \<Rightarrow> uring_thread \<Rightarrow> (panic + bool) \<times> uring_thread" where
  "install_current_io_uring owner required setup t =
     (if (case th_current t of None \<Rightarrow> False | Some (o', _) \<Rightarrow> o' = owner) then (Inr True, t)
      else if (case th_current t of None \<Rightarrow> False | Some (_, d) \<Rightarrow> \<not> dispatcher_is_idle d) then (Inl AssertionFailed, t)
      else case available_io_uring required setup of
             Inl _ \<Rightarrow> (Inl ExplicitPanic, t)
           | Inr None \<Rightarrow> map_prod Inr id (set_current None t)
           | Inr (Some ring) \<Rightarrow> map_prod Inr id (set_current (Some (owner, dispatcher_new ring)) t))"

definition shutdown_dispatcher :: "dispatcher \<Rightarrow> dispatcher_snapshot option \<times> dispatcher" where
  "shutdown_dispatcher d =
     (case shutdown_drain EXECUTOR_IO_URING_SHUTDOWN_DRAIN_WAITS d of
        (None, d) \<Rightarrow> (None, d)
      | (Some _, d) \<Rightarrow> (Some (dispatcher_snapshot_of d), d))"

text \<open>The dispatcher is taken, shut down and dropped.\<close>

definition take_and_shutdown :: "dispatcher \<Rightarrow> uring_thread \<Rightarrow> dispatcher_snapshot option \<times> uring_thread" where
  "take_and_shutdown d t =
     (let t = t\<lparr>th_current := None\<rparr>; (snapshot, d) = shutdown_dispatcher d
      in if snapshot = None then (None, t)
         else let (ok, t) = thread_drop d t in (if ok then snapshot else None, t))"

definition shutdown_current ::
  "nat \<Rightarrow> uring_thread \<Rightarrow> (executor_status \<times> dispatcher_snapshot option) option \<times> uring_thread" where
  "shutdown_current owner t =
     (case th_current t of
        None \<Rightarrow> (Some (Unavailable, None), t)
      | Some (o', d) \<Rightarrow>
          if o' \<noteq> owner then (Some (Installed, None), t)
          else if 0 < dps_registered_wakers (dispatcher_snapshot_of d)
          then (Some (Installed, Some ((dispatcher_snapshot_of d)\<lparr>dps_shutdown_drain := Some
             \<lparr>ds_status = SkippedLiveWakers, ds_max_waits = EXECUTOR_IO_URING_SHUTDOWN_DRAIN_WAITS, ds_dispatched = 0,
              ds_leaked_buffers = 0\<rparr>\<rparr>)), t)
          else (let (s, t) = take_and_shutdown d t in (map_option (\<lambda>s. (Shutdown, Some s)) s, t)))"

definition shutdown_current_if_idle :: "uring_thread \<Rightarrow> unit option \<times> uring_thread" where
  "shutdown_current_if_idle t =
     (case th_current t of
        None \<Rightarrow> (Some (), t)
      | Some (_, d) \<Rightarrow>
          if dps_registered_wakers (dispatcher_snapshot_of d) = 0
          then (let (s, t) = take_and_shutdown d t in (map_option (\<lambda>_. ()) s, t))
          else (Some (), t))"

definition status :: "uring_thread \<Rightarrow> executor_status" where
  "status t = (if th_current t = None then Unavailable else Installed)"

definition thread_dispatch_available :: "uring_thread \<Rightarrow> u64 \<times> uring_thread" where
  "thread_dispatch_available t =
     (case th_current t of
        None \<Rightarrow> (0, t)
      | Some (o', d) \<Rightarrow>
          (let (n, d) = dispatch_available_limit EXECUTOR_IO_URING_COMPLETION_BUDGET d in (n, t\<lparr>th_current := Some (o', d)\<rparr>)))"

definition should_wait :: "uring_thread \<Rightarrow> bool" where
  "should_wait t =
     (case th_current t of
        None \<Rightarrow> False
      | Some (_, d) \<Rightarrow> 0 < dps_registered_wakers (dispatcher_snapshot_of d) \<or>
          0 < us_pending_submissions (dps_ring (dispatcher_snapshot_of d)))"

definition thread_submit_pending :: "uring_thread \<Rightarrow> u32 call \<times> uring_thread" where
  "thread_submit_pending t =
     (case th_current t of
        None \<Rightarrow> (Some (Inr 0), t)
      | Some (o', d) \<Rightarrow> (let (r, d) = dispatcher_submit_pending d in (r, t\<lparr>th_current := Some (o', d)\<rparr>)))"

definition thread_snapshot :: "uring_thread \<Rightarrow> dispatcher_snapshot option" where
  "thread_snapshot t = map_option (\<lambda>(_, d). dispatcher_snapshot_of d) (th_current t)"

subsection \<open>Reading and writing at an offset\<close>

record at_future =
  af_fd :: i32
  af_offset :: u64
  af_buffer :: "buffer option"
  af_operation :: "operation_id option"

definition read_at_uring :: "i32 \<Rightarrow> u64 \<Rightarrow> buffer \<Rightarrow> at_future" where
  "read_at_uring fd offset b = \<lparr>af_fd = fd, af_offset = offset, af_buffer = Some b, af_operation = None\<rparr>"

definition write_at_uring :: "i32 \<Rightarrow> u64 \<Rightarrow> buffer \<Rightarrow> at_future" where
  "write_at_uring fd offset b = \<lparr>af_fd = fd, af_offset = offset, af_buffer = Some b, af_operation = None\<rparr>"

text \<open>The queueing function is that of reads or that of writes.\<close>

definition ensure_queued ::
  "(i32 \<Rightarrow> u64 \<Rightarrow> nat \<Rightarrow> u64 \<Rightarrow> io_uring \<Rightarrow> (io_error + operation_id) \<times> io_uring) \<Rightarrow> at_future \<Rightarrow> dispatcher \<Rightarrow>
   (panic + io_error + unit) \<times> at_future \<times> dispatcher" where
  "ensure_queued queue f d =
     (if af_operation f \<noteq> None then (Inr (Inr ()), f, d)
      else case af_buffer f of
             None \<Rightarrow> (Inl UnwrapNone, f, d)
           | Some b \<Rightarrow>
               (case on_ring (queue (af_fd f) (buf_addr b) (buf_len b) (af_offset f)) d of
                  (Inl e, d) \<Rightarrow> (Inr (Inl e), f, d)
                | (Inr operation, d) \<Rightarrow> (Inr (Inr ()), f\<lparr>af_operation := Some operation\<rparr>, d)))"

definition read_ensure_queued :: "at_future \<Rightarrow> dispatcher \<Rightarrow> (panic + io_error + unit) \<times> at_future \<times> dispatcher" where
  "read_ensure_queued = ensure_queued queue_read_operation"

definition write_ensure_queued :: "at_future \<Rightarrow> dispatcher \<Rightarrow> (panic + io_error + unit) \<times> at_future \<times> dispatcher" where
  "write_ensure_queued = ensure_queued queue_write_operation"

text \<open>The same steps as in the poll of an operation future.\<close>

definition poll_operation :: "operation_id \<Rightarrow> waker \<Rightarrow> dispatcher \<Rightarrow> operation_completion poll \<times> dispatcher" where
  "poll_operation operation w d = operation_poll w operation d"

text \<open>The negation of the least \<open>i32\<close> overflows.\<close>

definition completion_result_to_usize :: "i32 \<Rightarrow> panic + io_error + nat" where
  "completion_result_to_usize result =
     (if sint result < 0
      then (if result = 0x80000000 then Inl ArithmeticOverflow else Inr (Inl (OsError (- sint result))))
      else Inr (Inr (unat result)))"

text \<open>Polling; a completed future returns the count and its buffer.\<close>

definition at_poll ::
  "(at_future \<Rightarrow> dispatcher \<Rightarrow> (panic + io_error + unit) \<times> at_future \<times> dispatcher) \<Rightarrow> waker \<Rightarrow> at_future \<Rightarrow> uring_thread \<Rightarrow>
   (panic + (io_error + nat \<times> buffer) poll) \<times> at_future \<times> uring_thread" where
  "at_poll ensure w f t =
     (case th_current t of
        None \<Rightarrow> (Inr (Ready (Inl Unsupported)), f, t)
      | Some (o', d) \<Rightarrow>
          (case ensure f d of
             (Inl p, f, d) \<Rightarrow> (Inl p, f, t\<lparr>th_current := Some (o', d)\<rparr>)
           | (Inr (Inl e), f, d) \<Rightarrow> (Inr (Ready (Inl e)), f, t\<lparr>th_current := Some (o', d)\<rparr>)
           | (Inr (Inr ()), f, d) \<Rightarrow>
               (case af_operation f of
                  None \<Rightarrow> (Inl UnwrapNone, f, t\<lparr>th_current := Some (o', d)\<rparr>)
                | Some operation \<Rightarrow>
                    (case poll_operation operation w d of
                       (Pending, d) \<Rightarrow> (Inr Pending, f, t\<lparr>th_current := Some (o', d)\<rparr>)
                     | (Ready completion, d) \<Rightarrow>
                         (case completion_result_to_usize (oc_result completion) of
                            Inl p \<Rightarrow> (Inl p, f, t\<lparr>th_current := Some (o', d)\<rparr>)
                          | Inr (Inl e) \<Rightarrow> (Inr (Ready (Inl e)), f, t\<lparr>th_current := Some (o', d)\<rparr>)
                          | Inr (Inr n) \<Rightarrow>
                              (case af_buffer f of
                                 None \<Rightarrow> (Inl UnwrapNone, f, t\<lparr>th_current := Some (o', d)\<rparr>)
                               | Some b \<Rightarrow>
                                   (Inr (Ready (Inr (n, b))), f\<lparr>af_buffer := None, af_operation := None\<rparr>,
                                    t\<lparr>th_current := Some (o', release_buffers [(operation, b)] d)\<rparr>)))))))"

definition read_at_poll ::
  "waker \<Rightarrow> at_future \<Rightarrow> uring_thread \<Rightarrow> (panic + (io_error + buffer) poll) \<times> at_future \<times> uring_thread" where
  "read_at_poll w f t =
     (case at_poll read_ensure_queued w f t of
        (Inr (Ready (Inr (read, b))), f, t) \<Rightarrow> (Inr (Ready (Inr (Buffer (buf_addr b) (min read (buf_len b))))), f, t)
      | (Inr (Ready (Inl e)), f, t) \<Rightarrow> (Inr (Ready (Inl e)), f, t)
      | (Inr Pending, f, t) \<Rightarrow> (Inr Pending, f, t)
      | (Inl p, f, t) \<Rightarrow> (Inl p, f, t))"

definition write_at_poll ::
  "waker \<Rightarrow> at_future \<Rightarrow> uring_thread \<Rightarrow> (panic + (io_error + nat \<times> buffer) poll) \<times> at_future \<times> uring_thread" where
  "write_at_poll = at_poll write_ensure_queued"

definition at_future_drop :: "at_future \<Rightarrow> uring_thread \<Rightarrow> uring_thread" where
  "at_future_drop f t =
     (case (af_operation f, af_buffer f) of
        (Some operation, Some b) \<Rightarrow>
          (case th_current t of
             Some (o', d) \<Rightarrow> t\<lparr>th_current := Some (o', defer_buffer_drop operation b d)\<rparr>
           | None \<Rightarrow> t\<lparr>th_freed := th_freed t @ [(operation, b)]\<rparr>)
      | _ \<Rightarrow> t)"

subsection \<open>Reading exactly and writing all\<close>

text \<open>The positions are 64-bit and checked; \<open>read_at\<close> and \<open>write_at\<close> stand for awaiting the futures.\<close>

function read_exact_loop ::
  "('s \<Rightarrow> nat \<Rightarrow> nat \<Rightarrow> (io_error + u8 list) \<times> 's) \<Rightarrow> nat \<Rightarrow> nat \<Rightarrow> u8 list \<Rightarrow> 's \<Rightarrow>
   (panic + io_error + u8 list) \<times> 's" where
  "read_exact_loop read_at offset len out s =
     (if length out < len
      then if 2 ^ 64 \<le> int (offset + length out) then (Inl ArithmeticOverflow, s)
           else (case read_at s (offset + length out) (len - length out) of
                   (Inl e, s) \<Rightarrow> (Inr (Inl e), s)
                 | (Inr bytes, s) \<Rightarrow>
                     if bytes = [] then (Inr (Inl UnexpectedEof), s)
                     else read_exact_loop read_at offset len (out @ bytes) s)
      else (Inr (Inr out), s))"
  by pat_completeness auto

termination
  by (relation "measure (\<lambda>(_, _, len, out, _). len - length out)")
    (auto simp: length_greater_0_conv [symmetric] simp del: length_greater_0_conv)

declare read_exact_loop.simps [simp del]

definition read_exact_at_uring ::
  "('s \<Rightarrow> nat \<Rightarrow> nat \<Rightarrow> (io_error + u8 list) \<times> 's) \<Rightarrow> nat \<Rightarrow> nat \<Rightarrow> 's \<Rightarrow> (panic + io_error + u8 list) \<times> 's" where
  "read_exact_at_uring read_at offset len = read_exact_loop read_at offset len []"

function write_all_at_uring ::
  "('s \<Rightarrow> nat \<Rightarrow> u8 list \<Rightarrow> (io_error + nat) \<times> 's) \<Rightarrow> nat \<Rightarrow> u8 list \<Rightarrow> 's \<Rightarrow> (panic + io_error + unit) \<times> 's" where
  "write_all_at_uring write_at offset buf s =
     (if buf = [] then (Inr (Inr ()), s)
      else case write_at s offset buf of
             (Inl e, s) \<Rightarrow> (Inr (Inl e), s)
           | (Inr written, s) \<Rightarrow>
               if written = 0 then (Inr (Inl WriteZero), s)
               else if 2 ^ 64 \<le> int (offset + written) then (Inl ArithmeticOverflow, s)
               else write_all_at_uring write_at (offset + written) (if length buf \<le> written then [] else drop written buf) s)"
  by pat_completeness auto

termination
  by (relation "measure (\<lambda>(_, _, buf, _). length buf)") auto

declare write_all_at_uring.simps [simp del]

text \<open>What the loops rely on: a read returns bytes of the file, at most as many as asked for and none
  only at its end; a write stores a prefix of the buffer.\<close>

definition patch :: "nat \<Rightarrow> u8 list \<Rightarrow> (nat \<Rightarrow> u8) \<Rightarrow> nat \<Rightarrow> u8" where
  "patch offset bytes content i = (if offset \<le> i \<and> i < offset + length bytes then bytes ! (i - offset) else content i)"

definition reads_file ::
  "('s \<Rightarrow> nat \<Rightarrow> u8) \<Rightarrow> ('s \<Rightarrow> nat) \<Rightarrow> ('s \<Rightarrow> nat \<Rightarrow> nat \<Rightarrow> (io_error + u8 list) \<times> 's) \<Rightarrow> bool" where
  "reads_file content fsize read_at \<longleftrightarrow>
     (\<forall>s off n r s'. read_at s off n = (r, s') \<longrightarrow> content s' = content s \<and> fsize s' = fsize s \<and>
        (case r of
           Inl e \<Rightarrow> e \<noteq> UnexpectedEof
         | Inr bytes \<Rightarrow> length bytes \<le> n \<and> bytes = map (content s) [off..<off + length bytes] \<and>
             (bytes = [] \<longrightarrow> n = 0 \<or> fsize s \<le> off)))"

definition writes_file ::
  "('s \<Rightarrow> nat \<Rightarrow> u8) \<Rightarrow> ('s \<Rightarrow> nat) \<Rightarrow> ('s \<Rightarrow> nat \<Rightarrow> u8 list \<Rightarrow> (io_error + nat) \<times> 's) \<Rightarrow> bool" where
  "writes_file content fsize write_at \<longleftrightarrow>
     (\<forall>s off buf r s'. write_at s off buf = (r, s') \<longrightarrow>
        (case r of
           Inl e \<Rightarrow> content s' = content s \<and> fsize s' = fsize s
         | Inr n \<Rightarrow> n \<le> length buf \<and> content s' = patch off (take n buf) (content s) \<and>
             fsize s' = (if n = 0 then fsize s else max (fsize s) (off + n))))"

lemma patch_empty [simp]: "patch off [] c = c"
  by (rule ext) (auto simp: patch_def)

lemma patch_patch:
  assumes "n \<le> length buf"
  shows "patch (off + n) (take m (drop n buf)) (patch off (take n buf) c) = patch off (take (n + m) buf) c"
proof (rule ext)
  fix i
  show "patch (off + n) (take m (drop n buf)) (patch off (take n buf) c) i = patch off (take (n + m) buf) c i"
    using assms by (auto simp: patch_def min_def nth_append)
qed

lemma read_patch:
  assumes "m \<le> length buf"
  shows "map (patch off buf c) [off..<off + m] = take m buf"
  using assms by (intro nth_equalityI) (simp_all add: patch_def)

lemma write_all_effect:
  assumes "writes_file content fsize write_at"
  shows "offset + length buf < 2 ^ 64 \<Longrightarrow> write_all_at_uring write_at offset buf s = (r, s') \<Longrightarrow>
    \<exists>n\<le>length buf. content s' = patch offset (take n buf) (content s) \<and>
      fsize s' = (if n = 0 then fsize s else max (fsize s) (offset + n)) \<and>
      (if n = length buf then r = Inr (Inr ()) else \<exists>e. r = Inr (Inl e))"
proof (induction buf arbitrary: offset s rule: length_induct)
  case (1 buf)
  show ?case
  proof (cases "buf = []")
    case True
    then show ?thesis using "1.prems"(2) by (subst (asm) write_all_at_uring.simps) simp
  next
    case False
    obtain q s1 where w: "write_at s offset buf = (q, s1)" by fastforce
    note c = assms [unfolded writes_file_def, rule_format, OF w]
    show ?thesis
    proof (cases "\<exists>n. q = Inr n \<and> n \<noteq> 0")
      case False
      then have "(\<exists>e. r = Inr (Inl e)) \<and> s' = s1"
        using "1.prems"(2) \<open>buf \<noteq> []\<close> w by (subst (asm) write_all_at_uring.simps) (auto split: sum.splits)
      then show ?thesis using False c \<open>buf \<noteq> []\<close> by (intro exI [of _ 0]) (auto split: sum.splits)
    next
      case True
      then obtain n where n: "q = Inr n" "n \<noteq> 0" by blast
      then have e: "n \<le> length buf" "content s1 = patch offset (take n buf) (content s)" "fsize s1 = max (fsize s) (offset + n)"
        using c by simp_all
      have lt: "\<not> 2 ^ 64 \<le> int (offset + n)" using "1.prems"(1) e(1) by simp
      have rest: "write_all_at_uring write_at (offset + n) (drop n buf) s1 = (r, s')"
        using "1.prems"(2) \<open>buf \<noteq> []\<close> w n lt e(1)
        by (subst (asm) write_all_at_uring.simps) (simp split: if_splits)
      have "length (drop n buf) < length buf" using n(2) \<open>buf \<noteq> []\<close> by simp
      moreover have "offset + n + length (drop n buf) < 2 ^ 64" using "1.prems"(1) e(1) by simp
      ultimately obtain m where m: "m \<le> length (drop n buf)" "content s' = patch (offset + n) (take m (drop n buf)) (content s1)"
        "fsize s' = (if m = 0 then fsize s1 else max (fsize s1) (offset + n + m))"
        "if m = length (drop n buf) then r = Inr (Inr ()) else \<exists>e. r = Inr (Inl e)"
        using "1.IH" rest by blast
      show ?thesis
        using m n(2) e patch_patch [OF e(1), of offset m "content s"]
        by (intro exI [of _ "n + m"]) (auto split: if_splits)
    qed
  qed
qed

lemma read_exact_effect:
  assumes "reads_file content fsize read_at"
  shows "offset + len < 2 ^ 64 \<Longrightarrow> length out \<le> len \<Longrightarrow> out = map (content s) [offset..<offset + length out] \<Longrightarrow>
    read_exact_loop read_at offset len out s = (r, s') \<Longrightarrow>
    r = Inr (Inr (map (content s) [offset..<offset + len])) \<or>
    r = Inr (Inl UnexpectedEof) \<and> fsize s < offset + len \<or> (\<exists>e. r = Inr (Inl e) \<and> e \<noteq> UnexpectedEof)"
proof (induction "len - length out" arbitrary: out s rule: less_induct)
  case less
  show ?case
  proof (cases "length out < len")
    case False
    then have "length out = len" using less.prems(2) by simp
    moreover have "read_exact_loop read_at offset len out s = (Inr (Inr out), s)"
      using False by (subst read_exact_loop.simps) simp
    ultimately show ?thesis using less.prems(3,4) by simp
  next
    case True
    obtain q s1 where q: "read_at s (offset + length out) (len - length out) = (q, s1)" by fastforce
    note c = assms [unfolded reads_file_def, rule_format, OF q]
    have lt: "\<not> 2 ^ 64 \<le> int (offset + length out)" using less.prems(1) True by simp
    show ?thesis
    proof (cases q)
      case (Inl e)
      then show ?thesis using c less.prems(4) q True lt by (subst (asm) read_exact_loop.simps) auto
    next
      case (Inr bytes)
      show ?thesis
      proof (cases "bytes = []")
        case True
        then have "r = Inr (Inl UnexpectedEof)" "fsize s \<le> offset + length out"
          using c less.prems(4) q Inr \<open>length out < len\<close> lt by (subst (asm) read_exact_loop.simps, simp)+
        then show ?thesis using \<open>length out < len\<close> by simp
      next
        case False
        have b: "length bytes \<le> len - length out" "bytes = map (content s) [offset + length out..<offset + length out + length bytes]"
          "content s1 = content s" "fsize s1 = fsize s"
          using c Inr by simp_all
        have "out @ bytes = map (content s) [offset..<offset + (length out + length bytes)]"
          using less.prems(3) b(2) upt_add_eq_append [of offset "offset + length out" "length bytes"]
          by (metis add.assoc le_add1 map_append)
        moreover have "read_exact_loop read_at offset len (out @ bytes) s1 = (r, s')"
          using less.prems(4) q Inr False True lt by (subst (asm) read_exact_loop.simps) simp
        moreover have "len - length (out @ bytes) < len - length out" using False True by (cases bytes) auto
        ultimately show ?thesis using less.hyps [of "out @ bytes" s1] less.prems(1) b True by simp
      qed
    qed
  qed
qed


text \<open>A file that takes and gives at most two bytes at a time.\<close>

definition slow_read :: "(nat \<Rightarrow> u8) \<times> nat \<Rightarrow> nat \<Rightarrow> nat \<Rightarrow> (io_error + u8 list) \<times> (nat \<Rightarrow> u8) \<times> nat" where
  "slow_read s off n = (Inr (map (fst s) [off..<off + min (min n 2) (snd s - off)]), s)"

definition slow_write :: "(nat \<Rightarrow> u8) \<times> nat \<Rightarrow> nat \<Rightarrow> u8 list \<Rightarrow> (io_error + nat) \<times> (nat \<Rightarrow> u8) \<times> nat" where
  "slow_write s off buf =
     (let n = min (length buf) 2
      in (Inr n, patch off (take n buf) (fst s), if n = 0 then snd s else max (snd s) (off + n)))"


subsection \<open>Identifiers across dispatchers\<close>

definition read_entry :: "i32 \<Rightarrow> u64 \<Rightarrow> u32 \<Rightarrow> sqe" where
  "read_entry fd addr len = clear_sqe\<lparr>sqe_opcode := IORING_OP_READ, sqe_fd := fd, sqe_addr := addr, sqe_len := len,
     sqe_user_data := OPERATION_USER_DATA_BASE\<rparr>"

definition completing_ring :: "sqe \<Rightarrow> i32 \<Rightarrow> io_uring" where
  "completing_ring e res = uring_new 2 2 [\<lparr>ea_result = Inr 1, ea_consumed = 1, ea_posted = [(e, res, 0)]\<rparr>] []"

text \<open>A future starts a read of 16 bytes; the read completes and its task is woken, and before the task
  is polled again the root future finishes and the dispatcher is shut down.  The executor runs again,
  and a second future starts a read on the new dispatcher, which completes with 5 bytes.\<close>

definition two_runs :: "at_future \<times> at_future \<times> uring_thread" where
  "two_runs =
     (let t = snd (install_current_io_uring 1 False (Inr (completing_ring (read_entry 3 64 16) 16)) thread_new);
          (_, first, t) = read_at_poll 7 (read_at_uring 3 0 (Buffer 64 16)) t;
          t = snd (thread_dispatch_available (snd (thread_submit_pending t)));
          t = snd (shutdown_current 1 t);
          t = snd (install_current_io_uring 1 False (Inr (completing_ring (read_entry 4 128 32) 5)) t);
          (_, second, t) = read_at_poll 8 (read_at_uring 4 0 (Buffer 128 32)) t;
          t = snd (thread_dispatch_available (snd (thread_submit_pending t)))
      in (first, second, t))"


end
