(* ===== verification/Spawner.thy ===== *)
theory Spawner
  imports Exec_Loop
begin

text \<open>
  Scheduling groups and spawners: \<open>executor/scheduling_group.rs\<close> and \<open>executor/spawner.rs\<close>.  An executor
  is its identifier and its scheduler.  A task's future carries the name it was spawned with; the
  handle of a task is its number.  The spawners here have no backpressure guard.
\<close>

subsection \<open>Scheduling groups\<close>

record scheduling_group =
  gp_executor :: "nat option"
  gp_id :: nat
  gp_name :: string
  gp_shares :: nat

datatype scheduling_group_error = ZeroShares

definition scheduling_group_new :: "nat \<Rightarrow> nat \<Rightarrow> string \<Rightarrow> nat \<Rightarrow> scheduling_group" where
  "scheduling_group_new executor_id gid name shares =
     \<lparr>gp_executor = Some executor_id, gp_id = gid, gp_name = name, gp_shares = shares\<rparr>"

definition scheduling_group_default :: scheduling_group where
  "scheduling_group_default =
     \<lparr>gp_executor = None, gp_id = default_group_id, gp_name = ''default'', gp_shares = default_group_shares\<rparr>"

definition belongs_to :: "scheduling_group \<Rightarrow> nat \<Rightarrow> bool" where
  "belongs_to g executor_id \<longleftrightarrow> (case gp_executor g of None \<Rightarrow> True | Some owner \<Rightarrow> owner = executor_id)"

subsection \<open>Spawning\<close>

record ('f, 'h) executor =
  xc_id :: nat
  xc_exec :: "(string option \<times> 'f, 'h) exec"

definition ensure_group_belongs_to_executor :: "scheduling_group \<Rightarrow> ('f, 'h) executor \<Rightarrow> spawn_error + unit" where
  "ensure_group_belongs_to_executor g x =
     (if belongs_to g (xc_id x) then Inr () else Inl SchedulingGroupExecutorMismatch)"

definition spawner_create_group ::
  "string \<Rightarrow> nat \<Rightarrow> ('f, 'h) executor \<Rightarrow> (scheduling_group_error + scheduling_group) \<times> ('f, 'h) executor" where
  "spawner_create_group name shares x =
     (if shares = 0 then (Inl ZeroShares, x)
      else let (gid, s) = create_scheduling_group name shares (ex_set (xc_exec x))
           in (Inr (scheduling_group_new (xc_id x) gid name shares), x\<lparr>xc_exec := (xc_exec x)\<lparr>ex_set := s\<rparr>\<rparr>))"


definition spawn_inner ::
  "(task_ref \<Rightarrow> bool) \<Rightarrow> instant \<Rightarrow> string option \<Rightarrow> nat \<Rightarrow> 'f \<Rightarrow> 'h option \<Rightarrow> ('f, 'h) executor \<Rightarrow>
   (spawn_error + nat) \<times> ('f, 'h) executor" where
  "spawn_inner alive now name gid f h x =
     (let (r, e) = ex_spawn alive now gid (name, f) h (xc_exec x) in (r, x\<lparr>xc_exec := e\<rparr>))"

definition spawn_with_name_and_group ::
  "(task_ref \<Rightarrow> bool) \<Rightarrow> instant \<Rightarrow> string option \<Rightarrow> nat \<Rightarrow> 'f \<Rightarrow> ('f, 'h) executor \<Rightarrow>
   (spawn_error + unit) \<times> ('f, 'h) executor" where
  "spawn_with_name_and_group alive now name gid f x =
     (let (r, x) = spawn_inner alive now name gid f None x in (map_sum id (\<lambda>_. ()) r, x))"

definition spawn_with_name ::
  "(task_ref \<Rightarrow> bool) \<Rightarrow> instant \<Rightarrow> string option \<Rightarrow> 'f \<Rightarrow> ('f, 'h) executor \<Rightarrow> (spawn_error + unit) \<times> ('f, 'h) executor" where
  "spawn_with_name alive now name f x = spawn_with_name_and_group alive now name (gp_id scheduling_group_default) f x"

definition spawner_spawn ::
  "(task_ref \<Rightarrow> bool) \<Rightarrow> instant \<Rightarrow> 'f \<Rightarrow> ('f, 'h) executor \<Rightarrow> (spawn_error + unit) \<times> ('f, 'h) executor" where
  "spawner_spawn alive now f x = spawn_with_name alive now None f x"

definition spawner_spawn_named ::
  "(task_ref \<Rightarrow> bool) \<Rightarrow> instant \<Rightarrow> string \<Rightarrow> 'f \<Rightarrow> ('f, 'h) executor \<Rightarrow> (spawn_error + unit) \<times> ('f, 'h) executor" where
  "spawner_spawn_named alive now name f x = spawn_with_name alive now (Some name) f x"

definition spawner_spawn_in_group ::
  "(task_ref \<Rightarrow> bool) \<Rightarrow> instant \<Rightarrow> scheduling_group \<Rightarrow> 'f \<Rightarrow> ('f, 'h) executor \<Rightarrow>
   (spawn_error + unit) \<times> ('f, 'h) executor" where
  "spawner_spawn_in_group alive now g f x =
     (case ensure_group_belongs_to_executor g x of
        Inl e \<Rightarrow> (Inl e, x)
      | Inr _ \<Rightarrow> spawn_with_name_and_group alive now None (gp_id g) f x)"

definition spawner_spawn_named_in_group ::
  "(task_ref \<Rightarrow> bool) \<Rightarrow> instant \<Rightarrow> scheduling_group \<Rightarrow> string \<Rightarrow> 'f \<Rightarrow> ('f, 'h) executor \<Rightarrow>
   (spawn_error + unit) \<times> ('f, 'h) executor" where
  "spawner_spawn_named_in_group alive now g name f x =
     (case ensure_group_belongs_to_executor g x of
        Inl e \<Rightarrow> (Inl e, x)
      | Inr _ \<Rightarrow> spawn_with_name_and_group alive now (Some name) (gp_id g) f x)"

text \<open>The panic handler of a task with a handle stores the panic in the shared join state.\<close>

definition spawn_with_handle_name_and_group ::
  "(task_ref \<Rightarrow> bool) \<Rightarrow> instant \<Rightarrow> string option \<Rightarrow> nat \<Rightarrow> 'f \<Rightarrow> 'h \<Rightarrow> ('f, 'h) executor \<Rightarrow>
   (spawn_error + nat) \<times> ('f, 'h) executor" where
  "spawn_with_handle_name_and_group alive now name gid f h x = spawn_inner alive now name gid f (Some h) x"

definition spawn_with_handle_and_name ::
  "(task_ref \<Rightarrow> bool) \<Rightarrow> instant \<Rightarrow> string option \<Rightarrow> 'f \<Rightarrow> 'h \<Rightarrow> ('f, 'h) executor \<Rightarrow>
   (spawn_error + nat) \<times> ('f, 'h) executor" where
  "spawn_with_handle_and_name alive now name f h x =
     spawn_with_handle_name_and_group alive now name (gp_id scheduling_group_default) f h x"

definition spawner_spawn_with_handle ::
  "(task_ref \<Rightarrow> bool) \<Rightarrow> instant \<Rightarrow> 'f \<Rightarrow> 'h \<Rightarrow> ('f, 'h) executor \<Rightarrow> (spawn_error + nat) \<times> ('f, 'h) executor" where
  "spawner_spawn_with_handle alive now f h x = spawn_with_handle_and_name alive now None f h x"

definition spawner_spawn_with_handle_named ::
  "(task_ref \<Rightarrow> bool) \<Rightarrow> instant \<Rightarrow> string \<Rightarrow> 'f \<Rightarrow> 'h \<Rightarrow> ('f, 'h) executor \<Rightarrow> (spawn_error + nat) \<times> ('f, 'h) executor" where
  "spawner_spawn_with_handle_named alive now name f h x = spawn_with_handle_and_name alive now (Some name) f h x"

definition spawner_spawn_with_handle_in_group ::
  "(task_ref \<Rightarrow> bool) \<Rightarrow> instant \<Rightarrow> scheduling_group \<Rightarrow> 'f \<Rightarrow> 'h \<Rightarrow> ('f, 'h) executor \<Rightarrow>
   (spawn_error + nat) \<times> ('f, 'h) executor" where
  "spawner_spawn_with_handle_in_group alive now g f h x =
     (case ensure_group_belongs_to_executor g x of
        Inl e \<Rightarrow> (Inl e, x)
      | Inr _ \<Rightarrow> spawn_with_handle_name_and_group alive now None (gp_id g) f h x)"

definition spawner_spawn_with_handle_named_in_group ::
  "(task_ref \<Rightarrow> bool) \<Rightarrow> instant \<Rightarrow> scheduling_group \<Rightarrow> string \<Rightarrow> 'f \<Rightarrow> 'h \<Rightarrow> ('f, 'h) executor \<Rightarrow>
   (spawn_error + nat) \<times> ('f, 'h) executor" where
  "spawner_spawn_with_handle_named_in_group alive now g name f h x =
     (case ensure_group_belongs_to_executor g x of
        Inl e \<Rightarrow> (Inl e, x)
      | Inr _ \<Rightarrow> spawn_with_handle_name_and_group alive now (Some name) (gp_id g) f h x)"

subsection \<open>Laws\<close>

definition task_queued :: "instant \<Rightarrow> 'f \<Rightarrow> 'h option \<Rightarrow> ('f, 'h) task" where
  "task_queued now f h = (task_new f h)\<lparr>tk_state := snd (mark_queued now (tk_state (task_new f h)))\<rparr>"

lemma ex_spawn_ok:
  assumes "ex_inv e" "gid < length (st_groups (ex_set e))" "ex_spawn alive now gid f h e = (r, e')"
  shows "r = Inr (length (ex_tasks e))" "ex_tasks e' = ex_tasks e @ [(gid, task_queued now f h)]" "ex_inv e'"
    "length (st_groups (ex_set e')) = length (st_groups (ex_set e))"
    "st_spawner_count (ex_set e') = st_spawner_count (ex_set e)"
proof -
  define s0 where "s0 = snd (allocate_task_id (ex_set e))"
  have s0: "st_groups s0 = st_groups (ex_set e)" "st_accepting s0" "group_inv s0"
      "st_spawner_count s0 = st_spawner_count (ex_set e)"
    using ex_invD_set [OF assms(1)] by (auto simp: s0_def allocate_task_id_def group_inv_def)
  have i: "group_index gid s0 = Some gid" using assms(2) s0(1) by (simp add: group_index_inv [OF s0(3)])
  show "r = Inr (length (ex_tasks e))" "ex_tasks e' = ex_tasks e @ [(gid, task_queued now f h)]"
      "length (st_groups (ex_set e')) = length (st_groups (ex_set e))"
      "st_spawner_count (ex_set e') = st_spawner_count (ex_set e)"
    using assms(3) i s0
    by (auto simp: ex_spawn_def Let_def case_prod_unfold s0_def [symmetric] schedule_new_def task_queued_def wake_reactor_def
        enqueue_group_def maybe_compact_tasks_def)
  show "ex_inv e'" using ex_inv_spawn [OF assms(1), of alive now gid f h] assms(3) by simp
qed

text \<open>Cancelling the task that was spawned last, before it was polled.\<close>

lemma ex_cancel_last:
  assumes "ex_tasks e = ts @ [(gid, task_queued now f h)]" "ex_cancel (length ts) e = (ok, e')"
  shows "ok" "\<exists>t. ex_tasks e' = ts @ [(gid, t)] \<and> ts_completed (tk_state t) \<and> ts_future (tk_state t) = None"
    "st_spawner_count (ex_set e') = st_spawner_count (ex_set e)"
    "length (st_groups (ex_set e')) = length (st_groups (ex_set e))"
proof -
  have t: "ex_task e (length ts) = task_queued now f h" by (simp add: ex_task_def assms(1))
  have c: "fst (task_cancel (task_queued now f h))" "ts_completed (tk_state (snd (task_cancel (task_queued now f h))))"
      "ts_future (tk_state (snd (task_cancel (task_queued now f h)))) = None"
    by (simp_all add: task_cancel_def cancel_def task_queued_def task_new_def task_state_new_def mark_queued_def Let_def)
  show "ok" "\<exists>t. ex_tasks e' = ts @ [(gid, t)] \<and> ts_completed (tk_state t) \<and> ts_future (tk_state t) = None"
      "st_spawner_count (ex_set e') = st_spawner_count (ex_set e)"
      "length (st_groups (ex_set e')) = length (st_groups (ex_set e))"
    using assms c
    by (auto simp: ex_cancel_def Let_def case_prod_unfold t ex_set_task_def wake_reactor_def ex_finish_if_def ex_finish_task_def
        finish_task_def split: if_splits)
qed

lemma ex_unfinished_append:
  assumes "ex_tasks e' = ex_tasks e @ [(gid, t)]" "ts_completed (tk_state t)"
  shows "ex_unfinished e' = ex_unfinished e"
  using assms by (simp add: ex_unfinished_def)

lemma ex_inv_default_group: "ex_inv e \<Longrightarrow> default_group_id < length (st_groups (ex_set e))"
  by (auto simp: ex_inv_def ex_struct_def group_inv_def default_group_id_def)

end
