(* ===== verification/Cpu_Placement.thy ===== *)
theory Cpu_Placement
  imports Placement
begin

text \<open>
  CPU and memory placement of shard threads, \<open>sharded_executor/affinity.rs\<close>, on Linux.  The affinity
  mask that the kernel reports, whether it accepts an affinity or a memory policy, and the names in
  the directory of a CPU are parameters.  CPU masks and node masks are sixteen 64-bit words.
\<close>

unbundle bit_operations_syntax

subsection \<open>Decimal numbers\<close>

text \<open>The text \<open>format!\<close> gives for a number, and \<open>str::parse::<usize>\<close>, which accepts a leading plus sign and
  refuses values of more than 64 bits.\<close>

definition digit_char :: "nat \<Rightarrow> char" where
  "digit_char d = char_of (48 + d)"

fun nat_str :: "nat \<Rightarrow> string" where
  "nat_str n = (if n < 10 then [digit_char n] else nat_str (n div 10) @ [digit_char (n mod 10)])"

declare nat_str.simps [simp del]

definition char_digit :: "char \<Rightarrow> nat option" where
  "char_digit c = (let n = of_char c in if 48 \<le> n \<and> n < (58 :: nat) then Some (n - 48) else None)"

fun parse_digits :: "nat \<Rightarrow> string \<Rightarrow> nat option" where
  "parse_digits acc [] = Some acc"
| "parse_digits acc (c # cs) =
     (case char_digit c of
        None \<Rightarrow> None
      | Some d \<Rightarrow> if 2 ^ 64 \<le> int (acc * 10 + d) then None else parse_digits (acc * 10 + d) cs)"

definition parse_usize :: "string \<Rightarrow> nat option" where
  "parse_usize s =
     (case s of
        [] \<Rightarrow> None
      | c # cs \<Rightarrow> if c = CHR ''+'' then (if cs = [] then None else parse_digits 0 cs) else parse_digits 0 s)"

subsection \<open>Placement policies\<close>

type_synonym cpu_id = nat
type_synonym numa_node_id = nat

datatype cpu_placement = Unpinned | Sequential | Explicit "cpu_id list"

datatype memory_placement =
    DefaultMemory
  | LocalToCpu
  | Bind numa_node_id
  | Preferred numa_node_id
  | Interleave "numa_node_id list"

datatype cpu_placement_status =
    CpuUnpinned
  | CpuApplied cpu_id "numa_node_id option"
  | CpuUnsupported "cpu_id option" string
  | CpuFailed cpu_id string

datatype memory_placement_status =
    MemoryDefault
  | MemoryApplied memory_placement
  | MemoryUnsupported memory_placement string
  | MemoryFailed memory_placement string

fun cpu_for_shard :: "cpu_placement \<Rightarrow> nat \<Rightarrow> cpu_id list \<Rightarrow> cpu_id option" where
  "cpu_for_shard Unpinned shard_idx available_cpus = None"
| "cpu_for_shard Sequential shard_idx available_cpus =
     (if available_cpus = [] then Some shard_idx
      else Some (available_cpus ! (shard_idx mod length available_cpus)))"
| "cpu_for_shard (Explicit cpus) shard_idx available_cpus = (if shard_idx < length cpus then Some (cpus ! shard_idx) else None)"

fun cpu_validate :: "cpu_placement \<Rightarrow> nat \<Rightarrow> bool" where
  "cpu_validate (Explicit cpus) shard_count \<longleftrightarrow> shard_count \<le> length cpus"
| "cpu_validate _ shard_count \<longleftrightarrow> True"

text \<open>The derived \<open>Debug\<close> output of a number in a tuple struct, and of a list of them.\<close>

definition debug_number :: "string \<Rightarrow> nat \<Rightarrow> string" where
  "debug_number tag n = tag @ ''('' @ nat_str n @ '')''"

definition debug_numbers :: "string \<Rightarrow> nat list \<Rightarrow> string" where
  "debug_numbers tag ns =
     ''['' @ (case map (debug_number tag) ns of [] \<Rightarrow> [] | x # xs \<Rightarrow> x @ concat (map ((@) '', '') xs)) @ '']''"

fun check_cpus :: "cpu_id list \<Rightarrow> cpu_id list \<Rightarrow> string + unit" where
  "check_cpus available_cpus [] = Inr ()"
| "check_cpus available_cpus (cpu # cpus) =
     (if cpu \<in> set available_cpus then check_cpus available_cpus cpus
      else Inl (''CPU '' @ nat_str cpu @ '' is not in the process available CPU set '' @ debug_numbers ''CpuId'' available_cpus))"

fun validate_against_available_cpus :: "cpu_placement \<Rightarrow> nat \<Rightarrow> cpu_id list \<Rightarrow> string + unit" where
  "validate_against_available_cpus (Explicit cpus) shard_count available_cpus =
     (if length cpus < shard_count
      then Inl (''explicit placement provides '' @ nat_str (length cpus) @ '' CPUs for '' @ nat_str shard_count @ '' shards'')
      else check_cpus available_cpus (take shard_count cpus))"
| "validate_against_available_cpus _ shard_count available_cpus = Inr ()"

fun memory_validate :: "memory_placement \<Rightarrow> string + unit" where
  "memory_validate (Interleave nodes) =
     (if nodes = [] then Inl ''interleave placement requires at least one NUMA node'' else Inr ())"
| "memory_validate _ = Inr ()"

fun requested_cpu :: "cpu_placement_status \<Rightarrow> cpu_id option" where
  "requested_cpu CpuUnpinned = None"
| "requested_cpu (CpuApplied cpu _) = Some cpu"
| "requested_cpu (CpuUnsupported requested _) = requested"
| "requested_cpu (CpuFailed requested _) = Some requested"

fun cpu_is_applied :: "cpu_placement_status \<Rightarrow> bool" where
  "cpu_is_applied (CpuApplied _ _) \<longleftrightarrow> True"
| "cpu_is_applied _ \<longleftrightarrow> False"

fun memory_is_applied :: "memory_placement_status \<Rightarrow> bool" where
  "memory_is_applied (MemoryApplied _) \<longleftrightarrow> True"
| "memory_is_applied _ \<longleftrightarrow> False"

fun numa_node :: "cpu_placement_status \<Rightarrow> numa_node_id option" where
  "numa_node (CpuApplied _ node) = node"
| "numa_node _ = None"

fun display_cpu_status :: "cpu_placement_status \<Rightarrow> string" where
  "display_cpu_status CpuUnpinned = ''unpinned''"
| "display_cpu_status (CpuApplied cpu node) =
     (case node of
        Some n \<Rightarrow> ''pinned to CPU '' @ nat_str cpu @ '' on NUMA node '' @ nat_str n
      | None \<Rightarrow> ''pinned to CPU '' @ nat_str cpu)"
| "display_cpu_status (CpuUnsupported requested reason) =
     (case requested of
        Some cpu \<Rightarrow> ''CPU '' @ nat_str cpu @ '' requested but unsupported: '' @ reason
      | None \<Rightarrow> ''unsupported: '' @ reason)"
| "display_cpu_status (CpuFailed requested err) = ''failed to pin to CPU '' @ nat_str requested @ '': '' @ err"

fun debug_memory :: "memory_placement \<Rightarrow> string" where
  "debug_memory DefaultMemory = ''Default''"
| "debug_memory LocalToCpu = ''LocalToCpu''"
| "debug_memory (Bind node) = ''Bind('' @ debug_number ''NumaNodeId'' node @ '')''"
| "debug_memory (Preferred node) = ''Preferred('' @ debug_number ''NumaNodeId'' node @ '')''"
| "debug_memory (Interleave nodes) = ''Interleave('' @ debug_numbers ''NumaNodeId'' nodes @ '')''"

fun display_memory_status :: "memory_placement_status \<Rightarrow> string" where
  "display_memory_status MemoryDefault = ''default memory placement''"
| "display_memory_status (MemoryApplied policy) = ''memory placement applied: '' @ debug_memory policy"
| "display_memory_status (MemoryUnsupported requested reason) =
     ''memory placement '' @ debug_memory requested @ '' unsupported: '' @ reason"
| "display_memory_status (MemoryFailed requested err) = ''memory placement '' @ debug_memory requested @ '' failed: '' @ err"

subsection \<open>Masks\<close>

definition CPU_SETSIZE :: nat where "CPU_SETSIZE = 1024"
definition NODE_SETSIZE :: nat where "NODE_SETSIZE = 1024"

type_synonym cpu_set = "u64 list"

definition set_empty :: cpu_set where
  "set_empty = replicate 16 0"

text \<open>The kernel's masks of CPUs and of nodes have the same layout.\<close>

definition set_insert :: "nat \<Rightarrow> cpu_set \<Rightarrow> bool \<times> cpu_set" where
  "set_insert cpu bits =
     (let word_idx = cpu div 64; bit_idx = cpu mod 64
      in if length bits \<le> word_idx then (False, bits)
         else (True, bits[word_idx := bits ! word_idx OR push_bit bit_idx 1]))"

definition set_contains :: "cpu_set \<Rightarrow> nat \<Rightarrow> bool" where
  "set_contains bits cpu_idx =
     (let word_idx = cpu_idx div 64; bit_idx = cpu_idx mod 64
      in word_idx < length bits \<and> bits ! word_idx AND push_bit bit_idx 1 \<noteq> 0)"

text \<open>\<open>platform\<close> is the mask the kernel reports, or nothing when the call fails.\<close>

definition platform_cpu_ids :: "cpu_set option \<Rightarrow> cpu_id list option" where
  "platform_cpu_ids reported =
     (case reported of None \<Rightarrow> None | Some bits \<Rightarrow> Some (filter (set_contains bits) [0..<CPU_SETSIZE]))"

definition available_cpu_ids :: "cpu_set option \<Rightarrow> nat \<Rightarrow> cpu_id list" where
  "available_cpu_ids reported parallelism =
     (case platform_cpu_ids reported of Some cpus \<Rightarrow> cpus | None \<Rightarrow> [0..<parallelism])"

subsection \<open>Applying a placement\<close>

text \<open>The smallest number of an entry named after a node in the directory of a CPU.\<close>

definition strip_node :: "string \<Rightarrow> string option" where
  "strip_node name = (if take 4 name = ''node'' then Some (drop 4 name) else None)"

definition numa_node_for_cpu :: "string list option \<Rightarrow> numa_node_id option" where
  "numa_node_for_cpu entries =
     (case entries of
        None \<Rightarrow> None
      | Some names \<Rightarrow>
          (case List.map_filter (\<lambda>name. Option.bind (strip_node name) parse_usize) names of
             [] \<Rightarrow> None
           | n # ns \<Rightarrow> Some (fold min ns n)))"

text \<open>\<open>setaffinity\<close> is the kernel's answer to the mask: nothing, or an error text.\<close>

definition apply_cpu ::
  "(cpu_set \<Rightarrow> string option) \<Rightarrow> (cpu_id \<Rightarrow> string list option) \<Rightarrow> cpu_id \<Rightarrow> cpu_placement_status" where
  "apply_cpu setaffinity sysfs cpu =
     (let (ok, bits) = set_insert cpu set_empty
      in if \<not> ok then CpuFailed cpu (''CPU index exceeds supported CPU_SETSIZE '' @ nat_str CPU_SETSIZE)
         else case setaffinity bits of
                None \<Rightarrow> CpuApplied cpu (numa_node_for_cpu (sysfs cpu))
              | Some err \<Rightarrow> CpuFailed cpu err)"

definition apply_to_current_thread ::
  "(cpu_set \<Rightarrow> string option) \<Rightarrow> (cpu_id \<Rightarrow> string list option) \<Rightarrow> cpu_id option \<Rightarrow> cpu_placement_status" where
  "apply_to_current_thread setaffinity sysfs requested =
     (case requested of None \<Rightarrow> CpuUnpinned | Some cpu \<Rightarrow> apply_cpu setaffinity sysfs cpu)"

fun memory_mode :: "memory_placement \<Rightarrow> (nat \<times> numa_node_id list) option" where
  "memory_mode DefaultMemory = Some (0, [])"
| "memory_mode LocalToCpu = None"
| "memory_mode (Bind node) = Some (2, [node])"
| "memory_mode (Preferred node) = Some (1, [node])"
| "memory_mode (Interleave nodes) = Some (3, nodes)"

fun set_nodes :: "numa_node_id list \<Rightarrow> cpu_set \<Rightarrow> cpu_set option" where
  "set_nodes [] bits = Some bits"
| "set_nodes (node # nodes) bits = (let (ok, bits) = set_insert node bits in if ok then set_nodes nodes bits else None)"

text \<open>The panic is the \<open>unreachable!\<close> of a policy that was not resolved.\<close>

definition platform_apply_memory ::
  "(nat \<Rightarrow> cpu_set option \<Rightarrow> string option) \<Rightarrow> memory_placement \<Rightarrow> memory_placement \<Rightarrow> panic + memory_placement_status" where
  "platform_apply_memory set_mempolicy requested resolved =
     (case memory_mode resolved of
        None \<Rightarrow> Inl ExplicitPanic
      | Some (mode, nodes) \<Rightarrow>
          Inr (case set_nodes nodes set_empty of
                 None \<Rightarrow> MemoryFailed requested (''NUMA node index exceeds supported NODE_SETSIZE '' @ nat_str NODE_SETSIZE)
               | Some bits \<Rightarrow>
                   (case set_mempolicy mode (if resolved = DefaultMemory then None else Some bits) of
                      None \<Rightarrow> MemoryApplied resolved
                    | Some err \<Rightarrow> MemoryFailed requested err)))"

definition apply_memory_to_current_thread ::
  "(nat \<Rightarrow> cpu_set option \<Rightarrow> string option) \<Rightarrow> memory_placement \<Rightarrow> cpu_placement_status \<Rightarrow> panic + memory_placement_status" where
  "apply_memory_to_current_thread set_mempolicy policy cpu_status =
     (case policy of
        DefaultMemory \<Rightarrow> Inr MemoryDefault
      | LocalToCpu \<Rightarrow>
          (case numa_node cpu_status of
             None \<Rightarrow> Inr (MemoryFailed policy ''pinned CPU NUMA node is unavailable'')
           | Some node \<Rightarrow> platform_apply_memory set_mempolicy policy (Bind node))
      | _ \<Rightarrow> platform_apply_memory set_mempolicy policy policy)"

subsection \<open>Laws\<close>

lemma digit_roundtrip: "d < 10 \<Longrightarrow> char_digit (digit_char d) = Some d"
  by (simp add: char_digit_def digit_char_def of_char_of Let_def)

lemma parse_digits_append:
  "parse_digits acc (xs @ ys) = Option.bind (parse_digits acc xs) (\<lambda>a. parse_digits a ys)"
  by (induction xs arbitrary: acc) (simp_all split: option.split)

lemma parse_nat_str: "n < 2 ^ 64 \<Longrightarrow> parse_digits 0 (nat_str n) = Some n"
proof (induction n rule: nat_str.induct)
  case (1 n)
  show ?case
  proof (cases "n < 10")
    case True
    then show ?thesis by (subst nat_str.simps) (simp add: digit_roundtrip)
  next
    case False
    have "parse_digits 0 (nat_str (n div 10)) = Some (n div 10)" using 1 False by simp
    moreover have "int (n div 10) * 10 + int (n mod 10) = int n" by presburger
    ultimately show ?thesis
      using False "1.prems" by (subst nat_str.simps) (simp add: parse_digits_append digit_roundtrip)
  qed
qed

lemma nat_str_hd: "nat_str n \<noteq> [] \<and> hd (nat_str n) \<noteq> CHR ''+''"
proof (induction n rule: nat_str.induct)
  case (1 n)
  have "digit_char d \<noteq> CHR ''+''" if "d < 10" for d
    using digit_roundtrip [OF that] by (auto simp: char_digit_def)
  then show ?case using 1 by (subst (1 2) nat_str.simps) (auto simp: hd_append)
qed

lemma parse_usize_nat_str: "n < 2 ^ 64 \<Longrightarrow> parse_usize (nat_str n) = Some n"
  using parse_nat_str [of n] nat_str_hd [of n] by (cases "nat_str n") (auto simp: parse_usize_def)

lemma push_bit_test:
  assumes "k < 64"
  shows "(w :: u64) AND push_bit k 1 \<noteq> 0 \<longleftrightarrow> bit w k"
proof -
  have "w AND push_bit k 1 = (if bit w k then push_bit k 1 else 0)"
    by (rule bit_word_eqI) (auto simp: bit_and_iff bit_push_bit_iff bit_1_iff bit_exp_iff)
  moreover have "push_bit k 1 \<noteq> (0 :: u64)" using assms by (simp add: push_bit_eq_mult)
  ultimately show ?thesis by simp
qed

lemma set_contains_iff:
  "set_contains bits i \<longleftrightarrow> i div 64 < length bits \<and> bit (bits ! (i div 64)) (i mod 64)"
  using push_bit_test [of "i mod 64" "bits ! (i div 64)"] by (simp add: set_contains_def Let_def)

lemma set_insert_contains:
  assumes "set_insert cpu bits = (ok, bits')"
  shows "ok \<longleftrightarrow> cpu < 64 * length bits" "length bits' = length bits"
    "set_contains bits' i \<longleftrightarrow> set_contains bits i \<or> ok \<and> i = cpu"
proof -
  show ok: "ok \<longleftrightarrow> cpu < 64 * length bits"
    using assms by (auto simp: set_insert_def Let_def split: if_splits)
  show len: "length bits' = length bits" using assms by (auto simp: set_insert_def Let_def split: if_splits)
  show "set_contains bits' i \<longleftrightarrow> set_contains bits i \<or> ok \<and> i = cpu"
  proof (cases ok)
    case True
    then have b: "bits' = bits[cpu div 64 := bits ! (cpu div 64) OR push_bit (cpu mod 64) 1]" "cpu div 64 < length bits"
      using assms by (auto simp: set_insert_def Let_def split: if_splits)
    have "i = cpu \<longleftrightarrow> i div 64 = cpu div 64 \<and> i mod 64 = cpu mod 64" by (metis div_mod_decomp)
    then show ?thesis
      using True b by (auto simp: set_contains_iff nth_list_update bit_or_iff bit_push_bit_iff bit_1_iff bit_exp_iff)
  next
    case False
    then show ?thesis using assms by (auto simp: set_insert_def Let_def split: if_splits)
  qed
qed

lemma set_contains_empty [simp]: "\<not> set_contains set_empty i"
  by (auto simp: set_contains_iff set_empty_def nth_replicate)

lemma check_cpus_iff: "check_cpus available cpus = Inr () \<longleftrightarrow> set cpus \<subseteq> set available"
  by (induction cpus) auto

text \<open>C27: a configuration of CPU placement that passes both validations pins every shard within the
  process: an explicit or sequential placement gives every shard a CPU that the affinity mask of the
  process contains, and the mask handed to the kernel for it holds exactly that CPU; distinct shards
  get distinct CPUs in a sequential placement with at most as many shards as CPUs.\<close>

theorem placement_pins_within_process:
  assumes "cpu_validate p n" "available = available_cpu_ids (Some bits) parallelism" "length bits = 16"
    and "validate_against_available_cpus p n available = Inr ()" "p \<noteq> Unpinned" "available \<noteq> []" "i < n"
  shows "\<exists>cpu. cpu_for_shard p i available = Some cpu \<and> set_contains bits cpu \<and>
      fst (set_insert cpu set_empty) \<and> (\<forall>c. set_contains (snd (set_insert cpu set_empty)) c \<longleftrightarrow> c = cpu) \<and>
      (p = Sequential \<and> n \<le> length available \<longrightarrow>
        (\<forall>j<n. j \<noteq> i \<longrightarrow> cpu_for_shard p j available \<noteq> Some cpu))"
proof -
  have av: "cpu \<in> set available \<longleftrightarrow> cpu < CPU_SETSIZE \<and> set_contains bits cpu" "distinct available" for cpu
    by (auto simp: assms(2) available_cpu_ids_def platform_cpu_ids_def)
  obtain cpu where cpu: "cpu_for_shard p i available = Some cpu" "cpu \<in> set available"
  proof (cases p)
    case Sequential
    then show ?thesis using that assms(6) by simp
  next
    case (Explicit cpus)
    then have "i < length cpus" "set (take n cpus) \<subseteq> set available"
      using assms(1,4,7) by (auto simp: check_cpus_iff split: if_splits)
    moreover have "cpus ! i \<in> set (take n cpus)"
      using assms(7) calculation(1) by (metis in_set_conv_nth length_take min_less_iff_conj nth_take)
    ultimately show ?thesis using that Explicit by auto
  qed (use assms(5) in simp)
  obtain ok bits' where m: "set_insert cpu set_empty = (ok, bits')" by fastforce
  have ok: ok using set_insert_contains(1) [OF m] cpu(2) av(1) by (simp add: set_empty_def CPU_SETSIZE_def)
  have seq: "cpu_for_shard p j available \<noteq> Some cpu" if "p = Sequential" "n \<le> length available" "j < n" "j \<noteq> i" for j
    using that cpu(1) assms(6,7) av(2) by (auto simp: nth_eq_iff_index_eq)
  show ?thesis
    using cpu av(1) [of cpu] m ok set_insert_contains(3) [OF m] seq by (intro exI [of _ cpu]) auto
qed

theorem placement_pins_within_process_witness:
  "set_contains [0x11, 0, 0, 0, 0, 0, 0, 0, 0, 0, 0, 0, 0, 0, 0, 0] 4 \<and>
   (\<forall>c. set_contains (snd (set_insert 4 set_empty)) c \<longleftrightarrow> c = 4)"
proof -
  let ?bits = "[0x11, 0, 0, 0, 0, 0, 0, 0, 0, 0, 0, 0, 0, 0, 0, 0] :: cpu_set"
  have "set_contains ?bits 4" by code_simp
  then have a: "4 \<in> set (available_cpu_ids (Some ?bits) 1)"
    by (simp add: available_cpu_ids_def platform_cpu_ids_def CPU_SETSIZE_def del: upt_conv_Cons upt_rec_numeral)
  then have "available_cpu_ids (Some ?bits) 1 \<noteq> []" by (metis empty_iff list.set(1))
  then show ?thesis
    using placement_pins_within_process [of "Explicit [4]" 1 "available_cpu_ids (Some ?bits) 1" ?bits 1 0] a by simp
qed

text \<open>A node number written into a name in the directory of a CPU is read back, and the smallest one is
  the node of the CPU.\<close>

lemma numa_node_read:
  assumes "\<forall>n\<in>set nodes. n < 2 ^ 64" "nodes \<noteq> []"
  shows "numa_node_for_cpu (Some (map (\<lambda>n. ''node'' @ nat_str n) nodes)) = Some (Min (set nodes))"
proof -
  have "Option.bind (strip_node (''node'' @ nat_str n)) parse_usize = Some n" if "n \<in> set nodes" for n
    using assms(1) that by (simp add: strip_node_def parse_usize_nat_str)
  then have "List.map_filter (\<lambda>name. Option.bind (strip_node name) parse_usize) (map (\<lambda>n. ''node'' @ nat_str n) nodes) = nodes"
    by (induction nodes) (simp_all add: List.map_filter_simps)
  then show ?thesis
    using assms(2) by (cases nodes) (simp_all add: numa_node_for_cpu_def Min.set_eq_fold del: list.set)
qed

end
