(* ===== verification/Sharded_Executor.thy ===== *)
theory Sharded_Executor
  imports Spawner Cpu_Placement
begin

text \<open>
  The shard-per-thread runtime, \<open>sharded_executor.rs\<close> and \<open>sharded_executor/join.rs\<close>: its configuration,
  start and shutdown, submitters, scheduling groups on all shards, spawning on one or all shards, and
  joining.  The schedulers of the shards are the list \<open>se_execs\<close>; a spawner is a flag, because all spawners
  of a shard refer to its scheduler.  The threads, the clock and the results of tasks are parameters.
  The debug assertions on shard numbers are the invariant \<open>se_ok\<close>.
\<close>

subsection \<open>Configuration\<close>

record sharded_config =
  cf_shard_count :: nat
  cf_thread_name_prefix :: string
  cf_cpu :: cpu_placement
  cf_require_cpu :: bool
  cf_memory :: memory_placement
  cf_require_memory :: bool

definition sharded_config_new :: "nat \<Rightarrow> sharded_config" where
  "sharded_config_new shard_count =
     \<lparr>cf_shard_count = shard_count, cf_thread_name_prefix = ''sitas-shard'', cf_cpu = Unpinned, cf_require_cpu = False,
      cf_memory = DefaultMemory, cf_require_memory = False\<rparr>"

definition with_thread_name_prefix :: "string \<Rightarrow> sharded_config \<Rightarrow> sharded_config" where
  "with_thread_name_prefix prefix c = c\<lparr>cf_thread_name_prefix := prefix\<rparr>"

definition with_cpu_placement :: "cpu_placement \<Rightarrow> sharded_config \<Rightarrow> sharded_config" where
  "with_cpu_placement p c = c\<lparr>cf_cpu := p\<rparr>"

definition require_cpu_placement :: "sharded_config \<Rightarrow> sharded_config" where
  "require_cpu_placement c = c\<lparr>cf_require_cpu := True\<rparr>"

definition with_memory_placement :: "memory_placement \<Rightarrow> sharded_config \<Rightarrow> sharded_config" where
  "with_memory_placement p c = c\<lparr>cf_memory := p\<rparr>"

definition require_memory_placement :: "sharded_config \<Rightarrow> sharded_config" where
  "require_memory_placement c = c\<lparr>cf_require_memory := True\<rparr>"

definition for_available_parallelism :: "nat option \<Rightarrow> sharded_config" where
  "for_available_parallelism reported = sharded_config_new (case reported of None \<Rightarrow> 1 | Some n \<Rightarrow> n)"

definition for_available_cpus :: "cpu_id list \<Rightarrow> sharded_config" where
  "for_available_cpus available = sharded_config_new (length available)"

definition for_pinned_available_cpus :: "cpu_id list \<Rightarrow> sharded_config" where
  "for_pinned_available_cpus available = with_cpu_placement Sequential (for_available_cpus available)"

definition for_required_pinned_available_cpus :: "cpu_id list \<Rightarrow> sharded_config" where
  "for_required_pinned_available_cpus available = require_cpu_placement (for_pinned_available_cpus available)"

definition config_validate :: "sharded_config \<Rightarrow> shard_error + unit" where
  "config_validate c =
     (if cf_shard_count c = 0 then Inl InvalidShardCount
      else if \<not> cpu_validate (cf_cpu c) (cf_shard_count c)
      then Inl (InvalidCpuPlacement (''explicit placement does not provide a CPU for every shard: '' @
        nat_str (cf_shard_count c) @ '' shards requested''))
      else map_sum InvalidMemoryPlacement id (memory_validate (cf_memory c)))"

definition validate_cpu_placement_against :: "sharded_config \<Rightarrow> cpu_id list \<Rightarrow> shard_error + unit" where
  "validate_cpu_placement_against c available =
     map_sum InvalidCpuPlacement id (validate_against_available_cpus (cf_cpu c) (cf_shard_count c) available)"

definition thread_name :: "sharded_config \<Rightarrow> nat \<Rightarrow> string" where
  "thread_name c shard_id = cf_thread_name_prefix c @ ''-'' @ nat_str shard_id"

subsection \<open>State\<close>

datatype sharded_spawn_error =
    SpawnInvalidShardId nat
  | SpawnStopped nat
  | SchedulingGroupRuntimeMismatch
  | SpawnRejected spawn_error

datatype sharded_group_error = GroupStopped nat | GroupInvalid scheduling_group_error | GroupSpawn sharded_spawn_error

record async_shard =
  as_shard_id :: nat
  as_thread_name :: string
  as_cpu :: cpu_placement_status
  as_memory :: memory_placement_status
  as_spawner :: bool

record ('f, 'h) sharded_executor =
  se_runtime_id :: u64
  se_shards :: "async_shard list"
  se_joins :: "nat list"
  se_execs :: "('f, 'h) executor list"

record sharded_submitter =
  sb_runtime_id :: u64
  sb_shards :: "(nat \<times> bool) list"

record sharded_group =
  shg_runtime_id :: u64
  shg_name :: string
  shg_shares :: nat
  shg_groups :: "(nat \<times> scheduling_group) list"

record join_handle =
  jh_shard :: nat
  jh_task :: nat

text \<open>The identifier of a new runtime, from the counter of the process.\<close>

definition allocate_runtime_id :: "u64 \<Rightarrow> u64 \<times> u64" where
  "allocate_runtime_id counter = (counter, counter + 1)"

definition group_for :: "sharded_group \<Rightarrow> u64 \<Rightarrow> nat \<Rightarrow> sharded_spawn_error + scheduling_group" where
  "group_for g runtime_id shard_id =
     (if shg_runtime_id g \<noteq> runtime_id then Inl SchedulingGroupRuntimeMismatch
      else if shard_id < length (shg_groups g) then Inr (snd (shg_groups g ! shard_id))
      else Inl (SpawnInvalidShardId shard_id))"

text \<open>Shards as a spawn sees them: their number, and whether the spawner is there.\<close>

definition se_view :: "('f, 'h) sharded_executor \<Rightarrow> (nat \<times> bool) list" where
  "se_view se = map (\<lambda>s. (as_shard_id s, as_spawner s)) (se_shards se)"

definition spawner_for :: "(nat \<times> bool) list \<Rightarrow> nat \<Rightarrow> sharded_spawn_error + unit" where
  "spawner_for view shard_id =
     (if shard_id < length view
      then (if snd (view ! shard_id) then Inr () else Inl (SpawnStopped shard_id))
      else Inl (SpawnInvalidShardId shard_id))"

text \<open>An operation on the scheduler of every shard whose spawner is there.\<close>

fun on_spawners ::
  "((string option \<times> 'f, 'h) exec \<Rightarrow> (string option \<times> 'f, 'h) exec) \<Rightarrow> (nat \<times> bool) list \<Rightarrow> ('f, 'h) executor list \<Rightarrow>
   ('f, 'h) executor list" where
  "on_spawners f [] xs = xs"
| "on_spawners f (v # vs) [] = []"
| "on_spawners f (v # vs) (x # xs) =
     (if snd v then x\<lparr>xc_exec := f (xc_exec x)\<rparr> else x) # on_spawners f vs xs"

definition submitter :: "('f, 'h) sharded_executor \<Rightarrow> sharded_submitter \<times> ('f, 'h) sharded_executor" where
  "submitter se =
     (\<lparr>sb_runtime_id = se_runtime_id se, sb_shards = se_view se\<rparr>,
      se\<lparr>se_execs := on_spawners ex_add_spawner (se_view se) (se_execs se)\<rparr>)"

definition submitter_clone :: "sharded_submitter \<Rightarrow> ('f, 'h) executor list \<Rightarrow> sharded_submitter \<times> ('f, 'h) executor list" where
  "submitter_clone sb xs = (sb, on_spawners ex_add_spawner (sb_shards sb) xs)"

definition submitter_drop :: "sharded_submitter \<Rightarrow> ('f, 'h) executor list \<Rightarrow> ('f, 'h) executor list" where
  "submitter_drop sb xs = on_spawners ex_remove_spawner (sb_shards sb) xs"

subsection \<open>Spawning on one shard\<close>

definition on_executor ::
  "nat \<Rightarrow> (('f, 'h) executor \<Rightarrow> (spawn_error + 'a) \<times> ('f, 'h) executor) \<Rightarrow> ('f, 'h) executor list \<Rightarrow>
   (sharded_spawn_error + 'a) \<times> ('f, 'h) executor list" where
  "on_executor i spawn xs = (let (r, x) = spawn (xs ! i) in (map_sum SpawnRejected id r, xs[i := x]))"

definition spawn_at ::
  "(nat \<times> bool) list \<Rightarrow> nat \<Rightarrow> (('f, 'h) executor \<Rightarrow> (spawn_error + 'a) \<times> ('f, 'h) executor) \<Rightarrow> ('f, 'h) executor list \<Rightarrow>
   (sharded_spawn_error + 'a) \<times> ('f, 'h) executor list" where
  "spawn_at view i spawn xs =
     (case spawner_for view i of Inl e \<Rightarrow> (Inl e, xs) | Inr _ \<Rightarrow> on_executor i spawn xs)"

text \<open>A single spawn looks up the group first, a spawn on all shards the spawner first.\<close>

definition spawn_in_group_at ::
  "sharded_group \<Rightarrow> u64 \<Rightarrow> (nat \<times> bool) list \<Rightarrow> nat \<Rightarrow>
   (scheduling_group \<Rightarrow> ('f, 'h) executor \<Rightarrow> (spawn_error + 'a) \<times> ('f, 'h) executor) \<Rightarrow> ('f, 'h) executor list \<Rightarrow>
   (sharded_spawn_error + 'a) \<times> ('f, 'h) executor list" where
  "spawn_in_group_at g runtime_id view i spawn xs =
     (case group_for g runtime_id i of Inl e \<Rightarrow> (Inl e, xs) | Inr gr \<Rightarrow> spawn_at view i (spawn gr) xs)"

definition spawn_at_in_group ::
  "sharded_group \<Rightarrow> u64 \<Rightarrow> (nat \<times> bool) list \<Rightarrow> nat \<Rightarrow>
   (scheduling_group \<Rightarrow> ('f, 'h) executor \<Rightarrow> (spawn_error + 'a) \<times> ('f, 'h) executor) \<Rightarrow> ('f, 'h) executor list \<Rightarrow>
   (sharded_spawn_error + 'a) \<times> ('f, 'h) executor list" where
  "spawn_at_in_group g runtime_id view i spawn xs =
     (case spawner_for view i of
        Inl e \<Rightarrow> (Inl e, xs)
      | Inr _ \<Rightarrow> (case group_for g runtime_id i of Inl e \<Rightarrow> (Inl e, xs) | Inr gr \<Rightarrow> on_executor i (spawn gr) xs))"

definition on_shards ::
  "(('f, 'h) executor list \<Rightarrow> 'r \<times> ('f, 'h) executor list) \<Rightarrow> ('f, 'h) sharded_executor \<Rightarrow> 'r \<times> ('f, 'h) sharded_executor" where
  "on_shards f se = (let (r, xs) = f (se_execs se) in (r, se\<lparr>se_execs := xs\<rparr>))"

definition spawn_on ::
  "(task_ref \<Rightarrow> bool) \<Rightarrow> instant \<Rightarrow> nat \<Rightarrow> 'f \<Rightarrow> ('f, 'h) sharded_executor \<Rightarrow> (sharded_spawn_error + unit) \<times> ('f, 'h) sharded_executor" where
  "spawn_on alive now shard_id f se =
     on_shards (spawn_at (se_view se) shard_id (spawner_spawn alive now f)) se"

definition spawn_with_handle_on ::
  "(task_ref \<Rightarrow> bool) \<Rightarrow> instant \<Rightarrow> nat \<Rightarrow> 'f \<Rightarrow> 'h \<Rightarrow> ('f, 'h) sharded_executor \<Rightarrow> (sharded_spawn_error + nat) \<times> ('f, 'h) sharded_executor" where
  "spawn_with_handle_on alive now shard_id f h se =
     on_shards (spawn_at (se_view se) shard_id (spawner_spawn_with_handle alive now f h)) se"

definition spawn_named_on ::
  "(task_ref \<Rightarrow> bool) \<Rightarrow> instant \<Rightarrow> nat \<Rightarrow> string \<Rightarrow> 'f \<Rightarrow> ('f, 'h) sharded_executor \<Rightarrow> (sharded_spawn_error + unit) \<times> ('f, 'h) sharded_executor" where
  "spawn_named_on alive now shard_id name f se =
     on_shards (spawn_at (se_view se) shard_id (spawner_spawn_named alive now name f)) se"

definition spawn_with_handle_named_on ::
  "(task_ref \<Rightarrow> bool) \<Rightarrow> instant \<Rightarrow> nat \<Rightarrow> string \<Rightarrow> 'f \<Rightarrow> 'h \<Rightarrow> ('f, 'h) sharded_executor \<Rightarrow> (sharded_spawn_error + nat) \<times> ('f, 'h) sharded_executor" where
  "spawn_with_handle_named_on alive now shard_id name f h se =
     on_shards (spawn_at (se_view se) shard_id (spawner_spawn_with_handle_named alive now name f h)) se"

definition spawn_in_group_on ::
  "(task_ref \<Rightarrow> bool) \<Rightarrow> instant \<Rightarrow> sharded_group \<Rightarrow> nat \<Rightarrow> 'f \<Rightarrow> ('f, 'h) sharded_executor \<Rightarrow> (sharded_spawn_error + unit) \<times> ('f, 'h) sharded_executor" where
  "spawn_in_group_on alive now g shard_id f se =
     on_shards (spawn_in_group_at g (se_runtime_id se) (se_view se) shard_id (\<lambda>gr. spawner_spawn_in_group alive now gr f)) se"

definition spawn_with_handle_in_group_on ::
  "(task_ref \<Rightarrow> bool) \<Rightarrow> instant \<Rightarrow> sharded_group \<Rightarrow> nat \<Rightarrow> 'f \<Rightarrow> 'h \<Rightarrow> ('f, 'h) sharded_executor \<Rightarrow> (sharded_spawn_error + nat) \<times> ('f, 'h) sharded_executor" where
  "spawn_with_handle_in_group_on alive now g shard_id f h se =
     on_shards (spawn_in_group_at g (se_runtime_id se) (se_view se) shard_id (\<lambda>gr. spawner_spawn_with_handle_in_group alive now gr f h)) se"

definition spawn_named_in_group_on ::
  "(task_ref \<Rightarrow> bool) \<Rightarrow> instant \<Rightarrow> sharded_group \<Rightarrow> nat \<Rightarrow> string \<Rightarrow> 'f \<Rightarrow> ('f, 'h) sharded_executor \<Rightarrow> (sharded_spawn_error + unit) \<times> ('f, 'h) sharded_executor" where
  "spawn_named_in_group_on alive now g shard_id name f se =
     on_shards (spawn_in_group_at g (se_runtime_id se) (se_view se) shard_id (\<lambda>gr. spawner_spawn_named_in_group alive now gr name f)) se"

definition spawn_with_handle_named_in_group_on ::
  "(task_ref \<Rightarrow> bool) \<Rightarrow> instant \<Rightarrow> sharded_group \<Rightarrow> nat \<Rightarrow> string \<Rightarrow> 'f \<Rightarrow> 'h \<Rightarrow> ('f, 'h) sharded_executor \<Rightarrow> (sharded_spawn_error + nat) \<times> ('f, 'h) sharded_executor" where
  "spawn_with_handle_named_in_group_on alive now g shard_id name f h se =
     on_shards (spawn_in_group_at g (se_runtime_id se) (se_view se) shard_id (\<lambda>gr. spawner_spawn_with_handle_named_in_group alive now gr name f h)) se"

text \<open>The operations of a submitter act on the schedulers directly.\<close>

definition submit_to ::
  "(task_ref \<Rightarrow> bool) \<Rightarrow> instant \<Rightarrow> nat \<Rightarrow> 'f \<Rightarrow> sharded_submitter \<Rightarrow> ('f, 'h) executor list \<Rightarrow> (sharded_spawn_error + unit) \<times> ('f, 'h) executor list" where
  "submit_to alive now shard_id f sb xs =
     spawn_at (sb_shards sb) shard_id (spawner_spawn alive now f) xs"

definition submit_with_handle_to ::
  "(task_ref \<Rightarrow> bool) \<Rightarrow> instant \<Rightarrow> nat \<Rightarrow> 'f \<Rightarrow> 'h \<Rightarrow> sharded_submitter \<Rightarrow> ('f, 'h) executor list \<Rightarrow> (sharded_spawn_error + nat) \<times> ('f, 'h) executor list" where
  "submit_with_handle_to alive now shard_id f h sb xs =
     spawn_at (sb_shards sb) shard_id (spawner_spawn_with_handle alive now f h) xs"

definition submit_named_to ::
  "(task_ref \<Rightarrow> bool) \<Rightarrow> instant \<Rightarrow> nat \<Rightarrow> string \<Rightarrow> 'f \<Rightarrow> sharded_submitter \<Rightarrow> ('f, 'h) executor list \<Rightarrow> (sharded_spawn_error + unit) \<times> ('f, 'h) executor list" where
  "submit_named_to alive now shard_id name f sb xs =
     spawn_at (sb_shards sb) shard_id (spawner_spawn_named alive now name f) xs"

definition submit_with_handle_named_to ::
  "(task_ref \<Rightarrow> bool) \<Rightarrow> instant \<Rightarrow> nat \<Rightarrow> string \<Rightarrow> 'f \<Rightarrow> 'h \<Rightarrow> sharded_submitter \<Rightarrow> ('f, 'h) executor list \<Rightarrow> (sharded_spawn_error + nat) \<times> ('f, 'h) executor list" where
  "submit_with_handle_named_to alive now shard_id name f h sb xs =
     spawn_at (sb_shards sb) shard_id (spawner_spawn_with_handle_named alive now name f h) xs"

definition submit_in_group_to ::
  "(task_ref \<Rightarrow> bool) \<Rightarrow> instant \<Rightarrow> sharded_group \<Rightarrow> nat \<Rightarrow> 'f \<Rightarrow> sharded_submitter \<Rightarrow> ('f, 'h) executor list \<Rightarrow> (sharded_spawn_error + unit) \<times> ('f, 'h) executor list" where
  "submit_in_group_to alive now g shard_id f sb xs =
     spawn_in_group_at g (sb_runtime_id sb) (sb_shards sb) shard_id (\<lambda>gr. spawner_spawn_in_group alive now gr f) xs"

definition submit_with_handle_in_group_to ::
  "(task_ref \<Rightarrow> bool) \<Rightarrow> instant \<Rightarrow> sharded_group \<Rightarrow> nat \<Rightarrow> 'f \<Rightarrow> 'h \<Rightarrow> sharded_submitter \<Rightarrow> ('f, 'h) executor list \<Rightarrow> (sharded_spawn_error + nat) \<times> ('f, 'h) executor list" where
  "submit_with_handle_in_group_to alive now g shard_id f h sb xs =
     spawn_in_group_at g (sb_runtime_id sb) (sb_shards sb) shard_id (\<lambda>gr. spawner_spawn_with_handle_in_group alive now gr f h) xs"

definition submit_named_in_group_to ::
  "(task_ref \<Rightarrow> bool) \<Rightarrow> instant \<Rightarrow> sharded_group \<Rightarrow> nat \<Rightarrow> string \<Rightarrow> 'f \<Rightarrow> sharded_submitter \<Rightarrow> ('f, 'h) executor list \<Rightarrow> (sharded_spawn_error + unit) \<times> ('f, 'h) executor list" where
  "submit_named_in_group_to alive now g shard_id name f sb xs =
     spawn_in_group_at g (sb_runtime_id sb) (sb_shards sb) shard_id (\<lambda>gr. spawner_spawn_named_in_group alive now gr name f) xs"

definition submit_with_handle_named_in_group_to ::
  "(task_ref \<Rightarrow> bool) \<Rightarrow> instant \<Rightarrow> sharded_group \<Rightarrow> nat \<Rightarrow> string \<Rightarrow> 'f \<Rightarrow> 'h \<Rightarrow> sharded_submitter \<Rightarrow> ('f, 'h) executor list \<Rightarrow> (sharded_spawn_error + nat) \<times> ('f, 'h) executor list" where
  "submit_with_handle_named_in_group_to alive now g shard_id name f h sb xs =
     spawn_in_group_at g (sb_runtime_id sb) (sb_shards sb) shard_id (\<lambda>gr. spawner_spawn_with_handle_named_in_group alive now gr name f h) xs"

subsection \<open>Spawning on all shards\<close>

text \<open>The shards in order, up to the first error; the results before the error are returned with it.\<close>

fun on_all :: "('i \<Rightarrow> 'x \<Rightarrow> ('e + 'a) \<times> 'x) \<Rightarrow> 'i list \<Rightarrow> 'x \<Rightarrow> ('e \<times> 'a list + 'a list) \<times> 'x" where
  "on_all f [] x = (Inr [], x)"
| "on_all f (i # is) x =
     (case f i x of
        (Inl e, x) \<Rightarrow> (Inl (e, []), x)
      | (Inr a, x) \<Rightarrow>
          (case on_all f is x of
             (Inl (e, as), x) \<Rightarrow> (Inl (e, a # as), x)
           | (Inr as, x) \<Rightarrow> (Inr (a # as), x)))"

definition detached :: "('e \<times> 'a list + 'a list) \<times> 'x \<Rightarrow> ('e + unit) \<times> 'x" where
  "detached r = (case r of (Inl (e, _), x) \<Rightarrow> (Inl e, x) | (Inr _, x) \<Rightarrow> (Inr (), x))"

text \<open>Dropping a join handle aborts its task.\<close>

definition drop_handle :: "join_handle \<Rightarrow> ('f, 'h) executor list \<Rightarrow> ('f, 'h) executor list" where
  "drop_handle jh xs =
     xs[jh_shard jh := (xs ! jh_shard jh)\<lparr>xc_exec := snd (ex_cancel (jh_task jh) (xc_exec (xs ! jh_shard jh)))\<rparr>]"

definition with_handles ::
  "('e \<times> join_handle list + join_handle list) \<times> ('f, 'h) executor list \<Rightarrow> ('e + join_handle list) \<times> ('f, 'h) executor list" where
  "with_handles r = (case r of (Inl (e, hs), xs) \<Rightarrow> (Inl e, fold drop_handle hs xs) | (Inr hs, xs) \<Rightarrow> (Inr hs, xs))"

text \<open>The body of the loops over the shards that collect handles.\<close>

definition spawn_handle ::
  "(('f, 'h) executor \<Rightarrow> (spawn_error + nat) \<times> ('f, 'h) executor) \<Rightarrow> nat \<Rightarrow> ('f, 'h) executor list \<Rightarrow>
   (sharded_spawn_error + join_handle) \<times> ('f, 'h) executor list" where
  "spawn_handle spawn shard_id xs =
     map_prod (map_sum id (\<lambda>n. \<lparr>jh_shard = shard_id, jh_task = n\<rparr>)) id (on_executor shard_id spawn xs)"

definition spawn_with_handle_on_all_shards ::
  "(task_ref \<Rightarrow> bool) \<Rightarrow> instant \<Rightarrow> (nat \<times> bool) list \<Rightarrow> (nat \<Rightarrow> 'f) \<Rightarrow> (nat \<Rightarrow> 'h) \<Rightarrow> ('f, 'h) executor list \<Rightarrow> (sharded_spawn_error + join_handle list) \<times> ('f, 'h) executor list" where
  "spawn_with_handle_on_all_shards alive now view make_future h xs =
     with_handles (on_all (\<lambda>(shard_id, spawner) xs.
       if \<not> spawner then (Inl (SpawnStopped shard_id), xs)
       else spawn_handle (spawner_spawn_with_handle alive now (make_future shard_id) (h shard_id)) shard_id xs) view xs)"

definition spawn_with_handle_named_on_all_shards ::
  "(task_ref \<Rightarrow> bool) \<Rightarrow> instant \<Rightarrow> (nat \<times> bool) list \<Rightarrow> (nat \<Rightarrow> string) \<Rightarrow> (nat \<Rightarrow> 'f) \<Rightarrow> (nat \<Rightarrow> 'h) \<Rightarrow> ('f, 'h) executor list \<Rightarrow> (sharded_spawn_error + join_handle list) \<times> ('f, 'h) executor list" where
  "spawn_with_handle_named_on_all_shards alive now view make_name make_future h xs =
     with_handles (on_all (\<lambda>(shard_id, spawner) xs.
       if \<not> spawner then (Inl (SpawnStopped shard_id), xs)
       else spawn_handle (spawner_spawn_with_handle_named alive now (make_name shard_id) (make_future shard_id) (h shard_id)) shard_id xs) view xs)"

definition spawn_with_handle_in_group_on_all_shards ::
  "(task_ref \<Rightarrow> bool) \<Rightarrow> instant \<Rightarrow> (nat \<times> bool) list \<Rightarrow> u64 \<Rightarrow> sharded_group \<Rightarrow> (nat \<Rightarrow> 'f) \<Rightarrow> (nat \<Rightarrow> 'h) \<Rightarrow> ('f, 'h) executor list \<Rightarrow> (sharded_spawn_error + join_handle list) \<times> ('f, 'h) executor list" where
  "spawn_with_handle_in_group_on_all_shards alive now view runtime_id g make_future h xs =
     with_handles (on_all (\<lambda>(shard_id, spawner) xs.
       if \<not> spawner then (Inl (SpawnStopped shard_id), xs)
       else case group_for g runtime_id shard_id of
              Inl e \<Rightarrow> (Inl e, xs)
            | Inr gr \<Rightarrow> spawn_handle (spawner_spawn_with_handle_in_group alive now gr (make_future shard_id) (h shard_id)) shard_id xs) view xs)"

definition spawn_with_handle_named_in_group_on_all_shards ::
  "(task_ref \<Rightarrow> bool) \<Rightarrow> instant \<Rightarrow> (nat \<times> bool) list \<Rightarrow> u64 \<Rightarrow> sharded_group \<Rightarrow> (nat \<Rightarrow> string) \<Rightarrow> (nat \<Rightarrow> 'f) \<Rightarrow> (nat \<Rightarrow> 'h) \<Rightarrow> ('f, 'h) executor list \<Rightarrow> (sharded_spawn_error + join_handle list) \<times> ('f, 'h) executor list" where
  "spawn_with_handle_named_in_group_on_all_shards alive now view runtime_id g make_name make_future h xs =
     with_handles (on_all (\<lambda>(shard_id, spawner) xs.
       if \<not> spawner then (Inl (SpawnStopped shard_id), xs)
       else case group_for g runtime_id shard_id of
              Inl e \<Rightarrow> (Inl e, xs)
            | Inr gr \<Rightarrow> spawn_handle (spawner_spawn_with_handle_named_in_group alive now gr (make_name shard_id) (make_future shard_id) (h shard_id)) shard_id xs) view xs)"

definition spawn_on_all ::
  "(task_ref \<Rightarrow> bool) \<Rightarrow> instant \<Rightarrow> (nat \<Rightarrow> 'f) \<Rightarrow> ('f, 'h) sharded_executor \<Rightarrow> (sharded_spawn_error + unit) \<times> ('f, 'h) sharded_executor" where
  "spawn_on_all alive now make_future se =
     on_shards (\<lambda>xs. detached (on_all (\<lambda>i. spawn_at (se_view se) i (spawner_spawn alive now (make_future i))) [0..<length (se_view se)] xs)) se"

definition spawn_named_on_all ::
  "(task_ref \<Rightarrow> bool) \<Rightarrow> instant \<Rightarrow> (nat \<Rightarrow> string) \<Rightarrow> (nat \<Rightarrow> 'f) \<Rightarrow> ('f, 'h) sharded_executor \<Rightarrow> (sharded_spawn_error + unit) \<times> ('f, 'h) sharded_executor" where
  "spawn_named_on_all alive now make_name make_future se =
     on_shards (\<lambda>xs. detached (on_all (\<lambda>i. spawn_at (se_view se) i (spawner_spawn_named alive now (make_name i) (make_future i))) [0..<length (se_view se)] xs)) se"

definition spawn_in_group_on_all ::
  "(task_ref \<Rightarrow> bool) \<Rightarrow> instant \<Rightarrow> sharded_group \<Rightarrow> (nat \<Rightarrow> 'f) \<Rightarrow> ('f, 'h) sharded_executor \<Rightarrow> (sharded_spawn_error + unit) \<times> ('f, 'h) sharded_executor" where
  "spawn_in_group_on_all alive now g make_future se =
     on_shards (\<lambda>xs. detached (on_all (\<lambda>i. spawn_at_in_group g (se_runtime_id se) (se_view se) i (\<lambda>gr. spawner_spawn_in_group alive now gr (make_future i))) [0..<length (se_view se)] xs)) se"

definition spawn_named_in_group_on_all ::
  "(task_ref \<Rightarrow> bool) \<Rightarrow> instant \<Rightarrow> sharded_group \<Rightarrow> (nat \<Rightarrow> string) \<Rightarrow> (nat \<Rightarrow> 'f) \<Rightarrow> ('f, 'h) sharded_executor \<Rightarrow> (sharded_spawn_error + unit) \<times> ('f, 'h) sharded_executor" where
  "spawn_named_in_group_on_all alive now g make_name make_future se =
     on_shards (\<lambda>xs. detached (on_all (\<lambda>i. spawn_at_in_group g (se_runtime_id se) (se_view se) i (\<lambda>gr. spawner_spawn_named_in_group alive now gr (make_name i) (make_future i))) [0..<length (se_view se)] xs)) se"

definition spawn_with_handle_on_all ::
  "(task_ref \<Rightarrow> bool) \<Rightarrow> instant \<Rightarrow> (nat \<Rightarrow> 'f) \<Rightarrow> (nat \<Rightarrow> 'h) \<Rightarrow> ('f, 'h) sharded_executor \<Rightarrow> (sharded_spawn_error + join_handle list) \<times> ('f, 'h) sharded_executor" where
  "spawn_with_handle_on_all alive now make_future h se =
     on_shards (spawn_with_handle_on_all_shards alive now (se_view se) make_future h) se"

definition spawn_with_handle_named_on_all ::
  "(task_ref \<Rightarrow> bool) \<Rightarrow> instant \<Rightarrow> (nat \<Rightarrow> string) \<Rightarrow> (nat \<Rightarrow> 'f) \<Rightarrow> (nat \<Rightarrow> 'h) \<Rightarrow> ('f, 'h) sharded_executor \<Rightarrow> (sharded_spawn_error + join_handle list) \<times> ('f, 'h) sharded_executor" where
  "spawn_with_handle_named_on_all alive now make_name make_future h se =
     on_shards (spawn_with_handle_named_on_all_shards alive now (se_view se) make_name make_future h) se"

definition spawn_with_handle_in_group_on_all ::
  "(task_ref \<Rightarrow> bool) \<Rightarrow> instant \<Rightarrow> sharded_group \<Rightarrow> (nat \<Rightarrow> 'f) \<Rightarrow> (nat \<Rightarrow> 'h) \<Rightarrow> ('f, 'h) sharded_executor \<Rightarrow> (sharded_spawn_error + join_handle list) \<times> ('f, 'h) sharded_executor" where
  "spawn_with_handle_in_group_on_all alive now g make_future h se =
     on_shards (spawn_with_handle_in_group_on_all_shards alive now (se_view se) (se_runtime_id se) g make_future h) se"

definition spawn_with_handle_named_in_group_on_all ::
  "(task_ref \<Rightarrow> bool) \<Rightarrow> instant \<Rightarrow> sharded_group \<Rightarrow> (nat \<Rightarrow> string) \<Rightarrow> (nat \<Rightarrow> 'f) \<Rightarrow> (nat \<Rightarrow> 'h) \<Rightarrow> ('f, 'h) sharded_executor \<Rightarrow> (sharded_spawn_error + join_handle list) \<times> ('f, 'h) sharded_executor" where
  "spawn_with_handle_named_in_group_on_all alive now g make_name make_future h se =
     on_shards (spawn_with_handle_named_in_group_on_all_shards alive now (se_view se) (se_runtime_id se) g make_name make_future h) se"

definition submit_to_all ::
  "(task_ref \<Rightarrow> bool) \<Rightarrow> instant \<Rightarrow> (nat \<Rightarrow> 'f) \<Rightarrow> sharded_submitter \<Rightarrow> ('f, 'h) executor list \<Rightarrow> (sharded_spawn_error + unit) \<times> ('f, 'h) executor list" where
  "submit_to_all alive now make_future sb xs =
     detached (on_all (\<lambda>i. spawn_at (sb_shards sb) i (spawner_spawn alive now (make_future i))) [0..<length (sb_shards sb)] xs)"

definition submit_named_to_all ::
  "(task_ref \<Rightarrow> bool) \<Rightarrow> instant \<Rightarrow> (nat \<Rightarrow> string) \<Rightarrow> (nat \<Rightarrow> 'f) \<Rightarrow> sharded_submitter \<Rightarrow> ('f, 'h) executor list \<Rightarrow> (sharded_spawn_error + unit) \<times> ('f, 'h) executor list" where
  "submit_named_to_all alive now make_name make_future sb xs =
     detached (on_all (\<lambda>i. spawn_at (sb_shards sb) i (spawner_spawn_named alive now (make_name i) (make_future i))) [0..<length (sb_shards sb)] xs)"

definition submit_in_group_to_all ::
  "(task_ref \<Rightarrow> bool) \<Rightarrow> instant \<Rightarrow> sharded_group \<Rightarrow> (nat \<Rightarrow> 'f) \<Rightarrow> sharded_submitter \<Rightarrow> ('f, 'h) executor list \<Rightarrow> (sharded_spawn_error + unit) \<times> ('f, 'h) executor list" where
  "submit_in_group_to_all alive now g make_future sb xs =
     detached (on_all (\<lambda>i. spawn_at_in_group g (sb_runtime_id sb) (sb_shards sb) i (\<lambda>gr. spawner_spawn_in_group alive now gr (make_future i))) [0..<length (sb_shards sb)] xs)"

definition submit_named_in_group_to_all ::
  "(task_ref \<Rightarrow> bool) \<Rightarrow> instant \<Rightarrow> sharded_group \<Rightarrow> (nat \<Rightarrow> string) \<Rightarrow> (nat \<Rightarrow> 'f) \<Rightarrow> sharded_submitter \<Rightarrow> ('f, 'h) executor list \<Rightarrow> (sharded_spawn_error + unit) \<times> ('f, 'h) executor list" where
  "submit_named_in_group_to_all alive now g make_name make_future sb xs =
     detached (on_all (\<lambda>i. spawn_at_in_group g (sb_runtime_id sb) (sb_shards sb) i (\<lambda>gr. spawner_spawn_named_in_group alive now gr (make_name i) (make_future i))) [0..<length (sb_shards sb)] xs)"

definition submit_with_handle_to_all ::
  "(task_ref \<Rightarrow> bool) \<Rightarrow> instant \<Rightarrow> (nat \<Rightarrow> 'f) \<Rightarrow> (nat \<Rightarrow> 'h) \<Rightarrow> sharded_submitter \<Rightarrow> ('f, 'h) executor list \<Rightarrow> (sharded_spawn_error + join_handle list) \<times> ('f, 'h) executor list" where
  "submit_with_handle_to_all alive now make_future h sb xs =
     spawn_with_handle_on_all_shards alive now (sb_shards sb) make_future h xs"

definition submit_with_handle_named_to_all ::
  "(task_ref \<Rightarrow> bool) \<Rightarrow> instant \<Rightarrow> (nat \<Rightarrow> string) \<Rightarrow> (nat \<Rightarrow> 'f) \<Rightarrow> (nat \<Rightarrow> 'h) \<Rightarrow> sharded_submitter \<Rightarrow> ('f, 'h) executor list \<Rightarrow> (sharded_spawn_error + join_handle list) \<times> ('f, 'h) executor list" where
  "submit_with_handle_named_to_all alive now make_name make_future h sb xs =
     spawn_with_handle_named_on_all_shards alive now (sb_shards sb) make_name make_future h xs"

definition submit_with_handle_in_group_to_all ::
  "(task_ref \<Rightarrow> bool) \<Rightarrow> instant \<Rightarrow> sharded_group \<Rightarrow> (nat \<Rightarrow> 'f) \<Rightarrow> (nat \<Rightarrow> 'h) \<Rightarrow> sharded_submitter \<Rightarrow> ('f, 'h) executor list \<Rightarrow> (sharded_spawn_error + join_handle list) \<times> ('f, 'h) executor list" where
  "submit_with_handle_in_group_to_all alive now g make_future h sb xs =
     spawn_with_handle_in_group_on_all_shards alive now (sb_shards sb) (sb_runtime_id sb) g make_future h xs"

definition submit_with_handle_named_in_group_to_all ::
  "(task_ref \<Rightarrow> bool) \<Rightarrow> instant \<Rightarrow> sharded_group \<Rightarrow> (nat \<Rightarrow> string) \<Rightarrow> (nat \<Rightarrow> 'f) \<Rightarrow> (nat \<Rightarrow> 'h) \<Rightarrow> sharded_submitter \<Rightarrow> ('f, 'h) executor list \<Rightarrow> (sharded_spawn_error + join_handle list) \<times> ('f, 'h) executor list" where
  "submit_with_handle_named_in_group_to_all alive now g make_name make_future h sb xs =
     spawn_with_handle_named_in_group_on_all_shards alive now (sb_shards sb) (sb_runtime_id sb) g make_name make_future h xs"

subsection \<open>Laws of spawning\<close>

text \<open>A scheduler is well-formed, or it has stopped accepting tasks.\<close>

definition xc_ok :: "('f, 'h) executor \<Rightarrow> bool" where
  "xc_ok x \<longleftrightarrow> ex_inv (xc_exec x) \<or> \<not> st_accepting (ex_set (xc_exec x))"

abbreviation xc_tasks :: "('f, 'h) executor \<Rightarrow> (nat \<times> (string option \<times> 'f, 'h) task) list" where
  "xc_tasks x \<equiv> ex_tasks (xc_exec x)"

abbreviation xc_spawners :: "('f, 'h) executor \<Rightarrow> nat" where
  "xc_spawners x \<equiv> st_spawner_count (ex_set (xc_exec x))"

definition se_ok :: "(nat \<times> bool) list \<Rightarrow> ('f, 'h) executor list \<Rightarrow> bool" where
  "se_ok view xs \<longleftrightarrow> map fst view = [0..<length view] \<and> length xs = length view \<and> (\<forall>x\<in>set xs. xc_ok x)"

lemma ex_spawn_cases:
  assumes "ex_inv e \<or> \<not> st_accepting (ex_set e)" "ex_spawn alive now gid f h e = (r, e')"
  shows "(ex_inv e' \<or> \<not> st_accepting (ex_set e')) \<and> st_spawner_count (ex_set e') = st_spawner_count (ex_set e) \<and>
    (case r of Inl _ \<Rightarrow> ex_tasks e' = ex_tasks e
     | Inr n \<Rightarrow> n = length (ex_tasks e) \<and> ex_tasks e' = ex_tasks e @ [(gid, task_queued now f h)])"
proof (cases "st_accepting (ex_set e) \<and> gid < length (st_groups (ex_set e))")
  case True
  then have i: "ex_inv e" using assms(1) by blast
  show ?thesis using ex_spawn_ok [OF i _ assms(2)] True by simp
next
  case False
  have rej: "schedule_new alive \<lparr>tr_id = length (ex_tasks e), tr_group = gid\<rparr> (snd (allocate_task_id (ex_set e))) =
      (Inl SpawnClosed, True, snd (allocate_task_id (ex_set e)))"
    using False by (auto simp: schedule_new_def allocate_task_id_def group_index_def)
  have fr: "r = Inl SpawnClosed" "ex_tasks e' = ex_tasks e" "st_spawner_count (ex_set e') = st_spawner_count (ex_set e)"
      "st_accepting (ex_set e') = st_accepting (ex_set e)"
    using assms(2) rej by (auto simp: ex_spawn_def Let_def case_prod_unfold allocate_task_id_def)
  show ?thesis using fr assms ex_inv_spawn [of e alive now gid f h] by auto
qed

lemma spawn_inner_cases:
  assumes "xc_ok x" "spawn_inner alive now name gid f h x = (r, x')"
  shows "xc_ok x' \<and> xc_id x' = xc_id x \<and> xc_spawners x' = xc_spawners x \<and>
    (case r of Inl _ \<Rightarrow> xc_tasks x' = xc_tasks x
     | Inr n \<Rightarrow> n = length (xc_tasks x) \<and> xc_tasks x' = xc_tasks x @ [(gid, task_queued now (name, f) h)])"
proof -
  obtain e' where e: "ex_spawn alive now gid (name, f) h (xc_exec x) = (r, e')" "x' = x\<lparr>xc_exec := e'\<rparr>"
    using assms(2) by (auto simp: spawn_inner_def Let_def split: prod.splits)
  show ?thesis using ex_spawn_cases [OF _ e(1)] assms(1) e(2) by (simp add: xc_ok_def split: sum.splits)
qed

lemma ex_cancel_accepting: "ex_cancel n e = (ok, e') \<Longrightarrow> st_accepting (ex_set e') = st_accepting (ex_set e)"
  by (auto simp: ex_cancel_def Let_def wake_reactor_def ex_finish_if_def ex_finish_task_def finish_task_def
      split: prod.splits if_splits)

lemma xc_ok_cancel:
  assumes "xc_ok x" "ex_cancel n (xc_exec x) = (ok, e')" "n < length (xc_tasks x)"
  shows "xc_ok (x\<lparr>xc_exec := e'\<rparr>)"
  using assms ex_cancel_accepting [OF assms(2)] ex_inv_cancel [of "xc_exec x" n] by (auto simp: xc_ok_def)

lemma drop_handle_length [simp]: "length (drop_handle jh xs) = length xs"
  by (simp add: drop_handle_def)

lemma fold_drop_length: "length (fold drop_handle hs xs) = length xs"
  by (induction hs arbitrary: xs) simp_all

lemma fold_drop_other: "j \<notin> jh_shard ` set hs \<Longrightarrow> fold drop_handle hs xs ! j = xs ! j"
  by (induction hs arbitrary: xs) (auto simp: drop_handle_def)

lemma drop_handle_cong: "xs ! jh_shard jh = ys ! jh_shard jh \<Longrightarrow> length xs = length ys \<Longrightarrow>
    drop_handle jh xs ! jh_shard jh = drop_handle jh ys ! jh_shard jh"
  by (cases "jh_shard jh < length ys") (simp_all add: drop_handle_def list_update_beyond)

lemma fold_drop_one:
  "distinct (map jh_shard hs) \<Longrightarrow> jh \<in> set hs \<Longrightarrow> fold drop_handle hs xs ! jh_shard jh = drop_handle jh xs ! jh_shard jh"
proof (induction hs arbitrary: xs)
  case (Cons h hs)
  show ?case
  proof (cases "jh = h")
    case True
    then show ?thesis using Cons.prems by (simp add: fold_drop_other)
  next
    case False
    then have "jh_shard jh \<noteq> jh_shard h" using Cons.prems by (auto simp: rev_image_eqI)
    then have "drop_handle h xs ! jh_shard jh = xs ! jh_shard jh" by (simp add: drop_handle_def)
    then show ?thesis using Cons.IH [of "drop_handle h xs"] Cons.prems False drop_handle_cong [of "drop_handle h xs" jh xs] by simp
  qed
qed simp

text \<open>The contract of one iteration of the loops that spawn with a handle: it touches one shard only,
  and adds one task to it, whose handle it returns, or none.\<close>

locale shard_spawn =
  fixes F :: "nat \<times> bool \<Rightarrow> ('f, 'h) executor list \<Rightarrow> (sharded_spawn_error + join_handle) \<times> ('f, 'h) executor list"
    and new_task :: "nat \<Rightarrow> nat \<times> (string option \<times> 'f, 'h) task"
    and alone :: "nat \<Rightarrow> string option \<times> 'f" and handler :: "nat \<Rightarrow> 'h" and now :: instant
  assumes queued: "snd (new_task i) = task_queued now (alone i) (Some (handler i))"
    and one_shard: "i < length xs \<Longrightarrow> xc_ok (xs ! i) \<Longrightarrow> F (i, b) xs = (r, xs') \<Longrightarrow>
      \<exists>x'. xs' = xs[i := x'] \<and> xc_ok x' \<and> xc_id x' = xc_id (xs ! i) \<and> xc_spawners x' = xc_spawners (xs ! i) \<and>
        (case r of Inl _ \<Rightarrow> xc_tasks x' = xc_tasks (xs ! i)
         | Inr jh \<Rightarrow> jh = \<lparr>jh_shard = i, jh_task = length (xc_tasks (xs ! i))\<rparr> \<and> xc_tasks x' = xc_tasks (xs ! i) @ [new_task i])"
begin

lemma all_shards:
  assumes "distinct (map fst vs)" "\<forall>v\<in>set vs. fst v < length xs" "\<forall>x\<in>set xs. xc_ok x" "on_all F vs xs = (r, xs')"
  shows "\<exists>k\<le>length vs. (case r of Inl (e, hs) \<Rightarrow> k < length vs | Inr hs \<Rightarrow> k = length vs) \<and>
      (case r of Inl (e, hs) \<Rightarrow> hs | Inr hs \<Rightarrow> hs) =
        map (\<lambda>v. \<lparr>jh_shard = fst v, jh_task = length (xc_tasks (xs ! fst v))\<rparr>) (take k vs) \<and>
      length xs' = length xs \<and> (\<forall>x\<in>set xs'. xc_ok x) \<and>
      (\<forall>j<length xs. xc_spawners (xs' ! j) = xc_spawners (xs ! j) \<and>
        xc_tasks (xs' ! j) = xc_tasks (xs ! j) @ (if j \<in> fst ` set (take k vs) then [new_task j] else []))"
  using assms
proof (induction vs arbitrary: xs r xs')
  case Nil
  then show ?case by auto
next
  case (Cons v vs)
  obtain i b where v: "v = (i, b)" by (cases v)
  obtain r1 xs1 where f: "F v xs = (r1, xs1)" by (cases "F v xs")
  have i: "i < length xs" "xc_ok (xs ! i)" using Cons.prems v by auto
  obtain x1 where x1: "xs1 = xs[i := x1]" "xc_ok x1" "xc_spawners x1 = xc_spawners (xs ! i)"
      "case r1 of Inl _ \<Rightarrow> xc_tasks x1 = xc_tasks (xs ! i)
       | Inr jh \<Rightarrow> jh = \<lparr>jh_shard = i, jh_task = length (xc_tasks (xs ! i))\<rparr> \<and> xc_tasks x1 = xc_tasks (xs ! i) @ [new_task i]"
    using one_shard [OF i, of b r1 xs1] f v by auto
  have ok1: "\<forall>x\<in>set xs1. xc_ok x" using Cons.prems(3) x1(1,2) set_update_subset_insert [of xs i x1] by auto
  show ?case
  proof (cases r1)
    case (Inl e)
    then show ?thesis
      using Cons.prems(4) f x1 ok1 i(1) by (intro exI [of _ 0]) (auto simp: nth_list_update)
  next
    case (Inr jh)
    obtain r2 xs2 where g: "on_all F vs xs1 = (r2, xs2)" by (cases "on_all F vs xs1")
    have pre: "distinct (map fst vs)" "\<forall>v\<in>set vs. fst v < length xs1" "i \<notin> fst ` set vs"
      using Cons.prems(1,2) x1(1) v by (auto simp: image_iff)
    obtain k where k: "k \<le> length vs" "case r2 of Inl (e, hs) \<Rightarrow> k < length vs | Inr hs \<Rightarrow> k = length vs"
        "(case r2 of Inl (e, hs) \<Rightarrow> hs | Inr hs \<Rightarrow> hs) =
          map (\<lambda>v. \<lparr>jh_shard = fst v, jh_task = length (xc_tasks (xs1 ! fst v))\<rparr>) (take k vs)"
        "length xs2 = length xs1" "\<forall>x\<in>set xs2. xc_ok x"
        "\<forall>j<length xs1. xc_spawners (xs2 ! j) = xc_spawners (xs1 ! j) \<and>
          xc_tasks (xs2 ! j) = xc_tasks (xs1 ! j) @ (if j \<in> fst ` set (take k vs) then [new_task j] else [])"
      using Cons.IH [OF pre(1,2) ok1 g] by blast
    have other: "map (\<lambda>v. \<lparr>jh_shard = fst v, jh_task = length (xc_tasks (xs1 ! fst v))\<rparr>) (take k vs) =
        map (\<lambda>v. \<lparr>jh_shard = fst v, jh_task = length (xc_tasks (xs ! fst v))\<rparr>) (take k vs)"
      using pre(3) x1(1) by (auto dest!: in_set_takeD simp: image_iff)
    have i': "i \<notin> fst ` set (take k vs)" using pre(3) by (auto dest!: in_set_takeD simp: image_iff)
    have res: "r = (case r2 of Inl (e, hs) \<Rightarrow> Inl (e, jh # hs) | Inr hs \<Rightarrow> Inr (jh # hs))" "xs' = xs2"
      using Cons.prems(4) f Inr g by (auto split: sum.splits)
    have tasks: "\<forall>j<length xs. xc_spawners (xs2 ! j) = xc_spawners (xs ! j) \<and>
        xc_tasks (xs2 ! j) = xc_tasks (xs ! j) @ (if j \<in> fst ` set (take (Suc k) (v # vs)) then [new_task j] else [])"
    proof (intro allI impI)
      fix j assume j: "j < length xs"
      show "xc_spawners (xs2 ! j) = xc_spawners (xs ! j) \<and>
        xc_tasks (xs2 ! j) = xc_tasks (xs ! j) @ (if j \<in> fst ` set (take (Suc k) (v # vs)) then [new_task j] else [])"
        using k(6) [rule_format, of j] j x1 i' Inr v by (cases "j = i") auto
    qed
    show ?thesis
      using k(1,2,3,4,5) tasks res other x1 Inr v
      by (intro exI [of _ "Suc k"]) (auto split: sum.splits prod.splits)
  qed
qed

lemma all_shards_length:
  assumes "distinct (map fst vs)" "\<forall>v\<in>set vs. fst v < length xs" "\<forall>x\<in>set xs. xc_ok x" "on_all F vs xs = (r, xs')"
  shows "length xs' = length xs"
  using all_shards [OF assms] by auto

text \<open>Dropping the handles of a spawn that failed cancels what it spawned.\<close>

lemma dropped_handles:
  assumes "distinct (map fst vs)" "\<forall>v\<in>set vs. fst v < length xs" "\<forall>x\<in>set xs. xc_ok x" "on_all F vs xs = (Inl (e, hs), xs')"
    and "j < length xs"
  defines "ys \<equiv> fold drop_handle hs xs'"
  shows "length ys = length xs" "xc_ok (ys ! j)" "xc_spawners (ys ! j) = xc_spawners (xs ! j)"
    "ex_unfinished (xc_exec (ys ! j)) = ex_unfinished (xc_exec (xs ! j))"
    "\<exists>ts. xc_tasks (ys ! j) = xc_tasks (xs ! j) @ ts \<and>
       (\<forall>t\<in>set ts. ts_completed (tk_state (snd t)) \<and> ts_future (tk_state (snd t)) = None)"
proof -
  obtain k where k: "hs = map (\<lambda>v. \<lparr>jh_shard = fst v, jh_task = length (xc_tasks (xs ! fst v))\<rparr>) (take k vs)"
      "length xs' = length xs" "\<forall>x\<in>set xs'. xc_ok x"
      "\<forall>j<length xs. xc_spawners (xs' ! j) = xc_spawners (xs ! j) \<and>
        xc_tasks (xs' ! j) = xc_tasks (xs ! j) @ (if j \<in> fst ` set (take k vs) then [new_task j] else [])"
    using all_shards [OF assms(1-4)] by auto
  have shards: "map jh_shard hs = map fst (take k vs)" by (simp add: k(1))
  have d: "distinct (map jh_shard hs)" using assms(1) by (simp only: shards take_map [symmetric] distinct_take)
  show len: "length ys = length xs" by (simp add: ys_def fold_drop_length k(2))
  have xj: "xc_ok (xs' ! j)" using k(2,3) assms(5) by simp
  have props: "xc_ok (ys ! j) \<and> xc_spawners (ys ! j) = xc_spawners (xs ! j) \<and>
      ex_unfinished (xc_exec (ys ! j)) = ex_unfinished (xc_exec (xs ! j)) \<and>
      (\<exists>ts. xc_tasks (ys ! j) = xc_tasks (xs ! j) @ ts \<and>
       (\<forall>t\<in>set ts. ts_completed (tk_state (snd t)) \<and> ts_future (tk_state (snd t)) = None))"
  proof (cases "j \<in> fst ` set (take k vs)")
    case False
    then have "j \<notin> jh_shard ` set hs" by (simp add: k(1) image_image)
    then have "ys ! j = xs' ! j" by (simp add: ys_def fold_drop_other)
    then show ?thesis using k(4) assms(5) xj False by (auto simp: ex_unfinished_def)
  next
    case True
    let ?jh = "\<lparr>jh_shard = j, jh_task = length (xc_tasks (xs ! j))\<rparr>"
    have jh: "?jh \<in> set hs" using True by (auto simp: k(1))
    have y: "ys ! j = drop_handle ?jh xs' ! j"
      using fold_drop_one [OF d jh, of xs'] by (simp add: ys_def)
    obtain gid where nt: "new_task j = (gid, task_queued now (alone j) (Some (handler j)))"
      by (cases "new_task j") (use queued [of j] in simp)
    have last: "xc_tasks (xs' ! j) = xc_tasks (xs ! j) @ [(gid, task_queued now (alone j) (Some (handler j)))]"
      using k(4) assms(5) True nt by simp
    obtain ok e' where c: "ex_cancel (length (xc_tasks (xs ! j))) (xc_exec (xs' ! j)) = (ok, e')"
      by (cases "ex_cancel (length (xc_tasks (xs ! j))) (xc_exec (xs' ! j))")
    have lt: "length (xc_tasks (xs ! j)) < length (xc_tasks (xs' ! j))" by (simp add: last)
    note last = ex_cancel_last [OF last c]
    have y': "ys ! j = (xs' ! j)\<lparr>xc_exec := e'\<rparr>" using y c assms(5) k(2) by (simp add: drop_handle_def)
    obtain t where t: "xc_tasks (ys ! j) = xc_tasks (xs ! j) @ [(gid, t)]" "ts_completed (tk_state t)" "ts_future (tk_state t) = None"
      using last(2) y' by auto
    have "xc_ok (ys ! j)" using xc_ok_cancel [OF xj c lt] y' by simp
    moreover have "xc_spawners (ys ! j) = xc_spawners (xs ! j)" using last(3) y' k(4) assms(5) by simp
    moreover have "ex_unfinished (xc_exec (ys ! j)) = ex_unfinished (xc_exec (xs ! j))"
      by (rule ex_unfinished_append [OF t(1,2)])
    ultimately show ?thesis using t by auto
  qed
  show "xc_ok (ys ! j)" "xc_spawners (ys ! j) = xc_spawners (xs ! j)"
      "ex_unfinished (xc_exec (ys ! j)) = ex_unfinished (xc_exec (xs ! j))"
      "\<exists>ts. xc_tasks (ys ! j) = xc_tasks (xs ! j) @ ts \<and>
       (\<forall>t\<in>set ts. ts_completed (tk_state (snd t)) \<and> ts_future (tk_state (snd t)) = None)"
    using props by auto
qed

lemma all_or_nothing:
  assumes "se_ok view xs" "with_handles (on_all F view xs) = (r, xs')"
  shows "se_ok view xs' \<and> (\<forall>i<length xs. xc_spawners (xs' ! i) = xc_spawners (xs ! i)) \<and>
    (case r of
       Inl e \<Rightarrow> (\<forall>i<length xs. ex_unfinished (xc_exec (xs' ! i)) = ex_unfinished (xc_exec (xs ! i)) \<and>
         (\<exists>ts. xc_tasks (xs' ! i) = xc_tasks (xs ! i) @ ts \<and>
           (\<forall>t\<in>set ts. ts_completed (tk_state (snd t)) \<and> ts_future (tk_state (snd t)) = None)))
     | Inr hs \<Rightarrow> hs = map (\<lambda>i. \<lparr>jh_shard = i, jh_task = length (xc_tasks (xs ! i))\<rparr>) [0..<length xs] \<and>
         (\<forall>i<length xs. xc_tasks (xs' ! i) = xc_tasks (xs ! i) @ [new_task i]))"
proof -
  have v: "map fst view = [0..<length xs]" "length view = length xs" "\<forall>x\<in>set xs. xc_ok x" using assms(1) by (auto simp: se_ok_def)
  then have f: "fst ` set view = {..<length xs}" by (metis set_map set_upt atLeast0LessThan)
  have pre: "distinct (map fst view)" "\<forall>v\<in>set view. fst v < length xs" using v(1) f by auto
  obtain r0 xs0 where o: "on_all F view xs = (r0, xs0)" by (cases "on_all F view xs")
  show ?thesis
  proof (cases r0)
    case (Inl eh)
    obtain e hs where eh: "eh = (e, hs)" by (cases eh)
    have r: "r = Inl e" "xs' = fold drop_handle hs xs0" using assms(2) o Inl eh by (simp_all add: with_handles_def)
    note d = dropped_handles [OF pre v(3) o [unfolded Inl eh], folded r(2)]
    have "length xs' = length xs" by (simp add: all_shards_length [OF pre v(3) o] r(2) fold_drop_length)
    then have "se_ok view xs'" using d(2) v by (auto simp: se_ok_def in_set_conv_nth)
    then show ?thesis using r(1) d by simp
  next
    case (Inr hs)
    have r: "r = Inr hs" "xs' = xs0" using assms(2) o Inr by (simp_all add: with_handles_def)
    have hs: "hs = map (\<lambda>v. \<lparr>jh_shard = fst v, jh_task = length (xc_tasks (xs ! fst v))\<rparr>) view"
        "length xs' = length xs" "\<forall>x\<in>set xs'. xc_ok x"
        "\<forall>j<length xs. xc_spawners (xs' ! j) = xc_spawners (xs ! j) \<and> xc_tasks (xs' ! j) = xc_tasks (xs ! j) @ [new_task j]"
      using all_shards [OF pre v(3) o] Inr r f by auto
    have "hs = map (\<lambda>i. \<lparr>jh_shard = i, jh_task = length (xc_tasks (xs ! i))\<rparr>) (map fst view)" by (simp add: hs(1))
    then show ?thesis using hs v r by (simp add: se_ok_def)
  qed
qed

end

lemma spawn_handle_one:
  assumes "i < length xs" "xc_ok (xs ! i)" "spawn_handle sp i xs = (r, xs')"
    and sp: "\<And>r x'. sp (xs ! i) = (r, x') \<Longrightarrow> xc_ok x' \<and> xc_id x' = xc_id (xs ! i) \<and> xc_spawners x' = xc_spawners (xs ! i) \<and>
      (case r of Inl _ \<Rightarrow> xc_tasks x' = xc_tasks (xs ! i)
       | Inr n \<Rightarrow> n = length (xc_tasks (xs ! i)) \<and> xc_tasks x' = xc_tasks (xs ! i) @ [t])"
  shows "\<exists>x'. xs' = xs[i := x'] \<and> xc_ok x' \<and> xc_id x' = xc_id (xs ! i) \<and> xc_spawners x' = xc_spawners (xs ! i) \<and>
        (case r of Inl _ \<Rightarrow> xc_tasks x' = xc_tasks (xs ! i)
         | Inr jh \<Rightarrow> jh = \<lparr>jh_shard = i, jh_task = length (xc_tasks (xs ! i))\<rparr> \<and> xc_tasks x' = xc_tasks (xs ! i) @ [t])"
proof -
  obtain r0 x' where x: "sp (xs ! i) = (r0, x')" by (cases "sp (xs ! i)")
  have "xs' = xs[i := x']" "r = map_sum id (\<lambda>n. \<lparr>jh_shard = i, jh_task = n\<rparr>) (map_sum SpawnRejected id r0)"
    using assms(3) x by (auto simp: spawn_handle_def on_executor_def)
  then show ?thesis using sp [OF x] by (intro exI [of _ x']) (cases r0; simp)
qed

lemma untouched_shard:
  assumes "xc_ok (xs ! i)"
  shows "\<exists>x'. xs = xs[i := x'] \<and> xc_ok x' \<and> xc_id x' = xc_id (xs ! i) \<and> xc_spawners x' = xc_spawners (xs ! i) \<and> xc_tasks x' = xc_tasks (xs ! i)"
  using assms by (intro exI [of _ "xs ! i"]) simp

lemmas spawn_handle_defs = spawner_spawn_with_handle_def spawner_spawn_with_handle_named_def
  spawner_spawn_with_handle_in_group_def spawner_spawn_with_handle_named_in_group_def
  spawn_with_handle_and_name_def spawn_with_handle_name_and_group_def scheduling_group_default_def

lemma spawn_handle_cases:
  assumes "xc_ok x"
  shows "spawner_spawn_with_handle alive now f h x = (r, x') \<Longrightarrow>
      xc_ok x' \<and> xc_id x' = xc_id x \<and> xc_spawners x' = xc_spawners x \<and>
      (case r of Inl _ \<Rightarrow> xc_tasks x' = xc_tasks x
       | Inr n \<Rightarrow> n = length (xc_tasks x) \<and> xc_tasks x' = xc_tasks x @ [(default_group_id, task_queued now (None, f) (Some h))])"
    "spawner_spawn_with_handle_named alive now name f h x = (r, x') \<Longrightarrow>
      xc_ok x' \<and> xc_id x' = xc_id x \<and> xc_spawners x' = xc_spawners x \<and>
      (case r of Inl _ \<Rightarrow> xc_tasks x' = xc_tasks x
       | Inr n \<Rightarrow> n = length (xc_tasks x) \<and> xc_tasks x' = xc_tasks x @ [(default_group_id, task_queued now (Some name, f) (Some h))])"
    "spawner_spawn_with_handle_in_group alive now g f h x = (r, x') \<Longrightarrow>
      xc_ok x' \<and> xc_id x' = xc_id x \<and> xc_spawners x' = xc_spawners x \<and>
      (case r of Inl _ \<Rightarrow> xc_tasks x' = xc_tasks x
       | Inr n \<Rightarrow> n = length (xc_tasks x) \<and> xc_tasks x' = xc_tasks x @ [(gp_id g, task_queued now (None, f) (Some h))])"
    "spawner_spawn_with_handle_named_in_group alive now g name f h x = (r, x') \<Longrightarrow>
      xc_ok x' \<and> xc_id x' = xc_id x \<and> xc_spawners x' = xc_spawners x \<and>
      (case r of Inl _ \<Rightarrow> xc_tasks x' = xc_tasks x
       | Inr n \<Rightarrow> n = length (xc_tasks x) \<and> xc_tasks x' = xc_tasks x @ [(gp_id g, task_queued now (Some name, f) (Some h))])"
  subgoal
    using spawn_inner_cases [OF assms, of alive now None default_group_id f "Some h" r x'] by (simp add: spawn_handle_defs)
  subgoal
    using spawn_inner_cases [OF assms, of alive now "Some name" default_group_id f "Some h" r x'] by (simp add: spawn_handle_defs)
  subgoal
    using assms spawn_inner_cases [OF assms, of alive now None "gp_id g" f "Some h" r x']
    by (cases "ensure_group_belongs_to_executor g x") (auto simp: spawn_handle_defs)
  subgoal
    using assms spawn_inner_cases [OF assms, of alive now "Some name" "gp_id g" f "Some h" r x']
    by (cases "ensure_group_belongs_to_executor g x") (auto simp: spawn_handle_defs)
  done

lemma iteration_one:
  assumes "i < length xs" "xc_ok (xs ! i)"
    and "(if \<not> b then (Inl (SpawnStopped i), xs)
          else case g of Inl e \<Rightarrow> (Inl e, xs) | Inr gr \<Rightarrow> spawn_handle (sp gr) i xs) = (r, xs')"
    and "\<And>gr r x'. g = Inr gr \<Longrightarrow> sp gr (xs ! i) = (r, x') \<Longrightarrow>
      xc_ok x' \<and> xc_id x' = xc_id (xs ! i) \<and> xc_spawners x' = xc_spawners (xs ! i) \<and>
      (case r of Inl _ \<Rightarrow> xc_tasks x' = xc_tasks (xs ! i)
       | Inr n \<Rightarrow> n = length (xc_tasks (xs ! i)) \<and> xc_tasks x' = xc_tasks (xs ! i) @ [t])"
  shows "\<exists>x'. xs' = xs[i := x'] \<and> xc_ok x' \<and> xc_id x' = xc_id (xs ! i) \<and> xc_spawners x' = xc_spawners (xs ! i) \<and>
        (case r of Inl _ \<Rightarrow> xc_tasks x' = xc_tasks (xs ! i)
         | Inr jh \<Rightarrow> jh = \<lparr>jh_shard = i, jh_task = length (xc_tasks (xs ! i))\<rparr> \<and> xc_tasks x' = xc_tasks (xs ! i) @ [t])"
proof (cases "b \<and> (\<exists>gr. g = Inr gr)")
  case True
  then obtain gr where gr: "b" "g = Inr gr" by blast
  show ?thesis
    by (rule spawn_handle_one [OF assms(1,2) _ assms(4) [OF gr(2)], of _ r xs']) (use assms(3) gr in auto)
next
  case False
  then have "r = Inl (SpawnStopped i) \<and> xs' = xs \<or> (\<exists>e. r = Inl e) \<and> xs' = xs"
    using assms(3) by (cases g) (auto split: if_splits)
  then show ?thesis using untouched_shard [OF assms(2)] by auto
qed

text \<open>The group of shard \<open>i\<close>, when the group is one of this runtime.\<close>

abbreviation shard_gid :: "sharded_group \<Rightarrow> nat \<Rightarrow> nat" where
  "shard_gid g i \<equiv> gp_id (snd (shg_groups g ! i))"

lemma group_for_Inr: "group_for g runtime_id i = Inr gr \<Longrightarrow> gr = snd (shg_groups g ! i)"
  by (auto simp: group_for_def split: if_splits)

interpretation all_plain: shard_spawn
  "\<lambda>(shard_id, spawner) xs.
       if \<not> spawner then (Inl (SpawnStopped shard_id), xs)
       else spawn_handle (spawner_spawn_with_handle alive now (make_future shard_id) (h shard_id)) shard_id xs"
  "\<lambda>i. (default_group_id, task_queued now (None, make_future i) (Some (h i)))"
  "\<lambda>i. (None, make_future i)" h now
  for alive now make_future h
  apply unfold_locales
   apply simp
  subgoal for i xs b r xs'
    by (rule iteration_one [where g = "Inr ()" and sp = "\<lambda>_. spawner_spawn_with_handle alive now (make_future i) (h i)" and b = b])
      (auto dest: spawn_handle_cases(1) split: if_splits)
  done

interpretation all_named: shard_spawn
  "\<lambda>(shard_id, spawner) xs.
       if \<not> spawner then (Inl (SpawnStopped shard_id), xs)
       else spawn_handle (spawner_spawn_with_handle_named alive now (make_name shard_id) (make_future shard_id) (h shard_id)) shard_id xs"
  "\<lambda>i. (default_group_id, task_queued now (Some (make_name i), make_future i) (Some (h i)))"
  "\<lambda>i. (Some (make_name i), make_future i)" h now
  for alive now make_name make_future h
  apply unfold_locales
   apply simp
  subgoal for i xs b r xs'
    by (rule iteration_one [where g = "Inr ()" and b = b
          and sp = "\<lambda>_. spawner_spawn_with_handle_named alive now (make_name i) (make_future i) (h i)"])
      (auto dest: spawn_handle_cases(2) split: if_splits)
  done

interpretation all_in_group: shard_spawn
  "\<lambda>(shard_id, spawner) xs.
       if \<not> spawner then (Inl (SpawnStopped shard_id), xs)
       else case group_for g runtime_id shard_id of
              Inl e \<Rightarrow> (Inl e, xs)
            | Inr gr \<Rightarrow> spawn_handle (spawner_spawn_with_handle_in_group alive now gr (make_future shard_id) (h shard_id)) shard_id xs"
  "\<lambda>i. (shard_gid g i, task_queued now (None, make_future i) (Some (h i)))"
  "\<lambda>i. (None, make_future i)" h now
  for alive now runtime_id g make_future h
  apply unfold_locales
   apply simp
  subgoal for i xs b r xs'
    by (rule iteration_one [where g = "group_for g runtime_id i" and b = b
          and sp = "\<lambda>gr. spawner_spawn_with_handle_in_group alive now gr (make_future i) (h i)"])
      (auto dest: group_for_Inr spawn_handle_cases(3))
  done

interpretation all_named_in_group: shard_spawn
  "\<lambda>(shard_id, spawner) xs.
       if \<not> spawner then (Inl (SpawnStopped shard_id), xs)
       else case group_for g runtime_id shard_id of
              Inl e \<Rightarrow> (Inl e, xs)
            | Inr gr \<Rightarrow> spawn_handle (spawner_spawn_with_handle_named_in_group alive now gr (make_name shard_id) (make_future shard_id) (h shard_id)) shard_id xs"
  "\<lambda>i. (shard_gid g i, task_queued now (Some (make_name i), make_future i) (Some (h i)))"
  "\<lambda>i. (Some (make_name i), make_future i)" h now
  for alive now runtime_id g make_name make_future h
  apply unfold_locales
   apply simp
  subgoal for i xs b r xs'
    by (rule iteration_one [where g = "group_for g runtime_id i" and b = b
          and sp = "\<lambda>gr. spawner_spawn_with_handle_named_in_group alive now gr (make_name i) (make_future i) (h i)"])
      (auto dest: group_for_Inr spawn_handle_cases(4))
  done


definition two_shards :: "(nat, unit) sharded_executor" where
  "two_shards =
     \<lparr>se_runtime_id = 1,
      se_shards = map (\<lambda>i. \<lparr>as_shard_id = i, as_thread_name = [], as_cpu = CpuUnpinned, as_memory = MemoryDefault, as_spawner = True\<rparr>) [0, 1],
      se_joins = [0, 1], se_execs = [\<lparr>xc_id = 1, xc_exec = exec_new\<rparr>, \<lparr>xc_id = 2, xc_exec = exec_new\<rparr>]\<rparr>"

text \<open>The group of shard 1 is one of another executor, so that shard rejects its task after shard 0 took one.\<close>

definition foreign_group :: sharded_group where
  "foreign_group =
     \<lparr>shg_runtime_id = 1, shg_name = ''g'', shg_shares = 1,
      shg_groups = [(0, scheduling_group_default), (1, scheduling_group_new 7 0 ''g'' 1)]\<rparr>"

lemma two_shards_ok: "se_ok (se_view two_shards) (se_execs two_shards)"
  by (simp add: se_ok_def two_shards_def se_view_def xc_ok_def ex_inv_new upt_rec)


end
