(* ===== verification/Sharded_Lifecycle.thy ===== *)
theory Sharded_Lifecycle
  imports Sharded_Executor
begin

text \<open>
  The life of a sharded runtime, \<open>sharded_executor.rs\<close>: starting the shard threads, cleaning up when a
  start fails, scheduling groups on all shards, shutdown with and without a timeout, and the snapshot.
  The operating system's answers are parameters: whether a thread starts, what its placement calls
  return, what joining a thread does to its scheduler, the clock and when a thread has finished.
\<close>

subsection \<open>Threads\<close>

record shard_os =
  os_thread :: bool
  os_setaffinity :: "cpu_set \<Rightarrow> string option"
  os_sysfs :: "cpu_id \<Rightarrow> string list option"
  os_mempolicy :: "nat \<Rightarrow> cpu_set option \<Rightarrow> string option"

text \<open>Joining a thread: nothing if it does not end, otherwise whether it ended without a panic.\<close>

type_synonym ('f, 'h) thread_join = "nat \<Rightarrow> ('f, 'h) executor \<Rightarrow> (bool \<times> ('f, 'h) executor) option"

text \<open>The rest of a shard thread after it reported its start: run the scheduler, then drop it.\<close>

definition thread_run ::
  "(task_ref \<Rightarrow> bool) \<Rightarrow> (nat \<Rightarrow> (string option \<times> 'f, 'h) script) \<Rightarrow> nat \<Rightarrow> (nat \<Rightarrow> (instant \<times> driver_event option) list) \<Rightarrow> instant \<Rightarrow>
   ('f, 'h) thread_join" where
  "thread_run alive script fuel evs now i x =
     (case executor_run alive (script i) fuel (evs i) now (xc_exec x) of
        None \<Rightarrow> None
      | Some e \<Rightarrow> Some (True, x\<lparr>xc_exec := ex_close alive e\<rparr>))"

fun join_threads ::
  "('f, 'h) thread_join \<Rightarrow> nat list \<Rightarrow> ('f, 'h) executor list \<Rightarrow> ((shard_error + unit) \<times> ('f, 'h) executor list) option" where
  "join_threads thr [] xs = Some (Inr (), xs)"
| "join_threads thr (i # is) xs =
     (case thr i (xs ! i) of
        None \<Rightarrow> None
      | Some (ok, x) \<Rightarrow>
          (case join_threads thr is (xs[i := x]) of
             None \<Rightarrow> None
           | Some (r, xs) \<Rightarrow> Some (if ok then r else Inl ThreadJoinFailed, xs)))"

definition shard_view :: "async_shard list \<Rightarrow> (nat \<times> bool) list" where
  "shard_view shards = map (\<lambda>s. (as_shard_id s, as_spawner s)) shards"

definition take_spawners :: "async_shard list \<Rightarrow> async_shard list" where
  "take_spawners shards = map (\<lambda>s. s\<lparr>as_spawner := False\<rparr>) shards"

subsection \<open>Start\<close>

definition executor_and_spawner :: "nat \<Rightarrow> ('f, 'h) executor" where
  "executor_and_spawner i = \<lparr>xc_id = i, xc_exec = exec_new\<rparr>"

definition drop_spawner :: "('f, 'h) executor \<Rightarrow> ('f, 'h) executor" where
  "drop_spawner x = x\<lparr>xc_exec := ex_remove_spawner (xc_exec x)\<rparr>"

definition cleanup_started_shards ::
  "('f, 'h) thread_join \<Rightarrow> async_shard list \<Rightarrow> nat list \<Rightarrow> ('f, 'h) executor list \<Rightarrow> ('f, 'h) executor list option" where
  "cleanup_started_shards thr shards joins xs =
     map_option snd (join_threads thr joins (on_spawners ex_remove_spawner (shard_view shards) xs))"

text \<open>The placement part of a shard thread; a panic there ends the thread before it reports its start.\<close>

definition shard_start_status ::
  "shard_os \<Rightarrow> cpu_id option \<Rightarrow> memory_placement \<Rightarrow> panic + cpu_placement_status \<times> memory_placement_status" where
  "shard_start_status os requested memory =
     (let cpu = apply_to_current_thread (os_setaffinity os) (os_sysfs os) requested
      in case apply_memory_to_current_thread (os_mempolicy os) memory cpu of
           Inl p \<Rightarrow> Inl p
         | Inr m \<Rightarrow> Inr (cpu, m))"

fun start_shards ::
  "sharded_config \<Rightarrow> cpu_id list \<Rightarrow> (nat \<Rightarrow> nat) \<Rightarrow> (nat \<Rightarrow> shard_os) \<Rightarrow> ('f, 'h) thread_join \<Rightarrow> nat list \<Rightarrow>
   async_shard list \<Rightarrow> nat list \<Rightarrow> ('f, 'h) executor list \<Rightarrow>
   ((shard_error + async_shard list) \<times> nat list \<times> ('f, 'h) executor list) option" where
  "start_shards c available ids os thr [] shards joins xs = Some (Inr shards, joins, xs)"
| "start_shards c available ids os thr (i # is) shards joins xs =
     (let requested = cpu_for_shard (cf_cpu c) i available; x = executor_and_spawner (ids i);
          failed = (\<lambda>thr joins xs err. map_option (\<lambda>xs. (Inl err, joins, xs)) (cleanup_started_shards thr shards joins xs))
      in if \<not> os_thread (os i) then failed thr joins xs ThreadJoinFailed
         else case shard_start_status (os i) requested (cf_memory c) of
           Inl p \<Rightarrow> failed (thr(i := \<lambda>x. Some (False, x))) (joins @ [i]) (xs @ [x]) ThreadJoinFailed
         | Inr (cpu, memory) \<Rightarrow>
             if cf_require_cpu c \<and> requested \<noteq> None \<and> \<not> cpu_is_applied cpu
             then failed thr (joins @ [i]) (xs @ [drop_spawner x]) (CpuPlacementFailed (display_cpu_status cpu))
             else if cf_require_memory c \<and> cf_memory c \<noteq> DefaultMemory \<and> \<not> memory_is_applied memory
             then failed thr (joins @ [i]) (xs @ [drop_spawner x]) (MemoryPlacementFailed (display_memory_status memory))
             else start_shards c available ids os thr is
               (shards @ [\<lparr>as_shard_id = i, as_thread_name = thread_name c i, as_cpu = cpu, as_memory = memory, as_spawner = True\<rparr>])
               (joins @ [i]) (xs @ [x]))"

text \<open>After a failed start the result also holds the threads that were joined and their schedulers.\<close>

definition start_with_config ::
  "u64 \<Rightarrow> cpu_set option \<Rightarrow> nat \<Rightarrow> (nat \<Rightarrow> nat) \<Rightarrow> (nat \<Rightarrow> shard_os) \<Rightarrow> ('f, 'h) thread_join \<Rightarrow> sharded_config \<Rightarrow>
   (shard_error \<times> nat list \<times> ('f, 'h) executor list + ('f, 'h) sharded_executor) option" where
  "start_with_config runtime_id reported parallelism ids os thr c =
     (case config_validate c of
        Inl e \<Rightarrow> Some (Inl (e, [], []))
      | Inr _ \<Rightarrow>
          (let available = available_cpu_ids reported parallelism
           in case validate_cpu_placement_against c available of
                Inl e \<Rightarrow> Some (Inl (e, [], []))
              | Inr _ \<Rightarrow>
                  (case start_shards c available ids os thr [0..<cf_shard_count c] [] [] [] of
                     None \<Rightarrow> None
                   | Some (Inl e, joins, xs) \<Rightarrow> Some (Inl (e, joins, xs))
                   | Some (Inr shards, joins, xs) \<Rightarrow>
                       Some (Inr \<lparr>se_runtime_id = runtime_id, se_shards = shards, se_joins = joins, se_execs = xs\<rparr>))))"

definition executor_start ::
  "u64 \<Rightarrow> cpu_set option \<Rightarrow> nat \<Rightarrow> (nat \<Rightarrow> nat) \<Rightarrow> (nat \<Rightarrow> shard_os) \<Rightarrow> ('f, 'h) thread_join \<Rightarrow> nat \<Rightarrow>
   (shard_error \<times> nat list \<times> ('f, 'h) executor list + ('f, 'h) sharded_executor) option" where
  "executor_start runtime_id reported parallelism ids os thr shard_count =
     start_with_config runtime_id reported parallelism ids os thr (sharded_config_new shard_count)"

subsection \<open>Scheduling groups on all shards\<close>

definition create_scheduling_group_on_all ::
  "string \<Rightarrow> nat \<Rightarrow> ('f, 'h) sharded_executor \<Rightarrow> (sharded_group_error + sharded_group) \<times> ('f, 'h) sharded_executor" where
  "create_scheduling_group_on_all name shares se =
     (if shares = 0 then (Inl (GroupInvalid ZeroShares), se)
      else on_shards (\<lambda>xs.
        case on_all (\<lambda>(shard_id, spawner) xs.
            if \<not> spawner then (Inl (GroupStopped shard_id), xs)
            else let (r, x) = spawner_create_group name shares (xs ! shard_id)
                 in (map_sum GroupInvalid (Pair shard_id) r, xs[shard_id := x])) (se_view se) xs of
          (Inl (e, _), xs) \<Rightarrow> (Inl e, xs)
        | (Inr groups, xs) \<Rightarrow>
            (Inr \<lparr>shg_runtime_id = se_runtime_id se, shg_name = name, shg_shares = shares, shg_groups = groups\<rparr>, xs)) se)"

subsection \<open>Shutdown\<close>

definition executor_release :: "('f, 'h) sharded_executor \<Rightarrow> ('f, 'h) sharded_executor" where
  "executor_release se =
     se\<lparr>se_shards := take_spawners (se_shards se), se_execs := on_spawners ex_remove_spawner (se_view se) (se_execs se)\<rparr>"

definition executor_shutdown ::
  "('f, 'h) thread_join \<Rightarrow> ('f, 'h) sharded_executor \<Rightarrow> ((shard_error + unit) \<times> ('f, 'h) sharded_executor) option" where
  "executor_shutdown thr se =
     (let se = executor_release se
      in map_option (\<lambda>(r, xs). (r, se\<lparr>se_joins := [], se_execs := xs\<rparr>)) (join_threads thr (se_joins se) (se_execs se)))"

definition executor_drop ::
  "('f, 'h) thread_join \<Rightarrow> ('f, 'h) sharded_executor \<Rightarrow> ('f, 'h) executor list option" where
  "executor_drop thr se = map_option (\<lambda>(_, se). se_execs se) (executor_shutdown thr se)"

text \<open>Durations are in nanoseconds; the interval is one millisecond.\<close>

definition shutdown_timeout_poll_interval :: duration where
  "shutdown_timeout_poll_interval = 1000000"

text \<open>The wait of a bounded shutdown: \<open>fin k i\<close> says whether thread \<open>i\<close> has finished when the loop runs
  for the \<open>k\<close>th time, \<open>clock k\<close> is the time then.  The result is the number of the last iteration.\<close>

fun wait_finished :: "(nat \<Rightarrow> nat \<Rightarrow> bool) \<Rightarrow> (nat \<Rightarrow> instant) \<Rightarrow> instant \<Rightarrow> nat list \<Rightarrow> nat \<Rightarrow> nat \<Rightarrow> nat option" where
  "wait_finished fin clock deadline joins 0 k = None"
| "wait_finished fin clock deadline joins (Suc fuel) k =
     (if list_all (fin k) joins then Some k
      else if deadline - clock k = 0 then Some k
      else wait_finished fin clock deadline joins fuel (Suc k))"

text \<open>\<open>live\<close> says for which shards the weak reference of the observer still upgrades.\<close>

fun force_shards ::
  "(nat \<Rightarrow> bool) \<Rightarrow> (nat \<Rightarrow> bool) \<Rightarrow> (async_shard \<times> nat) list \<Rightarrow> ('f, 'h) executor list \<Rightarrow> nat list \<times> ('f, 'h) executor list" where
  "force_shards fin live [] xs = ([], xs)"
| "force_shards fin live ((shard, i) # ss) xs =
     (if \<not> fin i \<and> live i
      then let (forced, xs) = force_shards fin live ss (xs[i := (xs ! i)\<lparr>xc_exec := request_stop (xc_exec (xs ! i))\<rparr>])
           in (as_shard_id shard # forced, xs)
      else force_shards fin live ss xs)"

definition shutdown_timeout ::
  "(nat \<Rightarrow> nat \<Rightarrow> bool) \<Rightarrow> (nat \<Rightarrow> instant) \<Rightarrow> (nat \<Rightarrow> bool) \<Rightarrow> ('f, 'h) thread_join \<Rightarrow> instant \<Rightarrow> duration \<Rightarrow> nat \<Rightarrow>
   ('f, 'h) sharded_executor \<Rightarrow> ((shard_error + nat list) \<times> ('f, 'h) sharded_executor) option" where
  "shutdown_timeout fin clock live thr start timeout fuel se =
     (let se = executor_release se
      in case wait_finished fin clock (start + timeout) (se_joins se) fuel 0 of
           None \<Rightarrow> None
         | Some k \<Rightarrow>
             (let (forced, xs) = force_shards (fin (Suc k)) live (zip (se_shards se) (se_joins se)) (se_execs se)
              in map_option (\<lambda>(r, xs). (map_sum id (\<lambda>_. forced) r, se\<lparr>se_joins := [], se_execs := xs\<rparr>))
                   (join_threads thr (se_joins se) xs)))"

subsection \<open>Snapshots\<close>

record 's executor_snapshot =
  sn_shard_count :: nat
  sn_running :: bool
  sn_shards :: "(async_shard \<times> 's option) list"

text \<open>\<open>snap\<close> is the snapshot of one scheduler.\<close>

definition executor_snapshot :: "(('f, 'h) executor \<Rightarrow> 's) \<Rightarrow> ('f, 'h) sharded_executor \<Rightarrow> 's executor_snapshot" where
  "executor_snapshot snap se =
     \<lparr>sn_shard_count = length (se_shards se), sn_running = (se_joins se \<noteq> []),
      sn_shards = map (\<lambda>s. (s, if as_spawner s then Some (snap (se_execs se ! as_shard_id s)) else None)) (se_shards se)\<rparr>"

text \<open>An observer holds the shards as they were when it was made, each with a weak reference.\<close>

definition executor_observer :: "('f, 'h) sharded_executor \<Rightarrow> async_shard list" where
  "executor_observer se = se_shards se"

definition observer_snapshot ::
  "(nat \<Rightarrow> bool) \<Rightarrow> (('f, 'h) executor \<Rightarrow> 's) \<Rightarrow> async_shard list \<Rightarrow> ('f, 'h) executor list \<Rightarrow> 's executor_snapshot" where
  "observer_snapshot live snap ob xs =
     (let shards = map (\<lambda>s. (s, if as_spawner s \<and> live (as_shard_id s) then Some (snap (xs ! as_shard_id s)) else None)) ob
      in \<lparr>sn_shard_count = length ob, sn_running = list_ex (\<lambda>s. snd s \<noteq> None) shards, sn_shards = shards\<rparr>)"

subsection \<open>Joining threads\<close>

lemma join_threads_all:
  assumes "distinct is" "\<forall>i\<in>set is. i < length xs" "\<forall>i\<in>set is. thr i (xs ! i) = Some (ok i, y i)"
  shows "\<exists>ys. join_threads thr is xs = Some (if \<forall>i\<in>set is. ok i then Inr () else Inl ThreadJoinFailed, ys) \<and>
    length ys = length xs \<and> (\<forall>j<length xs. ys ! j = (if j \<in> set is then y j else xs ! j))"
  using assms
proof (induction "is" arbitrary: xs)
  case (Cons i "is")
  let ?xs = "xs[i := y i]"
  have "\<forall>j\<in>set is. thr j (?xs ! j) = Some (ok j, y j)" using Cons.prems by (auto simp: nth_list_update)
  then obtain ys where ys: "join_threads thr is ?xs = Some (if \<forall>i\<in>set is. ok i then Inr () else Inl ThreadJoinFailed, ys)"
      "length ys = length xs" "\<forall>j<length xs. ys ! j = (if j \<in> set is then y j else ?xs ! j)"
    using Cons.IH [of ?xs] Cons.prems by auto
  then show ?case using Cons.prems by (intro exI [of _ ys]) (auto simp: nth_list_update)
qed simp

lemma ex_close_accepting [simp]: "\<not> st_accepting (ex_set (ex_close alive e))"
  by (simp add: ex_close_def task_set_close_def Let_def wake_reactor_def case_prod_unfold)

lemma drive_idle:
  assumes "ex_popped e = None" "\<not> has_ready_tasks (ex_set e)" "tm_timers (ex_timers e) = []"
  shows "ex_set (drive_ready_work alive script now e) = ex_set e" "ex_tasks (drive_ready_work alive script now e) = ex_tasks e"
proof -
  have n: "ex_next_task e = e"
    using assms by (simp add: ex_next_task_def next_task_def has_ready_tasks_def pick_group_None [symmetric])
  have "ex_poll_batch alive script now ready_poll_budget e = (0, e)"
    using assms(1) by (simp add: ready_poll_budget_def eval_nat_numeral ex_poll_next_def n Let_def)
  then show "ex_set (drive_ready_work alive script now e) = ex_set e" "ex_tasks (drive_ready_work alive script now e) = ex_tasks e"
    using assms(3) by (simp_all add: drive_ready_work_def poll_ready_tasks_def Let_def ex_wake_expired_timers_def timer_expired_def ex_wake_all_def)
qed

lemma run_idle:
  assumes "ex_popped e = None" "is_drained (ex_set e)" "tm_timers (ex_timers e) = []"
  shows "\<exists>e'. executor_run alive script (Suc fuel) evs now e = Some e'"
proof -
  have "\<not> has_ready_tasks (ex_set e)" using assms(2) by (simp add: is_drained_def has_ready_tasks_def)
  then show ?thesis using drive_idle [OF assms(1) _ assms(3)] assms(2) by (simp add: Let_def)
qed

subsection \<open>Laws of starting\<close>

lemma drop_new_idle:
  "ex_popped (xc_exec (drop_spawner (executor_and_spawner i))) = None"
  "is_drained (ex_set (xc_exec (drop_spawner (executor_and_spawner i))))"
  "tm_timers (ex_timers (xc_exec (drop_spawner (executor_and_spawner i)))) = []"
  by (simp_all add: drop_spawner_def executor_and_spawner_def ex_remove_spawner_def remove_spawner_def exec_new_def
      task_set_new_def Let_def wake_reactor_def is_drained_def ready_queue_len_def timer_set_new_def)

lemma thread_run_idle:
  "\<exists>x. thread_run alive script (Suc fuel) evs now j (drop_spawner (executor_and_spawner i) :: ('a, 'b) executor) = Some (True, x) \<and>
     \<not> st_accepting (ex_set (xc_exec x))"
proof -
  obtain e where "executor_run alive (script j) (Suc fuel) (evs j) now (xc_exec (drop_spawner (executor_and_spawner i) :: ('a, 'b) executor)) = Some e"
    using run_idle [OF drop_new_idle] by metis
  then show ?thesis by (simp add: thread_run_def del: executor_run.simps)
qed

lemma release_started:
  "\<forall>s\<in>set shards. as_spawner s \<Longrightarrow> length shards = length xs \<Longrightarrow>
   on_spawners ex_remove_spawner (shard_view shards) (xs @ zs) = map drop_spawner xs @ zs"
proof (induction shards arbitrary: xs)
  case (Cons s shards)
  then show ?case by (cases xs) (auto simp: shard_view_def drop_spawner_def)
qed (simp add: shard_view_def)

lemma cleanup_returns:
  assumes "\<forall>s\<in>set shards. as_spawner s" "length shards = k"
    and "zs = [] \<or> (\<exists>i. zs = [drop_spawner (executor_and_spawner i)])"
  shows "\<exists>ys. cleanup_started_shards (thread_run alive script (Suc fuel) evs now) shards [0..<k + length zs]
      (map (\<lambda>i. executor_and_spawner (ids i)) [0..<k] @ zs) = Some ys \<and>
    length ys = k + length zs \<and> (\<forall>x\<in>set ys. \<not> st_accepting (ex_set (xc_exec x)))"
proof -
  let ?thr = "thread_run alive script (Suc fuel) evs now"
  let ?xs = "map (\<lambda>i. drop_spawner (executor_and_spawner (ids i))) [0..<k] @ zs"
  have rel: "on_spawners ex_remove_spawner (shard_view shards) (map (\<lambda>i. executor_and_spawner (ids i)) [0..<k] @ zs) = ?xs"
    using release_started [OF assms(1), of "map (\<lambda>i. executor_and_spawner (ids i)) [0..<k]" zs] assms(2) by (simp add: comp_def)
  have "\<exists>i. ?xs ! j = drop_spawner (executor_and_spawner i)" if "j < k + length zs" for j
    using that assms(3) by (cases "j < k") (auto simp: nth_append)
  then have "\<exists>x. ?thr j (?xs ! j) = Some (True, x) \<and> \<not> st_accepting (ex_set (xc_exec x))" if "j < k + length zs" for j
    using that thread_run_idle [of alive script fuel evs now j] by metis
  then obtain y where y: "\<And>j. j < k + length zs \<Longrightarrow> ?thr j (?xs ! j) = Some (True, y j) \<and> \<not> st_accepting (ex_set (xc_exec (y j)))"
    by metis
  then obtain ys where "join_threads ?thr [0..<k + length zs] ?xs = Some (Inr (), ys)" "length ys = k + length zs"
      "\<forall>j<k + length zs. ys ! j = y j"
    using join_threads_all [of "[0..<k + length zs]" ?xs ?thr "\<lambda>_. True" y] by auto
  then show ?thesis using y by (auto simp: cleanup_started_shards_def rel in_set_conv_nth)
qed

lemma start_status_no_panic: "\<exists>cpu m. shard_start_status os requested memory = Inr (cpu, m)"
  by (auto simp: shard_start_status_def Let_def apply_memory_to_current_thread_def platform_apply_memory_def
      split: memory_placement.splits option.splits sum.splits)

text \<open>What a start promises of shard \<open>i\<close>.\<close>

definition shard_started :: "sharded_config \<Rightarrow> cpu_id list \<Rightarrow> nat \<Rightarrow> async_shard \<Rightarrow> bool" where
  "shard_started c available i s \<longleftrightarrow>
     as_shard_id s = i \<and> as_thread_name s = thread_name c i \<and> as_spawner s \<and>
     (cf_require_cpu c \<and> cpu_for_shard (cf_cpu c) i available \<noteq> None \<longrightarrow> cpu_is_applied (as_cpu s)) \<and>
     (cf_require_memory c \<and> cf_memory c \<noteq> DefaultMemory \<longrightarrow> memory_is_applied (as_memory s))"

lemma start_shards_outcome:
  assumes "length shards = k" "\<forall>i<k. shard_started c available i (shards ! i)" "k \<le> n"
  shows "\<exists>r joins xs. start_shards c available ids os (thread_run alive script (Suc fuel) evs now) [k..<n] shards [0..<k]
      (map (\<lambda>i. executor_and_spawner (ids i)) [0..<k]) = Some (r, joins, xs) \<and> joins = [0..<length xs] \<and> length xs \<le> n \<and>
    (case r of
       Inl e \<Rightarrow> \<forall>x\<in>set xs. \<not> st_accepting (ex_set (xc_exec x))
     | Inr ss \<Rightarrow> length ss = n \<and> (\<forall>i<n. shard_started c available i (ss ! i)) \<and>
         xs = map (\<lambda>i. executor_and_spawner (ids i)) [0..<n])"
  using assms
proof (induction "n - k" arbitrary: k shards)
  case 0
  then show ?case by simp
next
  case (Suc d)
  let ?xs = "map (\<lambda>i. executor_and_spawner (ids i)) [0..<k]"
  let ?x = "drop_spawner (executor_and_spawner (ids k))"
  have k: "k < n" "[k..<n] = k # [Suc k..<n]" using Suc.hyps(2) by (simp_all add: upt_conv_Cons)
  have sp: "\<forall>s\<in>set shards. as_spawner s" using Suc.prems(1,2) by (auto simp: shard_started_def in_set_conv_nth)
  let ?cleanup = "cleanup_started_shards (thread_run alive script (Suc fuel) evs now) shards"
  note clean = cleanup_returns [OF sp Suc.prems(1), of _ alive script fuel evs now ids]
  have one: "[?x] = [] \<or> (\<exists>i. [?x] = [drop_spawner (executor_and_spawner i)])" by blast
  obtain ys where ys: "?cleanup ([0..<k] @ [k]) (?xs @ [?x]) = Some ys" "length ys = Suc k" "\<forall>x\<in>set ys. \<not> st_accepting (ex_set (xc_exec x))"
    using clean [OF one] by auto
  obtain cpu m where st: "shard_start_status (os k) (cpu_for_shard (cf_cpu c) k available) (cf_memory c) = Inr (cpu, m)"
    using start_status_no_panic by blast
  let ?s = "\<lparr>as_shard_id = k, as_thread_name = thread_name c k, as_cpu = cpu, as_memory = m, as_spawner = True\<rparr>"
  consider (thread) "\<not> os_thread (os k)"
    | (cpu) "os_thread (os k)" "cf_require_cpu c \<and> cpu_for_shard (cf_cpu c) k available \<noteq> None \<and> \<not> cpu_is_applied cpu"
    | (memory) "os_thread (os k)" "\<not> (cf_require_cpu c \<and> cpu_for_shard (cf_cpu c) k available \<noteq> None \<and> \<not> cpu_is_applied cpu)"
        "cf_require_memory c \<and> cf_memory c \<noteq> DefaultMemory \<and> \<not> memory_is_applied m"
    | (ok) "os_thread (os k)" "\<not> (cf_require_cpu c \<and> cpu_for_shard (cf_cpu c) k available \<noteq> None \<and> \<not> cpu_is_applied cpu)"
        "\<not> (cf_require_memory c \<and> cf_memory c \<noteq> DefaultMemory \<and> \<not> memory_is_applied m)"
    by blast
  then show ?case
  proof cases
    case thread
    then show ?thesis using clean [of "[]"] k by (auto simp: Let_def)
  next
    case cpu
    then show ?thesis using ys k st by (auto simp: Let_def)
  next
    case memory
    then show ?thesis using ys k st by (auto simp: Let_def)
  next
    case ok
    have "shard_started c available k ?s" using ok(2,3) by (auto simp: shard_started_def)
    then have "\<forall>i<Suc k. shard_started c available i ((shards @ [?s]) ! i)"
      using Suc.prems(1,2) by (auto simp: nth_append less_Suc_eq)
    then show ?thesis
      using Suc.hyps(1) [of "Suc k" "shards @ [?s]"] Suc.hyps(2) Suc.prems(1) k ok st by (auto simp: Let_def shard_started_def)
  qed
qed

text \<open>C11: starting a sharded runtime returns, and either gives a runtime or leaves nothing running.  On
  success there is one shard per configured shard, with its number, its thread name, a well-formed
  scheduler with one spawner, and the placements that were required have been applied.  On failure, at
  whatever shard a thread cannot be started or a required placement is not applied, all threads
  started so far have been joined, each after its scheduler ran to its end and was dropped.\<close>

theorem sharded_start_or_cleanup:
  "\<exists>r. start_with_config runtime_id reported parallelism ids os (thread_run alive script (Suc fuel) evs now) c = Some r \<and>
    (case r of
       Inl (e, joined, xs) \<Rightarrow> joined = [0..<length xs] \<and> length xs \<le> cf_shard_count c \<and>
         (\<forall>x\<in>set xs. \<not> st_accepting (ex_set (xc_exec x)))
     | Inr se \<Rightarrow> 0 < cf_shard_count c \<and> length (se_shards se) = cf_shard_count c \<and> se_joins se = [0..<cf_shard_count c] \<and>
         se_ok (se_view se) (se_execs se) \<and>
         (\<forall>i<cf_shard_count c. st_spawner_count (ex_set (xc_exec (se_execs se ! i))) = 1 \<and>
            shard_started c (available_cpu_ids reported parallelism) i (se_shards se ! i)))"
proof -
  let ?thr = "thread_run alive script (Suc fuel) evs now" and ?n = "cf_shard_count c"
  let ?av = "available_cpu_ids reported parallelism"
  obtain r joins xs where st: "start_shards c ?av ids os ?thr [0..<?n] [] [] [] = Some (r, joins, xs)"
      "joins = [0..<length xs]" "length xs \<le> ?n"
      "case r of Inl e \<Rightarrow> \<forall>x\<in>set xs. \<not> st_accepting (ex_set (xc_exec x))
       | Inr ss \<Rightarrow> length ss = ?n \<and> (\<forall>i<?n. shard_started c ?av i (ss ! i)) \<and> xs = map (\<lambda>i. executor_and_spawner (ids i)) [0..<?n]"
    using start_shards_outcome [of "[]" 0 c ?av ?n ids os alive script fuel evs now] by auto
  show ?thesis
  proof (cases "config_validate c = Inr () \<and> validate_cpu_placement_against c ?av = Inr ()")
    case False
    then show ?thesis by (auto simp: start_with_config_def Let_def split: sum.splits)
  next
    case valid: True
    show ?thesis
    proof (cases r)
      case (Inl e)
      then show ?thesis using valid st by (simp add: start_with_config_def)
    next
      case (Inr ss)
      have ss: "length ss = ?n" "\<forall>i<?n. shard_started c ?av i (ss ! i)" "xs = map (\<lambda>i. executor_and_spawner (ids i)) [0..<?n]"
        using st(4) Inr by simp_all
      have n: "0 < ?n" using valid by (auto simp: config_validate_def split: if_splits)
      let ?se = "\<lparr>se_runtime_id = runtime_id, se_shards = ss, se_joins = joins, se_execs = xs\<rparr>"
      have "map fst (se_view ?se) = [0..<?n]"
        using ss(1,2) by (intro nth_equalityI) (auto simp: se_view_def shard_started_def)
      then have "se_ok (se_view ?se) xs" using ss by (auto simp: se_ok_def se_view_def xc_ok_def executor_and_spawner_def ex_inv_new)
      moreover have "st_spawner_count (ex_set (xc_exec (xs ! i))) = 1" if "i < ?n" for i
        using that ss(3) by (simp add: executor_and_spawner_def exec_new_def task_set_new_def)
      ultimately show ?thesis using valid st Inr n ss by (simp add: start_with_config_def)
    qed
  qed
qed

definition broken_os :: "nat \<Rightarrow> shard_os" where
  "broken_os i =
     \<lparr>os_thread = True, os_setaffinity = (\<lambda>_. if i = 0 then None else Some ''EPERM''), os_sysfs = (\<lambda>_. None),
      os_mempolicy = (\<lambda>_ _. None)\<rparr>"

theorem sharded_start_or_cleanup_witness:
  "\<exists>joined xs. start_with_config 1 None 2 (\<lambda>i. i) broken_os (thread_run (\<lambda>_. True) (\<lambda>_ _ _. ([], OutReady, 3)) 1 (\<lambda>_. []) 5)
      (for_required_pinned_available_cpus [0, 1]) =
      Some (Inl (CpuPlacementFailed ''failed to pin to CPU 1: EPERM'', joined, xs :: (nat, unit) executor list)) \<and>
    joined = [0, 1] \<and> (\<forall>x\<in>set xs. \<not> st_accepting (ex_set (xc_exec x)))"
proof -
  let ?r = "start_with_config 1 None 2 (\<lambda>i. i) broken_os (thread_run (\<lambda>_. True) (\<lambda>_ _ _. ([], OutReady, 3)) (Suc 0) (\<lambda>_. []) 5)
      (for_required_pinned_available_cpus [0, 1]) :: (shard_error \<times> nat list \<times> (nat, unit) executor list + (nat, unit) sharded_executor) option"
  have e: "map_option (map_sum (\<lambda>(e, j, xs). (e, j)) (\<lambda>_. ())) ?r = Some (Inl (CpuPlacementFailed ''failed to pin to CPU 1: EPERM'', [0, 1]))"
    by code_simp
  obtain e j xs where r: "?r = Some (Inl (e, j, xs))" "e = CpuPlacementFailed ''failed to pin to CPU 1: EPERM''" "j = [0, 1]"
    using e by (auto simp: map_option_case split: option.splits) (case_tac x2; auto)
  then show ?thesis
    using sharded_start_or_cleanup [of 1 None 2 "\<lambda>i. i" broken_os "\<lambda>_. True"
        "(\<lambda>_ _ _. ([], OutReady, 3)) :: nat \<Rightarrow> (string option \<times> nat, unit) script" 0 "\<lambda>_. []" 5 "for_required_pinned_available_cpus [0, 1]"] by auto
qed

end
