(* ===== verification/Sharded_System.thy ===== *)
theory Sharded_System
  imports Sharded_Lifecycle
begin

text \<open>
  The sharded runtime as a whole: the accounting of spawners over a runtime and its submitters, shutdown
  that drains every shard, the bounded shutdown, and groups created on all shards.
\<close>

lemma on_spawners_length [simp]: "length view \<le> length xs \<Longrightarrow> length (on_spawners f view xs) = length xs"
  by (induction f view xs rule: on_spawners.induct) auto

lemma on_spawners_nth:
  "length view \<le> length xs \<Longrightarrow> i < length xs \<Longrightarrow>
   on_spawners f view xs ! i =
     (if i < length view \<and> snd (view ! i) then (xs ! i)\<lparr>xc_exec := f (xc_exec (xs ! i))\<rparr> else xs ! i)"
proof (induction f view xs arbitrary: i rule: on_spawners.induct)
  case (3 f v vs x xs)
  then show ?case by (cases i) auto
qed auto

lemma spawner_counts [simp]:
  "st_spawner_count (ex_set (ex_add_spawner e)) = st_spawner_count (ex_set e) + 1"
  "st_spawner_count (ex_set (ex_remove_spawner e)) = st_spawner_count (ex_set e) - 1"
  by (simp_all add: ex_add_spawner_def add_spawner_def ex_remove_spawner_def remove_spawner_def Let_def wake_reactor_def)

lemma se_view_nth: "i < length (se_shards se) \<Longrightarrow> snd (se_view se ! i) = as_spawner (se_shards se ! i)"
  by (simp add: se_view_def)

lemma se_view_length [simp]: "length (se_view se) = length (se_shards se)"
  by (simp add: se_view_def)

subsection \<open>Spawner accounting\<close>

text \<open>Steps of a runtime with its submitters; a scheduler takes any step that is not one of a spawner.\<close>

inductive sh_step ::
  "(task_ref \<Rightarrow> bool) \<Rightarrow> ('f, 'h) sharded_executor \<times> sharded_submitter list \<Rightarrow> ('f, 'h) sharded_executor \<times> sharded_submitter list \<Rightarrow> bool"
  for alive where
  sh_submitter: "submitter se = (sb, se') \<Longrightarrow> sh_step alive (se, sbs) (se', sbs @ [sb])"
| sh_clone: "i < length sbs \<Longrightarrow> submitter_clone (sbs ! i) (se_execs se) = (sb, xs) \<Longrightarrow>
    sh_step alive (se, sbs) (se\<lparr>se_execs := xs\<rparr>, sbs @ [sb])"
| sh_drop: "i < length sbs \<Longrightarrow>
    sh_step alive (se, sbs) (se\<lparr>se_execs := submitter_drop (sbs ! i) (se_execs se)\<rparr>, remove_at i sbs)"
| sh_exec: "i < length (se_execs se) \<Longrightarrow> ex_step alive (xc_exec (se_execs se ! i)) e \<Longrightarrow>
    st_spawner_count (ex_set e) = st_spawner_count (ex_set (xc_exec (se_execs se ! i))) \<Longrightarrow>
    sh_step alive (se, sbs) (se\<lparr>se_execs := (se_execs se)[i := (se_execs se ! i)\<lparr>xc_exec := e\<rparr>]\<rparr>, sbs)"
| sh_release: "sh_step alive (se, sbs) (executor_release se, sbs)"

definition holders :: "sharded_submitter list \<Rightarrow> nat \<Rightarrow> nat" where
  "holders sbs i = length (filter (\<lambda>sb. snd (sb_shards sb ! i)) sbs)"

definition sh_inv :: "('f, 'h) sharded_executor \<times> sharded_submitter list \<Rightarrow> bool" where
  "sh_inv s \<longleftrightarrow>
     (let (se, sbs) = s; n = length (se_shards se)
      in length (se_execs se) = n \<and> (\<forall>sb\<in>set sbs. length (sb_shards sb) = n) \<and>
         (\<forall>i<n. xc_spawners (se_execs se ! i) = (if as_spawner (se_shards se ! i) then 1 else 0) + holders sbs i))"

lemma holders_append [simp]: "holders (sbs @ [sb]) i = holders sbs i + (if snd (sb_shards sb ! i) then 1 else 0)"
  by (simp add: holders_def)

lemma holders_remove:
  assumes "k < length sbs"
  shows "holders sbs i = holders (remove_at k sbs) i + (if snd (sb_shards (sbs ! k) ! i) then 1 else 0)"
proof -
  have "holders xs i = size (filter_mset (\<lambda>sb. snd (sb_shards sb ! i)) (mset xs))" for xs
    by (simp add: holders_def flip: mset_filter)
  then show ?thesis using mset_remove_at [OF assms, symmetric] by simp
qed

lemma remove_at_subset: "set (remove_at k xs) \<subseteq> set xs"
  by (auto simp: remove_at_def dest: in_set_takeD in_set_dropD)

lemma sh_inv_step: "sh_step alive s s' \<Longrightarrow> sh_inv s \<Longrightarrow> sh_inv s'"
proof (induction rule: sh_step.induct)
  case (sh_submitter se sb se' sbs)
  then show ?case by (auto simp: sh_inv_def Let_def submitter_def on_spawners_nth se_view_nth)
next
  case (sh_clone i sbs se sb xs)
  have "length (sb_shards (sbs ! i)) = length (se_shards se)" using sh_clone by (auto simp: sh_inv_def Let_def)
  then show ?case using sh_clone by (auto simp: sh_inv_def Let_def submitter_clone_def on_spawners_nth)
next
  case (sh_drop i sbs se)
  have "length (sb_shards (sbs ! i)) = length (se_shards se)" using sh_drop by (auto simp: sh_inv_def Let_def)
  then show ?case
    using sh_drop remove_at_subset [of i sbs] holders_remove [OF sh_drop.hyps] by (auto simp: sh_inv_def Let_def submitter_drop_def on_spawners_nth)
next
  case (sh_exec i se e sbs)
  then show ?case by (auto simp: sh_inv_def Let_def nth_list_update)
next
  case (sh_release se sbs)
  then show ?case by (auto simp: sh_inv_def Let_def executor_release_def take_spawners_def on_spawners_nth se_view_nth)
qed

lemma sh_inv_reachable: "(sh_step alive)\<^sup>*\<^sup>* s s' \<Longrightarrow> sh_inv s \<Longrightarrow> sh_inv s'"
  by (induction rule: rtranclp_induct) (auto intro: sh_inv_step)



subsection \<open>Shutdown\<close>

lemma ex_close_completed:
  assumes "\<forall>n<length (ex_tasks e). ts_completed (tk_state (ex_task e n))"
  shows "\<forall>n<length (ex_tasks (ex_close alive e)). ts_completed (tk_state (ex_task (ex_close alive e) n))"
  using assms
  by (auto simp: ex_close_def Let_def case_prod_unfold wake_reactor_def ex_task_def nth_enumerate_eq drop_future_def)

lemma release_fields:
  assumes "length (se_execs se) = length (se_shards se)" "i < length (se_shards se)" "as_spawner (se_shards se ! i)"
  shows "xc_exec (se_execs (executor_release se) ! i) = ex_remove_spawner (xc_exec (se_execs se ! i))"
    "length (se_execs (executor_release se)) = length (se_shards se)" "se_joins (executor_release se) = se_joins se"
    "length (se_shards (executor_release se)) = length (se_shards se)" "\<not> as_spawner (se_shards (executor_release se) ! i)"
  using assms by (simp_all add: executor_release_def on_spawners_nth se_view_nth take_spawners_def)

text \<open>A shard whose scheduler has only finite work: it was released, its tasks have completed or are
  queued, no timer is pending, no future waits, and the fuel covers the ready queue.\<close>

definition shard_drains :: "('f, 'h) script \<Rightarrow> nat \<Rightarrow> ('f, 'h) exec \<Rightarrow> bool" where
  "shard_drains script fuel e \<longleftrightarrow>
     ex_calm None e \<and> ex_pure_work e \<and> never_waits script \<and> ready_queue_len (ex_set e) < 64 * fuel"

lemma thread_run_drains:
  assumes "shard_drains (script i) fuel (xc_exec x)"
  shows "\<exists>y. thread_run alive script fuel evs now i x = Some (True, y) \<and> \<not> st_accepting (ex_set (xc_exec y)) \<and>
    (\<forall>n<length (xc_tasks y). ts_completed (tk_state (ex_task (xc_exec y) n)))"
proof -
  have d: "ex_calm None (xc_exec x)" "ex_pure_work (xc_exec x)" "never_waits (script i)"
      "ready_queue_len (ex_set (xc_exec x)) < ready_poll_budget * fuel"
    using assms by (simp_all add: shard_drains_def ready_poll_budget_def)
  obtain e' where "executor_run alive (script i) fuel (evs i) now (xc_exec x) = Some e'"
      "\<forall>n<length (ex_tasks e'). ts_completed (tk_state (ex_task e' n))"
    using run_progress [OF d, of alive "evs i" now] by blast
  then show ?thesis using ex_close_completed [of e' alive] by (simp add: thread_run_def)
qed


definition two_busy_shards :: "(nat, unit) sharded_executor" where
  "two_busy_shards = snd (spawn_on_all (\<lambda>_. True) 5 (\<lambda>i. i) two_shards)"

definition busy_exec :: "nat \<Rightarrow> (string option \<times> nat, unit) exec" where
  "busy_exec i = snd (ex_spawn (\<lambda>_. True) 5 0 (None, i) None exec_new)"


subsection \<open>Bounded shutdown\<close>

text \<open>A clock on which a sleep takes at least the time it was asked for.\<close>

definition sleeping_clock :: "(nat \<Rightarrow> instant) \<Rightarrow> instant \<Rightarrow> bool" where
  "sleeping_clock clock deadline \<longleftrightarrow>
     (\<forall>k. clock k + min shutdown_timeout_poll_interval (deadline - clock k) \<le> clock (Suc k))"

lemma sleeping_clock_bound:
  assumes "sleeping_clock clock (start + timeout)" "start \<le> clock 0"
  shows "min (start + k * shutdown_timeout_poll_interval) (start + timeout) \<le> clock k"
proof (induction k)
  case (Suc k)
  have "clock k + min shutdown_timeout_poll_interval (start + timeout - clock k) \<le> clock (Suc k)"
    using assms(1) by (simp add: sleeping_clock_def)
  then show ?case using Suc by (auto simp: min_def split: if_splits)
qed (use assms(2) in simp)

lemma wait_finished_returns:
  assumes "sleeping_clock clock (start + timeout)" "start \<le> clock 0" "timeout < (k + fuel) * shutdown_timeout_poll_interval"
  shows "\<exists>j\<ge>k. wait_finished fin clock (start + timeout) joins (Suc fuel) k = Some j \<and>
    (list_all (fin j) joins \<or> start + timeout \<le> clock j)"
  using assms(3)
proof (induction fuel arbitrary: k)
  case 0
  then have "start + timeout \<le> clock k" using sleeping_clock_bound [OF assms(1,2), of k] by (simp add: min_def split: if_splits)
  then show ?case by auto
next
  case (Suc fuel)
  then have "timeout < (Suc k + fuel) * shutdown_timeout_poll_interval" by simp
  from Suc.IH [OF this] obtain j where j: "j \<ge> Suc k" "wait_finished fin clock (start + timeout) joins (Suc fuel) (Suc k) = Some j"
      "list_all (fin j) joins \<or> start + timeout \<le> clock j"
    by blast
  show ?case
  proof (cases "list_all (fin k) joins \<or> start + timeout - clock k = 0")
    case True
    then show ?thesis by (auto intro!: exI [of _ k])
  next
    case False
    then have "wait_finished fin clock (start + timeout) joins (Suc (Suc fuel)) k = Some j" using j(2) by simp
    then show ?thesis using j by (meson Suc_leD)
  qed
qed

lemma force_shards_spec:
  assumes "force_shards fin live (zip ss is) xs = (forced, ys)" "distinct is" "\<forall>i\<in>set is. i < length xs" "length ss = length is"
    and "map as_shard_id ss = is"
  shows "forced = filter (\<lambda>i. \<not> fin i \<and> live i) is" "length ys = length xs"
    "\<forall>i<length xs. xc_exec (ys ! i) = (if i \<in> set is \<and> \<not> fin i \<and> live i then request_stop (xc_exec (xs ! i)) else xc_exec (xs ! i))"
proof -
  have "forced = filter (\<lambda>i. \<not> fin i \<and> live i) is \<and> length ys = length xs \<and>
    (\<forall>i<length xs. xc_exec (ys ! i) = (if i \<in> set is \<and> \<not> fin i \<and> live i then request_stop (xc_exec (xs ! i)) else xc_exec (xs ! i)))"
    using assms
  proof (induction "is" arbitrary: ss xs forced)
    case (Cons i "is")
    obtain s ss' where ss: "ss = s # ss'" using Cons.prems(4) by (cases ss) auto
    show ?case
    proof (cases "\<not> fin i \<and> live i")
      case True
      let ?xs = "xs[i := (xs ! i)\<lparr>xc_exec := request_stop (xc_exec (xs ! i))\<rparr>]"
      obtain fs where f: "force_shards fin live (zip ss' is) ?xs = (fs, ys)" "forced = as_shard_id s # fs"
        using Cons.prems(1) True ss by (auto simp: Let_def split: prod.splits)
      show ?thesis
        using Cons.IH [OF f(1)] Cons.prems(2-5) ss f(2) True by (auto simp: nth_list_update)
    next
      case False
      then have "force_shards fin live (zip ss' is) xs = (forced, ys)" using Cons.prems(1) ss by (simp split: if_splits)
      from Cons.IH [OF this] show ?thesis using Cons.prems(2-5) ss False by auto
    qed
  qed simp
  then show "forced = filter (\<lambda>i. \<not> fin i \<and> live i) is" "length ys = length xs"
    "\<forall>i<length xs. xc_exec (ys ! i) = (if i \<in> set is \<and> \<not> fin i \<and> live i then request_stop (xc_exec (xs ! i)) else xc_exec (xs ! i))"
    by auto
qed



text \<open>The bound is one on the wait only: when a thread cannot be joined, because a task on it never
  returns from its poll, the shutdown does not return, whatever the timeout.\<close>

lemma shutdown_timeout_blocks:
  assumes "length (se_execs se) = n" "se_joins se = [0..<n]" "i < n" "\<forall>x. thr i x = None"
  shows "shutdown_timeout fin clock live thr start timeout fuel se = None"
proof -
  have "join_threads thr is xs = None" if "i \<in> set is" for "is" and xs :: "('a, 'b) executor list"
    using that assms(4) by (induction "is" arbitrary: xs) (auto split: option.splits)
  then show ?thesis using assms(2,3)
    by (auto simp: shutdown_timeout_def Let_def executor_release_def split: option.splits prod.splits)
qed

subsection \<open>Groups on all shards\<close>

text \<open>A loop over the shards in which every shard succeeds.\<close>

lemma on_all_success:
  assumes "distinct (map fst vs)" "\<forall>v\<in>set vs. fst v < length xs"
    and "\<And>v ys. v \<in> set vs \<Longrightarrow> length ys = length xs \<Longrightarrow> ys ! fst v = xs ! fst v \<Longrightarrow>
      f v ys = (Inr (a v (xs ! fst v)), ys[fst v := u v (xs ! fst v)])"
  shows "\<exists>ys. on_all f vs xs = (Inr (map (\<lambda>v. a v (xs ! fst v)) vs), ys) \<and> length ys = length xs \<and>
    (\<forall>v\<in>set vs. ys ! fst v = u v (xs ! fst v)) \<and> (\<forall>j. j \<notin> fst ` set vs \<longrightarrow> ys ! j = xs ! j)"
  using assms
proof (induction vs arbitrary: xs)
  case (Cons v vs)
  let ?xs = "xs[fst v := u v (xs ! fst v)]"
  have f: "f v xs = (Inr (a v (xs ! fst v)), ?xs)" using Cons.prems(3) by simp
  have d: "fst w \<noteq> fst v" if "w \<in> set vs" for w using Cons.prems(1) that by (auto simp: image_iff)
  have step: "f w ys = (Inr (a w (?xs ! fst w)), ys[fst w := u w (?xs ! fst w)])"
    if "w \<in> set vs" "length ys = length ?xs" "ys ! fst w = ?xs ! fst w" for w ys
    using that d [OF that(1)] Cons.prems(3) [of w ys] by simp
  obtain ys where ys: "on_all f vs ?xs = (Inr (map (\<lambda>v. a v (?xs ! fst v)) vs), ys)" "length ys = length xs"
      "\<forall>w\<in>set vs. ys ! fst w = u w (?xs ! fst w)" "\<forall>j. j \<notin> fst ` set vs \<longrightarrow> ys ! j = ?xs ! j"
    using Cons.IH [of ?xs] Cons.prems(1,2) step by auto
  have m: "map (\<lambda>v. a v (?xs ! fst v)) vs = map (\<lambda>v. a v (xs ! fst v)) vs"
    by (rule map_cong [OF refl]) (use d in \<open>metis nth_list_update_neq\<close>)
  have nv: "fst v \<notin> fst ` set vs" using Cons.prems(1) by (auto simp: image_iff)
  have "ys ! fst v = u v (xs ! fst v)" using ys(4) nv Cons.prems(2) by simp
  moreover have "\<forall>w\<in>set vs. ys ! fst w = u w (xs ! fst w)" using ys(3) d by (metis nth_list_update_neq)
  moreover have "\<forall>j. j \<notin> fst ` set (v # vs) \<longrightarrow> ys ! j = xs ! j" using ys(4) by simp
  ultimately show ?case using ys(1,2) f m by (intro exI [of _ ys]) simp
qed auto

lemma spawner_create_group_ok:
  fixes name :: string
  assumes "ex_inv (xc_exec x)" "0 < shares"
  defines "y \<equiv> snd (spawner_create_group name shares x)" and "gid \<equiv> length (st_groups (ex_set (xc_exec x)))"
  shows "spawner_create_group name shares x = (Inr (scheduling_group_new (xc_id x) gid name shares), y)"
    "ex_inv (xc_exec y)" "xc_id y = xc_id x" "gid < length (st_groups (ex_set (xc_exec y)))" "xc_tasks y = xc_tasks x"
  using assms(2) ex_inv_group [OF assms(1,2), of name]
  by (simp_all add: y_def gid_def spawner_create_group_def create_scheduling_group_def Let_def)

text \<open>A runtime that is open: its shards are numbered in order and hold their spawners, and its schedulers accept tasks.\<close>

definition se_open :: "('f, 'h) sharded_executor \<Rightarrow> bool" where
  "se_open se \<longleftrightarrow>
     map as_shard_id (se_shards se) = [0..<length (se_execs se)] \<and> list_all as_spawner (se_shards se) \<and>
     (\<forall>x\<in>set (se_execs se). ex_inv (xc_exec x))"

lemma se_open_view:
  assumes "se_open se"
  shows "se_view se = map (\<lambda>i. (i, True)) [0..<length (se_execs se)]"
proof -
  have "se_view se = map (\<lambda>s. (as_shard_id s, True)) (se_shards se)"
    using assms by (auto simp: se_view_def se_open_def list_all_iff)
  also have "\<dots> = map (\<lambda>i. (i, True)) (map as_shard_id (se_shards se))" by (simp add: comp_def)
  also have "map as_shard_id (se_shards se) = [0..<length (se_execs se)]" using assms by (simp add: se_open_def)
  finally show ?thesis .
qed

abbreviation member_group :: "string \<Rightarrow> nat \<Rightarrow> ('f, 'h) executor \<Rightarrow> scheduling_group" where
  "member_group name shares x \<equiv> scheduling_group_new (xc_id x) (length (st_groups (ex_set (xc_exec x)))) name shares"

lemma group_created:
  assumes "se_open se" "0 < shares"
  shows "\<exists>ys. create_scheduling_group_on_all name shares se =
      (Inr \<lparr>shg_runtime_id = se_runtime_id se, shg_name = name, shg_shares = shares,
         shg_groups = map (\<lambda>i. (i, member_group name shares (se_execs se ! i))) [0..<length (se_execs se)]\<rparr>, se\<lparr>se_execs := ys\<rparr>) \<and>
    length ys = length (se_execs se) \<and>
    (\<forall>i<length (se_execs se). ys ! i = snd (spawner_create_group name shares (se_execs se ! i)))"
proof -
  let ?xs = "se_execs se" and ?n = "length (se_execs se)"
  let ?F = "\<lambda>(shard_id, spawner) xs. if \<not> spawner then (Inl (GroupStopped shard_id), xs)
            else let (r, x) = spawner_create_group name shares (xs ! shard_id)
                 in (map_sum GroupInvalid (Pair shard_id) r, xs[shard_id := x])"
  have "\<exists>ys. on_all ?F (se_view se) ?xs = (Inr (map (\<lambda>v. (fst v, member_group name shares (?xs ! fst v))) (se_view se)), ys) \<and>
      length ys = ?n \<and> (\<forall>v\<in>set (se_view se). ys ! fst v = snd (spawner_create_group name shares (?xs ! fst v))) \<and>
      (\<forall>j. j \<notin> fst ` set (se_view se) \<longrightarrow> ys ! j = ?xs ! j)"
  proof (rule on_all_success)
    fix v and ys :: "('a, 'b) executor list" assume *: "v \<in> set (se_view se)" "ys ! fst v = ?xs ! fst v"
    obtain i where i: "i < ?n" "v = (i, True)" using *(1) by (auto simp: se_open_view [OF assms(1)])
    have "ex_inv (xc_exec (?xs ! i))" using assms(1) i(1) by (simp add: se_open_def)
    then show "?F v ys = (Inr (fst v, member_group name shares (?xs ! fst v)), ys[fst v := snd (spawner_create_group name shares (?xs ! fst v))])"
      using * i arg_cong [OF spawner_create_group_ok(1) [OF _ assms(2), of "?xs ! i" name], of fst] by (simp add: Let_def case_prod_unfold)
  qed (auto simp: se_open_view [OF assms(1)] comp_def)
  then show ?thesis using assms by (auto simp: create_scheduling_group_on_all_def on_shards_def se_open_view comp_def)
qed

lemma spawn_in_member_group:
  fixes name :: string
  assumes "ex_inv (xc_exec x)" "0 < shares"
  defines "y \<equiv> snd (spawner_create_group name shares x)"
  shows "fst (spawner_spawn_with_handle_named_in_group alive now (member_group name shares x) nm f h y) = Inr (length (xc_tasks y))"
proof -
  note cg = spawner_create_group_ok [OF assms(1,2), of name, folded y_def]
  obtain r e' where e: "ex_spawn alive now (length (st_groups (ex_set (xc_exec x)))) (Some nm, f) (Some h) (xc_exec y) = (r, e')"
    by fastforce
  have "r = Inr (length (xc_tasks y))" by (rule ex_spawn_ok(1) [OF cg(2,4) e])
  then show ?thesis
    using e cg(3)
    by (simp add: spawn_handle_defs spawn_inner_def ensure_group_belongs_to_executor_def belongs_to_def scheduling_group_new_def)
qed

text \<open>A scheduling group created on all shards can be used on all of them.  On an open runtime
  creating a group with a positive number of shares succeeds, and spawning in that group on all shards
  of the same runtime then succeeds, with one handle per shard: the member of each shard belongs to
  that shard's scheduler and names a group that exists there.\<close>

theorem sharded_group_usable:
  assumes "se_open se" "0 < shares"
  shows "\<exists>g se' hs. create_scheduling_group_on_all name shares se = (Inr g, se') \<and>
    fst (spawn_with_handle_named_in_group_on_all alive now g make_name make_future h se') = Inr hs \<and>
    map jh_shard hs = [0..<length (se_execs se)]"
proof -
  let ?xs = "se_execs se" and ?n = "length (se_execs se)"
  let ?groups = "map (\<lambda>i. (i, member_group name shares (?xs ! i))) [0..<?n]"
  define g where "g = \<lparr>shg_runtime_id = se_runtime_id se, shg_name = name, shg_shares = shares, shg_groups = ?groups\<rparr>"
  obtain ys where ys: "create_scheduling_group_on_all name shares se = (Inr g, se\<lparr>se_execs := ys\<rparr>)" "length ys = ?n"
      "\<forall>i<?n. ys ! i = snd (spawner_create_group name shares (?xs ! i))"
    using group_created [OF assms, of name] unfolding g_def by blast
  let ?sp = "\<lambda>i. spawner_spawn_with_handle_named_in_group alive now (member_group name shares (?xs ! i)) (make_name i) (make_future i) (h i)"
  let ?G = "\<lambda>(shard_id, spawner) xs.
       if \<not> spawner then (Inl (SpawnStopped shard_id), xs)
       else case group_for g (se_runtime_id se) shard_id of
              Inl e \<Rightarrow> (Inl e, xs)
            | Inr gr \<Rightarrow> spawn_handle (spawner_spawn_with_handle_named_in_group alive now gr (make_name shard_id) (make_future shard_id) (h shard_id)) shard_id xs"
  let ?hs = "map (\<lambda>v. \<lparr>jh_shard = fst v, jh_task = length (xc_tasks (ys ! fst v))\<rparr>) (se_view se)"
  have "\<exists>zs. on_all ?G (se_view se) ys = (Inr ?hs, zs) \<and>
      length zs = length ys \<and> (\<forall>v\<in>set (se_view se). zs ! fst v = snd (?sp (fst v) (ys ! fst v))) \<and>
      (\<forall>j. j \<notin> fst ` set (se_view se) \<longrightarrow> zs ! j = ys ! j)"
  proof (rule on_all_success)
    fix v and zs :: "('a, 'b) executor list" assume *: "v \<in> set (se_view se)" "zs ! fst v = ys ! fst v"
    obtain i where i: "i < ?n" "v = (i, True)" using *(1) by (auto simp: se_open_view [OF assms(1)])
    have inv: "ex_inv (xc_exec (?xs ! i))" using assms(1) i(1) by (simp add: se_open_def)
    have "group_for g (se_runtime_id se) i = Inr (member_group name shares (?xs ! i))" using i(1) by (simp add: group_for_def g_def)
    moreover have "fst (?sp i (ys ! i)) = Inr (length (xc_tasks (ys ! i)))"
      using spawn_in_member_group [OF inv assms(2)] ys(3) i(1) by simp
    ultimately show "?G v zs = (Inr \<lparr>jh_shard = fst v, jh_task = length (xc_tasks (ys ! fst v))\<rparr>, zs[fst v := snd (?sp (fst v) (ys ! fst v))])"
      using * i by (simp add: spawn_handle_def on_executor_def case_prod_unfold Let_def)
  qed (use ys(2) in \<open>auto simp: se_open_view [OF assms(1)] comp_def\<close>)
  then obtain zs where z: "on_all ?G (se_view se) ys = (Inr ?hs, zs)" by blast
  have "se_view (se\<lparr>se_execs := ys\<rparr>) = se_view se" by (simp add: se_view_def)
  then have "fst (spawn_with_handle_named_in_group_on_all alive now g make_name make_future h (se\<lparr>se_execs := ys\<rparr>)) = Inr ?hs"
    by (simp add: spawn_with_handle_named_in_group_on_all_def on_shards_def spawn_with_handle_named_in_group_on_all_shards_def
        z with_handles_def)
  then show ?thesis using ys(1) by (auto simp: se_open_view [OF assms(1)] comp_def)
qed

theorem sharded_group_usable_witness:
  "\<exists>g se' hs. create_scheduling_group_on_all ''batch'' 5 two_shards = (Inr g, se') \<and>
    fst (spawn_with_handle_named_in_group_on_all (\<lambda>_. True) 5 g (\<lambda>_. ''t'') (\<lambda>i. i) (\<lambda>_. ()) se') = Inr hs \<and> map jh_shard hs = [0, 1]"
proof -
  have o: "se_open two_shards" by (simp add: se_open_def two_shards_def ex_inv_new upt_rec)
  have "[0..<length (se_execs two_shards)] = [0, 1]" by (simp add: two_shards_def upt_rec)
  then show ?thesis using sharded_group_usable [OF o, of 5 "''batch''" "\<lambda>_. True" 5 "\<lambda>_. ''t''" "\<lambda>i. i" "\<lambda>_. ()"] by simp
qed

end
