(* ===== verification/Sharded_Join.thy ===== *)
theory Sharded_Join
  imports Sharded_System
begin

text \<open>
  Join handles of sharded tasks, \<open>sharded_executor/join.rs\<close>, and the map and reduce operations over all
  shards of \<open>sharded_executor.rs\<close>.  What awaiting a handle gives, and what the shards do meanwhile, is the
  parameter \<open>await\<close>; not returning is \<open>None\<close>.  Aborting and dropping a handle cancel its task.
\<close>

subsection \<open>Errors\<close>

record sharded_join_error =
  sje_shard_id :: nat
  sje_error :: join_error

datatype sharded_join_timeout_error = JoinTimeoutJoin sharded_join_error | JoinTimedOut nat

datatype sharded_operation_error = OperationSubmit sharded_spawn_error | OperationJoin sharded_join_error

fun sjt_shard_id :: "sharded_join_timeout_error \<Rightarrow> nat" where
  "sjt_shard_id (JoinTimeoutJoin e) = sje_shard_id e"
| "sjt_shard_id (JoinTimedOut shard_id) = shard_id"

fun is_timed_out :: "sharded_join_timeout_error \<Rightarrow> bool" where
  "is_timed_out (JoinTimedOut _) \<longleftrightarrow> True"
| "is_timed_out (JoinTimeoutJoin _) \<longleftrightarrow> False"

subsection \<open>Joining\<close>

type_synonym ('f, 'h, 'a) await = "join_handle \<Rightarrow> ('f, 'h) executor list \<Rightarrow> ((join_error + 'a) \<times> ('f, 'h) executor list) option"

type_synonym ('f, 'h, 'a) await_timeout =
  "join_handle \<Rightarrow> duration \<Rightarrow> instant \<Rightarrow> ('f, 'h) executor list \<Rightarrow> (join_error + 'a) option \<times> instant \<times> ('f, 'h) executor list"

definition sharded_abort :: "join_handle \<Rightarrow> ('f, 'h) executor list \<Rightarrow> bool \<times> ('f, 'h) executor list" where
  "sharded_abort jh xs = (fst (ex_cancel (jh_task jh) (xc_exec (xs ! jh_shard jh))), drop_handle jh xs)"

definition sharded_join ::
  "('f, 'h, 'a) await \<Rightarrow> join_handle \<Rightarrow> ('f, 'h) executor list \<Rightarrow> ((sharded_join_error + nat \<times> 'a) \<times> ('f, 'h) executor list) option" where
  "sharded_join await jh xs =
     (case await jh xs of
        None \<Rightarrow> None
      | Some (r, xs) \<Rightarrow>
          Some (map_sum (\<lambda>e. \<lparr>sje_shard_id = jh_shard jh, sje_error = e\<rparr>) (Pair (jh_shard jh)) r, drop_handle jh xs))"

definition sharded_join_timeout ::
  "('f, 'h, 'a) await_timeout \<Rightarrow> join_handle \<Rightarrow> duration \<Rightarrow> instant \<Rightarrow> ('f, 'h) executor list \<Rightarrow>
   (sharded_join_timeout_error + nat \<times> 'a) \<times> instant \<times> ('f, 'h) executor list" where
  "sharded_join_timeout await jh d now xs =
     (case await jh d now xs of
        (Some (Inr out), now, xs) \<Rightarrow> (Inr (jh_shard jh, out), now, drop_handle jh xs)
      | (Some (Inl e), now, xs) \<Rightarrow> (Inl (JoinTimeoutJoin \<lparr>sje_shard_id = jh_shard jh, sje_error = e\<rparr>), now, drop_handle jh xs)
      | (None, now, xs) \<Rightarrow> (Inl (JoinTimedOut (jh_shard jh)), now, drop_handle jh (snd (sharded_abort jh xs))))"

text \<open>Leaving the loop on an error drops the handles that were not joined.\<close>

fun join_all_shards ::
  "('f, 'h, 'a) await \<Rightarrow> join_handle list \<Rightarrow> ('f, 'h) executor list \<Rightarrow>
   ((sharded_join_error + (nat \<times> 'a) list) \<times> ('f, 'h) executor list) option" where
  "join_all_shards await [] xs = Some (Inr [], xs)"
| "join_all_shards await (jh # hs) xs =
     (case sharded_join await jh xs of
        None \<Rightarrow> None
      | Some (Inl e, xs) \<Rightarrow> Some (Inl e, fold drop_handle hs xs)
      | Some (Inr out, xs) \<Rightarrow> map_option (map_prod (map_sum id ((#) out)) id) (join_all_shards await hs xs))"

definition abort_all :: "join_handle list \<Rightarrow> ('f, 'h) executor list \<Rightarrow> ('f, 'h) executor list" where
  "abort_all hs xs = fold (\<lambda>jh xs. drop_handle jh (snd (sharded_abort jh xs))) hs xs"

fun join_until ::
  "('f, 'h, 'a) await_timeout \<Rightarrow> instant \<Rightarrow> join_handle list \<Rightarrow> instant \<Rightarrow> ('f, 'h) executor list \<Rightarrow>
   (sharded_join_timeout_error + (nat \<times> 'a) list) \<times> instant \<times> ('f, 'h) executor list" where
  "join_until await deadline [] now xs = (Inr [], now, xs)"
| "join_until await deadline (jh # hs) now xs =
     (let remaining = deadline - now
      in if remaining = 0
         then (Inl (JoinTimedOut (jh_shard jh)), now, drop_handle jh (abort_all hs (snd (sharded_abort jh xs))))
         else case sharded_join_timeout await jh remaining now xs of
                (Inr out, now, xs) \<Rightarrow>
                  (let (r, now, xs) = join_until await deadline hs now xs in (map_sum id ((#) out) r, now, xs))
              | (Inl e, now, xs) \<Rightarrow> (Inl e, now, abort_all hs xs))"

definition join_all_shards_timeout ::
  "('f, 'h, 'a) await_timeout \<Rightarrow> join_handle list \<Rightarrow> duration \<Rightarrow> instant \<Rightarrow> ('f, 'h) executor list \<Rightarrow>
   (sharded_join_timeout_error + (nat \<times> 'a) list) \<times> instant \<times> ('f, 'h) executor list" where
  "join_all_shards_timeout await hs duration now xs = join_until await (now + duration) hs now xs"

subsection \<open>Map and reduce over all shards\<close>

definition join_mapped ::
  "('f, 'h, 'a) await \<Rightarrow> (sharded_spawn_error + join_handle list) \<times> ('f, 'h) executor list \<Rightarrow>
   ((sharded_operation_error + (nat \<times> 'a) list) \<times> ('f, 'h) executor list) option" where
  "join_mapped await r =
     (case r of
        (Inl e, xs) \<Rightarrow> Some (Inl (OperationSubmit e), xs)
      | (Inr hs, xs) \<Rightarrow> map_option (map_prod (map_sum OperationJoin id) id) (join_all_shards await hs xs))"

definition reduce_outputs :: "('acc \<Rightarrow> nat \<Rightarrow> 'a \<Rightarrow> 'acc) \<Rightarrow> 'acc \<Rightarrow> (nat \<times> 'a) list \<Rightarrow> 'acc" where
  "reduce_outputs reduce initial outs = fold (\<lambda>(shard_id, out) acc. reduce acc shard_id out) outs initial"

definition map_all ::
  "(task_ref \<Rightarrow> bool) \<Rightarrow> instant \<Rightarrow> ('f, 'h, 'a) await \<Rightarrow> (nat \<Rightarrow> 'f) \<Rightarrow> (nat \<Rightarrow> 'h) \<Rightarrow> ('f, 'h) sharded_executor \<Rightarrow> ((sharded_operation_error + (nat \<times> 'a) list) \<times> ('f, 'h) sharded_executor) option" where
  "map_all alive now await make_future h se =
     (let (r, se) = spawn_with_handle_on_all alive now make_future h se
      in map_option (map_prod id (\<lambda>xs. se\<lparr>se_execs := xs\<rparr>)) (join_mapped await (r, se_execs se)))"

definition map_named_all ::
  "(task_ref \<Rightarrow> bool) \<Rightarrow> instant \<Rightarrow> ('f, 'h, 'a) await \<Rightarrow> (nat \<Rightarrow> string) \<Rightarrow> (nat \<Rightarrow> 'f) \<Rightarrow> (nat \<Rightarrow> 'h) \<Rightarrow> ('f, 'h) sharded_executor \<Rightarrow> ((sharded_operation_error + (nat \<times> 'a) list) \<times> ('f, 'h) sharded_executor) option" where
  "map_named_all alive now await make_name make_future h se =
     (let (r, se) = spawn_with_handle_named_on_all alive now make_name make_future h se
      in map_option (map_prod id (\<lambda>xs. se\<lparr>se_execs := xs\<rparr>)) (join_mapped await (r, se_execs se)))"

definition map_reduce_all ::
  "(task_ref \<Rightarrow> bool) \<Rightarrow> instant \<Rightarrow> ('f, 'h, 'a) await \<Rightarrow> (nat \<Rightarrow> 'f) \<Rightarrow> (nat \<Rightarrow> 'h) \<Rightarrow> 'acc \<Rightarrow> ('acc \<Rightarrow> nat \<Rightarrow> 'a \<Rightarrow> 'acc) \<Rightarrow> ('f, 'h) sharded_executor \<Rightarrow> ((sharded_operation_error + 'acc) \<times> ('f, 'h) sharded_executor) option" where
  "map_reduce_all alive now await make_future h initial reduce se =
     map_option (map_prod (map_sum id (reduce_outputs reduce initial)) id) (map_all alive now await make_future h se)"

definition map_reduce_named_all ::
  "(task_ref \<Rightarrow> bool) \<Rightarrow> instant \<Rightarrow> ('f, 'h, 'a) await \<Rightarrow> (nat \<Rightarrow> string) \<Rightarrow> (nat \<Rightarrow> 'f) \<Rightarrow> (nat \<Rightarrow> 'h) \<Rightarrow> 'acc \<Rightarrow> ('acc \<Rightarrow> nat \<Rightarrow> 'a \<Rightarrow> 'acc) \<Rightarrow> ('f, 'h) sharded_executor \<Rightarrow> ((sharded_operation_error + 'acc) \<times> ('f, 'h) sharded_executor) option" where
  "map_reduce_named_all alive now await make_name make_future h initial reduce se =
     map_option (map_prod (map_sum id (reduce_outputs reduce initial)) id) (map_named_all alive now await make_name make_future h se)"

definition submitter_map_all ::
  "(task_ref \<Rightarrow> bool) \<Rightarrow> instant \<Rightarrow> ('f, 'h, 'a) await \<Rightarrow> (nat \<Rightarrow> 'f) \<Rightarrow> (nat \<Rightarrow> 'h) \<Rightarrow> sharded_submitter \<Rightarrow> ('f, 'h) executor list \<Rightarrow> ((sharded_operation_error + (nat \<times> 'a) list) \<times> ('f, 'h) executor list) option" where
  "submitter_map_all alive now await make_future h sb xs =
     join_mapped await (submit_with_handle_to_all alive now make_future h sb xs)"

definition submitter_map_named_all ::
  "(task_ref \<Rightarrow> bool) \<Rightarrow> instant \<Rightarrow> ('f, 'h, 'a) await \<Rightarrow> (nat \<Rightarrow> string) \<Rightarrow> (nat \<Rightarrow> 'f) \<Rightarrow> (nat \<Rightarrow> 'h) \<Rightarrow> sharded_submitter \<Rightarrow> ('f, 'h) executor list \<Rightarrow> ((sharded_operation_error + (nat \<times> 'a) list) \<times> ('f, 'h) executor list) option" where
  "submitter_map_named_all alive now await make_name make_future h sb xs =
     join_mapped await (submit_with_handle_named_to_all alive now make_name make_future h sb xs)"

definition submitter_map_reduce_all ::
  "(task_ref \<Rightarrow> bool) \<Rightarrow> instant \<Rightarrow> ('f, 'h, 'a) await \<Rightarrow> (nat \<Rightarrow> 'f) \<Rightarrow> (nat \<Rightarrow> 'h) \<Rightarrow> 'acc \<Rightarrow> ('acc \<Rightarrow> nat \<Rightarrow> 'a \<Rightarrow> 'acc) \<Rightarrow> sharded_submitter \<Rightarrow> ('f, 'h) executor list \<Rightarrow> ((sharded_operation_error + 'acc) \<times> ('f, 'h) executor list) option" where
  "submitter_map_reduce_all alive now await make_future h initial reduce sb xs =
     map_option (map_prod (map_sum id (reduce_outputs reduce initial)) id) (submitter_map_all alive now await make_future h sb xs)"

definition submitter_map_reduce_named_all ::
  "(task_ref \<Rightarrow> bool) \<Rightarrow> instant \<Rightarrow> ('f, 'h, 'a) await \<Rightarrow> (nat \<Rightarrow> string) \<Rightarrow> (nat \<Rightarrow> 'f) \<Rightarrow> (nat \<Rightarrow> 'h) \<Rightarrow> 'acc \<Rightarrow> ('acc \<Rightarrow> nat \<Rightarrow> 'a \<Rightarrow> 'acc) \<Rightarrow> sharded_submitter \<Rightarrow> ('f, 'h) executor list \<Rightarrow> ((sharded_operation_error + 'acc) \<times> ('f, 'h) executor list) option" where
  "submitter_map_reduce_named_all alive now await make_name make_future h initial reduce sb xs =
     map_option (map_prod (map_sum id (reduce_outputs reduce initial)) id) (submitter_map_named_all alive now await make_name make_future h sb xs)"

subsection \<open>Laws of joining\<close>

text \<open>A task that will not run any more, or is stopped when its current poll ends.\<close>

definition handle_stopped :: "('f, 'h) executor list \<Rightarrow> join_handle \<Rightarrow> bool" where
  "handle_stopped xs jh \<longleftrightarrow>
     (let s = tk_state (ex_task (xc_exec (xs ! jh_shard jh)) (jh_task jh))
      in ts_cancel_requested s \<or> ts_future s = None \<and> \<not> ts_polling s)"

definition handle_valid :: "('f, 'h) executor list \<Rightarrow> join_handle \<Rightarrow> bool" where
  "handle_valid xs jh \<longleftrightarrow> jh_shard jh < length xs \<and> jh_task jh < length (xc_tasks (xs ! jh_shard jh))"

lemma ex_cancel_task:
  assumes "n < length (ex_tasks e)"
  shows "ex_task (snd (ex_cancel n e)) m = (if m = n then snd (task_cancel (ex_task e n)) else ex_task e m)"
    "length (ex_tasks (snd (ex_cancel n e))) = length (ex_tasks e)"
  using assms
  by (auto simp: ex_cancel_def Let_def case_prod_unfold wake_reactor_def ex_finish_if_def ex_finish_task_def ex_set_task_def
      ex_task_def nth_list_update task_cancel_def split: option.splits)

lemma drop_valid: "handle_valid xs jh \<Longrightarrow> handle_valid xs k \<Longrightarrow> handle_valid (drop_handle k xs) jh"
  by (cases "jh_shard jh = jh_shard k") (auto simp: handle_valid_def drop_handle_def ex_cancel_task)

lemma drop_stops:
  assumes "handle_valid xs k" "handle_valid xs jh" "handle_stopped xs jh \<or> jh = k"
  shows "handle_stopped (drop_handle k xs) jh"
proof (cases "jh_shard jh = jh_shard k")
  case True
  then show ?thesis
    using assms
    by (auto simp: handle_stopped_def handle_valid_def drop_handle_def ex_cancel_task task_cancel_def cancel_def Let_def
        split: if_splits)
next
  case False
  then show ?thesis using assms by (auto simp: handle_stopped_def drop_handle_def)
qed

lemma abort_all_stops:
  assumes "\<forall>jh\<in>set hs. handle_valid xs jh" "handle_valid xs k" "handle_stopped xs k \<or> k \<in> set hs"
  shows "handle_valid (abort_all hs xs) k \<and> handle_stopped (abort_all hs xs) k"
  using assms
proof (induction hs arbitrary: xs)
  case (Cons jh hs)
  let ?xs = "drop_handle jh (drop_handle jh xs)"
  have v: "handle_valid xs jh" using Cons.prems(1) by simp
  note v2 = drop_valid [OF _ v]
  have "\<forall>k\<in>set hs. handle_valid ?xs k" using Cons.prems(1) v by (auto intro!: drop_valid)
  moreover have "handle_valid ?xs k" using Cons.prems(2) v by (intro drop_valid)
  moreover have "handle_stopped ?xs k \<or> k \<in> set hs"
    using Cons.prems(2,3) v drop_stops [OF v, of k] drop_stops [OF v2 [OF v] v2 [OF Cons.prems(2)]] by auto
  ultimately show ?case using Cons.IH [of ?xs] by (simp add: abort_all_def sharded_abort_def)
qed (simp add: abort_all_def)

text \<open>Awaiting a handle with a timeout: shards and tasks do not disappear, and a timeout means that the time has passed.\<close>

definition await_lawful :: "('f, 'h, 'a) await_timeout \<Rightarrow> bool" where
  "await_lawful await \<longleftrightarrow>
     (\<forall>jh d now xs r now' xs'. await jh d now xs = (r, now', xs') \<longrightarrow>
        length xs' = length xs \<and> (\<forall>i<length xs. length (xc_tasks (xs ! i)) \<le> length (xc_tasks (xs' ! i))) \<and>
        (r = None \<longrightarrow> now + d \<le> now'))"

lemma join_timeout_cases:
  assumes "await_lawful await" "sharded_join_timeout await jh d now xs = (r, now', xs')" "handle_valid xs jh"
  shows "\<forall>k. handle_valid xs k \<longrightarrow> handle_valid xs' k"
    "case r of Inr (shard_id, out) \<Rightarrow> shard_id = jh_shard jh
     | Inl e \<Rightarrow> sjt_shard_id e = jh_shard jh \<and> (is_timed_out e \<longrightarrow> now + d \<le> now') \<and> handle_stopped xs' jh"
proof -
  obtain r0 xs0 where aw: "await jh d now xs = (r0, now', xs0)"
      "xs' = (if r0 = None then drop_handle jh (drop_handle jh xs0) else drop_handle jh xs0)"
      "r = (case r0 of Some (Inr out) \<Rightarrow> Inr (jh_shard jh, out)
            | Some (Inl e) \<Rightarrow> Inl (JoinTimeoutJoin \<lparr>sje_shard_id = jh_shard jh, sje_error = e\<rparr>)
            | None \<Rightarrow> Inl (JoinTimedOut (jh_shard jh)))"
    using assms(2) by (auto simp: sharded_join_timeout_def sharded_abort_def split: prod.splits option.splits sum.splits)
  have law: "length xs0 = length xs" "\<forall>i<length xs. length (xc_tasks (xs ! i)) \<le> length (xc_tasks (xs0 ! i))" "r0 = None \<longrightarrow> now + d \<le> now'"
    using assms(1) aw(1) unfolding await_lawful_def by blast+
  have v0: "handle_valid xs k \<longrightarrow> handle_valid xs0 k" for k
    using law(1,2) by (auto simp: handle_valid_def)
  have jh: "handle_valid xs0 jh" using v0 assms(3) by blast
  show "\<forall>k. handle_valid xs k \<longrightarrow> handle_valid xs' k" using v0 jh aw(2) by (auto intro!: drop_valid)
  have "handle_stopped xs' jh" using drop_stops [OF jh jh] drop_stops [OF drop_valid [OF jh jh] drop_valid [OF jh jh]] aw(2) by simp
  then show "case r of Inr (shard_id, out) \<Rightarrow> shard_id = jh_shard jh
     | Inl e \<Rightarrow> sjt_shard_id e = jh_shard jh \<and> (is_timed_out e \<longrightarrow> now + d \<le> now') \<and> handle_stopped xs' jh"
    using aw(3) law(3) by (auto split: option.splits sum.splits)
qed

lemma join_until_outcome:
  assumes "await_lawful await" "join_until await deadline hs now xs = (r, now', xs')" "\<forall>jh\<in>set hs. handle_valid xs jh"
  shows "case r of
      Inr outs \<Rightarrow> map fst outs = map jh_shard hs
    | Inl e \<Rightarrow> \<exists>k<length hs. sjt_shard_id e = jh_shard (hs ! k) \<and> (is_timed_out e \<longrightarrow> deadline \<le> now') \<and>
        (\<forall>j<length hs. k \<le> j \<longrightarrow> handle_stopped xs' (hs ! j))"
  using assms(2,3)
proof (induction hs arbitrary: now xs r)
  case (Cons jh hs)
  have jh: "handle_valid xs jh" using Cons.prems(2) by simp
  show ?case
  proof (cases "deadline - now = 0")
    case True
    let ?xs = "drop_handle jh xs"
    have v: "\<forall>k\<in>set hs. handle_valid ?xs k" "handle_valid ?xs jh" using Cons.prems(2) by (auto intro!: drop_valid)
    have ab: "handle_valid (abort_all hs ?xs) k \<and> handle_stopped (abort_all hs ?xs) k" if "k \<in> set (jh # hs)" for k
      by (rule abort_all_stops [OF v(1)]) (use that v drop_stops [OF jh jh] in auto)
    have r: "r = Inl (JoinTimedOut (jh_shard jh))" "now' = now" "xs' = drop_handle jh (abort_all hs ?xs)"
      using Cons.prems(1) True by (simp_all add: sharded_abort_def)
    have "handle_stopped xs' k" if "k \<in> set (jh # hs)" for k
      unfolding r(3) by (rule drop_stops) (use ab that in auto)
    then have "\<forall>j<length (jh # hs). handle_stopped xs' ((jh # hs) ! j)" by (metis nth_mem)
    then show ?thesis using r True by (auto intro!: exI [of _ 0])
  next
    case False
    obtain r1 now1 xs1 where j: "sharded_join_timeout await jh (deadline - now) now xs = (r1, now1, xs1)"
      by (cases "sharded_join_timeout await jh (deadline - now) now xs") auto
    note jt = join_timeout_cases [OF assms(1) j jh]
    have v: "\<forall>k\<in>set (jh # hs). handle_valid xs1 k" using jt(1) Cons.prems(2) by blast
    show ?thesis
    proof (cases r1)
      case (Inl e)
      have r: "r = Inl e" "now' = now1" "xs' = abort_all hs xs1" using Cons.prems(1) False j Inl by simp_all
      have "handle_stopped xs' k" if "k \<in> set (jh # hs)" for k
        unfolding r(3) by (rule abort_all_stops [THEN conjunct2]) (use v that jt(2) Inl in auto)
      then have "\<forall>j<length (jh # hs). handle_stopped xs' ((jh # hs) ! j)" by (metis nth_mem)
      then show ?thesis using r jt(2) Inl by (auto intro!: exI [of _ 0])
    next
      case (Inr out)
      obtain r2 where j2: "join_until await deadline hs now1 xs1 = (r2, now', xs')" "r = map_sum id ((#) out) r2"
        using Cons.prems(1) False j Inr by (auto split: prod.splits)
      have "\<forall>k\<in>set hs. handle_valid xs1 k" using v by simp
      from Cons.IH [OF j2(1) this] show ?thesis
      proof (cases r2)
        case (Inl e)
        then obtain k where k: "k < length hs" "sjt_shard_id e = jh_shard (hs ! k)" "is_timed_out e \<longrightarrow> deadline \<le> now'"
            "\<forall>j<length hs. k \<le> j \<longrightarrow> handle_stopped xs' (hs ! j)"
          using Cons.IH [OF j2(1)] v by auto
        have "\<forall>j<length (jh # hs). Suc k \<le> j \<longrightarrow> handle_stopped xs' ((jh # hs) ! j)" using k(4) by (auto simp: nth_Cons')
        then show ?thesis using k j2(2) Inl by (auto intro!: exI [of _ "Suc k"])
      next
        case (Inr outs)
        then show ?thesis using Cons.IH [OF j2(1)] v j2(2) jt(2) \<open>r1 = Inr out\<close> by (auto split: prod.splits)
      qed
    qed
  qed
qed auto


text \<open>The task of shard 0 is done at once, that of shard 1 not in time.\<close>

definition slow_await :: "(nat, unit, nat) await_timeout" where
  "slow_await jh d now xs = (if jh_shard jh = 0 then (Some (Inr 40), now + 1, xs) else (None, now + d, xs))"


subsection \<open>Laws of map and reduce\<close>

lemma all_spawned:
  assumes "se_open se"
  shows "\<exists>se'. spawn_with_handle_on_all alive now make_future h se =
      (Inr (map (\<lambda>i. \<lparr>jh_shard = i, jh_task = length (xc_tasks (se_execs se ! i))\<rparr>) [0..<length (se_execs se)]), se')"
proof -
  let ?xs = "se_execs se" and ?n = "length (se_execs se)"
  let ?G = "\<lambda>(shard_id, spawner) xs.
       if \<not> spawner then (Inl (SpawnStopped shard_id), xs)
       else spawn_handle (spawner_spawn_with_handle alive now (make_future shard_id) (h shard_id)) shard_id xs"
  let ?sp = "\<lambda>i. spawner_spawn_with_handle alive now (make_future i) (h i)"
  have "\<exists>ys. on_all ?G (se_view se) ?xs = (Inr (map (\<lambda>v. \<lparr>jh_shard = fst v, jh_task = length (xc_tasks (?xs ! fst v))\<rparr>) (se_view se)), ys) \<and>
      length ys = ?n \<and> (\<forall>v\<in>set (se_view se). ys ! fst v = snd (?sp (fst v) (?xs ! fst v))) \<and>
      (\<forall>j. j \<notin> fst ` set (se_view se) \<longrightarrow> ys ! j = ?xs ! j)"
  proof (rule on_all_success)
    fix v and ys :: "('a, 'b) executor list" assume *: "v \<in> set (se_view se)" "ys ! fst v = ?xs ! fst v"
    obtain i where i: "i < ?n" "v = (i, True)" using *(1) by (auto simp: se_open_view [OF assms])
    have inv: "ex_inv (xc_exec (?xs ! i))" using assms i(1) by (simp add: se_open_def)
    obtain r e' where e: "ex_spawn alive now default_group_id (None, make_future i) (Some (h i)) (xc_exec (?xs ! i)) = (r, e')" by fastforce
    have "r = Inr (length (xc_tasks (?xs ! i)))" by (rule ex_spawn_ok(1) [OF inv ex_inv_default_group [OF inv] e])
    then have "fst (?sp i (?xs ! i)) = Inr (length (xc_tasks (?xs ! i)))"
      using e by (simp add: spawn_handle_defs spawn_inner_def)
    then show "?G v ys = (Inr \<lparr>jh_shard = fst v, jh_task = length (xc_tasks (?xs ! fst v))\<rparr>, ys[fst v := snd (?sp (fst v) (?xs ! fst v))])"
      using * i by (simp add: spawn_handle_def on_executor_def case_prod_unfold Let_def)
  qed (auto simp: se_open_view [OF assms] comp_def)
  then show ?thesis
    by (auto simp: spawn_with_handle_on_all_def spawn_with_handle_on_all_shards_def on_shards_def with_handles_def
        se_open_view [OF assms] comp_def)
qed

lemma join_all_outputs:
  assumes "\<forall>jh xs. \<exists>xs'. await jh xs = Some (Inr (output (jh_shard jh)), xs')"
  shows "\<exists>xs'. join_all_shards await hs xs = Some (Inr (map (\<lambda>jh. (jh_shard jh, output (jh_shard jh))) hs), xs')"
proof (induction hs arbitrary: xs)
  case (Cons jh hs)
  obtain xs1 where a: "await jh xs = Some (Inr (output (jh_shard jh)), xs1)" using assms by blast
  obtain xs2 where "join_all_shards await hs (drop_handle jh xs1) = Some (Inr (map (\<lambda>jh. (jh_shard jh, output (jh_shard jh))) hs), xs2)"
    using Cons.IH by blast
  then show ?case by (simp add: sharded_join_def a)
qed simp

text \<open>C24: a map and reduce over all shards of an open runtime, when the task of shard \<open>i\<close> ends with
  \<open>output i\<close>, returns the fold of the reduction over these outputs, with each shard exactly once and
  in the order of the shards, whatever the order in which the tasks ended.\<close>

theorem sharded_map_reduce:
  assumes "se_open se" "\<forall>jh xs. \<exists>xs'. await jh xs = Some (Inr (output (jh_shard jh)), xs')"
  shows "\<exists>se'. map_reduce_all alive now await make_future h initial reduce se =
     Some (Inr (fold (\<lambda>i acc. reduce acc i (output i)) [0..<length (se_execs se)] initial), se')"
proof -
  let ?hs = "map (\<lambda>i. \<lparr>jh_shard = i, jh_task = length (xc_tasks (se_execs se ! i))\<rparr>) [0..<length (se_execs se)]"
  obtain se1 where s: "spawn_with_handle_on_all alive now make_future h se = (Inr ?hs, se1)"
    using all_spawned [OF assms(1)] by blast
  obtain xs where j: "join_all_shards await ?hs (se_execs se1) = Some (Inr (map (\<lambda>jh. (jh_shard jh, output (jh_shard jh))) ?hs), xs)"
    using join_all_outputs [OF assms(2)] by blast
  show ?thesis
    by (simp add: map_reduce_all_def map_all_def s join_mapped_def j reduce_outputs_def fold_map comp_def)
qed

theorem sharded_map_reduce_witness:
  "\<exists>se'. map_reduce_all (\<lambda>_. True) 5 (\<lambda>jh xs. Some (Inr (10 + jh_shard jh), xs)) (\<lambda>i. i) (\<lambda>_. ()) 100 (\<lambda>acc i out. acc + out) two_shards =
     Some (Inr (121 :: nat), se')"
proof -
  have o: "se_open two_shards" by (simp add: se_open_def two_shards_def ex_inv_new upt_rec)
  have n: "[0..<length (se_execs two_shards)] = [0, 1]" by (simp add: two_shards_def upt_rec)
  show ?thesis
    using sharded_map_reduce [OF o, of "\<lambda>jh xs. Some (Inr (10 + jh_shard jh), xs)" "\<lambda>i. 10 + i" "\<lambda>_. True" 5 "\<lambda>i. i" "\<lambda>_. ()" 100
        "\<lambda>acc i out. acc + out"] by (simp add: n)
qed

end
