(* ===== verification/Charlotte_Abi.thy ===== *)
theory Charlotte_Abi
  imports Sitas_Prelude "HOL-Library.AList"
begin

text \<open>
  The model kernel of the completion-capability interface, \<open>charlotte_abi.rs\<close>: submission, completion,
  cancellation, waiting and wakes, and the reactor of one shard over it.  Every operation runs under the
  kernel's lock and is one function on its state.  Queue identifiers are handed out in order and
  never released, so the shards are a list.  Counters of 32 bits panic on overflow.
\<close>

subsection \<open>State\<close>

datatype op_code = Nop | ReadOp | WriteOp

datatype op_result = OpOk "64 word" | OpErr u32 | OpCancelled

record completion =
  cp_cap :: nat
  cp_result :: op_result
  cp_returned :: "u8 list option"

datatype submit_error = WouldBlock | BadArgs

datatype queue_error = UnknownQueue

datatype cap_error = UnknownCap | NotComplete

datatype cancel_state = AlreadyComplete | CancelRequested

datatype post_outcome = Posted | Backpressured

record op_state =
  op_queue :: nat
  op_kind :: op_code
  op_buffer :: "u8 list option"
  op_cancelling :: bool
  op_completed :: bool

record cq_shard =
  cs_cq :: "completion list"
  cs_capacity :: nat
  cs_woke :: bool
  cs_overflow :: bool

record mock_kernel =
  mk_ops :: "(nat \<times> op_state) list"
  mk_shards :: "cq_shard list"
  mk_next_cap :: nat
  mk_cap_table :: nat

definition mock_new :: "nat \<Rightarrow> mock_kernel" where
  "mock_new cap_table = \<lparr>mk_ops = [], mk_shards = [], mk_next_cap = 0, mk_cap_table = cap_table\<rparr>"

definition u32_full :: "nat \<Rightarrow> bool" where
  "u32_full n \<longleftrightarrow> 2 ^ 32 \<le> int n + 1"

definition register_shard :: "nat \<Rightarrow> mock_kernel \<Rightarrow> panic + nat \<times> mock_kernel" where
  "register_shard cq_capacity k =
     (let i = length (mk_shards k)
      in if u32_full i then Inl ArithmeticOverflow
         else Inr (i, k\<lparr>mk_shards := mk_shards k @
           [\<lparr>cs_cq = [], cs_capacity = cq_capacity, cs_woke = False, cs_overflow = False\<rparr>]\<rparr>))"

definition mock_submit ::
  "nat \<Rightarrow> op_code \<Rightarrow> u8 list option \<Rightarrow> mock_kernel \<Rightarrow> panic + (submit_error + nat) \<times> mock_kernel" where
  "mock_submit cq kind buffer k =
     (if length (mk_shards k) \<le> cq then Inr (Inl BadArgs, k)
      else if mk_cap_table k \<le> length (mk_ops k) then Inr (Inl WouldBlock, k)
      else let cap = mk_next_cap k
           in if u32_full cap then Inl ArithmeticOverflow
              else Inr (Inr cap, k\<lparr>mk_next_cap := cap + 1, mk_ops := AList.update cap
                \<lparr>op_queue = cq, op_kind = kind, op_buffer = buffer, op_cancelling = False, op_completed = False\<rparr> (mk_ops k)\<rparr>))"

definition set_op :: "nat \<Rightarrow> op_state \<Rightarrow> mock_kernel \<Rightarrow> mock_kernel" where
  "set_op cap op k = k\<lparr>mk_ops := AList.update cap op (mk_ops k)\<rparr>"

definition set_shard :: "nat \<Rightarrow> cq_shard \<Rightarrow> mock_kernel \<Rightarrow> mock_kernel" where
  "set_shard cq s k = k\<lparr>mk_shards := (mk_shards k)[cq := s]\<rparr>"

definition mock_complete :: "nat \<Rightarrow> op_result \<Rightarrow> mock_kernel \<Rightarrow> panic + post_outcome \<times> mock_kernel" where
  "mock_complete cap result k =
     (case map_of (mk_ops k) cap of
        None \<Rightarrow> Inl UnwrapNone
      | Some op \<Rightarrow>
          (if length (mk_shards k) \<le> op_queue op then Inl UnwrapNone
           else let s = mk_shards k ! op_queue op; final = (if op_cancelling op then OpCancelled else result)
                in if cs_capacity s \<le> length (cs_cq s)
                   then Inr (Backpressured, set_shard (op_queue op) (s\<lparr>cs_overflow := True\<rparr>) k)
                   else Inr (Posted,
                     set_op cap (op\<lparr>op_buffer := None, op_completed := True\<rparr>)
                       (set_shard (op_queue op) (s\<lparr>cs_cq := cs_cq s @ [\<lparr>cp_cap = cap, cp_result = final, cp_returned = op_buffer op\<rparr>]\<rparr>) k))))"

definition mock_wake :: "nat \<Rightarrow> mock_kernel \<Rightarrow> (queue_error + unit) \<times> mock_kernel" where
  "mock_wake cq k =
     (if length (mk_shards k) \<le> cq then (Inl UnknownQueue, k)
      else (Inr (), set_shard cq ((mk_shards k ! cq)\<lparr>cs_woke := True\<rparr>) k))"

definition mock_cancel :: "nat \<Rightarrow> mock_kernel \<Rightarrow> (cap_error + cancel_state) \<times> mock_kernel" where
  "mock_cancel cap k =
     (case map_of (mk_ops k) cap of
        None \<Rightarrow> (Inl UnknownCap, k)
      | Some op \<Rightarrow>
          if op_completed op then (Inr AlreadyComplete, k)
          else (Inr CancelRequested, set_op cap (op\<lparr>op_cancelling := True\<rparr>) k))"

definition mock_close :: "nat \<Rightarrow> mock_kernel \<Rightarrow> (cap_error + unit) \<times> mock_kernel" where
  "mock_close cap k =
     (case map_of (mk_ops k) cap of
        None \<Rightarrow> (Inl UnknownCap, k)
      | Some op \<Rightarrow>
          if \<not> op_completed op then (Inl NotComplete, k)
          else (Inr (), k\<lparr>mk_ops := AList.delete cap (mk_ops k)\<rparr>))"

definition ready_caps :: "nat \<Rightarrow> mock_kernel \<Rightarrow> nat list" where
  "ready_caps cq k = (if cq < length (mk_shards k) then map cp_cap (cs_cq (mk_shards k ! cq)) else [])"

definition mock_drain :: "nat \<Rightarrow> mock_kernel \<Rightarrow> completion list \<times> mock_kernel" where
  "mock_drain cq k =
     (if cq < length (mk_shards k)
      then let s = mk_shards k ! cq in (cs_cq s, set_shard cq (s\<lparr>cs_cq := [], cs_overflow := False\<rparr>) k)
      else ([], k))"

definition take_woke :: "nat \<Rightarrow> mock_kernel \<Rightarrow> bool \<times> mock_kernel" where
  "take_woke cq k =
     (if cq < length (mk_shards k)
      then let s = mk_shards k ! cq in (cs_woke s, set_shard cq (s\<lparr>cs_woke := False\<rparr>) k)
      else (False, k))"

definition overflow_pending :: "nat \<Rightarrow> mock_kernel \<Rightarrow> bool" where
  "overflow_pending cq k \<longleftrightarrow> cq < length (mk_shards k) \<and> cs_overflow (mk_shards k ! cq)"

definition kernel_holds_buffer :: "nat \<Rightarrow> mock_kernel \<Rightarrow> bool" where
  "kernel_holds_buffer cap k \<longleftrightarrow> (case map_of (mk_ops k) cap of None \<Rightarrow> False | Some op \<Rightarrow> op_buffer op \<noteq> None)"

subsection \<open>Waiting\<close>

definition wait_satisfied :: "nat \<Rightarrow> u32 \<Rightarrow> mock_kernel \<Rightarrow> bool" where
  "wait_satisfied cq min_complete k \<longleftrightarrow>
     (let s = mk_shards k ! cq; ready = of_nat (length (cs_cq s)) :: u32
      in cs_woke s \<or> min_complete = 0 \<and> 0 < ready \<or> 0 < min_complete \<and> min_complete \<le> ready)"

definition ready_count :: "nat \<Rightarrow> mock_kernel \<Rightarrow> u32" where
  "ready_count cq k = (if cq < length (mk_shards k) then of_nat (length (cs_cq (mk_shards k ! cq))) else 0)"

text \<open>The observations are the times and states at which the waiting thread holds the lock, each with
  the news whether the wait on the condition variable before it timed out; the first has no such wait.
  A thread that still waits after the last one has not returned.\<close>

fun mock_wait :: "nat \<Rightarrow> u32 \<Rightarrow> instant option \<Rightarrow> (instant \<times> bool \<times> mock_kernel) list \<Rightarrow> (queue_error + u32) option" where
  "mock_wait cq min_complete deadline [] = None"
| "mock_wait cq min_complete deadline ((now, timed_out, k) # obs) =
     (if deadline \<noteq> None \<and> timed_out then Some (Inr (ready_count cq k))
      else if length (mk_shards k) \<le> cq then Some (Inl UnknownQueue)
      else if wait_satisfied cq min_complete k then Some (Inr (ready_count cq k))
      else case deadline of
             Some dl \<Rightarrow> if dl \<le> now then Some (Inr (ready_count cq k)) else mock_wait cq min_complete deadline obs
           | None \<Rightarrow> mock_wait cq min_complete deadline obs)"

record charlotte_event =
  ce_woke :: bool
  ce_readable :: "nat list"
  ce_writable :: "nat list"

text \<open>\<open>k\<close> is the state after the wait; \<open>None\<close> in the sum is the error for an unknown queue.\<close>

definition reactor_wait ::
  "nat \<Rightarrow> duration option \<Rightarrow> instant \<Rightarrow> (instant \<times> bool \<times> mock_kernel) list \<Rightarrow> mock_kernel \<Rightarrow>
   (charlotte_event option \<times> mock_kernel) option" where
  "reactor_wait cq timeout now obs k =
     (case mock_wait cq 0 (map_option ((+) now) timeout) obs of
        None \<Rightarrow> None
      | Some (Inl _) \<Rightarrow> Some (None, k)
      | Some (Inr _) \<Rightarrow>
          (let (woke, k) = take_woke cq k
           in Some (Some \<lparr>ce_woke = woke, ce_readable = ready_caps cq k, ce_writable = []\<rparr>, k)))"

subsection \<open>Steps\<close>

text \<open>The kernel with what was submitted and what was drained.  The worker of an operation completes it once.\<close>

record abi =
  ab_kernel :: mock_kernel
  ab_submitted :: "(nat \<times> u8 list option) list"
  ab_drained :: "completion list"

inductive abi_step :: "abi \<Rightarrow> abi \<Rightarrow> bool" where
  ab_register: "register_shard c (ab_kernel a) = Inr (i, k) \<Longrightarrow> abi_step a (a\<lparr>ab_kernel := k\<rparr>)"
| ab_submit: "mock_submit cq kind buffer (ab_kernel a) = Inr (Inr cap, k) \<Longrightarrow>
    abi_step a (a\<lparr>ab_kernel := k, ab_submitted := ab_submitted a @ [(cap, buffer)]\<rparr>)"
| ab_complete: "map_of (mk_ops (ab_kernel a)) cap = Some op \<Longrightarrow> \<not> op_completed op \<Longrightarrow>
    mock_complete cap result (ab_kernel a) = Inr (out, k) \<Longrightarrow> abi_step a (a\<lparr>ab_kernel := k\<rparr>)"
| ab_cancel: "abi_step a (a\<lparr>ab_kernel := snd (mock_cancel cap (ab_kernel a))\<rparr>)"
| ab_close: "abi_step a (a\<lparr>ab_kernel := snd (mock_close cap (ab_kernel a))\<rparr>)"
| ab_drain: "mock_drain cq (ab_kernel a) = (cs, k) \<Longrightarrow> abi_step a (a\<lparr>ab_kernel := k, ab_drained := ab_drained a @ cs\<rparr>)"
| ab_wake: "abi_step a (a\<lparr>ab_kernel := snd (mock_wake cq (ab_kernel a))\<rparr>)"
| ab_take_woke: "abi_step a (a\<lparr>ab_kernel := snd (take_woke cq (ab_kernel a))\<rparr>)"

definition abi_start :: "nat \<Rightarrow> abi" where
  "abi_start cap_table = \<lparr>ab_kernel = mock_new cap_table, ab_submitted = [], ab_drained = []\<rparr>"

text \<open>All completions that were posted: those in the queues and those drained.\<close>

definition posted_completions :: "abi \<Rightarrow> completion multiset" where
  "posted_completions a = mset (concat (map cs_cq (mk_shards (ab_kernel a)))) + mset (ab_drained a)"

definition posted_caps :: "abi \<Rightarrow> nat multiset" where
  "posted_caps a = image_mset cp_cap (posted_completions a)"

definition abi_inv :: "abi \<Rightarrow> bool" where
  "abi_inv a \<longleftrightarrow>
     (let k = ab_kernel a; ops = map_of (mk_ops k)
      in distinct (map fst (mk_ops k)) \<and> length (mk_ops k) \<le> mk_cap_table k \<and>
         (\<forall>s\<in>set (mk_shards k). length (cs_cq s) \<le> cs_capacity s) \<and>
         map fst (ab_submitted a) = [0..<mk_next_cap k] \<and>
         (\<forall>cap op. ops cap = Some op \<longrightarrow> cap < mk_next_cap k \<and> op_queue op < length (mk_shards k) \<and>
            (if op_completed op then op_buffer op = None else (cap, op_buffer op) \<in> set (ab_submitted a))) \<and>
         (\<forall>c\<in>#posted_completions a. (cp_cap c, cp_returned c) \<in> set (ab_submitted a)) \<and>
         (\<forall>cap<mk_next_cap k. count (posted_caps a) cap =
            (case ops cap of None \<Rightarrow> 1 | Some op \<Rightarrow> if op_completed op then 1 else 0)))"

subsection \<open>The invariant\<close>

lemma set_shard_simps [simp]:
  "mk_ops (set_shard cq s k) = mk_ops k" "mk_next_cap (set_shard cq s k) = mk_next_cap k"
  "mk_cap_table (set_shard cq s k) = mk_cap_table k" "length (mk_shards (set_shard cq s k)) = length (mk_shards k)"
  by (simp_all add: set_shard_def)

lemma set_op_simps [simp]:
  "mk_shards (set_op cap op k) = mk_shards k" "mk_next_cap (set_op cap op k) = mk_next_cap k"
  "mk_cap_table (set_op cap op k) = mk_cap_table k"
  "map_of (mk_ops (set_op cap op k)) = (map_of (mk_ops k))(cap \<mapsto> op)"
  by (simp_all add: set_op_def update_conv')

lemma length_update_old: "map_of xs x \<noteq> None \<Longrightarrow> length (AList.update x y xs) = length xs"
  by (induction xs) auto

lemma length_update_le: "length (AList.update x y xs) \<le> Suc (length xs)"
  by (induction xs) auto

lemma posted_shard:
  assumes "cq < length (mk_shards (ab_kernel a))"
  shows "posted_completions (a\<lparr>ab_kernel := set_shard cq s (ab_kernel a)\<rparr>) + mset (cs_cq (mk_shards (ab_kernel a) ! cq)) = posted_completions a + mset (cs_cq s)"
  using mset_concat_map_update [OF assms, of cs_cq s] by (simp add: posted_completions_def set_shard_def ac_simps)

lemma abi_invD:
  assumes "abi_inv a"
  shows "distinct (map fst (mk_ops (ab_kernel a)))" "length (mk_ops (ab_kernel a)) \<le> mk_cap_table (ab_kernel a)"
    "\<forall>s\<in>set (mk_shards (ab_kernel a)). length (cs_cq s) \<le> cs_capacity s" "map fst (ab_submitted a) = [0..<mk_next_cap (ab_kernel a)]"
    "\<And>cap op. map_of (mk_ops (ab_kernel a)) cap = Some op \<Longrightarrow> cap < mk_next_cap (ab_kernel a) \<and> op_queue op < length (mk_shards (ab_kernel a)) \<and>
      (if op_completed op then op_buffer op = None else (cap, op_buffer op) \<in> set (ab_submitted a))"
    "\<forall>c\<in>#posted_completions a. (cp_cap c, cp_returned c) \<in> set (ab_submitted a)"
    "\<And>cap. cap < mk_next_cap (ab_kernel a) \<Longrightarrow> count (posted_caps a) cap =
      (case map_of (mk_ops (ab_kernel a)) cap of None \<Rightarrow> 1 | Some op \<Rightarrow> if op_completed op then 1 else 0)"
  using assms unfolding abi_inv_def Let_def by blast+

text \<open>A change of one shard that keeps its queue short, and posts nothing.\<close>

lemma abi_inv_shard:
  assumes "abi_inv a" "cq < length (mk_shards (ab_kernel a))" "length (cs_cq s) \<le> cs_capacity s"
    and "mset (cs_cq s) + mset ds = mset (cs_cq (mk_shards (ab_kernel a) ! cq)) + mset (ab_drained a)"
  shows "abi_inv (a\<lparr>ab_kernel := set_shard cq s (ab_kernel a), ab_drained := ds\<rparr>)"
proof -
  let ?a = "a\<lparr>ab_kernel := set_shard cq s (ab_kernel a), ab_drained := ds\<rparr>"
  let ?sh = "mk_shards (ab_kernel a)"
  let ?C = "mset (concat (map cs_cq ?sh))" and ?C' = "mset (concat (map cs_cq (?sh[cq := s])))"
  have "?C' + mset ds + mset (cs_cq (?sh ! cq)) = ?C' + mset (cs_cq (?sh ! cq)) + mset ds" by (simp only: ac_simps)
  also have "\<dots> = ?C + (mset (cs_cq s) + mset ds)" by (simp only: mset_concat_map_update [OF assms(2)] add.assoc)
  also have "\<dots> = ?C + (mset (cs_cq (?sh ! cq)) + mset (ab_drained a))" by (simp only: assms(4))
  also have "\<dots> = ?C + mset (ab_drained a) + mset (cs_cq (?sh ! cq))" by (simp only: ac_simps)
  finally have p: "posted_completions ?a = posted_completions a" by (simp add: posted_completions_def set_shard_def)
  have sh: "\<forall>s\<in>set (mk_shards (ab_kernel ?a)). length (cs_cq s) \<le> cs_capacity s"
    using abi_invD(3) [OF assms(1)] assms(3) set_update_subset_insert [of "mk_shards (ab_kernel a)" cq s] by (auto simp: set_shard_def)
  show ?thesis
    using abi_invD [OF assms(1)] sh unfolding abi_inv_def Let_def posted_caps_def p
    by (simp add: set_shard_def)
qed

lemma abi_inv_ops:
  assumes "abi_inv a" "map_of (mk_ops (ab_kernel a)) cap = Some op"
    and "op_queue op' = op_queue op" "op_buffer op' = op_buffer op" "op_completed op' = op_completed op"
  shows "abi_inv (a\<lparr>ab_kernel := set_op cap op' (ab_kernel a)\<rparr>)"
proof -
  let ?a = "a\<lparr>ab_kernel := set_op cap op' (ab_kernel a)\<rparr>"
  have p: "posted_completions ?a = posted_completions a" by (simp add: posted_completions_def)
  have "length (mk_ops (ab_kernel ?a)) = length (mk_ops (ab_kernel a))"
    using assms(2) length_update_old [of "mk_ops (ab_kernel a)" cap op'] by (simp add: set_op_def)
  moreover have "distinct (map fst (mk_ops (ab_kernel ?a)))"
    using abi_invD(1) [OF assms(1)] by (simp add: set_op_def distinct_update)
  ultimately show ?thesis
    using abi_invD [OF assms(1)] assms(2-5) unfolding abi_inv_def Let_def posted_caps_def p by auto
qed

lemma abi_inv_submit:
  assumes "abi_inv a" "mock_submit cq kind buffer (ab_kernel a) = Inr (Inr cap, k)"
  shows "abi_inv (a\<lparr>ab_kernel := k, ab_submitted := ab_submitted a @ [(cap, buffer)]\<rparr>)"
proof -
  let ?k = "ab_kernel a" and ?a = "a\<lparr>ab_kernel := k, ab_submitted := ab_submitted a @ [(cap, buffer)]\<rparr>"
  let ?op = "\<lparr>op_queue = cq, op_kind = kind, op_buffer = buffer, op_cancelling = False, op_completed = False\<rparr>"
  have k: "k = ?k\<lparr>mk_next_cap := cap + 1, mk_ops := AList.update cap ?op (mk_ops ?k)\<rparr>" "cap = mk_next_cap ?k"
      "cq < length (mk_shards ?k)" "length (mk_ops ?k) < mk_cap_table ?k"
    using assms(2) by (auto simp: mock_submit_def Let_def split: if_splits)
  have fresh: "map_of (mk_ops ?k) cap = None" using abi_invD(5) [OF assms(1), of cap] k(2) by (cases "map_of (mk_ops ?k) cap") auto
  have p: "posted_completions ?a = posted_completions a" by (simp add: posted_completions_def k(1))
  have np: "count (posted_caps a) cap = 0"
  proof -
    have "cap \<notin> fst ` set (ab_submitted a)" using arg_cong [OF abi_invD(4) [OF assms(1)], of set] k(2) by (simp add: image_set [symmetric])
    then show ?thesis using abi_invD(6) [OF assms(1)] by (force simp: posted_caps_def count_eq_zero_iff)
  qed
  have "length (mk_ops k) \<le> mk_cap_table k"
    using k(4) length_update_le [of cap ?op "mk_ops ?k"] by (simp add: k(1))
  moreover have "distinct (map fst (mk_ops k))" using abi_invD(1) [OF assms(1)] by (simp add: k(1) distinct_update)
  moreover have pc: "posted_caps ?a = posted_caps a" by (simp add: posted_caps_def p)
  ultimately show ?thesis
    using abi_invD [OF assms(1)] k(2,3) fresh np unfolding abi_inv_def Let_def pc p
    by (auto simp: k(1) update_conv' less_Suc_eq)
qed

lemma abi_inv_complete:
  assumes "abi_inv a" "map_of (mk_ops (ab_kernel a)) cap = Some op" "\<not> op_completed op"
    and "mock_complete cap result (ab_kernel a) = Inr (out, k)"
  shows "abi_inv (a\<lparr>ab_kernel := k\<rparr>)"
proof -
  let ?k = "ab_kernel a" and ?q = "op_queue op"
  let ?s = "mk_shards ?k ! ?q"
  let ?c = "\<lparr>cp_cap = cap, cp_result = if op_cancelling op then OpCancelled else result, cp_returned = op_buffer op\<rparr>"
  have op: "cap < mk_next_cap ?k" "?q < length (mk_shards ?k)" "(cap, op_buffer op) \<in> set (ab_submitted a)"
    using abi_invD(5) [OF assms(1,2)] assms(3) by auto
  show ?thesis
  proof (cases "cs_capacity ?s \<le> length (cs_cq ?s)")
    case True
    then have "k = set_shard ?q (?s\<lparr>cs_overflow := True\<rparr>) ?k" using assms(2,4) op(2) by (simp add: mock_complete_def Let_def)
    moreover have "length (cs_cq ?s) \<le> cs_capacity ?s" using abi_invD(3) [OF assms(1)] op(2) by simp
    ultimately show ?thesis
      using abi_inv_shard [OF assms(1) op(2), of "?s\<lparr>cs_overflow := True\<rparr>" "ab_drained a"] by simp
  next
    case False
    let ?op = "op\<lparr>op_buffer := None, op_completed := True\<rparr>" and ?s' = "?s\<lparr>cs_cq := cs_cq ?s @ [?c]\<rparr>"
    let ?a = "a\<lparr>ab_kernel := k\<rparr>"
    have k: "k = set_op cap ?op (set_shard ?q ?s' ?k)"
      using assms(2,4) op(2) False by (simp add: mock_complete_def Let_def)
    have "posted_completions ?a + mset (cs_cq ?s) = posted_completions a + mset (cs_cq ?s')"
      using posted_shard [OF op(2), of ?s'] by (simp add: k posted_completions_def)
    then have p: "posted_completions ?a = add_mset ?c (posted_completions a)" by simp
    have pc: "posted_caps ?a = add_mset cap (posted_caps a)" by (simp add: posted_caps_def p)
    have "length (mk_ops k) = length (mk_ops ?k)" using length_update_old [of "mk_ops ?k" cap] assms(2) by (simp add: k set_op_def)
    moreover have "distinct (map fst (mk_ops k))" using abi_invD(1) [OF assms(1)] by (simp add: k set_op_def distinct_update)
    moreover have "\<forall>s\<in>set (mk_shards k). length (cs_cq s) \<le> cs_capacity s"
      using abi_invD(3) [OF assms(1)] False set_update_subset_insert [of "mk_shards ?k" ?q ?s'] by (auto simp: k set_shard_def)
    ultimately show ?thesis
      using abi_invD [OF assms(1)] op assms(2,3) unfolding abi_inv_def Let_def pc p by (auto simp: k)
  qed
qed

lemma abi_inv_close:
  assumes "abi_inv a"
  shows "abi_inv (a\<lparr>ab_kernel := snd (mock_close cap (ab_kernel a))\<rparr>)"
proof (cases "\<exists>op. map_of (mk_ops (ab_kernel a)) cap = Some op \<and> op_completed op")
  case True
  let ?k = "ab_kernel a"
  let ?a = "a\<lparr>ab_kernel := ?k\<lparr>mk_ops := AList.delete cap (mk_ops ?k)\<rparr>\<rparr>"
  have p: "posted_completions ?a = posted_completions a" "posted_caps ?a = posted_caps a" by (simp_all add: posted_caps_def posted_completions_def)
  have "length (AList.delete cap (mk_ops ?k)) \<le> length (mk_ops ?k)" by (rule length_delete_le)
  then have l: "length (AList.delete cap (mk_ops ?k)) \<le> mk_cap_table ?k" using abi_invD(2) [OF assms] by simp
  have d: "distinct (map fst (AList.delete cap (mk_ops ?k)))" using abi_invD(1) [OF assms] by (rule distinct_delete)
  have "abi_inv ?a"
    using abi_invD [OF assms] l d True unfolding abi_inv_def Let_def p by (auto simp: delete_conv')
  then show ?thesis using True by (auto simp: mock_close_def)
next
  case False
  then have "snd (mock_close cap (ab_kernel a)) = ab_kernel a" by (auto simp: mock_close_def split: option.splits)
  then show ?thesis using assms by simp
qed

lemma abi_inv_register:
  assumes "abi_inv a" "register_shard c (ab_kernel a) = Inr (i, k)"
  shows "abi_inv (a\<lparr>ab_kernel := k\<rparr>)"
proof -
  let ?a = "a\<lparr>ab_kernel := k\<rparr>"
  have k: "k = (ab_kernel a)\<lparr>mk_shards := mk_shards (ab_kernel a) @ [\<lparr>cs_cq = [], cs_capacity = c, cs_woke = False, cs_overflow = False\<rparr>]\<rparr>"
    using assms(2) by (auto simp: register_shard_def Let_def split: if_splits)
  have p: "posted_completions ?a = posted_completions a" "posted_caps ?a = posted_caps a" by (simp_all add: posted_caps_def posted_completions_def k)
  show ?thesis using abi_invD [OF assms(1)] unfolding abi_inv_def Let_def p by (auto simp: k intro: less_SucI)
qed

lemma abi_inv_flag:
  assumes "abi_inv a" "cq < length (mk_shards (ab_kernel a))" "cs_cq s = cs_cq (mk_shards (ab_kernel a) ! cq)"
    and "cs_capacity s = cs_capacity (mk_shards (ab_kernel a) ! cq)"
  shows "abi_inv (a\<lparr>ab_kernel := set_shard cq s (ab_kernel a)\<rparr>)"
  using abi_inv_shard [OF assms(1,2), of s "ab_drained a"] abi_invD(3) [OF assms(1)] assms(2-4) by simp

lemma abi_inv_step: "abi_step a a' \<Longrightarrow> abi_inv a \<Longrightarrow> abi_inv a'"
proof (induction rule: abi_step.induct)
  case (ab_cancel a cap)
  then show ?case by (auto simp: mock_cancel_def split: option.splits intro: abi_inv_ops)
next
  case (ab_drain cq a cs k)
  show ?case
  proof (cases "cq < length (mk_shards (ab_kernel a))")
    case True
    let ?s = "mk_shards (ab_kernel a) ! cq"
    have "cs = cs_cq ?s" "k = set_shard cq (?s\<lparr>cs_cq := [], cs_overflow := False\<rparr>) (ab_kernel a)"
      using ab_drain.hyps True by (simp_all add: mock_drain_def Let_def)
    then show ?thesis
      using abi_inv_shard [OF ab_drain.prems True, of "?s\<lparr>cs_cq := [], cs_overflow := False\<rparr>" "ab_drained a @ cs"] by simp
  next
    case False
    then have "cs = []" "k = ab_kernel a" using ab_drain.hyps by (simp_all add: mock_drain_def)
    then show ?thesis using ab_drain.prems by simp
  qed
next
  case (ab_wake a cq)
  then show ?case using abi_inv_flag [of a cq "(mk_shards (ab_kernel a) ! cq)\<lparr>cs_woke := True\<rparr>"] by (simp add: mock_wake_def)
next
  case (ab_take_woke a cq)
  then show ?case using abi_inv_flag [of a cq "(mk_shards (ab_kernel a) ! cq)\<lparr>cs_woke := False\<rparr>"] by (simp add: take_woke_def Let_def)
qed (auto intro: abi_inv_register abi_inv_submit abi_inv_complete abi_inv_close)

lemma abi_inv_reachable: "abi_step\<^sup>*\<^sup>* (abi_start n) a \<Longrightarrow> abi_inv a"
proof (induction rule: rtranclp_induct)
  case base
  then show ?case by (simp add: abi_inv_def abi_start_def mock_new_def posted_completions_def posted_caps_def)
qed (rule abi_inv_step)

lemma count_image_filter_mset: "count (image_mset f M) y = size (filter_mset (\<lambda>x. f x = y) M)"
  by (induction M) auto

text \<open>C22: the model kernel never loses, duplicates or mixes up a buffer, and stays within its bounds.
  In every reachable state the capability table and each completion queue are within their capacity,
  and each submitted operation is in exactly one of two situations: it is in flight, the kernel
  holds exactly the buffer that was submitted and no completion was posted for it, also when posting was
  refused or it was cancelled; or exactly one completion was posted for it, in a queue or drained,
  that completion carries the buffer, and the kernel holds none.\<close>

theorem charlotte_buffers_conserved:
  assumes "abi_step\<^sup>*\<^sup>* (abi_start n) a" "(cap, buffer) \<in> set (ab_submitted a)"
  defines "ops \<equiv> map_of (mk_ops (ab_kernel a))"
    and "mine \<equiv> filter_mset (\<lambda>c. cp_cap c = cap) (posted_completions a)"
  shows "length (mk_ops (ab_kernel a)) \<le> mk_cap_table (ab_kernel a) \<and>
    (\<forall>s\<in>set (mk_shards (ab_kernel a)). length (cs_cq s) \<le> cs_capacity s) \<and>
    ((\<exists>op. ops cap = Some op \<and> \<not> op_completed op \<and> op_buffer op = buffer \<and> mine = {#}) \<or>
     (\<exists>c. mine = {#c#} \<and> cp_returned c = buffer \<and> \<not> kernel_holds_buffer cap (ab_kernel a)))"
proof -
  note inv = abi_invD [OF abi_inv_reachable [OF assms(1)]]
  have "cap \<in> set (map fst (ab_submitted a))" using assms(2) by force
  then have cap: "cap < mk_next_cap (ab_kernel a)" unfolding inv(4) by simp
  have uniq: "b = buffer" if "(cap, b) \<in> set (ab_submitted a)" for b
    using inv(4) that assms(2) by (metis distinct_upt eq_key_imp_eq_value)
  have size: "size mine = count (posted_caps a) cap"
    by (simp add: mine_def posted_caps_def count_image_filter_mset)
  have "(\<exists>op. ops cap = Some op \<and> \<not> op_completed op \<and> op_buffer op = buffer \<and> mine = {#}) \<or>
     (\<exists>c. mine = {#c#} \<and> cp_returned c = buffer \<and> \<not> kernel_holds_buffer cap (ab_kernel a))"
  proof (cases "\<exists>op. ops cap = Some op \<and> \<not> op_completed op")
    case True
    then obtain op where op: "ops cap = Some op" "\<not> op_completed op" by blast
    then have "op_buffer op = buffer" "size mine = 0" using inv(5) [of cap op] inv(7) [OF cap] uniq size by (auto simp: ops_def)
    then show ?thesis using op by auto
  next
    case False
    then have "size mine = 1" using inv(7) [OF cap] size by (auto simp: ops_def split: option.splits)
    then obtain c where c: "mine = {#c#}" using size_1_singleton_mset by blast
    then have "c \<in># mine" by simp
    then have "c \<in># posted_completions a" "cp_cap c = cap" by (simp_all add: mine_def)
    then have "cp_returned c = buffer" using inv(6) uniq by auto
    moreover have "\<not> kernel_holds_buffer cap (ab_kernel a)"
      using False inv(5) [of cap] by (auto simp: kernel_holds_buffer_def ops_def split: option.splits)
    ultimately show ?thesis using c by blast
  qed
  then show ?thesis using inv(2,3) by blast
qed

definition kernel_of :: "panic + 'a \<times> mock_kernel \<Rightarrow> mock_kernel" where
  "kernel_of r = (case r of Inr (_, k) \<Rightarrow> k | Inl _ \<Rightarrow> mock_new 0)"

text \<open>One queue for one completion, two writes, of which the second cannot be posted.\<close>

definition kernel_two_writes :: mock_kernel where
  "kernel_two_writes =
     kernel_of (mock_submit 0 WriteOp (Some [8]) (kernel_of (mock_submit 0 WriteOp (Some [7])
       (kernel_of (register_shard 1 (mock_new 4))))))"

definition kernel_full :: mock_kernel where
  "kernel_full = kernel_of (mock_complete 1 (OpOk 1) (kernel_of (mock_complete 0 (OpOk 1) kernel_two_writes)))"

lemma kernel_full_reachable:
  "abi_step\<^sup>*\<^sup>* (abi_start 4) \<lparr>ab_kernel = kernel_full, ab_submitted = [(0, Some [7]), (1, Some [8])], ab_drained = []\<rparr>"
proof -
  let ?k1 = "kernel_of (register_shard 1 (mock_new 4))"
  let ?k2 = "kernel_of (mock_submit 0 WriteOp (Some [7]) ?k1)"
  let ?k4 = "kernel_of (mock_complete 0 (OpOk 1) kernel_two_writes)"
  let ?a = "\<lambda>k s. \<lparr>ab_kernel = k, ab_submitted = s, ab_drained = []\<rparr>"
  have "register_shard 1 (mock_new 4) = Inr (0, ?k1)" "mock_submit 0 WriteOp (Some [7]) ?k1 = Inr (Inr 0, ?k2)"
      "mock_submit 0 WriteOp (Some [8]) ?k2 = Inr (Inr 1, kernel_two_writes)"
      "mock_complete 0 (OpOk 1) kernel_two_writes = Inr (Posted, ?k4)" "mock_complete 1 (OpOk 1) ?k4 = Inr (Backpressured, kernel_full)"
    by code_simp+
  moreover have "map_option op_completed (map_of (mk_ops kernel_two_writes) 0) = Some False" "map_option op_completed (map_of (mk_ops ?k4) 1) = Some False"
    by code_simp+
  ultimately have
      "abi_step (?a (mock_new 4) []) (?a ?k1 [])" "abi_step (?a ?k1 []) (?a ?k2 [(0, Some [7])])"
      "abi_step (?a ?k2 [(0, Some [7])]) (?a kernel_two_writes [(0, Some [7]), (1, Some [8])])"
      "abi_step (?a kernel_two_writes [(0, Some [7]), (1, Some [8])]) (?a ?k4 [(0, Some [7]), (1, Some [8])])"
      "abi_step (?a ?k4 [(0, Some [7]), (1, Some [8])]) (?a kernel_full [(0, Some [7]), (1, Some [8])])"
    using ab_register [of 1 "?a (mock_new 4) []"] ab_submit [of 0 WriteOp "Some [7]" "?a ?k1 []"]
      ab_submit [of 0 WriteOp "Some [8]" "?a ?k2 [(0, Some [7])]"]
      ab_complete [of "?a kernel_two_writes [(0, Some [7]), (1, Some [8])]" 0 _ "OpOk 1"]
      ab_complete [of "?a ?k4 [(0, Some [7]), (1, Some [8])]" 1 _ "OpOk 1"]
    by auto
  then show ?thesis unfolding abi_start_def by (meson rtranclp.rtrancl_into_rtrancl rtranclp.rtrancl_refl)
qed

theorem charlotte_buffers_conserved_witness:
  "\<exists>op. map_of (mk_ops kernel_full) 1 = Some op \<and> \<not> op_completed op \<and> op_buffer op = Some [8]"
proof -
  let ?a = "\<lparr>ab_kernel = kernel_full, ab_submitted = [(0, Some [7]), (1, Some [8])], ab_drained = []\<rparr>"
  have "kernel_holds_buffer 1 kernel_full" by code_simp
  then show ?thesis using charlotte_buffers_conserved [OF kernel_full_reachable, of 1 "Some [8]"] by auto
qed

subsection \<open>Waiting on a full queue\<close>

text \<open>Steps of the kernel that neither drain queue \<open>cq\<close> nor wake its shard.\<close>

inductive other_step :: "nat \<Rightarrow> mock_kernel \<Rightarrow> mock_kernel \<Rightarrow> bool" for cq where
  os_register: "register_shard c k = Inr (i, k') \<Longrightarrow> other_step cq k k'"
| os_submit: "mock_submit q kind buffer k = Inr (r, k') \<Longrightarrow> other_step cq k k'"
| os_complete: "mock_complete cap result k = Inr (out, k') \<Longrightarrow> other_step cq k k'"
| os_cancel: "other_step cq k (snd (mock_cancel cap k))"
| os_close: "other_step cq k (snd (mock_close cap k))"
| os_drain: "q \<noteq> cq \<Longrightarrow> other_step cq k (snd (mock_drain q k))"
| os_wake: "q \<noteq> cq \<Longrightarrow> other_step cq k (snd (mock_wake q k))"
| os_take_woke: "other_step cq k (snd (take_woke q k))"

definition queue_full :: "nat \<Rightarrow> nat \<Rightarrow> mock_kernel \<Rightarrow> bool" where
  "queue_full cq capacity k \<longleftrightarrow>
     cq < length (mk_shards k) \<and>
     (let s = mk_shards k ! cq in length (cs_cq s) = capacity \<and> cs_capacity s = capacity \<and> cs_overflow s \<and> \<not> cs_woke s)"

lemma queue_full_step: "other_step cq k k' \<Longrightarrow> queue_full cq c k \<Longrightarrow> queue_full cq c k'"
proof (induction rule: other_step.induct)
  case (os_complete cap result k out k')
  then show ?case
    by (auto simp: mock_complete_def queue_full_def Let_def set_shard_def nth_list_update split: option.splits if_splits)
qed (auto simp: register_shard_def mock_submit_def mock_cancel_def mock_close_def mock_drain_def mock_wake_def take_woke_def
    queue_full_def Let_def set_shard_def nth_list_update nth_append split: option.splits if_splits)

text \<open>A wait for more completions than the queue can hold does not notice that the queue is full.
  When the queue of a shard is full, a completion was refused and the flag for it is set, a wait
  without a deadline for more completions than the capacity does not return, whatever the other
  threads and the kernel do short of draining that queue or waking that shard, although the shard
  itself is the one that waits.\<close>

theorem charlotte_wait_misses_overflow:
  assumes "queue_full cq capacity k" "int capacity < uint min_complete"
    and "\<forall>(now, timed_out, k') \<in> set obs. (other_step cq)\<^sup>*\<^sup>* k k'"
  shows "mock_wait cq min_complete None obs = None \<and> overflow_pending cq k"
proof -
  have full: "queue_full cq capacity k'" if "(other_step cq)\<^sup>*\<^sup>* k k'" for k'
    using that assms(1) by (induction rule: rtranclp_induct) (auto intro: queue_full_step)
  have ns: "\<not> wait_satisfied cq min_complete k'" if "queue_full cq capacity k'" for k'
  proof -
    have c: "capacity < 2 ^ 32" using assms(2) uint_bounded [of min_complete] by simp
    then have "uint (of_nat capacity :: u32) = int capacity" by (simp add: unsigned_of_nat take_bit_nat_eq_self)
    then have "\<not> min_complete \<le> of_nat capacity" using assms(2) by (simp add: word_le_def)
    moreover have "min_complete \<noteq> 0" using assms(2) by auto
    ultimately show ?thesis using that by (auto simp: wait_satisfied_def queue_full_def Let_def)
  qed
  have "mock_wait cq min_complete None obs = None"
    using assms(3)
  proof (induction obs)
    case (Cons ob obs)
    obtain now timed_out k' where ob: "ob = (now, timed_out, k')" by (cases ob)
    have "queue_full cq capacity k'" using Cons.prems ob full by auto
    then show ?case using Cons ob ns by (auto simp: queue_full_def)
  qed simp
  then show ?thesis using assms(1) by (auto simp: overflow_pending_def queue_full_def Let_def)
qed

theorem charlotte_wait_misses_overflow_witness:
  "mock_wait 0 2 None [(5, False, kernel_full), (9, False, kernel_full)] = None"
proof -
  have "queue_full 0 1 kernel_full" by code_simp
  then show ?thesis
    using charlotte_wait_misses_overflow [of 0 1 kernel_full 2 "[(5, False, kernel_full), (9, False, kernel_full)]"] by simp
qed

end
