(* ===== verification/Shard_Executor.thy ===== *)
theory Shard_Executor
  imports Sitas_Prelude
begin

text \<open>
  The executor of one shard over a reactor backend, \<open>shard_executor.rs\<close>.  Futures are states of type
  \<open>'f\<close>; what a poll does is the parameter \<open>script\<close>: the wakes and registrations it makes and the state it
  leaves, or nothing when the future is done.  A waker is the number of its task.  What other threads do
  and what the reactor reports while the executor waits is a list of events.
\<close>

subsection \<open>State\<close>

record 'f shard_exec =
  sx_tasks :: "'f option list"
  sx_queue :: "nat list"
  sx_queued :: "bool list"
  sx_io :: "(nat \<times> nat) list"
  sx_live :: nat
  sx_budget :: nat
  sx_idle_wait :: "duration option"
  sx_wakes :: nat

definition default_poll_budget :: nat where
  "default_poll_budget = 64"

definition shard_exec_new :: "'f shard_exec" where
  "shard_exec_new =
     \<lparr>sx_tasks = [], sx_queue = [], sx_queued = [], sx_io = [], sx_live = 0, sx_budget = default_poll_budget,
      sx_idle_wait = None, sx_wakes = 0\<rparr>"

definition with_idle_wait :: "duration option \<Rightarrow> 'f shard_exec \<Rightarrow> 'f shard_exec" where
  "with_idle_wait d s = s\<lparr>sx_idle_wait := d\<rparr>"

definition with_poll_budget :: "nat \<Rightarrow> 'f shard_exec \<Rightarrow> 'f shard_exec" where
  "with_poll_budget n s = s\<lparr>sx_budget := max n 1\<rparr>"

subsection \<open>Ready queue\<close>

definition mark_ready :: "nat \<Rightarrow> 'f shard_exec \<Rightarrow> 'f shard_exec" where
  "mark_ready task s =
     (let s = (if task < length (sx_queued s) \<and> \<not> sx_queued s ! task
               then s\<lparr>sx_queued := (sx_queued s)[task := True], sx_queue := sx_queue s @ [task]\<rparr> else s)
      in s\<lparr>sx_wakes := sx_wakes s + 1\<rparr>)"

definition take_ready :: "'f shard_exec \<Rightarrow> nat option \<times> 'f shard_exec" where
  "take_ready s =
     (case sx_queue s of
        [] \<Rightarrow> (None, s)
      | task # q \<Rightarrow> (Some task, s\<lparr>sx_queue := q, sx_queued := (sx_queued s)[task := False]\<rparr>))"

definition has_ready :: "'f shard_exec \<Rightarrow> bool" where
  "has_ready s \<longleftrightarrow> sx_queue s \<noteq> []"

subsection \<open>Interests\<close>

definition register_readable :: "nat \<Rightarrow> nat \<Rightarrow> 'f shard_exec \<Rightarrow> 'f shard_exec" where
  "register_readable handle waker s =
     s\<lparr>sx_io := (case list_position (\<lambda>x. fst x = handle) (sx_io s) of
                   Some i \<Rightarrow> (sx_io s)[i := (fst (sx_io s ! i), waker)]
                 | None \<Rightarrow> sx_io s @ [(handle, waker)])\<rparr>"

definition read_handles :: "'f shard_exec \<Rightarrow> nat list" where
  "read_handles s = map fst (sx_io s)"

definition io_wake_readable :: "nat \<Rightarrow> 'f shard_exec \<Rightarrow> 'f shard_exec" where
  "io_wake_readable handle s =
     (case list_position (\<lambda>x. fst x = handle) (sx_io s) of
        None \<Rightarrow> s
      | Some i \<Rightarrow> mark_ready (snd (sx_io s ! i)) (s\<lparr>sx_io := swap_remove i (sx_io s)\<rparr>))"

subsection \<open>Tasks\<close>

definition shard_spawn_task :: "'f \<Rightarrow> 'f shard_exec \<Rightarrow> 'f shard_exec" where
  "shard_spawn_task f s =
     (let task = length (sx_tasks s)
      in mark_ready task (s\<lparr>sx_tasks := sx_tasks s @ [Some f], sx_queued := sx_queued s @ [False], sx_live := sx_live s + 1\<rparr>))"

datatype shard_act = MarkReady nat | RegisterReadable nat nat

fun shard_do :: "shard_act \<Rightarrow> 'f shard_exec \<Rightarrow> 'f shard_exec" where
  "shard_do (MarkReady task) s = mark_ready task s"
| "shard_do (RegisterReadable handle waker) s = register_readable handle waker s"

type_synonym 'f poll_script = "nat \<Rightarrow> 'f \<Rightarrow> shard_act list \<times> 'f option"

definition poll_task :: "'f poll_script \<Rightarrow> nat \<Rightarrow> 'f shard_exec \<Rightarrow> 'f shard_exec" where
  "poll_task script task s =
     (if length (sx_tasks s) \<le> task then s
      else case sx_tasks s ! task of
             None \<Rightarrow> s
           | Some f \<Rightarrow>
               (let (acts, f') = script task f;
                    s = fold shard_do acts (s\<lparr>sx_tasks := (sx_tasks s)[task := None]\<rparr>)
                in case f' of
                     None \<Rightarrow> s\<lparr>sx_live := sx_live s - 1\<rparr>
                   | Some f' \<Rightarrow> s\<lparr>sx_tasks := (sx_tasks s)[task := Some f']\<rparr>))"

text \<open>The polled tasks are returned in order; the source only counts them.\<close>

fun poll_budgeted :: "'f poll_script \<Rightarrow> nat \<Rightarrow> 'f shard_exec \<Rightarrow> nat list \<times> 'f shard_exec" where
  "poll_budgeted script 0 s = ([], s)"
| "poll_budgeted script (Suc n) s =
     (case take_ready s of
        (None, s) \<Rightarrow> ([], s)
      | (Some task, s) \<Rightarrow>
          (let (polled, s) = poll_budgeted script n (poll_task script task s) in (task # polled, s)))"

text \<open>A wait of the reactor is given the handles of interest and the bound, and yields what other threads did
  to the ready queue and the interests until it ended and the readable handles it reports, or nothing when
  it failed.  The waits of a run are a list; the run is stuck when it is used up.\<close>

type_synonym reactor_wait_fn = "nat list \<Rightarrow> duration option \<Rightarrow> shard_act list \<times> nat list option"

fun shard_run :: "'f poll_script \<Rightarrow> nat \<Rightarrow> reactor_wait_fn list \<Rightarrow> 'f shard_exec \<Rightarrow> 'f shard_exec option" where
  "shard_run script 0 waits s = None"
| "shard_run script (Suc fuel) waits s =
     (if sx_live s = 0 then Some s
      else let s = snd (poll_budgeted script (sx_budget s) s)
           in if sx_live s = 0 then Some s
              else if has_ready s then shard_run script fuel waits s
              else case waits of
                     [] \<Rightarrow> None
                   | wait # waits \<Rightarrow>
                       (case wait (read_handles s) (sx_idle_wait s) of
                          (acts, None) \<Rightarrow> shard_run script fuel waits (fold shard_do acts s)
                        | (acts, Some readable) \<Rightarrow>
                            shard_run script fuel waits (fold io_wake_readable readable (fold shard_do acts s))))"

subsection \<open>The invariant\<close>

text \<open>\<open>r\<close> is the number of tasks whose future is out of its slot because it is being polled.\<close>

definition shard_exec_inv :: "nat \<Rightarrow> 'f shard_exec \<Rightarrow> bool" where
  "shard_exec_inv r s \<longleftrightarrow>
     length (sx_queued s) = length (sx_tasks s) \<and> distinct (sx_queue s) \<and> set (sx_queue s) \<subseteq> {..<length (sx_tasks s)} \<and>
     (\<forall>i<length (sx_tasks s). sx_queued s ! i \<longleftrightarrow> i \<in> set (sx_queue s)) \<and>
     sx_live s = length (filter (\<lambda>t. t \<noteq> None) (sx_tasks s)) + r \<and> distinct (map fst (sx_io s)) \<and> 0 < sx_budget s"

lemma mark_ready_fields [simp]:
  "sx_tasks (mark_ready t s) = sx_tasks s" "sx_live (mark_ready t s) = sx_live s" "sx_io (mark_ready t s) = sx_io s"
  "sx_budget (mark_ready t s) = sx_budget s"
  by (simp_all add: mark_ready_def Let_def)

lemma inv_mark_ready: "shard_exec_inv r s \<Longrightarrow> shard_exec_inv r (mark_ready t s)"
  by (auto simp: shard_exec_inv_def mark_ready_def Let_def nth_list_update)

lemma mark_ready_queues:
  "shard_exec_inv r s \<Longrightarrow> t < length (sx_tasks s) \<Longrightarrow> t \<in> set (sx_queue (mark_ready t s))"
  by (auto simp: shard_exec_inv_def mark_ready_def Let_def)

lemma mark_ready_prefix: "\<exists>q. sx_queue (mark_ready t s) = sx_queue s @ q"
  by (auto simp: mark_ready_def Let_def)

lemma inv_register: "shard_exec_inv r s \<Longrightarrow> shard_exec_inv r (register_readable h w s)"
proof -
  assume inv: "shard_exec_inv r s"
  have "distinct (map fst (sx_io (register_readable h w s)))"
  proof (cases "list_position (\<lambda>x. fst x = h) (sx_io s)")
    case None
    then have "h \<notin> fst ` set (sx_io s)" by (auto simp: list_position_None)
    then show ?thesis using inv None by (simp add: register_readable_def shard_exec_inv_def)
  next
    case (Some i)
    then have "i < length (sx_io s)" using list_position_Some [OF Some] by simp
    then have "map fst ((sx_io s)[i := (fst (sx_io s ! i), w)]) = map fst (sx_io s)"
      by (simp add: map_update list_update_same_conv)
    then show ?thesis using inv Some by (simp add: register_readable_def shard_exec_inv_def)
  qed
  then show ?thesis using inv by (simp add: shard_exec_inv_def register_readable_def)
qed

lemma inv_shard_do: "shard_exec_inv r s \<Longrightarrow> shard_exec_inv r (shard_do act s)"
  by (cases act) (simp_all add: inv_mark_ready inv_register)

lemma shard_do_fields [simp]:
  "sx_tasks (shard_do act s) = sx_tasks s" "sx_live (shard_do act s) = sx_live s" "sx_budget (shard_do act s) = sx_budget s"
  by (cases act; simp add: register_readable_def)+

lemma shard_do_prefix: "\<exists>q. sx_queue (shard_do act s) = sx_queue s @ q"
  by (cases act) (simp_all add: mark_ready_prefix register_readable_def)

lemma fold_shard_do:
  "sx_tasks (fold shard_do acts s) = sx_tasks s" "sx_live (fold shard_do acts s) = sx_live s"
  "sx_budget (fold shard_do acts s) = sx_budget s" "shard_exec_inv r s \<Longrightarrow> shard_exec_inv r (fold shard_do acts s)"
  "\<exists>q. sx_queue (fold shard_do acts s) = sx_queue s @ q"
proof -
  show "sx_tasks (fold shard_do acts s) = sx_tasks s" "sx_live (fold shard_do acts s) = sx_live s"
      "sx_budget (fold shard_do acts s) = sx_budget s" "shard_exec_inv r s \<Longrightarrow> shard_exec_inv r (fold shard_do acts s)"
    by (induction acts arbitrary: s) (auto simp: inv_shard_do)
  show "\<exists>q. sx_queue (fold shard_do acts s) = sx_queue s @ q"
  proof (induction acts arbitrary: s)
    case (Cons act acts)
    obtain q where "sx_queue (shard_do act s) = sx_queue s @ q" using shard_do_prefix by blast
    then show ?case using Cons.IH [of "shard_do act s"] by auto
  qed simp
qed

lemma inv_io_wake_readable: "shard_exec_inv r s \<Longrightarrow> shard_exec_inv r (io_wake_readable h s)"
proof (cases "list_position (\<lambda>x. fst x = h) (sx_io s)")
  case (Some i)
  assume inv: "shard_exec_inv r s"
  have i: "i < length (sx_io s)" using list_position_Some [OF Some] by simp
  have "mset (fst (sx_io s ! i) # map fst (swap_remove i (sx_io s))) = mset (map fst (sx_io s))"
    using arg_cong [OF mset_swap_remove [OF i], of "image_mset fst"] by simp
  from mset_eq_imp_distinct_iff [OF this] have "distinct (map fst (swap_remove i (sx_io s)))"
    using inv by (simp add: shard_exec_inv_def)
  then have "shard_exec_inv r (s\<lparr>sx_io := swap_remove i (sx_io s)\<rparr>)" using inv by (simp add: shard_exec_inv_def)
  then show ?thesis using Some by (simp add: io_wake_readable_def inv_mark_ready)
qed (simp add: io_wake_readable_def)

lemma io_wake_readable_fields [simp]:
  "sx_tasks (io_wake_readable h s) = sx_tasks s" "sx_live (io_wake_readable h s) = sx_live s" "sx_budget (io_wake_readable h s) = sx_budget s"
  by (simp_all add: io_wake_readable_def split: option.splits)

lemma inv_wake_all: "shard_exec_inv r s \<Longrightarrow> shard_exec_inv r (fold io_wake_readable hs s)"
  by (induction hs arbitrary: s) (auto simp: inv_io_wake_readable)

lemma inv_spawn: "shard_exec_inv r s \<Longrightarrow> shard_exec_inv r (shard_spawn_task f s)"
  unfolding shard_spawn_task_def Let_def by (rule inv_mark_ready) (auto simp: shard_exec_inv_def nth_append less_Suc_eq)

lemma take_ready_Some:
  assumes "shard_exec_inv r s" "take_ready s = (Some t, s')"
  shows "shard_exec_inv r s'" "t < length (sx_tasks s)" "sx_queue s = t # sx_queue s'" "sx_tasks s' = sx_tasks s" "sx_live s' = sx_live s"
    "sx_budget s' = sx_budget s"
  using assms by (auto simp: take_ready_def shard_exec_inv_def nth_list_update split: list.splits if_splits)

lemma take_ready_None: "take_ready s = (None, s') \<Longrightarrow> s' = s \<and> sx_queue s = []"
  by (auto simp: take_ready_def split: list.splits)

lemma poll_task_inv:
  assumes "shard_exec_inv 0 s" "t < length (sx_tasks s)"
  shows "shard_exec_inv 0 (poll_task script t s)" "length (sx_tasks (poll_task script t s)) = length (sx_tasks s)"
    "sx_budget (poll_task script t s) = sx_budget s" "\<exists>q. sx_queue (poll_task script t s) = sx_queue s @ q"
    "\<forall>i. i \<noteq> t \<longrightarrow> sx_tasks (poll_task script t s) ! i = sx_tasks s ! i"
    "\<And>f. sx_tasks s ! t = Some f \<Longrightarrow> sx_tasks (poll_task script t s) ! t = snd (script t f)"
    "sx_tasks s ! t = None \<Longrightarrow> poll_task script t s = s"
proof -
  have "shard_exec_inv 0 (poll_task script t s) \<and> length (sx_tasks (poll_task script t s)) = length (sx_tasks s) \<and>
    sx_budget (poll_task script t s) = sx_budget s \<and> (\<exists>q. sx_queue (poll_task script t s) = sx_queue s @ q) \<and>
    (\<forall>i. i \<noteq> t \<longrightarrow> sx_tasks (poll_task script t s) ! i = sx_tasks s ! i) \<and>
    (\<forall>f. sx_tasks s ! t = Some f \<longrightarrow> sx_tasks (poll_task script t s) ! t = snd (script t f)) \<and>
    (sx_tasks s ! t = None \<longrightarrow> poll_task script t s = s)"
  proof (cases "sx_tasks s ! t")
    case None
    then show ?thesis using assms by (simp add: poll_task_def)
  next
    case (Some f)
    obtain acts f' where sc: "script t f = (acts, f')" by (cases "script t f")
    let ?taken = "s\<lparr>sx_tasks := (sx_tasks s)[t := None]\<rparr>"
    let ?polled = "fold shard_do acts ?taken"
    have cnt: "length (filter (\<lambda>t. t \<noteq> None) ((sx_tasks s)[t := None])) + 1 = length (filter (\<lambda>t. t \<noteq> None) (sx_tasks s))"
      using length_filter_update [OF assms(2), of "\<lambda>t. t \<noteq> None" None] Some by simp
    have i1: "shard_exec_inv 1 ?taken" using assms(1) cnt by (simp add: shard_exec_inv_def)
    note f = fold_shard_do [where acts = acts and s = ?taken] and i2 = fold_shard_do(4) [OF i1, of acts]
    have q: "\<exists>q. sx_queue ?polled = sx_queue s @ q" using f(5) by simp
    show ?thesis
    proof (cases f')
      case None
      have "poll_task script t s = ?polled\<lparr>sx_live := sx_live ?polled - 1\<rparr>" using assms(2) Some sc None by (simp add: poll_task_def Let_def)
      moreover have "shard_exec_inv 0 (?polled\<lparr>sx_live := sx_live ?polled - 1\<rparr>)" using i2 by (simp add: shard_exec_inv_def)
      ultimately show ?thesis using f(1-3) q Some sc None assms(2) by simp
    next
      case (Some g)
      have "poll_task script t s = ?polled\<lparr>sx_tasks := (sx_tasks ?polled)[t := Some g]\<rparr>" using assms(2) \<open>sx_tasks s ! t = Some f\<close> sc Some by (simp add: poll_task_def Let_def)
      moreover have "shard_exec_inv 0 (?polled\<lparr>sx_tasks := (sx_tasks ?polled)[t := Some g]\<rparr>)"
        using i2 f(1) assms(2) cnt length_filter_update [OF assms(2), of "\<lambda>t. t \<noteq> None" "Some g"] \<open>sx_tasks s ! t = Some f\<close>
        by (simp add: shard_exec_inv_def)
      ultimately show ?thesis using f(1-3) q Some sc assms(2) \<open>sx_tasks s ! t = Some f\<close> by simp
    qed
  qed
  then show "shard_exec_inv 0 (poll_task script t s)" "length (sx_tasks (poll_task script t s)) = length (sx_tasks s)"
    "sx_budget (poll_task script t s) = sx_budget s" "\<exists>q. sx_queue (poll_task script t s) = sx_queue s @ q"
    "\<forall>i. i \<noteq> t \<longrightarrow> sx_tasks (poll_task script t s) ! i = sx_tasks s ! i"
    "\<And>f. sx_tasks s ! t = Some f \<Longrightarrow> sx_tasks (poll_task script t s) ! t = snd (script t f)"
    "sx_tasks s ! t = None \<Longrightarrow> poll_task script t s = s" by auto
qed


subsection \<open>Batches\<close>

lemma poll_budgeted_step:
  assumes "shard_exec_inv 0 s" "sx_queue s = t # q"
  obtains s1 where "take_ready s = (Some t, s1)" "shard_exec_inv 0 s1" "t < length (sx_tasks s1)" "sx_queue s1 = q"
    "sx_tasks s1 = sx_tasks s" "sx_io s1 = sx_io s" "sx_budget s1 = sx_budget s"
    "poll_budgeted script (Suc n) s =
       (t # fst (poll_budgeted script n (poll_task script t s1)), snd (poll_budgeted script n (poll_task script t s1)))"
proof -
  obtain s1 where s1: "take_ready s = (Some t, s1)" and io: "sx_io s1 = sx_io s" using assms(2) by (simp add: take_ready_def)
  note k = take_ready_Some [OF assms(1) s1]
  show thesis using that [OF s1 k(1) _ _ k(4) io k(6)] k(2-4) assms(2) by (simp add: s1 case_prod_beta)
qed

lemma poll_budgeted_inv:
  assumes "shard_exec_inv 0 s"
  shows "shard_exec_inv 0 (snd (poll_budgeted script n s)) \<and>
    length (sx_tasks (snd (poll_budgeted script n s))) = length (sx_tasks s) \<and>
    sx_budget (snd (poll_budgeted script n s)) = sx_budget s \<and>
    take (length (sx_queue s)) (fst (poll_budgeted script n s)) = take n (sx_queue s) \<and>
    length (fst (poll_budgeted script n s)) \<le> n \<and>
    (\<forall>i<length (sx_tasks s). i \<notin> set (fst (poll_budgeted script n s)) \<longrightarrow>
       sx_tasks (snd (poll_budgeted script n s)) ! i = sx_tasks s ! i)"
  using assms
proof (induction n arbitrary: s)
  case (Suc n)
  show ?case
  proof (cases "sx_queue s")
    case Nil
    then show ?thesis using Suc.prems by (simp add: take_ready_def)
  next
    case (Cons t q)
    obtain s1 where k: "shard_exec_inv 0 s1" "t < length (sx_tasks s1)" "sx_queue s1 = q" "sx_tasks s1 = sx_tasks s"
      "sx_budget s1 = sx_budget s" "poll_budgeted script (Suc n) s =
       (t # fst (poll_budgeted script n (poll_task script t s1)), snd (poll_budgeted script n (poll_task script t s1)))"
      using poll_budgeted_step [OF Suc.prems Cons] by metis
    note p = poll_task_inv [OF k(1,2), where script = script]
    obtain q' where q': "sx_queue (poll_task script t s1) = q @ q'" using p(4) k(3) by auto
    note ih = Suc.IH [OF p(1)]
    have "take (length q) (fst (poll_budgeted script n (poll_task script t s1))) =
        take (length q) (take (length (q @ q')) (fst (poll_budgeted script n (poll_task script t s1))))"
      by (simp add: min_absorb1)
    also have "\<dots> = take n (take (length q) (q @ q'))" using ih q' by (simp only: take_take min.commute)
    finally show ?thesis using ih k p(2,3,5) Cons by simp
  qed
qed simp

subsection \<open>Completion\<close>

text \<open>A future is cooperative when a pending poll makes progress by the measure \<open>m\<close> and leaves its task either
  woken or registered for its own handle, and registers nothing else.\<close>

definition cooperative :: "'f poll_script \<Rightarrow> (nat \<Rightarrow> nat) \<Rightarrow> ('f \<Rightarrow> nat) \<Rightarrow> bool" where
  "cooperative script hnd m \<longleftrightarrow>
     inj hnd \<and>
     (\<forall>t f. (\<forall>h w. RegisterReadable h w \<in> set (fst (script t f)) \<longrightarrow> h = hnd t \<and> w = t) \<and>
        (case snd (script t f) of
           None \<Rightarrow> True
         | Some f' \<Rightarrow> m f' < m f \<and> (MarkReady t \<in> set (fst (script t f)) \<or> RegisterReadable (hnd t) t \<in> set (fst (script t f)))))"

text \<open>A wait for some handles is productive when it reports one of them; other threads may wake any task.\<close>

definition productive :: "reactor_wait_fn \<Rightarrow> bool" where
  "productive wait \<longleftrightarrow>
     (\<forall>read d. read \<noteq> [] \<longrightarrow>
        (\<forall>a\<in>set (fst (wait read d)). \<exists>t. a = MarkReady t) \<and>
        (\<exists>readable. snd (wait read d) = Some readable \<and> set readable \<inter> set read \<noteq> {}))"

definition io_own :: "(nat \<Rightarrow> nat) \<Rightarrow> 'f shard_exec \<Rightarrow> bool" where
  "io_own hnd s \<longleftrightarrow> (\<forall>x\<in>set (sx_io s). fst x = hnd (snd x) \<and> snd x < length (sx_tasks s))"

definition act_own :: "(nat \<Rightarrow> nat) \<Rightarrow> nat \<Rightarrow> shard_act \<Rightarrow> bool" where
  "act_own hnd n act = (case act of MarkReady t \<Rightarrow> True | RegisterReadable h w \<Rightarrow> h = hnd w \<and> w < n)"

definition covered :: "(nat \<Rightarrow> nat) \<Rightarrow> nat set \<Rightarrow> 'f shard_exec \<Rightarrow> bool" where
  "covered hnd xs s \<longleftrightarrow>
     (\<forall>t<length (sx_tasks s). t \<notin> xs \<longrightarrow> sx_tasks s ! t \<noteq> None \<longrightarrow> t \<in> set (sx_queue s) \<or> (hnd t, t) \<in> set (sx_io s))"

definition work_left :: "('f \<Rightarrow> nat) \<Rightarrow> 'f shard_exec \<Rightarrow> nat" where
  "work_left m s = sum_list (map (\<lambda>x. case x of None \<Rightarrow> 0 | Some f \<Rightarrow> m f + 1) (sx_tasks s))"

definition waits_left :: "('f \<Rightarrow> nat) \<Rightarrow> 'f shard_exec \<Rightarrow> nat" where
  "waits_left m s = work_left m s * (length (sx_tasks s) + 1) + length (sx_io s)"

definition rounds_left :: "('f \<Rightarrow> nat) \<Rightarrow> 'f shard_exec \<Rightarrow> nat" where
  "rounds_left m s = waits_left m s * (length (sx_tasks s) + 1) + length (sx_queue s)"

lemma register_io:
  assumes "inj hnd" "io_own hnd s"
  shows "sx_io (register_readable (hnd w) w s) = (if (hnd w, w) \<in> set (sx_io s) then sx_io s else sx_io s @ [(hnd w, w)])"
proof (cases "list_position (\<lambda>x. fst x = hnd w) (sx_io s)")
  case None
  then have "(hnd w, w) \<notin> set (sx_io s)" by (auto simp: list_position_None)
  then show ?thesis using None by (simp add: register_readable_def)
next
  case (Some i)
  have i: "i < length (sx_io s)" "fst (sx_io s ! i) = hnd w" using list_position_Some [OF Some] by simp_all
  then have "hnd (snd (sx_io s ! i)) = hnd w" using assms(2) nth_mem [OF i(1)] by (simp add: io_own_def)
  then have "sx_io s ! i = (hnd w, w)" using i(2) injD [OF assms(1)] by (metis prod.collapse)
  moreover from this have "(hnd w, w) \<in> set (sx_io s)" using nth_mem [OF i(1)] by simp
  ultimately show ?thesis using Some list_update_id [of "sx_io s" i] by (simp add: register_readable_def)
qed

lemma shard_do_mono:
  assumes "inj hnd" "io_own hnd s" "act_own hnd (length (sx_tasks s)) act"
  shows "io_own hnd (shard_do act s) \<and> set (sx_queue s) \<subseteq> set (sx_queue (shard_do act s)) \<and>
    set (sx_io s) \<subseteq> set (sx_io (shard_do act s)) \<and>
    (\<forall>t. act = MarkReady t \<longrightarrow> sx_io (shard_do act s) = sx_io s) \<and>
    (\<forall>h w. act = RegisterReadable h w \<longrightarrow> (h, w) \<in> set (sx_io (shard_do act s)))"
proof (cases act)
  case (MarkReady t)
  then show ?thesis using assms by (auto simp: io_own_def mark_ready_def Let_def)
next
  case (RegisterReadable h w)
  then have hw: "h = hnd w" "w < length (sx_tasks s)" using assms(3) by (simp_all add: act_own_def)
  have "sx_queue (shard_do act s) = sx_queue s" "sx_tasks (shard_do act s) = sx_tasks s"
    using RegisterReadable by (simp_all add: register_readable_def)
  then show ?thesis using register_io [OF assms(1,2), of w] assms(2) hw RegisterReadable by (auto simp: io_own_def)
qed

lemma fold_shard_do_mono:
  assumes "inj hnd" "io_own hnd s" "shard_exec_inv r s" "\<forall>act\<in>set acts. act_own hnd (length (sx_tasks s)) act"
  shows "io_own hnd (fold shard_do acts s) \<and> set (sx_queue s) \<subseteq> set (sx_queue (fold shard_do acts s)) \<and>
    set (sx_io s) \<subseteq> set (sx_io (fold shard_do acts s)) \<and>
    ((\<forall>act\<in>set acts. \<exists>t. act = MarkReady t) \<longrightarrow> sx_io (fold shard_do acts s) = sx_io s) \<and>
    (\<forall>t<length (sx_tasks s). MarkReady t \<in> set acts \<longrightarrow> t \<in> set (sx_queue (fold shard_do acts s))) \<and>
    (\<forall>h w. RegisterReadable h w \<in> set acts \<longrightarrow> (h, w) \<in> set (sx_io (fold shard_do acts s)))"
  using assms(2-)
proof (induction acts arbitrary: s)
  case (Cons act acts)
  note one = shard_do_mono [OF assms(1) Cons.prems(1), of act]
  have "act_own hnd (length (sx_tasks s)) act" using Cons.prems(3) by simp
  note one = one [OF this]
  have marked: "t \<in> set (sx_queue (shard_do act s))" if "act = MarkReady t" "t < length (sx_tasks s)" for t
    using mark_ready_queues [OF Cons.prems(2) that(2)] that(1) by simp
  have "io_own hnd (shard_do act s)" using one by blast
  note ih = Cons.IH [OF this inv_shard_do [OF Cons.prems(2)]]
  have "\<forall>a\<in>set acts. act_own hnd (length (sx_tasks (shard_do act s))) a" using Cons.prems(3) by simp
  note ih = ih [OF this]
  show ?case using ih one marked by (auto 0 3)
qed simp

lemma io_bound:
  assumes "shard_exec_inv r s" "io_own hnd s"
  shows "length (sx_io s) \<le> length (sx_tasks s)" "length (sx_queue s) \<le> length (sx_tasks s)"
proof -
  have "length (sx_io s) = card (set (map fst (sx_io s)))"
    using assms(1) distinct_card [of "map fst (sx_io s)"] by (simp add: shard_exec_inv_def)
  also have "\<dots> \<le> card (hnd ` {..<length (sx_tasks s)})" using assms(2) by (intro card_mono) (auto simp: io_own_def)
  also have "\<dots> \<le> length (sx_tasks s)" using card_image_le [of "{..<length (sx_tasks s)}" hnd] by simp
  finally show "length (sx_io s) \<le> length (sx_tasks s)" .
  have "length (sx_queue s) = card (set (sx_queue s))" using assms(1) distinct_card by (metis shard_exec_inv_def)
  also have "\<dots> \<le> card {..<length (sx_tasks s)}" using assms(1) by (intro card_mono) (auto simp: shard_exec_inv_def)
  finally show "length (sx_queue s) \<le> length (sx_tasks s)" by simp
qed

lemma poll_task_live:
  assumes "t < length (sx_tasks s)" "sx_tasks s ! t = Some f"
  shows "sx_queue (poll_task script t s) = sx_queue (fold shard_do (fst (script t f)) (s\<lparr>sx_tasks := (sx_tasks s)[t := None]\<rparr>))"
    "sx_io (poll_task script t s) = sx_io (fold shard_do (fst (script t f)) (s\<lparr>sx_tasks := (sx_tasks s)[t := None]\<rparr>))"
    "sx_tasks (poll_task script t s) = (sx_tasks s)[t := snd (script t f)]"
  using assms by (simp_all add: poll_task_def Let_def fold_shard_do(1) case_prod_beta split: option.splits)

lemma work_left_poll:
  assumes "t < length (sx_tasks s)" "sx_tasks s ! t = Some f" "\<And>f'. snd (script t f) = Some f' \<Longrightarrow> m f' < m f"
  shows "work_left m (poll_task script t s) < work_left m s"
proof -
  let ?w = "\<lambda>x. case x of None \<Rightarrow> 0 | Some f \<Rightarrow> m f + 1"
  have "?w (sx_tasks s ! t) \<le> work_left m s"
    unfolding work_left_def using nth_mem [OF assms(1)] by (intro member_le_sum_list) (simp_all only: set_map image_eqI zero_le)
  moreover have "?w (snd (script t f)) < ?w (sx_tasks s ! t)" using assms(2,3) by (auto split: option.splits)
  ultimately show ?thesis
    using assms(1) by (simp add: work_left_def poll_task_live(3) [OF assms(1,2)] map_update sum_list_update)
qed

lemma poll_progress:
  assumes coop: "cooperative script hnd m" and inv: "shard_exec_inv 0 s" "io_own hnd s" "covered hnd {t} s" "t < length (sx_tasks s)"
  shows "io_own hnd (poll_task script t s) \<and> covered hnd {} (poll_task script t s) \<and>
    (poll_task script t s = s \<or> work_left m (poll_task script t s) < work_left m s)"
proof (cases "sx_tasks s ! t")
  case None
  moreover from this have "covered hnd {} s" using inv(3) by (auto simp: covered_def)
  ultimately show ?thesis using poll_task_inv(7) [OF inv(1,4)] inv(2) by simp
next
  case (Some f)
  let ?acts = "fst (script t f)" and ?taken = "s\<lparr>sx_tasks := (sx_tasks s)[t := None]\<rparr>"
  have "length (filter (\<lambda>t. t \<noteq> None) ((sx_tasks s)[t := None])) + 1 = length (filter (\<lambda>t. t \<noteq> None) (sx_tasks s))"
    using length_filter_update [OF inv(4), of "\<lambda>t. t \<noteq> None" None] Some by simp
  then have i1: "shard_exec_inv 1 ?taken" using inv(1) by (simp add: shard_exec_inv_def)
  have c: "inj hnd" "\<And>h w. RegisterReadable h w \<in> set ?acts \<Longrightarrow> h = hnd t \<and> w = t"
    "\<And>f'. snd (script t f) = Some f' \<Longrightarrow> m f' < m f \<and> (MarkReady t \<in> set ?acts \<or> RegisterReadable (hnd t) t \<in> set ?acts)"
    using coop by (auto simp: cooperative_def split: option.splits)
  have "io_own hnd ?taken" using inv(2) by (simp add: io_own_def)
  moreover have "\<forall>act\<in>set ?acts. act_own hnd (length (sx_tasks ?taken)) act"
    using c(2) inv(4) by (auto simp: act_own_def split: shard_act.splits)
  ultimately have mono: "io_own hnd (fold shard_do ?acts ?taken)" "set (sx_queue s) \<subseteq> set (sx_queue (poll_task script t s))"
    "set (sx_io s) \<subseteq> set (sx_io (poll_task script t s))"
    "MarkReady t \<in> set ?acts \<Longrightarrow> t \<in> set (sx_queue (poll_task script t s))"
    "RegisterReadable (hnd t) t \<in> set ?acts \<Longrightarrow> (hnd t, t) \<in> set (sx_io (poll_task script t s))"
    using fold_shard_do_mono [OF c(1) _ i1, of ?acts] inv(4) by (simp_all add: poll_task_live [OF inv(4) Some])
  have "io_own hnd (poll_task script t s)"
    using mono(1) by (simp add: io_own_def poll_task_live [OF inv(4) Some] fold_shard_do(1))
  moreover have "covered hnd {} (poll_task script t s)"
    unfolding covered_def
  proof (intro allI impI)
    fix i assume i: "i < length (sx_tasks (poll_task script t s))" "sx_tasks (poll_task script t s) ! i \<noteq> None"
    show "i \<in> set (sx_queue (poll_task script t s)) \<or> (hnd i, i) \<in> set (sx_io (poll_task script t s))"
    proof (cases "i = t")
      case True
      then obtain f' where "snd (script t f) = Some f'" using i poll_task_live(3) [OF inv(4) Some] inv(4) by auto
      then show ?thesis using c(3) mono(4,5) True by blast
    next
      case False
      then have "sx_tasks s ! i \<noteq> None" "i < length (sx_tasks s)" using i poll_task_live(3) [OF inv(4) Some] by simp_all
      then show ?thesis using inv(3) False mono(2,3) by (auto simp: covered_def)
    qed
  qed
  moreover have "work_left m (poll_task script t s) < work_left m s"
    using work_left_poll [where m = m and script = script, OF inv(4) Some] c(3) by blast
  ultimately show ?thesis by blast
qed

definition run_ok :: "(nat \<Rightarrow> nat) \<Rightarrow> 'f shard_exec \<Rightarrow> bool" where
  "run_ok hnd s \<longleftrightarrow> shard_exec_inv 0 s \<and> io_own hnd s \<and> covered hnd {} s"

lemma rounds_less:
  fixes a b n p q :: nat
  shows "a < b \<Longrightarrow> p \<le> n \<Longrightarrow> a * (n + 1) + p < b * (n + 1) + q"
proof -
  assume "a < b" "p \<le> n"
  then have "a * (n + 1) + p < (a + 1) * (n + 1)" by simp
  also have "\<dots> \<le> b * (n + 1)" using \<open>a < b\<close> by (intro mult_right_mono) auto
  finally show ?thesis by simp
qed

lemma one_poll:
  assumes coop: "cooperative script hnd m" and ok: "run_ok hnd s" and q: "sx_queue s = t # q" and tr: "take_ready s = (Some t, s1)"
  shows "run_ok hnd (poll_task script t s1) \<and> length (sx_tasks (poll_task script t s1)) = length (sx_tasks s) \<and>
    waits_left m (poll_task script t s1) \<le> waits_left m s \<and> rounds_left m (poll_task script t s1) < rounds_left m s"
proof -
  let ?p = "poll_task script t s1"
  have inv: "shard_exec_inv 0 s" "io_own hnd s" "covered hnd {} s" using ok by (simp_all add: run_ok_def)
  note k = take_ready_Some [OF inv(1) tr]
  have io: "sx_io s1 = sx_io s" using tr q by (auto simp: take_ready_def)
  have "io_own hnd s1" "covered hnd {t} s1" using inv(2,3) k(3,4) io by (auto simp: io_own_def covered_def)
  note pr = poll_progress [OF coop k(1) this] and p = poll_task_inv [OF k(1), of t, where script = script]
  have t: "t < length (sx_tasks s1)" using k(2,4) by simp
  have pok: "run_ok hnd ?p" "length (sx_tasks ?p) = length (sx_tasks s)" using pr [OF t] p(1,2) [OF t] k(4) by (simp_all add: run_ok_def)
  have b: "length (sx_io ?p) \<le> length (sx_tasks s)" "length (sx_queue ?p) \<le> length (sx_tasks s)"
    using io_bound [of 0 ?p hnd] pok by (simp_all add: run_ok_def)
  have wl: "work_left m s1 = work_left m s" using k(4) by (simp add: work_left_def)
  from pr [OF t] consider "?p = s1" | "work_left m ?p < work_left m s" using wl by auto
  then show ?thesis
  proof cases
    case 1
    then show ?thesis using pok k(3,4) io wl by (simp add: waits_left_def rounds_left_def)
  next
    case 2
    then have "waits_left m ?p < waits_left m s" using rounds_less [OF 2 b(1)] pok(2) by (simp add: waits_left_def)
    then show ?thesis using pok rounds_less [OF _ b(2)] by (simp add: rounds_left_def)
  qed
qed

lemma batch_progress:
  assumes coop: "cooperative script hnd m" and ok: "run_ok hnd s"
  shows "run_ok hnd (snd (poll_budgeted script n s)) \<and>
    length (sx_tasks (snd (poll_budgeted script n s))) = length (sx_tasks s) \<and>
    waits_left m (snd (poll_budgeted script n s)) \<le> waits_left m s \<and>
    rounds_left m (snd (poll_budgeted script n s)) \<le> rounds_left m s \<and>
    (0 < n \<longrightarrow> sx_queue s \<noteq> [] \<longrightarrow> rounds_left m (snd (poll_budgeted script n s)) < rounds_left m s)"
  using ok
proof (induction n arbitrary: s)
  case (Suc n)
  show ?case
  proof (cases "sx_queue s")
    case Nil
    then show ?thesis using Suc.prems by (simp add: take_ready_def)
  next
    case (Cons t q)
    have "shard_exec_inv 0 s" using Suc.prems by (simp add: run_ok_def)
    then obtain s1 where k: "take_ready s = (Some t, s1)" "poll_budgeted script (Suc n) s =
       (t # fst (poll_budgeted script n (poll_task script t s1)), snd (poll_budgeted script n (poll_task script t s1)))"
      using poll_budgeted_step [OF _ Cons] by metis
    note one = one_poll [OF coop Suc.prems Cons k(1)]
    then have "run_ok hnd (poll_task script t s1)" by blast
    from Suc.IH [OF this] one show ?thesis unfolding k(2) snd_conv by linarith
  qed
qed simp

lemma io_wake_readable_miss: "h \<notin> set (read_handles s) \<Longrightarrow> io_wake_readable h s = s"
  by (auto simp: io_wake_readable_def read_handles_def list_position_None image_iff split: option.splits dest!: list_position_Some)

lemma io_wake_readable_hit:
  assumes "run_ok hnd s" "h \<in> set (read_handles s)"
  shows "run_ok hnd (io_wake_readable h s) \<and> length (sx_io (io_wake_readable h s)) < length (sx_io s)"
proof -
  have inv: "shard_exec_inv 0 s" "io_own hnd s" "covered hnd {} s" using assms(1) by (simp_all add: run_ok_def)
  obtain i where Some: "list_position (\<lambda>x. fst x = h) (sx_io s) = Some i"
    using assms(2) by (cases "list_position (\<lambda>x. fst x = h) (sx_io s)") (auto simp: list_position_None read_handles_def)
  have i: "i < length (sx_io s)" using list_position_Some [OF Some] by simp
  let ?r = "s\<lparr>sx_io := swap_remove i (sx_io s)\<rparr>" and ?w = "snd (sx_io s ! i)"
  have set: "set (sx_io s) = insert (sx_io s ! i) (set (swap_remove i (sx_io s)))"
    using arg_cong [OF mset_swap_remove [OF i], of set_mset] by simp
  have len: "length (sx_io s) = Suc (length (swap_remove i (sx_io s)))"
    using arg_cong [OF mset_swap_remove [OF i], of size] by simp
  have w: "?w < length (sx_tasks s)" "fst (sx_io s ! i) = hnd ?w" using inv(2) nth_mem [OF i] by (simp_all add: io_own_def)
  have eq: "io_wake_readable h s = mark_ready ?w ?r" using Some by (simp add: io_wake_readable_def)
  have "shard_exec_inv 0 (io_wake_readable h s)" by (rule inv_io_wake_readable [OF inv(1)])
  moreover have "io_own hnd (io_wake_readable h s)" using inv(2) set by (simp add: eq io_own_def)
  moreover have "covered hnd {} (io_wake_readable h s)"
    unfolding covered_def
  proof (intro allI impI)
    fix t assume t: "t < length (sx_tasks (io_wake_readable h s))" "sx_tasks (io_wake_readable h s) ! t \<noteq> None"
    have "set (sx_queue s) \<subseteq> set (sx_queue (io_wake_readable h s))" by (auto simp: eq mark_ready_def Let_def)
    moreover have "?w \<in> set (sx_queue (io_wake_readable h s))"
      using inv(1) w(1) by (auto simp: eq mark_ready_def Let_def shard_exec_inv_def)
    moreover have "t \<in> set (sx_queue s) \<or> (hnd t, t) \<in> set (sx_io s)" using inv(3) t by (simp add: covered_def)
    moreover have "(hnd t, t) = sx_io s ! i \<Longrightarrow> t = ?w" by (metis snd_conv)
    ultimately show "t \<in> set (sx_queue (io_wake_readable h s)) \<or> (hnd t, t) \<in> set (sx_io (io_wake_readable h s))"
      using set by (auto simp: eq)
  qed
  ultimately show ?thesis using len by (simp add: run_ok_def eq)
qed

lemma wake_all_progress:
  assumes "run_ok hnd s"
  shows "run_ok hnd (fold io_wake_readable hs s) \<and> sx_tasks (fold io_wake_readable hs s) = sx_tasks s \<and>
    length (sx_io (fold io_wake_readable hs s)) \<le> length (sx_io s) \<and>
    (set hs \<inter> set (read_handles s) \<noteq> {} \<longrightarrow> length (sx_io (fold io_wake_readable hs s)) < length (sx_io s))"
  using assms
proof (induction hs arbitrary: s)
  case (Cons h hs)
  show ?case
  proof (cases "h \<in> set (read_handles s)")
    case True
    note hit = io_wake_readable_hit [OF Cons.prems True]
    then have "run_ok hnd (io_wake_readable h s)" by blast
    from Cons.IH [OF this] hit show ?thesis by simp
  next
    case False
    then show ?thesis using Cons.IH [OF Cons.prems] io_wake_readable_miss [OF False] by auto
  qed
qed simp

lemma live_pending:
  assumes "shard_exec_inv 0 s"
  shows "sx_live s = 0 \<longleftrightarrow> (\<forall>x\<in>set (sx_tasks s). x = None)"
  using assms by (auto simp: shard_exec_inv_def filter_empty_conv)

lemma wait_progress:
  assumes coop: "cooperative script hnd m" and ok: "run_ok hnd s" and idle: "sx_live s \<noteq> 0" "sx_queue s = []" and w: "productive wait"
  obtains acts readable where "wait (read_handles s) (sx_idle_wait s) = (acts, Some readable)"
    "run_ok hnd (fold io_wake_readable readable (fold shard_do acts s))"
    "sx_tasks (fold io_wake_readable readable (fold shard_do acts s)) = sx_tasks s"
    "waits_left m (fold io_wake_readable readable (fold shard_do acts s)) < waits_left m s"
    "rounds_left m (fold io_wake_readable readable (fold shard_do acts s)) < rounds_left m s"
proof -
  have inv: "shard_exec_inv 0 s" "io_own hnd s" "covered hnd {} s" using ok by (simp_all add: run_ok_def)
  obtain t where "t < length (sx_tasks s)" "sx_tasks s ! t \<noteq> None"
    using live_pending [OF inv(1)] idle(1) by (metis in_set_conv_nth)
  then have "(hnd t, t) \<in> set (sx_io s)" using inv(3) idle(2) by (auto simp: covered_def)
  then have "read_handles s \<noteq> []" by (auto simp: read_handles_def)
  then obtain acts readable where wt: "wait (read_handles s) (sx_idle_wait s) = (acts, Some readable)"
    and mr: "\<forall>a\<in>set acts. \<exists>t. a = MarkReady t" and hit: "set readable \<inter> set (read_handles s) \<noteq> {}"
    using w unfolding productive_def by (metis prod.collapse)
  let ?a = "fold shard_do acts s"
  let ?b = "fold io_wake_readable readable ?a"
  have own: "\<forall>act\<in>set acts. act_own hnd (length (sx_tasks s)) act" using mr by (auto simp: act_own_def)
  have "inj hnd" using coop by (simp add: cooperative_def)
  note mono = fold_shard_do_mono [OF this inv(2,1) own]
  have a: "sx_io ?a = sx_io s" "sx_tasks ?a = sx_tasks s" using mono mr by (auto simp: fold_shard_do(1))
  have "covered hnd {} ?a" using inv(3) mono a by (auto simp: covered_def)
  then have aok: "run_ok hnd ?a" using mono fold_shard_do(4) [OF inv(1), of acts] by (simp add: run_ok_def)
  have "set readable \<inter> set (read_handles ?a) \<noteq> {}" using hit a by (simp add: read_handles_def)
  then have b: "run_ok hnd ?b" "sx_tasks ?b = sx_tasks s" "length (sx_io ?b) < length (sx_io s)"
    using wake_all_progress [OF aok, of readable] a by simp_all
  have wl: "waits_left m ?b < waits_left m s" using b by (simp add: waits_left_def work_left_def)
  have "length (sx_queue ?b) \<le> length (sx_tasks s)" using io_bound [of 0 ?b hnd] b by (simp add: run_ok_def)
  then have "rounds_left m ?b < rounds_left m s" using rounds_less [OF wl] b(2) by (simp add: rounds_left_def)
  then show thesis using that [OF wt b(1,2) wl] by simp
qed

lemma run_completes:
  assumes coop: "cooperative script hnd m"
  shows "run_ok hnd s \<Longrightarrow> \<forall>w\<in>set waits. productive w \<Longrightarrow> rounds_left m s < fuel \<Longrightarrow> waits_left m s \<le> length waits \<Longrightarrow>
    \<exists>s'. shard_run script fuel waits s = Some s' \<and> (\<forall>x\<in>set (sx_tasks s'). x = None) \<and> length (sx_tasks s') = length (sx_tasks s)"
proof (induction fuel arbitrary: waits s)
  case (Suc fuel)
  have inv: "shard_exec_inv 0 s" using Suc.prems(1) by (simp add: run_ok_def)
  let ?b = "snd (poll_budgeted script (sx_budget s) s)"
  note b = batch_progress [OF coop Suc.prems(1), of "sx_budget s"]
  have binv: "shard_exec_inv 0 ?b" using b by (simp add: run_ok_def)
  have bud: "0 < sx_budget s" using inv by (simp add: shard_exec_inv_def)
  consider "sx_live s = 0" | "sx_live s \<noteq> 0" "sx_live ?b = 0" | "sx_live s \<noteq> 0" "sx_live ?b \<noteq> 0" "has_ready ?b"
    | "sx_live s \<noteq> 0" "sx_live ?b \<noteq> 0" "\<not> has_ready ?b" by blast
  then show ?case
  proof cases
    case 1
    then show ?thesis using live_pending [OF inv] by simp
  next
    case 2
    then show ?thesis using live_pending [OF binv] b by (simp add: Let_def)
  next
    case 3
    have "sx_queue s \<noteq> []"
    proof
      assume "sx_queue s = []"
      then have "?b = s" by (cases "sx_budget s") (simp_all add: take_ready_def)
      then show False using 3 \<open>sx_queue s = []\<close> by (simp add: has_ready_def)
    qed
    then have "rounds_left m ?b < fuel" "waits_left m ?b \<le> length waits" using b bud Suc.prems(3,4) by linarith+
    from Suc.IH [OF _ Suc.prems(2) this] b 3 show ?thesis by (simp add: Let_def)
  next
    case 4
    then have q: "sx_queue ?b = []" by (simp add: has_ready_def)
    have bok: "run_ok hnd ?b" using b by blast
    obtain wait ws where ws: "waits = wait # ws"
    proof (cases waits)
      case Nil
      then have "waits_left m ?b = 0" using b Suc.prems(4) by simp
      then have "\<not> sx_live ?b \<noteq> 0"
        using live_pending [OF binv] by (auto simp: waits_left_def work_left_def split: option.splits)
      then show ?thesis using 4 by simp
    qed (use that in blast)
    obtain acts readable where wt: "wait (read_handles ?b) (sx_idle_wait ?b) = (acts, Some readable)"
      and n: "run_ok hnd (fold io_wake_readable readable (fold shard_do acts ?b))"
      "sx_tasks (fold io_wake_readable readable (fold shard_do acts ?b)) = sx_tasks ?b"
      "waits_left m (fold io_wake_readable readable (fold shard_do acts ?b)) < waits_left m ?b"
      "rounds_left m (fold io_wake_readable readable (fold shard_do acts ?b)) < rounds_left m ?b"
      using wait_progress [OF coop bok 4(2) q] Suc.prems(2) ws by (metis list.set_intros(1))
    have "rounds_left m (fold io_wake_readable readable (fold shard_do acts ?b)) < fuel"
      "waits_left m (fold io_wake_readable readable (fold shard_do acts ?b)) \<le> length ws"
      using n(3,4) b Suc.prems(3,4) ws by simp_all
    from Suc.IH [OF n(1) _ this] n(2) b 4 ws wt Suc.prems(2) show ?thesis by (simp add: Let_def)
  qed
qed simp

lemma spawn_fields:
  assumes "shard_exec_inv r s"
  shows "sx_queue (shard_spawn_task f s) = sx_queue s @ [length (sx_tasks s)]"
    "sx_tasks (shard_spawn_task f s) = sx_tasks s @ [Some f]" "sx_io (shard_spawn_task f s) = sx_io s"
  using assms by (simp_all add: shard_exec_inv_def shard_spawn_task_def mark_ready_def Let_def nth_append)

lemma spawned_state:
  "sx_tasks (fold shard_spawn_task fs (with_poll_budget b shard_exec_new)) = map Some fs \<and>
   sx_queue (fold shard_spawn_task fs (with_poll_budget b shard_exec_new)) = [0..<length fs] \<and>
   sx_io (fold shard_spawn_task fs (with_poll_budget b shard_exec_new)) = [] \<and>
   shard_exec_inv 0 (fold shard_spawn_task fs (with_poll_budget b shard_exec_new))"
proof (induction fs rule: rev_induct)
  case Nil
  show ?case by (simp add: with_poll_budget_def shard_exec_new_def shard_exec_inv_def default_poll_budget_def)
next
  case (snoc f fs)
  let ?s = "fold shard_spawn_task fs (with_poll_budget b shard_exec_new)"
  have "shard_exec_inv 0 ?s" using snoc by blast
  from spawn_fields [OF this, of f] inv_spawn [OF this, of f] show ?case using snoc by simp
qed

subsection \<open>Reachable states\<close>

inductive shard_reach :: "'f poll_script \<Rightarrow> 'f shard_exec \<Rightarrow> bool" for script where
  start: "shard_reach script shard_exec_new"
| budget: "shard_reach script s \<Longrightarrow> shard_reach script (with_poll_budget b s)"
| idle: "shard_reach script s \<Longrightarrow> shard_reach script (with_idle_wait d s)"
| spawn: "shard_reach script s \<Longrightarrow> shard_reach script (shard_spawn_task f s)"
| act: "shard_reach script s \<Longrightarrow> shard_reach script (shard_do a s)"
| wake: "shard_reach script s \<Longrightarrow> shard_reach script (io_wake_readable h s)"
| batch: "shard_reach script s \<Longrightarrow> shard_reach script (snd (poll_budgeted script n s))"

lemma shard_reach_inv: "shard_reach script s \<Longrightarrow> shard_exec_inv 0 s"
proof (induction rule: shard_reach.induct)
  case start
  show ?case by (simp add: shard_exec_new_def shard_exec_inv_def default_poll_budget_def)
next
  case (batch s n)
  then show ?case using poll_budgeted_inv by blast
next
  case (budget s b)
  then show ?case by (simp add: with_poll_budget_def shard_exec_inv_def)
next
  case (idle s d)
  then show ?case by (simp add: with_idle_wait_def shard_exec_inv_def)
qed (simp_all add: inv_spawn inv_shard_do inv_io_wake_readable)

subsection \<open>Properties\<close>

text \<open>C13: A cooperative set of futures spawned on the executor is run to the end: with waits of the reactor that
  report some handle of interest, enough of them for the work and enough rounds, the run returns and every task
  has completed.  So no wake is lost, in whatever order the tasks yield, register and are woken, and for every
  poll budget.\<close>

theorem shard_executor_completes:
  assumes "cooperative script hnd m" "\<forall>w\<in>set waits. productive w"
    and "sum_list (map (\<lambda>f. m f + 1) fs) * (length fs + 1) \<le> length waits"
    and "sum_list (map (\<lambda>f. m f + 1) fs) * (length fs + 1) * (length fs + 1) + length fs < fuel"
  shows "\<exists>s. shard_run script fuel waits (fold shard_spawn_task fs (with_poll_budget b shard_exec_new)) = Some s \<and>
    sx_tasks s = replicate (length fs) None"
proof -
  let ?s = "fold shard_spawn_task fs (with_poll_budget b shard_exec_new)"
  note st = spawned_state [of fs b]
  have "run_ok hnd ?s" using st by (simp add: run_ok_def io_own_def covered_def)
  moreover have "work_left m ?s = sum_list (map (\<lambda>f. m f + 1) fs)" using st by (simp add: work_left_def comp_def)
  ultimately obtain s where "shard_run script fuel waits ?s = Some s" "\<forall>x\<in>set (sx_tasks s). x = None"
    "length (sx_tasks s) = length fs"
    using run_completes [OF assms(1) _ assms(2), of ?s fuel] assms(3,4) st by (auto simp: waits_left_def rounds_left_def)
  then show ?thesis by (metis replicate_eqI)
qed

theorem shard_executor_completes_witness:
  "\<exists>s. shard_run (\<lambda>t f. if f = 0 then ([], None) else if t = 0 then ([MarkReady t], Some (f - 1)) else ([RegisterReadable t t], Some (f - 1)))
     40 (replicate 12 (\<lambda>read d. ([MarkReady 0], Some read))) (fold shard_spawn_task [1::nat, 1] (with_poll_budget 1 shard_exec_new)) = Some s \<and>
     sx_tasks s = replicate (length [1::nat, 1]) None"
proof (rule shard_executor_completes [where hnd = id and m = id])
  show "cooperative (\<lambda>t f. if f = 0 then ([], None) else if t = 0 then ([MarkReady t], Some (f - 1)) else ([RegisterReadable t t], Some (f - 1))) id id"
    by (simp add: cooperative_def)
  show "\<forall>w\<in>set (replicate 12 (\<lambda>read d. ([MarkReady 0], Some read))). productive w" by (simp add: productive_def)
qed simp_all

text \<open>C25: In every reachable state of the executor a task is queued at most once and exactly when its flag says so,
  the live count is the number of unfinished futures and every handle has at most one registered waker; and a
  batch polls, within its budget, the queued tasks in the order of the queue and leaves every other task alone.\<close>

theorem shard_batch_fair:
  assumes "shard_reach script s"
  shows "distinct (sx_queue s) \<and> (\<forall>i<length (sx_tasks s). sx_queued s ! i = (i \<in> set (sx_queue s))) \<and>
    sx_live s = length (filter (\<lambda>x. x \<noteq> None) (sx_tasks s)) \<and> distinct (read_handles s) \<and>
    (\<forall>polled s'. poll_budgeted script (sx_budget s) s = (polled, s') \<longrightarrow>
       take (length (sx_queue s)) polled = take (sx_budget s) (sx_queue s) \<and> length polled \<le> sx_budget s \<and>
       (\<forall>i<length (sx_tasks s). i \<notin> set polled \<longrightarrow> sx_tasks s' ! i = sx_tasks s ! i))"
  using shard_reach_inv [OF assms] poll_budgeted_inv [OF shard_reach_inv [OF assms], where script = script and n = "sx_budget s"]
  by (auto simp: shard_exec_inv_def read_handles_def)

theorem shard_batch_fair_witness:
  "take 2 (fst (poll_budgeted (\<lambda>t f. ([MarkReady t, MarkReady 0], Some f)) 2
     (shard_do (MarkReady 0) (shard_spawn_task True (shard_spawn_task False (with_poll_budget 2 shard_exec_new)))))) = [0, 1]"
proof -
  let ?script = "\<lambda>t f. ([MarkReady t, MarkReady 0], Some f)"
  let ?s = "shard_do (MarkReady 0) (shard_spawn_task True (shard_spawn_task False (with_poll_budget 2 shard_exec_new)))"
  have "shard_reach ?script ?s" by (intro shard_reach.intros)
  then have "take (length (sx_queue ?s)) (fst (poll_budgeted ?script (sx_budget ?s) ?s)) = take (sx_budget ?s) (sx_queue ?s)"
    using shard_batch_fair [of ?script ?s] by (metis prod.collapse)
  moreover have "sx_queue ?s = [0, 1]" "sx_budget ?s = 2" by code_simp+
  ultimately show ?thesis by (simp add: numeral_2_eq_2 del: poll_budgeted.simps)
qed

end
