(* ===== verification/Spec2Isabelle.thy ===== *)
theory Spec2Isabelle
  imports Placement Ring_Buffer Shard_Mailbox Work_Units Channel Task_State Timer_Set Io_Interest
    Task_Set Exec_Core Exec_Loop Kv_Refinement Counter Sharded Stream_Reply Sync_Events Backpressure
    Mailbox_Index Uring_Executor Sharded_Join Charlotte_Abi Shard_Executor
begin

text \<open>
  A verification development for \<open>sitas\<close>, a shard-per-thread runtime in Rust.  Paths are relative to
  \<open>src/crates/sitas-core/src\<close>.

  The program.  An application is split into shards.  A shard is a thread that owns its data, so that
  data is never locked; shards talk by messages.  There are two families of runtimes.  The shard sets
  (\<open>runtime.rs\<close>) run one command loop per thread; on them are built the sharded services
  (\<open>sharded.rs\<close>, \<open>kv_service.rs\<close>, \<open>counter.rs\<close>).  The executors (\<open>executor.rs\<close>, \<open>shard_executor.rs\<close>) poll futures;
  \<open>sharded_executor.rs\<close> runs one executor per thread, and \<open>os/uring.rs\<close> with \<open>executor/uring.rs\<close> lets futures
  wait for Linux io_uring operations.  Both use the queues (\<open>ringbuf.rs\<close>, \<open>shard_mailbox.rs\<close>,
  \<open>shard_runtime.rs\<close>, \<open>stream_reply.rs\<close>) and the key placement (\<open>placement.rs\<close>).

  Foundations.
  \<^item> \<open>Sitas_Prelude\<close>: machine types, \<open>Result\<close>, \<open>Poll\<close> and panics as values, the vector operations of the
    standard library, shared lemmas.
  \<^item> \<open>Wake_Contract\<close>, \<open>Keyed_Set\<close>: the locales of futures that park a waker and of vectors keyed by an identifier.
    The first is interpreted for mailboxes, channels, replies, streams, join handles, stop signals,
    notifications and io_uring operations, the second for timers and readiness interests.

  Queues.
  \<^item> \<open>Ring_Buffer\<close> (\<open>ringbuf.rs\<close>): the ring as sequential functions and as interleaved atomic accesses.  It refines
    a bounded queue and no interleaving reads an uninitialized slot or one that is being written.
  \<^item> \<open>Channel\<close> (\<open>shard_runtime.rs\<close>): over the ring's interface \<open>bounded_queue\<close>; a close can lose a message.
  \<^item> \<open>Shard_Mailbox\<close>, \<open>Work_Units\<close> (\<open>shard_mailbox.rs\<close>): order, bounds and wakeups of mailboxes, named mailboxes.
  \<^item> \<open>Reply_Cell\<close> (\<open>runtime.rs\<close>), \<open>Stream_Reply\<close> (\<open>stream_reply.rs\<close>): one-shot and streaming answers.

  Shard sets and services.
  \<^item> \<open>Placement\<close> (\<open>placement.rs\<close>, \<open>shard.rs\<close>, \<open>error.rs\<close>): the hash with its 64-bit wrap-around and the routers.
  \<^item> \<open>Shard_Set\<close> (\<open>runtime.rs\<close>): threads, requests and broadcasts as interleaved steps; each shard is sequential.
  \<^item> \<open>Keyed_Service\<close>, \<open>Kv_Service\<close>, \<open>Kv_Refinement\<close> (\<open>kv_service.rs\<close>): the store is linearizable against one map over
    all keys and its waiting calls and aggregates compute that map's.
  \<^item> \<open>Counter\<close> (\<open>counter.rs\<close>), \<open>Sharded\<close> (\<open>sharded.rs\<close>), \<open>Mailbox_Index\<close> (\<open>mailbox_index.rs\<close>): overflow of a counter,
    generic services, and the index build with its merge and verification.

  Executor.
  \<^item> \<open>Task_State\<close>, \<open>Timer_Set\<close>, \<open>Io_Interest\<close>, \<open>Task_Set\<close>, \<open>Sync_Events\<close>, \<open>Backpressure\<close> (the files of \<open>executor/\<close> of these
    names, with \<open>task.rs\<close>, \<open>join.rs\<close>, \<open>counters.rs\<close> and \<open>sync.rs\<close>): the parts of the scheduler.
  \<^item> \<open>Exec_Core\<close> (\<open>scheduler.rs\<close>, \<open>driver.rs\<close>): the scheduler under all interleavings; a live task is queued exactly
    once and the counters agree with the tasks.
  \<^item> \<open>Exec_Loop\<close> (\<open>executor.rs\<close>): \<open>run\<close> returns, and only when stopped or drained.
  \<^item> \<open>Spawner\<close> (\<open>spawner.rs\<close>, \<open>scheduling_group.rs\<close>): the spawn operations.
  \<^item> \<open>Shard_Executor\<close> (\<open>shard_executor.rs\<close>): the executor over a reactor backend; queued tasks are polled in order
    within the budget, and cooperative futures run to the end, so that no wake is lost.

  Sharded executor.
  \<^item> \<open>Cpu_Placement\<close> (\<open>sharded_executor/affinity.rs\<close>): CPU masks, validation and memory policies.
  \<^item> \<open>Sharded_Executor\<close>, \<open>Sharded_Lifecycle\<close>, \<open>Sharded_System\<close> (\<open>sharded_executor.rs\<close>): spawning on all shards, through
    the locale \<open>shard_spawn\<close> with one interpretation per kind of spawn; starting and cleaning up; the
    accounting of spawners; shutdown that drains and shutdown with a timeout.
  \<^item> \<open>Sharded_Join\<close> (\<open>sharded_executor/join.rs\<close>): joining, map and reduce.

  Kernel interfaces.
  \<^item> \<open>Uring_Ring\<close>, \<open>Uring_Protocol\<close>, \<open>Uring_Fifo\<close>, \<open>Uring_Tracking\<close> (\<open>os/uring.rs\<close>): the rings with 32-bit positions that
    wrap around, as queues; identifiers of tracked operations.
  \<^item> \<open>Uring_Dispatch\<close>, \<open>Uring_Safety\<close>, \<open>Uring_System\<close>, \<open>Uring_Wakeups\<close> (\<open>os/uring.rs\<close>): the dispatcher and its futures;
    no buffer is released while the kernel may use it, and arrived completions wake their tasks.
  \<^item> \<open>Uring_Executor\<close>, \<open>Uring_Blocking\<close> (\<open>executor/uring.rs\<close>, \<open>os/uring.rs\<close>): positional reads and writes, the blocking
    loops, and histories that break the documented guarantees.
  \<^item> \<open>Charlotte_Abi\<close> (\<open>charlotte_abi.rs\<close>): the model kernel of the completion-capability interface; buffers are
    conserved, and a wait does not notice a full queue.

  Method.  State is a record, operations are functions on it, errors and panics are values of sums, and
  threads are step relations whose steps are the sections under a lock or single atomic accesses.
  Atomic accesses are sequentially consistent: weaker orders of the source are not distinguished.
  Arithmetic that the source lets wrap is on words; where a debug build panics on overflow the model
  has the panic.  Fields that the text of a theory calls history have no counterpart in the source.

  Parameters.  What a future does when polled, the threads, the clock, the kernel and the file system
  are arguments.  For io_uring they are lists of answers; the field \<open>kn_ok\<close> records whether they kept
  the documented protocol, and theorems that rely on it have it as a hypothesis.

  Fuel.  Loops that wait for other threads or for the kernel run on fuel or on a list of what they
  observe; running out is \<open>None\<close>, that is, not having returned.  Termination is stated as such: the
  theorems about \<open>executor_run\<close>, about shutdown with and without a timeout and about \<open>shard_run\<close> give
  amounts of fuel for which the result is not \<open>None\<close>, computed from the remaining work or the timeout.

  Not modelled.
  \<^item> The reactor backends \<open>os.rs\<close>, \<open>os/epoll.rs\<close> and \<open>os/kqueue.rs\<close>, the backend traits of \<open>reactor_backend.rs\<close>, the sockets
    (\<open>executor/tcp.rs\<close>, \<open>executor/udp.rs\<close>, \<open>executor/unix_io.rs\<close>, \<open>sharded_tcp.rs\<close>) and the crates \<open>sitas-unix\<close> and
    \<open>sitas-charlotte\<close>: system calls.
  \<^item> \<open>executor/future.rs\<close>, \<open>executor/scope.rs\<close>, \<open>async_service.rs\<close>, \<open>kv.rs\<close>, \<open>basic_kv.rs\<close>: compositions and clients of modelled
    operations.
  \<^item> \<open>shard_local.rs\<close>, \<open>executor/current.rs\<close>, \<open>executor/root.rs\<close> and \<open>run_until\<close>: thread-local values, the root future.
  \<^item> \<open>metrics.rs\<close>, \<open>executor/snapshot.rs\<close>, \<open>executor/types.rs\<close>, \<open>running_stats.rs\<close>: reporting and floating-point
    statistics.
  \<^item> Memory orders weaker than sequential consistency, poisoned locks, and futures that panic inside the
    shard executor.
\<close>

end
